(* ===== verification/HLS_Prelude.thy ===== *)
theory HLS_Prelude
  imports Main "HOL-Library.Word"
begin

unbundle bit_operations_syntax

text \<open>
  Shared vocabulary of the development: the part of the Vivado HLS library the
  sources use.
  \<^item> \<open>ap_uint<N>\<close> is \<^typ>\<open>'n word\<close>; the range selections \<open>x(hi, lo)\<close> (read) and
    \<open>x(hi, lo) = v\<close> (write) and the single-bit write \<open>x[i] = b\<close> are \<open>range_get\<close>,
    \<open>range_set\<close> and \<open>bit_put\<close>.
  \<^item> \<open>hls::stream<T>\<close> is a list, oldest element first: \<open>write\<close> appends, \<open>read\<close>
    takes the head, \<open>empty()\<close> is the test for \<open>[]\<close>. A FIFO depth pragma bounds
    the hardware queue; a full queue stalls the writer and never drops data, so the
    list holds the data in order whatever the depth is.
  \<^item> one call of an HLS top function is one cycle; the \<open>static\<close> variables of the
    function are a record that the cycle function takes and returns.
  The locales at the end lift one-cycle facts to runs.
\<close>

named_theorems ap_simps \<open>reading and writing bit ranges\<close>

section \<open>Bit ranges of \<open>ap_uint\<close>\<close>

text \<open>\<open>x(hi, lo)\<close> read into a variable of any width: zero-extended or truncated.\<close>

definition range_get :: "'a::len word \<Rightarrow> nat \<Rightarrow> nat \<Rightarrow> 'b::len word" where
  "range_get w hi lo = ucast (take_bit (Suc hi - lo) (drop_bit lo w))"

text \<open>\<open>x(hi, lo) = v\<close>: the bits outside the range keep their value.\<close>

definition range_set :: "'a::len word \<Rightarrow> nat \<Rightarrow> nat \<Rightarrow> 'b::len word \<Rightarrow> 'a word" where
  "range_set w hi lo v =
     (w AND NOT (push_bit lo (mask (Suc hi - lo)))) OR push_bit lo (take_bit (Suc hi - lo) (ucast v))"

text \<open>\<open>x[i] = b\<close>.\<close>

definition bit_put :: "'a::len word \<Rightarrow> nat \<Rightarrow> bool \<Rightarrow> 'a word" where
  "bit_put w i b = (if b then set_bit i w else unset_bit i w)"

lemma bit_range_get [bit_simps]:
  "bit (range_get w hi lo :: 'b::len word) n \<longleftrightarrow> n < LENGTH('b) \<and> lo + n \<le> hi \<and> bit w (lo + n)"
  for w :: "'a::len word"
  by (auto simp: range_get_def bit_simps dest: bit_imp_le_length)

lemma bit_range_set [bit_simps]:
  "bit (range_set w hi lo v) n \<longleftrightarrow>
     (if lo \<le> n \<and> n \<le> hi then n < LENGTH('a) \<and> bit v (n - lo) else bit w n)"
  for w :: "'a::len word" and v :: "'b::len word"
  by (auto simp: range_set_def bit_simps dest: bit_imp_le_length)

lemma bit_bit_put [bit_simps]:
  "bit (bit_put w i b) n \<longleftrightarrow> (if n = i then n < LENGTH('a) \<and> b else bit w n)"
  for w :: "'a::len word"
  by (auto simp: bit_put_def bit_simps dest: bit_imp_le_length)

text \<open>A field reads back what was written to it, when it fits in the word and in the value.\<close>

lemma range_get_set [ap_simps]:
  "hi < LENGTH('a) \<Longrightarrow> Suc hi = lo + LENGTH('b) \<Longrightarrow> range_get (range_set w hi lo v) hi lo = v"
  for w :: "'a::len word" and v :: "'b::len word"
  by (rule bit_word_eqI) (auto simp: bit_simps)

lemma range_get_set_other [ap_simps]:
  "hi < lo' \<or> hi' < lo \<Longrightarrow> range_get (range_set w hi' lo' v) hi lo = range_get w hi lo"
  for w :: "'a::len word" and v :: "'b::len word"
  by (rule bit_word_eqI) (auto simp: bit_simps)

lemma range_get_bit_put [ap_simps]:
  "hi < i \<or> i < lo \<Longrightarrow> range_get (bit_put w i b) hi lo = range_get w hi lo"
  for w :: "'a::len word"
  by (rule bit_word_eqI) (auto simp: bit_simps)

lemma range_get_0 [ap_simps, simp]: "range_get 0 hi lo = 0"
  by (rule bit_word_eqI) (auto simp: bit_simps)

lemma bit_range_set_other [ap_simps]:
  "i < lo \<or> hi < i \<Longrightarrow> bit (range_set w hi lo v) i \<longleftrightarrow> bit w i"
  for w :: "'a::len word" and v :: "'b::len word"
  by (auto simp: bit_simps)

lemma unat_range_get_less: "hi + 1 - lo \<le> m \<Longrightarrow> unat (range_get w hi lo :: 'b::len word) < 2 ^ m"
  for w :: "'a::len word"
proof -
  assume m: "hi + 1 - lo \<le> m"
  have "range_get w hi lo = (take_bit m (range_get w hi lo) :: 'b word)"
    using m by (intro bit_word_eqI) (auto simp: bit_simps)
  then have "unat (range_get w hi lo :: 'b word) = take_bit m (unat (range_get w hi lo :: 'b word))"
    by (metis unsigned_take_bit_eq)
  then show ?thesis
    by (metis take_bit_nat_less_exp)
qed

lemma range_get_full [ap_simps]: "Suc hi = LENGTH('a) \<Longrightarrow> range_get w hi 0 = w"
  for w :: "'a::len word"
  by (rule bit_word_eqI) (auto simp: bit_simps)

section \<open>Loops that stop at the first hit\<close>

text \<open>
  \<open>for (i = lo; i < n; i++) if (p(i)) break;\<close> and the value of \<open>i\<close> after it: the
  search idiom of the sources (slots of a bucket, lines of a cache set, chunks of a
  bitmap, entries of a table).
\<close>

function for_break :: "(nat \<Rightarrow> bool) \<Rightarrow> nat \<Rightarrow> nat \<Rightarrow> nat" where
  "for_break p i n = (if i < n \<and> \<not> p i then for_break p (Suc i) n else i)"
  by pat_completeness auto
termination
  by (relation "measure (\<lambda>(p, i, n). n - i)") auto

declare for_break.simps [simp del]

lemma for_break_bounds: "i \<le> n \<Longrightarrow> i \<le> for_break p i n \<and> for_break p i n \<le> n"
proof (induction p i n rule: for_break.induct)
  case (1 p i n)
  then show ?case by (subst (1 2) for_break.simps) auto
qed

lemma for_break_hit: "for_break p i n < n \<Longrightarrow> p (for_break p i n)"
proof (induction p i n rule: for_break.induct)
  case (1 p i n)
  then show ?case
    by (cases "i < n \<and> \<not> p i") (auto simp: for_break.simps [of p i n])
qed

lemma for_break_before: "i \<le> j \<Longrightarrow> j < for_break p i n \<Longrightarrow> \<not> p j"
proof (induction p i n arbitrary: j rule: for_break.induct)
  case (1 p i n)
  show ?case
  proof (cases "i < n \<and> \<not> p i")
    case True
    with 1 show ?thesis
      by (cases "i = j") (auto simp: for_break.simps [of p i n])
  next
    case False
    with 1 show ?thesis by (auto simp: for_break.simps [of p i n])
  qed
qed

text \<open>The three facts characterise the result.\<close>

lemma for_break_eqI:
  assumes "i \<le> r" and "r \<le> n" and "\<And>j. i \<le> j \<Longrightarrow> j < r \<Longrightarrow> \<not> p j" and "r < n \<Longrightarrow> p r"
  shows "for_break p i n = r"
proof (rule antisym)
  have le: "i \<le> for_break p i n" "for_break p i n \<le> n"
    using for_break_bounds [of i n p] assms(1,2) by auto
  show "for_break p i n \<le> r"
    using assms(2,4) for_break_before [OF assms(1)] le by (meson not_le order_less_le_trans)
  show "r \<le> for_break p i n"
  proof (rule ccontr)
    assume "\<not> r \<le> for_break p i n"
    then have "for_break p i n < r" by simp
    then show False
      using assms(2,3) le for_break_hit [of p i n] by force
  qed
qed

lemma for_break_none: "i \<le> n \<Longrightarrow> for_break p i n = n \<longleftrightarrow> (\<forall>j. i \<le> j \<and> j < n \<longrightarrow> \<not> p j)"
  using for_break_before [of i _ p n] for_break_hit [of p i n] for_break_bounds [of i n p]
  by (metis le_neq_implies_less)

lemma for_break_less: "i \<le> n \<Longrightarrow> for_break p i n < n \<longleftrightarrow> (\<exists>j. i \<le> j \<and> j < n \<and> p j)"
  using for_break_none [of i n p] for_break_bounds [of i n p] by (metis le_neq_implies_less less_irrefl)

lemma for_break_cong: "(\<And>j. i \<le> j \<Longrightarrow> j < n \<Longrightarrow> p j = q j) \<Longrightarrow> i \<le> n \<Longrightarrow> for_break p i n = for_break q i n"
  by (rule for_break_eqI)
    (use for_break_bounds [of i n q] for_break_hit [of q i n] for_break_before [of i _ q n] in auto)

section \<open>Streams\<close>

type_synonym 'a stream = "'a list"

definition swrite :: "'a stream \<Rightarrow> 'a \<Rightarrow> 'a stream" where
  "swrite s x = s @ [x]"

lemma swrite_simps [simp]:
  "length (swrite s x) = Suc (length s)" "swrite s x \<noteq> []" "swrite [] x = [x]"
  "set (swrite s x) = insert x (set s)" "swrite (y # s) x = y # swrite s x"
  by (auto simp: swrite_def)

lemma swrite_append: "s @ x # t = swrite s x @ t"
  by (simp add: swrite_def)

text \<open>Moving the head of a queue to another one, unless that one is full.\<close>

definition transfer :: "('a \<Rightarrow> 'b) \<Rightarrow> bool \<Rightarrow> 'a stream \<Rightarrow> 'b stream \<Rightarrow> 'a stream \<times> 'b stream" where
  "transfer f full xs ys = (case xs of [] \<Rightarrow> ([], ys) | x # xs' \<Rightarrow> if full then (xs, ys) else (xs', swrite ys (f x)))"

section \<open>Cycles and runs\<close>

text \<open>
  A component is a cycle function \<open>step\<close> applied once per cycle to an input of its
  environment. What one cycle keeps, a run of any length keeps.
\<close>

locale cycle_machine =
  fixes step :: "'i \<Rightarrow> 's \<Rightarrow> 's" and inv :: "'s \<Rightarrow> bool"
  assumes step_inv: "inv s \<Longrightarrow> inv (step i s)"
begin

lemma run_inv: "inv s \<Longrightarrow> inv (fold step is s)"
  by (induction "is" arbitrary: s) (auto intro: step_inv)

end

text \<open>
  A component with an abstract specification: \<open>abs\<close> reads the specification state
  off the concrete one, and one concrete cycle is one specification step. Runs then
  agree too.
\<close>

locale cycle_refinement = cycle_machine step inv
  for step :: "'i \<Rightarrow> 's \<Rightarrow> 's" and inv :: "'s \<Rightarrow> bool" +
  fixes spec :: "'i \<Rightarrow> 'a \<Rightarrow> 'a" and abs :: "'s \<Rightarrow> 'a"
  assumes abs_step: "inv s \<Longrightarrow> abs (step i s) = spec i (abs s)"
begin

lemma abs_run: "inv s \<Longrightarrow> abs (fold step is s) = fold spec is (abs s)"
proof (induction "is" arbitrary: s)
  case Nil
  then show ?case by simp
next
  case (Cons i "is")
  from Cons.IH [OF step_inv [OF Cons.prems]] show ?case
    by (simp add: abs_step [OF Cons.prems])
qed

end

end
