(* ===== verification/Channels.thy ===== *)
theory Channels
  imports HLS_Prelude
begin

unbundle bit_operations_syntax

text \<open>
  The words that travel between the IPs (\<^verbatim>\<open>include/fpga/\<close>): translation requests and
  replies (\<^verbatim>\<open>axis_mapping.h\<close>), the buddy allocator channel (\<^verbatim>\<open>axis_buddy.h\<close>),
  network units (\<^verbatim>\<open>axis_net.h\<close>), the segment allocator channel
  (\<^verbatim>\<open>channel/alloc_seg.h\<close>), the address-check channel (\<^verbatim>\<open>channel/axi_rab.h\<close>)
  and the datamover command and data words.
\<close>

section \<open>Address translation\<close>

record mapping_request =
  mr_address :: "32 word"
  mr_length :: "32 word"
  mr_opcode :: "8 word"

record mapping_reply =
  mp_status :: "1 word"
  mp_address :: "32 word"
  mp_internal_status :: "8 word"

definition MAPPING_REQUEST_READ :: "8 word" where "MAPPING_REQUEST_READ = 0"
definition MAPPING_REQUEST_WRITE :: "8 word" where "MAPPING_REQUEST_WRITE = 1"
definition MAPPING_SET :: "8 word" where "MAPPING_SET = 2"
definition MAPPING_PERMISSION_R :: "8 word" where "MAPPING_PERMISSION_R = 0x00"
definition MAPPING_PERMISSION_RW :: "8 word" where "MAPPING_PERMISSION_RW = 0x80"

section \<open>Buddy allocator\<close>

text \<open>The channel to the buddy allocator (\<^verbatim>\<open>include/fpga/axis_buddy.h\<close>).\<close>

record buddy_alloc_if =
  ba_opcode :: "1 word"
  ba_addr :: "32 word"
  ba_order :: "22 word"

record buddy_alloc_ret_if =
  br_stat :: "1 word"
  br_addr :: "32 word"

definition BUDDY_ALLOC :: "1 word" where "BUDDY_ALLOC = 0"
definition BUDDY_FREE :: "1 word" where "BUDDY_FREE = 1"
definition BUDDY_SUCCESS :: "1 word" where "BUDDY_SUCCESS = 0"
definition BUDDY_FAILED :: "1 word" where "BUDDY_FAILED = 1"

section \<open>Network units\<close>

record net_axis_512 =
  na_data :: "512 word"
  na_last :: "1 word"
  na_keep :: "64 word"
  na_user :: "64 word"

definition net_axis_512_zero :: net_axis_512 where
  "net_axis_512_zero = \<lparr>na_data = 0, na_last = 0, na_keep = 0, na_user = 0\<rparr>"

text \<open>\<open>set_app_id\<close> and \<open>get_app_id\<close>: the Lego application id sits in byte 42 of the header unit.\<close>

definition set_app_id :: "net_axis_512 \<Rightarrow> int \<Rightarrow> net_axis_512" where
  "set_app_id net_axis app_id = net_axis\<lparr>na_data := range_set (na_data net_axis) 343 336 (word_of_int app_id :: 32 word)\<rparr>"

definition get_app_id :: "net_axis_512 \<Rightarrow> int" where
  "get_app_id net_axis = uint (range_get (na_data net_axis) 343 336 :: 8 word)"

record net_axis_256 =
  n256_data :: "256 word"
  n256_last :: "1 word"
  n256_keep :: "32 word"
  n256_user :: "32 word"

record net_axis_64 =
  n64_data :: "64 word"
  n64_last :: "1 word"
  n64_keep :: "8 word"
  n64_user :: "8 word"

text \<open>The units of one frame: the end mark is on the final unit and on no other.\<close>

definition frame :: "('u \<Rightarrow> bool) \<Rightarrow> 'u list \<Rightarrow> bool" where
  "frame is_last us \<longleftrightarrow> us \<noteq> [] \<and> is_last (last us) \<and> (\<forall>u \<in> set (butlast us). \<not> is_last u)"

lemma frame_Cons: "frame is_last (u # us) \<longleftrightarrow> (if us = [] then is_last u else \<not> is_last u \<and> frame is_last us)"
  by (auto simp: frame_def)

definition one_packet :: "net_axis_512 list \<Rightarrow> bool" where
  "one_packet ds \<longleftrightarrow> ds \<noteq> [] \<and> na_last (last ds) = 1 \<and> (\<forall>d \<in> set (butlast ds). na_last d \<noteq> 1)"

lemma one_packet_frame: "one_packet ds \<longleftrightarrow> frame (\<lambda>d. na_last d = 1) ds"
  by (simp add: one_packet_def frame_def)

lemma one_packet_Cons: "one_packet (d # ds) \<longleftrightarrow> (if ds = [] then na_last d = 1 else na_last d \<noteq> 1 \<and> one_packet ds)"
  by (simp add: one_packet_frame frame_Cons)

section \<open>Segment allocator and address check\<close>

record alloc_seg_in =
  si_opcode :: "8 word"
  si_addr_len :: "32 word"

record alloc_seg_out =
  so_addr_len :: "32 word"
  so_ret :: "8 word"

definition SEG_ALLOC :: "8 word" where "SEG_ALLOC = 1"
definition SEG_FREE :: "8 word" where "SEG_FREE = 2"
definition SEG_SUCCESS :: "8 word" where "SEG_SUCCESS = 0"
definition SEG_FAILED :: "8 word" where "SEG_FAILED = 1"

record rab_request =
  rq_in_addr :: "32 word"
  rq_pid :: "8 word"
  rq_in_len :: "8 word"
  rq_in_size :: "3 word"

record rab_reply =
  rr_out_addr :: "32 word"
  rr_drop :: "1 word"

section \<open>Datamover\<close>

record axis_mem =
  am_data :: "512 word"
  am_keep :: "64 word"
  am_last :: "1 word"

record dm_cmd =
  dm_btt :: "23 word"
  dm_type :: "1 word"
  dm_dsa :: "6 word"
  dm_eof :: "1 word"
  dm_drr :: "1 word"
  dm_start_address :: "32 word"
  dm_rsvd :: "4 word"

definition DM_CMD_TYPE_INCR :: "1 word" where "DM_CMD_TYPE_INCR = 1"

end
