(* ===== verification/Hash_Bucket.thy ===== *)
theory Hash_Bucket
  imports HLS_Prelude
begin

unbundle bit_operations_syntax

text \<open>
  The 512-bit hash bucket of the paging unit
  (\<^verbatim>\<open>mm/paging_hashed/hls_mapping/hash.hpp\<close>) and the searches over it
  (\<open>__compare\<close>, \<open>find_empty_slot\<close> and \<open>find_empty_slot_dram\<close> of
  \<^verbatim>\<open>data_path.cpp\<close>). A bucket packs seven slots: the keys from bit 0, the values
  from bit 224, the permission bits from 448, the occupancy bitmap from 455, the
  chain pointer from 485 and the chain flag at 511.
\<close>

definition NR_SLOTS_PER_BUCKET :: nat where "NR_SLOTS_PER_BUCKET = 7"

type_synonym bucket = "512 word"

subsection \<open>Fields of a bucket\<close>

definition hb_key :: "bucket \<Rightarrow> nat \<Rightarrow> 32 word" where
  "hb_key hb i = range_get hb ((i + 1) * 32 - 1) (i * 32)"

definition hb_val :: "bucket \<Rightarrow> nat \<Rightarrow> 32 word" where
  "hb_val hb i = range_get hb ((i + 1) * 32 - 1 + 224) (i * 32 + 224)"

definition hb_perm :: "bucket \<Rightarrow> nat \<Rightarrow> bool" where
  "hb_perm hb i = bit hb (448 + i)"

definition hb_bitmap :: "bucket \<Rightarrow> 7 word" where
  "hb_bitmap hb = range_get hb (455 + 7 - 1) 455"

definition hb_chain_addr :: "bucket \<Rightarrow> 32 word" where
  "hb_chain_addr hb = range_get hb (26 - 1 + 485) 485"

definition hb_chained :: "bucket \<Rightarrow> bool" where
  "hb_chained hb = bit hb 511"

definition hb_set_key :: "bucket \<Rightarrow> nat \<Rightarrow> 32 word \<Rightarrow> bucket" where
  "hb_set_key hb i k = range_set hb ((i + 1) * 32 - 1) (i * 32) k"

definition hb_set_val :: "bucket \<Rightarrow> nat \<Rightarrow> 32 word \<Rightarrow> bucket" where
  "hb_set_val hb i v = range_set hb ((i + 1) * 32 - 1 + 224) (i * 32 + 224) v"

definition hb_set_perm :: "bucket \<Rightarrow> nat \<Rightarrow> bool \<Rightarrow> bucket" where
  "hb_set_perm hb i p = bit_put hb (448 + i) p"

definition hb_set_used :: "bucket \<Rightarrow> nat \<Rightarrow> bucket" where
  "hb_set_used hb i = bit_put hb (455 + i) True"

definition hb_set_chain :: "bucket \<Rightarrow> 32 word \<Rightarrow> bucket" where
  "hb_set_chain hb a =
     range_set (bit_put hb 511 True) (485 + 26 - 1) 485 (range_get a (26 - 1) 0 :: 26 word)"

subsection \<open>Searches\<close>

definition hb_compare :: "bucket \<Rightarrow> 32 word \<Rightarrow> nat" where
  "hb_compare hb input =
     for_break (\<lambda>i. hb_key hb i = range_get input (32 - 1) 0) 0 NR_SLOTS_PER_BUCKET"

definition find_empty_slot :: "7 word \<Rightarrow> int" where
  "find_empty_slot in_map =
     (let i = for_break (\<lambda>i. \<not> bit in_map i) 0 NR_SLOTS_PER_BUCKET
      in if i < NR_SLOTS_PER_BUCKET then int i else 0)"

definition find_empty_slot_dram :: "7 word \<Rightarrow> int" where
  "find_empty_slot_dram in_map =
     (let i = for_break (\<lambda>i. \<not> bit in_map i) 0 NR_SLOTS_PER_BUCKET
      in if i < NR_SLOTS_PER_BUCKET then int i else - 1)"

subsection \<open>Reading a field after writing a field\<close>

named_theorems hb_simps \<open>reading bucket fields after writes\<close>

lemmas hb_defs = hb_key_def hb_val_def hb_perm_def hb_bitmap_def hb_chain_addr_def hb_chained_def
  hb_set_key_def hb_set_val_def hb_set_perm_def hb_set_used_def hb_set_chain_def

definition hb_used :: "bucket \<Rightarrow> nat \<Rightarrow> bool" where
  "hb_used hb i = bit (hb_bitmap hb) i"

lemma hb_used_alt: "i < 7 \<Longrightarrow> hb_used hb i = bit hb (455 + i)"
  by (auto simp: hb_used_def hb_bitmap_def bit_simps)

lemma hb_key_set_key [hb_simps]:
  "i < 7 \<Longrightarrow> j < 7 \<Longrightarrow> hb_key (hb_set_key hb i k) j = (if j = i then k else hb_key hb j)"
  by (cases i j rule: linorder_cases) (auto simp: hb_defs ap_simps)

lemma hb_val_set_val [hb_simps]:
  "i < 7 \<Longrightarrow> j < 7 \<Longrightarrow> hb_val (hb_set_val hb i v) j = (if j = i then v else hb_val hb j)"
  by (cases i j rule: linorder_cases) (auto simp: hb_defs ap_simps)

lemma hb_perm_set_perm [hb_simps]:
  "i < 7 \<Longrightarrow> j < 7 \<Longrightarrow> hb_perm (hb_set_perm hb i p) j = (if j = i then p else hb_perm hb j)"
  by (auto simp: hb_defs bit_simps)

lemma hb_used_set_used [hb_simps]:
  "i < 7 \<Longrightarrow> j < 7 \<Longrightarrow> hb_used (hb_set_used hb i) j = (j = i \<or> hb_used hb j)"
  by (auto simp: hb_used_alt hb_defs bit_simps)

text \<open>A write to one kind of field leaves the other kinds alone.\<close>

lemma hb_frame [hb_simps]:
  assumes "i < 7" and "j < 7"
  shows "hb_key (hb_set_val hb i v) j = hb_key hb j"
    and "hb_key (hb_set_perm hb i p) j = hb_key hb j"
    and "hb_key (hb_set_used hb i) j = hb_key hb j"
    and "hb_val (hb_set_key hb i k) j = hb_val hb j"
    and "hb_val (hb_set_perm hb i p) j = hb_val hb j"
    and "hb_val (hb_set_used hb i) j = hb_val hb j"
    and "hb_perm (hb_set_key hb i k) j = hb_perm hb j"
    and "hb_perm (hb_set_val hb i v) j = hb_perm hb j"
    and "hb_perm (hb_set_used hb i) j = hb_perm hb j"
    and "hb_used (hb_set_key hb i k) j = hb_used hb j"
    and "hb_used (hb_set_val hb i v) j = hb_used hb j"
    and "hb_used (hb_set_perm hb i p) j = hb_used hb j"
  using assms by (auto simp: hb_used_alt hb_defs ap_simps bit_simps)

lemma hb_chain_frame [hb_simps]:
  assumes "i < 7"
  shows "hb_chained (hb_set_key hb i k) = hb_chained hb"
    and "hb_chained (hb_set_val hb i v) = hb_chained hb"
    and "hb_chained (hb_set_perm hb i p) = hb_chained hb"
    and "hb_chained (hb_set_used hb i) = hb_chained hb"
    and "hb_chain_addr (hb_set_key hb i k) = hb_chain_addr hb"
    and "hb_chain_addr (hb_set_val hb i v) = hb_chain_addr hb"
    and "hb_chain_addr (hb_set_perm hb i p) = hb_chain_addr hb"
    and "hb_chain_addr (hb_set_used hb i) = hb_chain_addr hb"
  using assms by (auto simp: hb_defs ap_simps bit_simps)

lemma hb_set_chain_frame [hb_simps]:
  assumes "j < 7"
  shows "hb_key (hb_set_chain hb a) j = hb_key hb j"
    and "hb_val (hb_set_chain hb a) j = hb_val hb j"
    and "hb_perm (hb_set_chain hb a) j = hb_perm hb j"
    and "hb_used (hb_set_chain hb a) j = hb_used hb j"
  using assms by (auto simp: hb_used_alt hb_defs ap_simps bit_simps)

lemma hb_chained_set_chain [hb_simps]: "hb_chained (hb_set_chain hb a)"
  by (auto simp: hb_defs bit_simps)

lemma hb_chain_addr_set_chain [hb_simps]:
  "hb_chain_addr (hb_set_chain hb a) = take_bit 26 a"
  by (rule bit_word_eqI) (auto simp: hb_defs bit_simps)

lemma hb_zero [hb_simps]:
  "hb_key 0 i = 0" "hb_val 0 i = 0" "\<not> hb_perm 0 i" "\<not> hb_used 0 i" "\<not> hb_chained 0"
  by (simp_all add: hb_defs hb_used_def)

subsection \<open>What the searches return\<close>

lemma compare_eq: "hb_compare hb x = for_break (\<lambda>i. hb_key hb i = x) 0 7"
  by (simp add: hb_compare_def NR_SLOTS_PER_BUCKET_def range_get_full)

lemma compare_le: "hb_compare hb x \<le> 7"
  using for_break_bounds [of 0 7 "\<lambda>i. hb_key hb i = x"] by (simp add: compare_eq)

lemma compare_key: "hb_compare hb x < 7 \<Longrightarrow> hb_key hb (hb_compare hb x) = x"
  unfolding compare_eq by (rule for_break_hit [where p = "\<lambda>i. hb_key hb i = x"])

lemma compare_hit_iff: "hb_compare hb x < 7 \<longleftrightarrow> (\<exists>i < 7. hb_key hb i = x)"
  unfolding compare_eq using for_break_less [of 0 7 "\<lambda>i. hb_key hb i = x"] by auto

lemma compare_cong: "(\<And>i. i < 7 \<Longrightarrow> (hb_key hb i = x) = (hb_key hb' i = x)) \<Longrightarrow> hb_compare hb x = hb_compare hb' x"
  unfolding compare_eq by (rule for_break_cong) auto

lemma find_empty_slot_dram_full: "find_empty_slot_dram m = - 1 \<longleftrightarrow> (\<forall>i < 7. bit m i)"
  using for_break_less [of 0 7 "\<lambda>i. \<not> bit m i"]
  by (auto simp: find_empty_slot_dram_def NR_SLOTS_PER_BUCKET_def Let_def)

lemma find_empty_slot_dram_free:
  assumes "find_empty_slot_dram m \<noteq> - 1"
  shows "\<exists>i < 7. find_empty_slot_dram m = int i \<and> \<not> bit m i \<and> (\<forall>j < i. bit m j)"
proof -
  let ?i = "for_break (\<lambda>i. \<not> bit m i) 0 7"
  from assms have i: "?i < 7" and eq: "find_empty_slot_dram m = int ?i"
    by (auto simp: find_empty_slot_dram_def NR_SLOTS_PER_BUCKET_def Let_def split: if_splits)
  have "\<forall>j < ?i. bit m j"
    using for_break_before [of 0 _ "\<lambda>i. \<not> bit m i" 7] by blast
  with i eq for_break_hit [OF i] show ?thesis by blast
qed

lemma find_empty_slot_range: "\<exists>i < 7. find_empty_slot m = int i"
  by (auto simp: find_empty_slot_def NR_SLOTS_PER_BUCKET_def Let_def intro: exI [of _ 0])

end
