(* ===== verification/Resv_Table.thy ===== *)
theory Resv_Table
  imports HLS_Prelude
begin

unbundle bit_operations_syntax

text \<open>
  The address reservation table of the paging unit
  (\<^verbatim>\<open>mm/paging_hashed/hls_mapping/resv_table.{hpp,cpp}\<close>): a ring buffer of 16
  entries that holds the BRAM bucket indices of the requests in flight, so that a
  request waits while an older one works on the same bucket. The abstract view is the
  list of the reserved indices, oldest first; \<open>resv_pop\<close> and \<open>resv_try\<close> refine
  \<open>tl\<close> and \<open>spec_resv\<close> on it.
\<close>

datatype TABLE_OP = RESV | POP

record table_request =
  tr_opcode :: TABLE_OP
  tr_index :: "6 word"

definition NR_RESV_TBL_ENTRY :: nat where "NR_RESV_TBL_ENTRY = 16"
definition TBL_INDEX_MASK :: nat where "TBL_INDEX_MASK = NR_RESV_TBL_ENTRY - 1"

definition RESV_SUCCESS :: "2 word" where "RESV_SUCCESS = 0"
definition ADDR_EXIST :: "2 word" where "ADDR_EXIST = 1"
definition TABLE_FULL :: "2 word" where "TABLE_FULL = 2"

text \<open>The static variables of \<open>address_reservation_table\<close>; \<open>head\<close> and \<open>rear\<close> start at 0
  and are masked after every increment, so they stay below 16 and cannot overflow.\<close>

record resv_table =
  addr_resv_table :: "7 word list"
  rt_head :: nat
  rt_rear :: nat

definition resv_init :: resv_table where
  "resv_init = \<lparr>addr_resv_table = replicate NR_RESV_TBL_ENTRY 0, rt_head = 0, rt_rear = 0\<rparr>"

text \<open>The pop part: the entry at \<open>head\<close> is cleared whatever it holds.\<close>

definition resv_pop :: "resv_table \<Rightarrow> resv_table" where
  "resv_pop t = t\<lparr>addr_resv_table := (addr_resv_table t)[rt_head t := 0],
                  rt_head := (rt_head t + 1) AND TBL_INDEX_MASK\<rparr>"

text \<open>The search over all entries: valid flag (bit 6) and index (bits 5 to 0).\<close>

definition resv_is_exist :: "resv_table \<Rightarrow> 6 word \<Rightarrow> bool" where
  "resv_is_exist t index =
     (for_break (\<lambda>i. bit (addr_resv_table t ! i) 6 \<and>
                     (range_get (addr_resv_table t ! i) 5 0 :: 6 word) = index)
        0 NR_RESV_TBL_ENTRY < NR_RESV_TBL_ENTRY)"

definition resv_entry :: "6 word \<Rightarrow> 7 word" where
  "resv_entry index = range_set (bit_put 0 6 True) 5 0 index"

text \<open>The reservation part.\<close>

definition resv_try :: "resv_table \<Rightarrow> 6 word \<Rightarrow> resv_table \<times> 2 word" where
  "resv_try t index =
     (if (rt_rear t + 1) AND TBL_INDEX_MASK = rt_head t then (t, TABLE_FULL)
      else if resv_is_exist t index then (t, ADDR_EXIST)
      else (t\<lparr>addr_resv_table := (addr_resv_table t)[rt_rear t := resv_entry index],
              rt_rear := (rt_rear t + 1) AND TBL_INDEX_MASK\<rparr>, RESV_SUCCESS))"

definition address_reservation_table ::
  "resv_table \<Rightarrow> table_request stream \<Rightarrow> 2 word stream \<Rightarrow> table_request stream \<Rightarrow>
     resv_table \<times> table_request stream \<times> 2 word stream \<times> table_request stream" where
  "address_reservation_table t resv_request resv_result pop_request =
     (let (t, pop_request) =
            (case pop_request of [] \<Rightarrow> (t, []) | _ # rest \<Rightarrow> (resv_pop t, rest))
      in case resv_request of
           [] \<Rightarrow> (t, [], resv_result, pop_request)
         | req # rest \<Rightarrow>
             (let (t', res) = resv_try t (tr_index req)
              in (t', rest, swrite resv_result res, pop_request)))"

subsection \<open>The ring as a list\<close>

definition resv_count :: "resv_table \<Rightarrow> nat" where
  "resv_count t = (rt_rear t + 16 - rt_head t) mod 16"

definition resv_abs :: "resv_table \<Rightarrow> 6 word list" where
  "resv_abs t = map (\<lambda>k. range_get (addr_resv_table t ! ((rt_head t + k) mod 16)) 5 0) [0..<resv_count t]"

definition resv_inv :: "resv_table \<Rightarrow> bool" where
  "resv_inv t \<longleftrightarrow>
     length (addr_resv_table t) = 16 \<and> rt_head t < 16 \<and> rt_rear t < 16 \<and>
     (\<forall>i < 16. bit (addr_resv_table t ! i) 6 \<longleftrightarrow> (i + 16 - rt_head t) mod 16 < resv_count t) \<and>
     distinct (resv_abs t)"

definition spec_resv :: "6 word list \<Rightarrow> 6 word \<Rightarrow> 6 word list \<times> 2 word" where
  "spec_resv q index =
     (if length q = 15 then (q, TABLE_FULL)
      else if index \<in> set q then (q, ADDR_EXIST)
      else (q @ [index], RESV_SUCCESS))"

lemmas resv_consts = NR_RESV_TBL_ENTRY_def TBL_INDEX_MASK_def

lemma index_mask: "Suc n AND TBL_INDEX_MASK = Suc n mod 16" for n :: nat
proof -
  have "TBL_INDEX_MASK = mask 4"
    by (simp add: resv_consts mask_eq_exp_minus_1)
  then show ?thesis
    using take_bit_eq_mask [of 4 "Suc n"] by (simp add: take_bit_eq_mod)
qed

lemma mod16: "a < 32 \<Longrightarrow> a mod 16 = (if a < 16 then a else a - 16)" for a :: nat
  by (simp add: mod_if)

lemma resv_entry_index [simp]: "range_get (resv_entry index) 5 0 = index"
  by (simp add: resv_entry_def ap_simps)

lemma resv_entry_valid [simp]: "bit (resv_entry index) 6"
  by (simp add: resv_entry_def bit_simps)

lemma resv_count_less: "resv_count t < 16"
  by (simp add: resv_count_def)

lemma length_resv_abs [simp]: "length (resv_abs t) = resv_count t"
  by (simp add: resv_abs_def)

lemma resv_slot: "h < 16 \<Longrightarrow> k < 16 \<Longrightarrow> ((h + k) mod 16 + 16 - h) mod 16 = k" for h k :: nat
  by (simp add: mod16)

lemma resv_slot_of: "h < 16 \<Longrightarrow> i < 16 \<Longrightarrow> (h + (i + 16 - h) mod 16) mod 16 = i" for h i :: nat
  by (simp add: mod16)

lemma resv_rear_eq: "resv_inv t \<Longrightarrow> rt_rear t = (rt_head t + resv_count t) mod 16"
  by (auto simp: resv_inv_def resv_count_def mod16)

lemma resv_full_iff: "resv_inv t \<Longrightarrow> (Suc (rt_rear t) mod 16 = rt_head t) = (resv_count t = 15)"
  by (auto simp: resv_inv_def resv_count_def mod16)

text \<open>Membership in the list is the search the code makes.\<close>

lemma resv_mem_iff:
  assumes "resv_inv t"
  shows "index \<in> set (resv_abs t) \<longleftrightarrow>
    (\<exists>i < 16. bit (addr_resv_table t ! i) 6 \<and> range_get (addr_resv_table t ! i) 5 0 = index)"
proof -
  note inv = assms [unfolded resv_inv_def]
  have "\<exists>i < 16. bit (addr_resv_table t ! i) 6 \<and> range_get (addr_resv_table t ! i) 5 0 = index"
    if "k < resv_count t" and "index = range_get (addr_resv_table t ! ((rt_head t + k) mod 16)) 5 0" for k
    using inv that resv_slot [of "rt_head t" k] resv_count_less [of t]
    by (intro exI [of _ "(rt_head t + k) mod 16"]) auto
  moreover have "\<exists>k < resv_count t. index = range_get (addr_resv_table t ! ((rt_head t + k) mod 16)) 5 0"
    if "i < 16" and "bit (addr_resv_table t ! i) 6" and "range_get (addr_resv_table t ! i) 5 0 = index" for i
    using inv that resv_slot_of [of "rt_head t" i]
    by (intro exI [of _ "(i + 16 - rt_head t) mod 16"]) auto
  ultimately show ?thesis
    unfolding resv_abs_def set_map set_upt image_iff atLeast0LessThan lessThan_iff Bex_def by blast
qed

lemma resv_is_exist_iff: "resv_inv t \<Longrightarrow> resv_is_exist t index \<longleftrightarrow> index \<in> set (resv_abs t)"
  by (simp add: resv_is_exist_def resv_consts for_break_less resv_mem_iff)

lemma resv_try_abs:
  assumes "resv_inv t"
  shows "resv_abs (fst (resv_try t index)) = fst (spec_resv (resv_abs t) index)"
    and "snd (resv_try t index) = snd (spec_resv (resv_abs t) index)"
proof -
  note inv = assms [unfolded resv_inv_def]
  note full = resv_full_iff [OF assms]
  let ?t = "t\<lparr>addr_resv_table := (addr_resv_table t)[rt_rear t := resv_entry index],
              rt_rear := Suc (rt_rear t) mod 16\<rparr>"
  have "resv_abs ?t = resv_abs t @ [index]" if "resv_count t \<noteq> 15"
  proof -
    have "resv_count ?t = Suc (resv_count t)"
      using inv that by (auto simp: resv_count_def mod16 split: if_splits)
    moreover have "rt_rear t \<noteq> (rt_head t + k) mod 16" if "k < resv_count t" for k
      using inv that by (auto simp: resv_count_def mod16 split: if_splits)
    ultimately show ?thesis
      using inv by (simp add: resv_abs_def resv_rear_eq [OF assms, symmetric])
  qed
  then show "resv_abs (fst (resv_try t index)) = fst (spec_resv (resv_abs t) index)"
    by (simp add: resv_try_def spec_resv_def index_mask full resv_is_exist_iff [OF assms])
  show "snd (resv_try t index) = snd (spec_resv (resv_abs t) index)"
    by (simp add: resv_try_def spec_resv_def index_mask full resv_is_exist_iff [OF assms])
qed

lemma resv_try_inv:
  assumes "resv_inv t"
  shows "resv_inv (fst (resv_try t index))"
proof (cases "resv_count t = 15 \<or> index \<in> set (resv_abs t)")
  case True
  with assms show ?thesis
    by (auto simp: resv_try_def index_mask resv_full_iff resv_is_exist_iff)
next
  case False
  note inv = assms [unfolded resv_inv_def]
  let ?t = "t\<lparr>addr_resv_table := (addr_resv_table t)[rt_rear t := resv_entry index],
              rt_rear := Suc (rt_rear t) mod 16\<rparr>"
  from False have eq: "fst (resv_try t index) = ?t"
    by (simp add: resv_try_def index_mask resv_full_iff [OF assms] resv_is_exist_iff [OF assms])
  have count: "resv_count ?t = Suc (resv_count t)"
    using inv False by (auto simp: resv_count_def mod16 split: if_splits)
  have valid: "bit (addr_resv_table ?t ! i) 6 \<longleftrightarrow> (i + 16 - rt_head t) mod 16 < Suc (resv_count t)"
    if "i < 16" for i
  proof (cases "i = rt_rear t")
    case True
    with inv show ?thesis by (simp add: resv_count_def)
  next
    case False
    then have "(i + 16 - rt_head t) mod 16 \<noteq> resv_count t"
      using inv that by (auto simp: resv_count_def mod16 split: if_splits)
    with False inv that show ?thesis by auto
  qed
  have "distinct (resv_abs ?t)"
    using resv_try_abs(1) [OF assms, of index] inv False
    by (simp add: eq spec_resv_def)
  with inv count valid show ?thesis
    unfolding eq by (simp add: resv_inv_def)
qed

lemma resv_pop_abs:
  assumes "resv_inv t" and "resv_abs t \<noteq> []"
  shows "resv_abs (resv_pop t) = tl (resv_abs t)"
proof -
  note inv = assms(1) [unfolded resv_inv_def]
  from assms(2) have pos: "0 < resv_count t"
    by (metis length_greater_0_conv length_resv_abs)
  have count: "resv_count (resv_pop t) = resv_count t - 1"
    using inv pos by (auto simp: resv_pop_def index_mask resv_count_def mod16 split: if_splits)
  have "tl (resv_abs t) = map (\<lambda>k. range_get (addr_resv_table t ! ((rt_head t + Suc k) mod 16)) 5 0)
          [0..<resv_count t - 1]"
  proof -
    have "[0..<resv_count t] = 0 # map Suc [0..<resv_count t - 1]"
      using pos by (cases "resv_count t") (simp_all add: map_Suc_upt upt_conv_Cons del: upt_Suc)
    then show ?thesis by (simp add: resv_abs_def o_def)
  qed
  moreover have "addr_resv_table (resv_pop t) ! ((rt_head (resv_pop t) + k) mod 16) =
      addr_resv_table t ! ((rt_head t + Suc k) mod 16)" if "k < resv_count t - 1" for k
  proof -
    have "(rt_head t + Suc k) mod 16 \<noteq> rt_head t"
      using inv that resv_count_less [of t] by (auto simp: mod16 split: if_splits)
    then show ?thesis
      by (simp add: resv_pop_def index_mask mod_simps)
  qed
  ultimately show ?thesis
    by (simp add: resv_abs_def [of "resv_pop t"] count)
qed

lemma resv_pop_inv:
  assumes "resv_inv t" and "resv_abs t \<noteq> []"
  shows "resv_inv (resv_pop t)"
proof -
  note inv = assms(1) [unfolded resv_inv_def]
  from assms(2) have pos: "0 < resv_count t"
    by (metis length_greater_0_conv length_resv_abs)
  have count: "resv_count (resv_pop t) = resv_count t - 1"
    using inv pos by (auto simp: resv_pop_def index_mask resv_count_def mod16 split: if_splits)
  have "bit (addr_resv_table (resv_pop t) ! i) 6 \<longleftrightarrow>
      (i + 16 - rt_head (resv_pop t)) mod 16 < resv_count t - 1" if "i < 16" for i
  proof (cases "i = rt_head t")
    case True
    with inv pos resv_count_less [of t] show ?thesis
      by (auto simp: resv_pop_def index_mask mod16)
  next
    case False
    then have "(i + 16 - rt_head (resv_pop t)) mod 16 = (i + 16 - rt_head t) mod 16 - 1"
      and "0 < (i + 16 - rt_head t) mod 16"
      using inv that by (auto simp: resv_pop_def index_mask mod16 split: if_splits)
    moreover from this pos have "(i + 16 - rt_head t) mod 16 - 1 < resv_count t - 1 \<longleftrightarrow>
        (i + 16 - rt_head t) mod 16 < resv_count t"
      by linarith
    ultimately show ?thesis
      using False inv that by (simp add: resv_pop_def)
  qed
  moreover have "distinct (resv_abs (resv_pop t))"
    using inv by (simp add: resv_pop_abs [OF assms] distinct_tl)
  ultimately show ?thesis
    using inv count by (auto simp: resv_inv_def resv_pop_def index_mask)
qed

lemma resv_inv_init: "resv_inv resv_init" and resv_abs_init: "resv_abs resv_init = []"
  by (simp_all add: resv_inv_def resv_init_def resv_abs_def resv_count_def resv_consts)

subsection \<open>The interface its clients rely on\<close>

text \<open>
  What the data path needs of the table: a granted key was not held and is held from
  then on, a refused request changes nothing, and a release gives back the oldest key. The
  code releases without a look at whether anything is held, so the law of a release is for a
  table that holds something; that the data path keeps to it is shown with the data path.
\<close>

locale reservation =
  fixes reserve :: "'t \<Rightarrow> 'k \<Rightarrow> 't \<times> 'r" and release :: "'t \<Rightarrow> 't"
    and held :: "'t \<Rightarrow> 'k list" and granted :: 'r and inv :: "'t \<Rightarrow> bool"
  assumes reserve_inv: "inv t \<Longrightarrow> inv (fst (reserve t k))"
    and release_inv: "inv t \<Longrightarrow> held t \<noteq> [] \<Longrightarrow> inv (release t)"
    and held_release: "inv t \<Longrightarrow> held t \<noteq> [] \<Longrightarrow> held (release t) = tl (held t)"
    and held_granted: "inv t \<Longrightarrow> snd (reserve t k) = granted \<Longrightarrow>
          k \<notin> set (held t) \<and> held (fst (reserve t k)) = held t @ [k]"
    and held_refused: "inv t \<Longrightarrow> snd (reserve t k) \<noteq> granted \<Longrightarrow> held (fst (reserve t k)) = held t"
begin

text \<open>So the keys held stay distinct, and a key that is held is refused.\<close>

lemma reserve_distinct: "inv t \<Longrightarrow> distinct (held t) \<Longrightarrow> distinct (held (fst (reserve t k)))"
  using held_granted [of t k] held_refused [of t k] by (cases "snd (reserve t k) = granted") auto

lemma release_distinct: "inv t \<Longrightarrow> held t \<noteq> [] \<Longrightarrow> distinct (held t) \<Longrightarrow> distinct (held (release t))"
  by (simp add: held_release distinct_tl)

lemma refused_while_held: "inv t \<Longrightarrow> k \<in> set (held t) \<Longrightarrow> snd (reserve t k) \<noteq> granted"
  using held_granted [of t k] by blast

text \<open>A release with a key held, if there is one to make, and then a request: the keys held after a cycle of a
  client that releases no more than it holds.\<close>

lemma release_reserve:
  assumes "inv t" and "held t = ks @ hs" and "length ks = n" and "n \<le> 1"
  shows "let t' = (if n = 0 then t else release t) in inv t' \<and> held t' = hs \<and> inv (fst (reserve t' k)) \<and>
    held (fst (reserve t' k)) = (if snd (reserve t' k) = granted then hs @ [k] else hs)"
proof -
  let ?t = "if n = 0 then t else release t"
  have "inv ?t \<and> held ?t = hs"
    using assms release_inv held_release by (cases ks) auto
  then show ?thesis
    using reserve_inv [of ?t k] held_granted [of ?t k] held_refused [of ?t k] by (auto simp: Let_def)
qed

end

lemma spec_resv_granted:
  "snd (spec_resv q k) = RESV_SUCCESS \<longleftrightarrow> length q \<noteq> 15 \<and> k \<notin> set q"
  "snd (spec_resv q k) = RESV_SUCCESS \<Longrightarrow> fst (spec_resv q k) = q @ [k]"
  "snd (spec_resv q k) \<noteq> RESV_SUCCESS \<Longrightarrow> fst (spec_resv q k) = q"
  by (auto simp: spec_resv_def RESV_SUCCESS_def ADDR_EXIST_def TABLE_FULL_def split: if_splits)

interpretation rtab: reservation resv_try resv_pop resv_abs RESV_SUCCESS resv_inv
proof
  fix t k
  assume t: "resv_inv t"
  show "resv_inv (fst (resv_try t k))" by (rule resv_try_inv [OF t])
  show "resv_abs t \<noteq> [] \<Longrightarrow> resv_inv (resv_pop t)" by (rule resv_pop_inv [OF t])
  show "resv_abs t \<noteq> [] \<Longrightarrow> resv_abs (resv_pop t) = tl (resv_abs t)" by (rule resv_pop_abs [OF t])
  show "snd (resv_try t k) = RESV_SUCCESS \<Longrightarrow>
      k \<notin> set (resv_abs t) \<and> resv_abs (fst (resv_try t k)) = resv_abs t @ [k]"
    using spec_resv_granted(1,2) [of "resv_abs t" k] by (simp add: resv_try_abs [OF t])
  show "snd (resv_try t k) \<noteq> RESV_SUCCESS \<Longrightarrow> resv_abs (fst (resv_try t k)) = resv_abs t"
    using spec_resv_granted(3) [of "resv_abs t" k] by (simp add: resv_try_abs [OF t])
qed

subsection \<open>Properties\<close>

text \<open>One cycle of the specification: the list of held indices, the two request streams and
  the result stream.\<close>

definition spec_table ::
  "6 word list \<Rightarrow> table_request stream \<Rightarrow> 2 word stream \<Rightarrow> table_request stream \<Rightarrow>
     6 word list \<times> table_request stream \<times> 2 word stream \<times> table_request stream" where
  "spec_table q rq rs pq =
     (let q = (if pq = [] then q else tl q)
      in case rq of
           [] \<Rightarrow> (q, [], rs, tl pq)
         | r # rest \<Rightarrow> (fst (spec_resv q (tr_index r)), rest, rs @ [snd (spec_resv q (tr_index r))], tl pq))"

text \<open>C4: One cycle of \<open>address_reservation_table\<close> (pop before reserve) does to the list of
  reserved bucket indices what the queue specification says, and keeps the ring
  well-formed: the refinement of the ring buffer by a bounded duplicate-free FIFO.\<close>

theorem address_reservation_table_refines:
  assumes "resv_inv t" and "pq \<noteq> [] \<Longrightarrow> resv_abs t \<noteq> []"
  shows "let (t', rq', rs', pq') = address_reservation_table t rq rs pq
         in resv_inv t' \<and> (resv_abs t', rq', rs', pq') = spec_table (resv_abs t) rq rs pq"
proof -
  let ?t = "if pq = [] then t else resv_pop t"
  have inv: "resv_inv ?t" and abs: "resv_abs ?t = (if pq = [] then resv_abs t else tl (resv_abs t))"
    using assms by (auto simp: resv_pop_inv resv_pop_abs)
  have "address_reservation_table t rq rs pq =
      (case rq of [] \<Rightarrow> (?t, [], rs, tl pq)
       | r # rest \<Rightarrow> (fst (resv_try ?t (tr_index r)), rest, rs @ [snd (resv_try ?t (tr_index r))], tl pq))"
    by (auto simp: address_reservation_table_def Let_def swrite_def split: list.splits prod.splits)
  with inv abs show ?thesis
    by (auto simp: spec_table_def Let_def resv_try_inv resv_try_abs split: list.splits)
qed

theorem address_reservation_table_refines_witness:
  "let (t', rq', rs', pq') = address_reservation_table resv_init [\<lparr>tr_opcode = RESV, tr_index = 9\<rparr>] [] []
   in resv_inv t' \<and> (resv_abs t', rq', rs', pq') =
        spec_table (resv_abs resv_init) [\<lparr>tr_opcode = RESV, tr_index = 9\<rparr>] [] []"
  using address_reservation_table_refines [OF resv_inv_init, of "[]"] by simp

end
