(* ===== verification/Data_Path.thy ===== *)
theory Data_Path
  imports Channels Hash_Bucket Resv_Table
begin

unbundle bit_operations_syntax

text \<open>
  The translation pipeline of the hashed paging unit
  (\<^verbatim>\<open>mm/paging_hashed/hls_mapping/data_path.cpp\<close>): requests are turned into pipeline
  words (\<open>remux\<close>), hashed, looked up in the BRAM bucket (\<open>read_bram\<close>,
  \<open>compare_bram\<close>), then, unless a GET hit there, along the DRAM bucket chain
  (\<open>fill_S1\<close>); \<open>fill_S2\<close> writes the BRAM and DRAM buckets back and allocates a new
  chained bucket when a SET finds no room; \<open>demux\<close> answers the requester.
  Each function is one cycle; its \<open>static\<close> variables are a record of their own.
\<close>

section \<open>The pipeline word\<close>

definition PI_STATE_HIT_BRAM :: "32 word" where "PI_STATE_HIT_BRAM = 0x0001"
definition PI_STATE_HIT_DRAM :: "32 word" where "PI_STATE_HIT_DRAM = 0x0010"
definition PI_STATE_MISS_BRAM :: "32 word" where "PI_STATE_MISS_BRAM = 0x0100"
definition PI_STATE_MISS_DRAM :: "32 word" where "PI_STATE_MISS_DRAM = 0x1000"
definition PI_STATE_NO_PERM :: "32 word" where "PI_STATE_NO_PERM = 0x8000"

definition PI_OPCODE_GET :: "8 word" where "PI_OPCODE_GET = 1"
definition PI_OPCODE_SET :: "8 word" where "PI_OPCODE_SET = 2"
definition PI_OPCODE_UNKNOWN :: "8 word" where "PI_OPCODE_UNKNOWN = 3"

definition PI_CHANNEL_READ :: "1 word" where "PI_CHANNEL_READ = 0"
definition PI_CHANNEL_WRITE :: "1 word" where "PI_CHANNEL_WRITE = 1"

definition PI_OUTPUT_SUCCEED :: "1 word" where "PI_OUTPUT_SUCCEED = 0"
definition PI_OUTPUT_FAILURE :: "1 word" where "PI_OUTPUT_FAILURE = 1"

record pipeline_info =
  pi_input :: "32 word"
  pi_length :: "32 word"
  pi_opcode :: "8 word"
  pi_channel :: "1 word"
  pi_hash :: "32 word"
  pi_hb_dram_addr :: "26 word"
  pi_hb_bram :: bucket
  pi_hb_dram :: bucket
  pi_slot :: int
  pi_slot_dram :: int
  pi_state :: "32 word"
  pi_output :: "32 word"
  pi_output_status :: "1 word"

definition pi_zero :: pipeline_info where
  "pi_zero = \<lparr>pi_input = 0, pi_length = 0, pi_opcode = 0, pi_channel = 0, pi_hash = 0,
     pi_hb_dram_addr = 0, pi_hb_bram = 0, pi_hb_dram = 0, pi_slot = 0, pi_slot_dram = 0,
     pi_state = 0, pi_output = 0, pi_output_status = 0\<rparr>"

text \<open>\<open>pi.opcode(PI_OPCODE_WIDTH - 1, 0)\<close>: the operation; bit 7 is the permission.\<close>

definition pi_op :: "pipeline_info \<Rightarrow> 8 word" where
  "pi_op pi = range_get (pi_opcode pi) (2 - 1) 0"

definition pi_rw :: "pipeline_info \<Rightarrow> bool" where
  "pi_rw pi = bit (pi_opcode pi) 7"

record mem_cmd =
  mc_address :: "32 word"
  mc_length :: "8 word"

definition mem_cmd_zero :: mem_cmd where
  "mem_cmd_zero = \<lparr>mc_address = 0, mc_length = 0\<rparr>"

section \<open>Front end\<close>

definition remux_opcode :: "8 word \<Rightarrow> 8 word" where
  "remux_opcode opcode =
     (if opcode = MAPPING_REQUEST_READ then PI_OPCODE_GET OR MAPPING_PERMISSION_R
      else if opcode = MAPPING_REQUEST_WRITE then PI_OPCODE_GET OR MAPPING_PERMISSION_RW
      else if opcode = MAPPING_SET OR MAPPING_PERMISSION_R then PI_OPCODE_SET OR MAPPING_PERMISSION_R
      else if opcode = MAPPING_SET OR MAPPING_PERMISSION_RW then PI_OPCODE_SET OR MAPPING_PERMISSION_RW
      else PI_OPCODE_UNKNOWN)"

definition remux_info :: "mapping_request \<Rightarrow> 1 word \<Rightarrow> pipeline_info" where
  "remux_info req channel =
     pi_zero\<lparr>pi_opcode := remux_opcode (mr_opcode req), pi_input := mr_address req,
             pi_length := mr_length req, pi_channel := channel\<rparr>"

definition remux ::
  "mapping_request stream \<Rightarrow> mapping_request stream \<Rightarrow> pipeline_info stream \<Rightarrow>
     mapping_request stream \<times> mapping_request stream \<times> pipeline_info stream" where
  "remux rd wr out =
     (case rd of
        req # rd' \<Rightarrow> (rd', wr, swrite out (remux_info req PI_CHANNEL_READ))
      | [] \<Rightarrow>
          (case wr of
             req # wr' \<Rightarrow> ([], wr', swrite out (remux_info req PI_CHANNEL_WRITE))
           | [] \<Rightarrow> ([], [], out)))"

text \<open>\<open>compute_hash\<close> (\<^verbatim>\<open>hash.cpp\<close>): the hash is the key itself.\<close>

definition compute_hash ::
  "pipeline_info stream \<Rightarrow> pipeline_info stream \<Rightarrow> pipeline_info stream \<times> pipeline_info stream" where
  "compute_hash pin pout =
     (case pin of [] \<Rightarrow> ([], pout) | pi # rest \<Rightarrow> (rest, swrite pout (pi\<lparr>pi_hash := pi_input pi\<rparr>)))"

section \<open>BRAM lookup\<close>

datatype READ_BRAM_STATE = READ_BRAM_IDLE | READ_BRAM_ADDR_CHECK | READ_BRAM_ADDR_RESP

record read_bram_st =
  rb_state :: READ_BRAM_STATE
  rb_pi :: pipeline_info
  rb_index :: "6 word"

definition read_bram ::
  "read_bram_st \<Rightarrow> pipeline_info stream \<Rightarrow> pipeline_info stream \<Rightarrow> mem_cmd stream \<Rightarrow>
   table_request stream \<Rightarrow> 2 word stream \<Rightarrow>
     read_bram_st \<times> pipeline_info stream \<times> pipeline_info stream \<times> mem_cmd stream \<times>
     table_request stream \<times> 2 word stream" where
  "read_bram s pin pout rd_cmd resv_req resv_res =
     (case rb_state s of
        READ_BRAM_IDLE \<Rightarrow>
          (case pin of
             [] \<Rightarrow> (s, [], pout, rd_cmd, resv_req, resv_res)
           | pi # rest \<Rightarrow>
               (s\<lparr>rb_pi := pi, rb_index := range_get (pi_hash pi) (6 - 1) 0,
                  rb_state := READ_BRAM_ADDR_CHECK\<rparr>,
                rest, swrite pout pi, rd_cmd, resv_req, resv_res))
      | READ_BRAM_ADDR_CHECK \<Rightarrow>
          (s\<lparr>rb_state := READ_BRAM_ADDR_RESP\<rparr>, pin, pout, rd_cmd,
           swrite resv_req \<lparr>tr_opcode = RESV, tr_index = rb_index s\<rparr>, resv_res)
      | READ_BRAM_ADDR_RESP \<Rightarrow>
          (case resv_res of
             [] \<Rightarrow> (s, pin, pout, rd_cmd, resv_req, [])
           | res # rest \<Rightarrow>
               if res \<noteq> RESV_SUCCESS
               then (s\<lparr>rb_state := READ_BRAM_ADDR_CHECK\<rparr>, pin, pout, rd_cmd, resv_req, rest)
               else (s\<lparr>rb_state := READ_BRAM_IDLE\<rparr>, pin, pout,
                     swrite rd_cmd \<lparr>mc_address = ucast (rb_index s), mc_length = 1\<rparr>, resv_req, rest)))"

text \<open>The comparison of the bucket read from BRAM with the key, and the permission check
  of a GET: a write request (bit 7) needs the RW bit of the slot.\<close>

definition compare_bram_pi :: "pipeline_info \<Rightarrow> bucket \<Rightarrow> pipeline_info" where
  "compare_bram_pi pi hb =
     (let pi = pi\<lparr>pi_hb_bram := hb\<rparr>;
          i = hb_compare hb (pi_input pi)
      in if i < NR_SLOTS_PER_BUCKET then
           (if pi_op pi = PI_OPCODE_GET \<and> pi_rw pi \<and> \<not> hb_perm hb i
            then pi\<lparr>pi_state := PI_STATE_HIT_BRAM OR PI_STATE_NO_PERM, pi_slot := 0,
                    pi_output_status := PI_OUTPUT_FAILURE, pi_output := 0\<rparr>
            else pi\<lparr>pi_state := PI_STATE_HIT_BRAM, pi_slot := int i,
                    pi_output_status := PI_OUTPUT_SUCCEED, pi_output := hb_val hb i\<rparr>)
         else pi\<lparr>pi_state := PI_STATE_MISS_BRAM, pi_slot := 0,
                 pi_output_status := PI_OUTPUT_FAILURE, pi_output := 0\<rparr>)"

definition compare_bram ::
  "pipeline_info stream \<Rightarrow> pipeline_info stream \<Rightarrow> bucket stream \<Rightarrow>
     pipeline_info stream \<times> pipeline_info stream \<times> bucket stream" where
  "compare_bram pin pout rd_data =
     (case (pin, rd_data) of
        (pi # pin', hb # rd_data') \<Rightarrow> (pin', swrite pout (compare_bram_pi pi hb), rd_data')
      | _ \<Rightarrow> (pin, pout, rd_data))"

section \<open>DRAM lookup along the bucket chain\<close>

datatype FILL_STATES = FILL_IDLE | FILL_READ_DATA | FILL_SEND_CMD

record fill_S1_st =
  f1_pi :: pipeline_info
  f1_state :: FILL_STATES
  f1_cmd :: mem_cmd
  f1_slot_dram_found :: bool

text \<open>A bucket of the chain that holds the key.\<close>

definition fill_S1_hit :: "pipeline_info \<Rightarrow> 32 word \<Rightarrow> bucket \<Rightarrow> nat \<Rightarrow> pipeline_info" where
  "fill_S1_hit pi addr hb i =
     (let pi = pi\<lparr>pi_state := pi_state pi OR PI_STATE_HIT_DRAM\<rparr>
      in if pi_op pi = PI_OPCODE_GET \<and> pi_rw pi \<and> \<not> hb_perm hb i
         then pi\<lparr>pi_state := pi_state pi OR PI_STATE_NO_PERM, pi_slot_dram := 0,
                 pi_output_status := PI_OUTPUT_FAILURE, pi_output := 0\<rparr>
         else pi\<lparr>pi_slot_dram := int i, pi_hb_dram := hb,
                 pi_hb_dram_addr := range_get addr (26 - 1) 0,
                 pi_output_status := PI_OUTPUT_SUCCEED, pi_output := hb_val hb i\<rparr>)"

text \<open>A bucket that does not: a SET remembers the first bucket of the chain with an empty slot.\<close>

definition fill_S1_miss :: "pipeline_info \<Rightarrow> 32 word \<Rightarrow> bool \<Rightarrow> bucket \<Rightarrow> pipeline_info \<times> bool" where
  "fill_S1_miss pi addr found hb =
     (if pi_op pi = PI_OPCODE_SET \<and> \<not> found then
        (let slot_d = find_empty_slot_dram (hb_bitmap hb)
         in if slot_d \<noteq> - 1
            then (pi\<lparr>pi_hb_dram := hb, pi_hb_dram_addr := range_get addr (26 - 1) 0,
                     pi_slot_dram := slot_d\<rparr>, True)
            else (pi\<lparr>pi_slot_dram := slot_d\<rparr>, False))
      else (pi, found))"

text \<open>The end of the chain without a hit.\<close>

definition fill_S1_end :: "pipeline_info \<Rightarrow> 32 word \<Rightarrow> bool \<Rightarrow> bucket \<Rightarrow> pipeline_info" where
  "fill_S1_end pi addr found hb =
     (let pi = pi\<lparr>pi_state := pi_state pi OR PI_STATE_MISS_DRAM, pi_output_status := PI_OUTPUT_FAILURE\<rparr>;
          pi = (if \<not> found
                then pi\<lparr>pi_hb_dram := hb, pi_hb_dram_addr := range_get addr (26 - 1) 0\<rparr> else pi)
      in pi\<lparr>pi_output := 0\<rparr>)"

definition fill_S1 ::
  "fill_S1_st \<Rightarrow> pipeline_info stream \<Rightarrow> pipeline_info stream \<Rightarrow> mem_cmd stream \<Rightarrow> bucket stream \<Rightarrow>
     fill_S1_st \<times> pipeline_info stream \<times> pipeline_info stream \<times> mem_cmd stream \<times> bucket stream" where
  "fill_S1 s pin pout rd_cmd rd_data =
     (case f1_state s of
        FILL_IDLE \<Rightarrow>
          (case pin of
             [] \<Rightarrow> (s, [], pout, rd_cmd, rd_data)
           | pi # rest \<Rightarrow>
               if pi_op pi = PI_OPCODE_GET \<and> pi_state pi = PI_STATE_HIT_BRAM
               then (s\<lparr>f1_pi := pi\<rparr>, rest, swrite pout pi, rd_cmd, rd_data)
               else (s\<lparr>f1_pi := pi,
                       f1_cmd := \<lparr>mc_address = range_get (pi_hash pi) (10 - 1) 0, mc_length = 1\<rparr>,
                       f1_slot_dram_found := False, f1_state := FILL_SEND_CMD\<rparr>,
                     rest, pout, rd_cmd, rd_data))
      | FILL_SEND_CMD \<Rightarrow>
          (s\<lparr>f1_state := FILL_READ_DATA\<rparr>, pin, pout, swrite rd_cmd (f1_cmd s), rd_data)
      | FILL_READ_DATA \<Rightarrow>
          (case rd_data of
             [] \<Rightarrow> (s, pin, pout, rd_cmd, [])
           | hb # rest \<Rightarrow>
               (let i = hb_compare hb (pi_input (f1_pi s));
                    addr = mc_address (f1_cmd s)
                in if i < NR_SLOTS_PER_BUCKET then
                     (let pi = fill_S1_hit (f1_pi s) addr hb i
                      in (s\<lparr>f1_state := FILL_IDLE, f1_pi := pi\<rparr>, pin, swrite pout pi, rd_cmd, rest))
                   else
                     (let (pi, found) = fill_S1_miss (f1_pi s) addr (f1_slot_dram_found s) hb
                      in if \<not> hb_chained hb then
                           (let pi = fill_S1_end pi addr found hb
                            in (s\<lparr>f1_state := FILL_IDLE, f1_pi := pi, f1_slot_dram_found := found\<rparr>,
                                pin, swrite pout pi, rd_cmd, rest))
                         else
                           (s\<lparr>f1_state := FILL_SEND_CMD, f1_pi := pi, f1_slot_dram_found := found,
                              f1_cmd := \<lparr>mc_address = hb_chain_addr hb, mc_length = 1\<rparr>\<rparr>,
                            pin, pout, rd_cmd, rest)))))"

section \<open>Write back\<close>

datatype ALLOC_STATES = ALLOC_IDLE | ALLOC_RECV_RET | ALLOC_WRITE_DATA

record fill_S2_st =
  f2_pi :: pipeline_info
  f2_state :: ALLOC_STATES
  f2_cmd_d :: mem_cmd
  f2_new_hb_dram :: bucket

text \<open>SET: the BRAM bucket with the pair in the matched slot, or in an empty one, or (a full
  bucket) in slot 0.\<close>

definition set_bram :: "pipeline_info \<Rightarrow> pipeline_info" where
  "set_bram pi =
     (let (slot_b, hb) =
            (if pi_state pi AND PI_STATE_HIT_BRAM = PI_STATE_HIT_BRAM then (nat (pi_slot pi), pi_hb_bram pi)
             else (let slot_b = nat (find_empty_slot (hb_bitmap (pi_hb_bram pi)))
                   in (slot_b, hb_set_used (pi_hb_bram pi) slot_b)));
          hb = hb_set_key hb slot_b (pi_input pi);
          hb = hb_set_val hb slot_b (pi_length pi);
          hb = hb_set_perm hb slot_b (pi_rw pi)
      in pi\<lparr>pi_hb_bram := hb\<rparr>)"

text \<open>SET without room in the chain: the content of the bucket to allocate.\<close>

definition set_new_bucket :: "pipeline_info \<Rightarrow> bucket" where
  "set_new_bucket pi =
     hb_set_perm (hb_set_val (hb_set_key (hb_set_used 0 0) 0 (pi_input pi)) 0 (pi_length pi)) 0 (pi_rw pi)"

text \<open>SET with a slot in the chain: the DRAM bucket with the pair in that slot.\<close>

definition set_dram :: "pipeline_info \<Rightarrow> pipeline_info" where
  "set_dram pi =
     (let slot_d = nat (pi_slot_dram pi);
          hb = hb_set_used (pi_hb_dram pi) slot_d;
          hb = hb_set_key hb slot_d (pi_input pi);
          hb = hb_set_val hb slot_d (pi_length pi);
          hb = hb_set_perm hb slot_d (pi_rw pi)
      in pi\<lparr>pi_hb_dram := hb\<rparr>)"

text \<open>GET that missed BRAM and hit DRAM: key and value of the DRAM slot are copied to BRAM.\<close>

definition get_fill_bram :: "pipeline_info \<Rightarrow> pipeline_info" where
  "get_fill_bram pi =
     (let slot_b = nat (find_empty_slot (hb_bitmap (pi_hb_bram pi)));
          hb = hb_set_used (pi_hb_bram pi) slot_b;
          hb = hb_set_key hb slot_b (hb_key (pi_hb_dram pi) (nat (pi_slot_dram pi)));
          hb = hb_set_val hb slot_b (hb_val (pi_hb_dram pi) (nat (pi_slot_dram pi)))
      in pi\<lparr>pi_hb_bram := hb\<rparr>)"

definition bram_wr_cmd :: "pipeline_info \<Rightarrow> mem_cmd" where
  "bram_wr_cmd pi = \<lparr>mc_address = range_get (pi_hash pi) (6 - 1) 0, mc_length = 1\<rparr>"

text \<open>
  The allocated address as a bucket index. The subtraction of two \<open>ap_uint<32>\<close> is a signed
  33-bit value, \<open>>>\<close> on it is arithmetic, and the assignment keeps the low 32 bits.
\<close>

definition alloc_addr_trans :: "32 word \<Rightarrow> 32 word \<Rightarrow> 32 word" where
  "alloc_addr_trans addr base = word_of_int ((uint addr - uint base) div 2 ^ (32 - 26))"

record fill_S2_io =
  f2_pi_in :: "pipeline_info stream"
  f2_pi_out :: "pipeline_info stream"
  f2_DRAM_wr_cmd :: "mem_cmd stream"
  f2_DRAM_wr_data :: "bucket stream"
  f2_BRAM_wr_cmd :: "mem_cmd stream"
  f2_BRAM_wr_data :: "bucket stream"
  f2_alloc :: "buddy_alloc_if stream"
  f2_alloc_ret :: "buddy_alloc_ret_if stream"

definition fill_S2_idle :: "pipeline_info \<Rightarrow> fill_S2_st \<Rightarrow> fill_S2_io \<Rightarrow> fill_S2_st \<times> fill_S2_io" where
  "fill_S2_idle pi s io =
     (if pi_op pi = PI_OPCODE_SET then
        (let pi = set_bram pi;
             io = io\<lparr>f2_BRAM_wr_cmd := swrite (f2_BRAM_wr_cmd io) (bram_wr_cmd pi),
                     f2_BRAM_wr_data := swrite (f2_BRAM_wr_data io) (pi_hb_bram pi)\<rparr>
         in if pi_slot_dram pi = - 1
            then (s\<lparr>f2_pi := pi, f2_new_hb_dram := set_new_bucket pi, f2_state := ALLOC_RECV_RET\<rparr>,
                  io\<lparr>f2_alloc := swrite (f2_alloc io) \<lparr>ba_opcode = BUDDY_ALLOC, ba_addr = 0, ba_order = 0\<rparr>\<rparr>)
            else (s\<lparr>f2_pi := set_dram pi, f2_state := ALLOC_WRITE_DATA\<rparr>, io))
      else if pi_op pi = PI_OPCODE_GET then
        (if pi_state pi AND PI_STATE_MISS_BRAM = PI_STATE_MISS_BRAM \<and>
            pi_state pi AND PI_STATE_HIT_DRAM = PI_STATE_HIT_DRAM
         then (let pi = get_fill_bram pi
               in (s\<lparr>f2_pi := pi\<rparr>,
                   io\<lparr>f2_BRAM_wr_cmd := swrite (f2_BRAM_wr_cmd io) (bram_wr_cmd pi),
                      f2_BRAM_wr_data := swrite (f2_BRAM_wr_data io) (pi_hb_bram pi),
                      f2_pi_out := swrite (f2_pi_out io) pi\<rparr>))
         else (s\<lparr>f2_pi := pi\<rparr>, io\<lparr>f2_pi_out := swrite (f2_pi_out io) pi\<rparr>))
      else (s\<lparr>f2_pi := pi\<rparr>, io\<lparr>f2_pi_out := swrite (f2_pi_out io) pi\<rparr>))"

definition fill_S2_recv :: "32 word \<Rightarrow> buddy_alloc_ret_if \<Rightarrow> fill_S2_st \<Rightarrow> fill_S2_io \<Rightarrow> fill_S2_st \<times> fill_S2_io" where
  "fill_S2_recv base resp s io =
     (if br_stat resp = BUDDY_SUCCESS then
        (let addr = alloc_addr_trans (br_addr resp) base;
             pi = (f2_pi s)\<lparr>pi_hb_dram := hb_set_chain (pi_hb_dram (f2_pi s)) addr\<rparr>;
             cmd_d = \<lparr>mc_address = addr, mc_length = 1\<rparr>
         in (s\<lparr>f2_pi := pi, f2_cmd_d := cmd_d, f2_state := ALLOC_WRITE_DATA\<rparr>,
             io\<lparr>f2_DRAM_wr_cmd := swrite (f2_DRAM_wr_cmd io) cmd_d,
                f2_DRAM_wr_data := swrite (f2_DRAM_wr_data io) (f2_new_hb_dram s)\<rparr>))
      else
        (let pi = (f2_pi s)\<lparr>pi_output_status := PI_OUTPUT_FAILURE\<rparr>
         in (s\<lparr>f2_pi := pi, f2_state := ALLOC_IDLE\<rparr>, io\<lparr>f2_pi_out := swrite (f2_pi_out io) pi\<rparr>)))"

definition fill_S2 :: "32 word \<Rightarrow> fill_S2_st \<Rightarrow> fill_S2_io \<Rightarrow> fill_S2_st \<times> fill_S2_io" where
  "fill_S2 base s io =
     (case f2_state s of
        ALLOC_IDLE \<Rightarrow>
          (case f2_pi_in io of
             [] \<Rightarrow> (s, io)
           | pi # rest \<Rightarrow> fill_S2_idle pi s (io\<lparr>f2_pi_in := rest\<rparr>))
      | ALLOC_RECV_RET \<Rightarrow>
          (case f2_alloc_ret io of
             [] \<Rightarrow> (s, io)
           | resp # rest \<Rightarrow> fill_S2_recv base resp s (io\<lparr>f2_alloc_ret := rest\<rparr>))
      | ALLOC_WRITE_DATA \<Rightarrow>
          (let cmd_d = \<lparr>mc_address = ucast (pi_hb_dram_addr (f2_pi s)), mc_length = 1\<rparr>;
               pi = (f2_pi s)\<lparr>pi_output_status := PI_OUTPUT_SUCCEED\<rparr>
           in (s\<lparr>f2_cmd_d := cmd_d, f2_pi := pi, f2_state := ALLOC_IDLE\<rparr>,
               io\<lparr>f2_DRAM_wr_cmd := swrite (f2_DRAM_wr_cmd io) cmd_d,
                  f2_DRAM_wr_data := swrite (f2_DRAM_wr_data io) (pi_hb_dram (f2_pi s)),
                  f2_pi_out := swrite (f2_pi_out io) pi\<rparr>)))"

section \<open>Replies\<close>

definition reply_of :: "pipeline_info \<Rightarrow> mapping_reply" where
  "reply_of pi = \<lparr>mp_status = pi_output_status pi, mp_address = pi_output pi,
                   mp_internal_status = ucast (pi_state pi)\<rparr>"

definition demux ::
  "pipeline_info stream \<Rightarrow> mapping_reply stream \<Rightarrow> mapping_reply stream \<Rightarrow> table_request stream \<Rightarrow>
     pipeline_info stream \<times> mapping_reply stream \<times> mapping_reply stream \<times> table_request stream" where
  "demux pin rd_reply wr_reply pop_req =
     (case pin of
        [] \<Rightarrow> ([], rd_reply, wr_reply, pop_req)
      | pi # rest \<Rightarrow>
          (let pop_req = swrite pop_req \<lparr>tr_opcode = POP, tr_index = 0\<rparr>
           in if pi_channel pi = PI_CHANNEL_READ then (rest, swrite rd_reply (reply_of pi), wr_reply, pop_req)
              else if pi_channel pi = ucast MAPPING_REQUEST_WRITE
              then (rest, rd_reply, swrite wr_reply (reply_of pi), pop_req)
              else (rest, rd_reply, wr_reply, pop_req)))"

section \<open>The data path\<close>

text \<open>The streams and static variables of \<open>data_path\<close> and of the stages it calls; the first
  fourteen fields are its ports.\<close>

record data_path_st =
  rd_request :: "mapping_request stream"
  wr_request :: "mapping_request stream"
  rd_reply :: "mapping_reply stream"
  wr_reply :: "mapping_reply stream"
  DRAM_rd_cmd :: "mem_cmd stream"
  DRAM_wr_cmd :: "mem_cmd stream"
  DRAM_rd_data :: "bucket stream"
  DRAM_wr_data :: "bucket stream"
  BRAM_rd_cmd :: "mem_cmd stream"
  BRAM_wr_cmd :: "mem_cmd stream"
  BRAM_rd_data :: "bucket stream"
  BRAM_wr_data :: "bucket stream"
  dp_alloc :: "buddy_alloc_if stream"
  dp_alloc_ret :: "buddy_alloc_ret_if stream"
  PI_pipeline_info :: "pipeline_info stream"
  PI_hash_to_compare :: "pipeline_info stream"
  PI_1 :: "pipeline_info stream"
  PI_compare_to_fillS1 :: "pipeline_info stream"
  PI_fillS1_to_fillS2 :: "pipeline_info stream"
  PI_fillS2_to_out :: "pipeline_info stream"
  fifo_addr_resv_req :: "table_request stream"
  fifo_addr_resv_res :: "2 word stream"
  fifo_addr_pop_req :: "table_request stream"
  st_read_bram :: read_bram_st
  st_fill_S1 :: fill_S1_st
  st_fill_S2 :: fill_S2_st
  st_resv_table :: resv_table

definition data_path_init :: data_path_st where
  "data_path_init = \<lparr>rd_request = [], wr_request = [], rd_reply = [], wr_reply = [],
     DRAM_rd_cmd = [], DRAM_wr_cmd = [], DRAM_rd_data = [], DRAM_wr_data = [],
     BRAM_rd_cmd = [], BRAM_wr_cmd = [], BRAM_rd_data = [], BRAM_wr_data = [],
     dp_alloc = [], dp_alloc_ret = [],
     PI_pipeline_info = [], PI_hash_to_compare = [], PI_1 = [], PI_compare_to_fillS1 = [],
     PI_fillS1_to_fillS2 = [], PI_fillS2_to_out = [],
     fifo_addr_resv_req = [], fifo_addr_resv_res = [], fifo_addr_pop_req = [],
     st_read_bram = \<lparr>rb_state = READ_BRAM_IDLE, rb_pi = pi_zero, rb_index = 0\<rparr>,
     st_fill_S1 = \<lparr>f1_pi = pi_zero, f1_state = FILL_IDLE, f1_cmd = mem_cmd_zero, f1_slot_dram_found = False\<rparr>,
     st_fill_S2 = \<lparr>f2_pi = pi_zero, f2_state = ALLOC_IDLE, f2_cmd_d = mem_cmd_zero, f2_new_hb_dram = 0\<rparr>,
     st_resv_table = resv_init\<rparr>"

text \<open>The stages wired to their streams, in the order \<open>data_path\<close> calls them.\<close>

definition dp_remux :: "'z data_path_st_scheme \<Rightarrow> 'z data_path_st_scheme" where
  "dp_remux s =
     (let (rd, wr, out) = remux (rd_request s) (wr_request s) (PI_pipeline_info s)
      in s\<lparr>rd_request := rd, wr_request := wr, PI_pipeline_info := out\<rparr>)"

definition dp_compute_hash :: "'z data_path_st_scheme \<Rightarrow> 'z data_path_st_scheme" where
  "dp_compute_hash s =
     (let (pin, pout) = compute_hash (PI_pipeline_info s) (PI_hash_to_compare s)
      in s\<lparr>PI_pipeline_info := pin, PI_hash_to_compare := pout\<rparr>)"

definition compare_bram_ht :: "'z data_path_st_scheme \<Rightarrow> 'z data_path_st_scheme" where
  "compare_bram_ht s =
     (let (st, pin, pi1, cmd, req, res) =
            read_bram (st_read_bram s) (PI_hash_to_compare s) (PI_1 s) (BRAM_rd_cmd s)
              (fifo_addr_resv_req s) (fifo_addr_resv_res s);
          (pi1, pout, data) = compare_bram pi1 (PI_compare_to_fillS1 s) (BRAM_rd_data s)
      in s\<lparr>st_read_bram := st, PI_hash_to_compare := pin, BRAM_rd_cmd := cmd, fifo_addr_resv_req := req,
           fifo_addr_resv_res := res, PI_1 := pi1, PI_compare_to_fillS1 := pout, BRAM_rd_data := data\<rparr>)"

definition dp_fill_S1 :: "'z data_path_st_scheme \<Rightarrow> 'z data_path_st_scheme" where
  "dp_fill_S1 s =
     (let (st, pin, pout, cmd, data) =
            fill_S1 (st_fill_S1 s) (PI_compare_to_fillS1 s) (PI_fillS1_to_fillS2 s)
              (DRAM_rd_cmd s) (DRAM_rd_data s)
      in s\<lparr>st_fill_S1 := st, PI_compare_to_fillS1 := pin, PI_fillS1_to_fillS2 := pout,
           DRAM_rd_cmd := cmd, DRAM_rd_data := data\<rparr>)"

definition dp_fill_S2 :: "32 word \<Rightarrow> 'z data_path_st_scheme \<Rightarrow> 'z data_path_st_scheme" where
  "dp_fill_S2 base s =
     (let (st, io) = fill_S2 base (st_fill_S2 s)
            \<lparr>f2_pi_in = PI_fillS1_to_fillS2 s, f2_pi_out = PI_fillS2_to_out s,
             f2_DRAM_wr_cmd = DRAM_wr_cmd s, f2_DRAM_wr_data = DRAM_wr_data s,
             f2_BRAM_wr_cmd = BRAM_wr_cmd s, f2_BRAM_wr_data = BRAM_wr_data s,
             f2_alloc = dp_alloc s, f2_alloc_ret = dp_alloc_ret s\<rparr>
      in s\<lparr>st_fill_S2 := st, PI_fillS1_to_fillS2 := f2_pi_in io, PI_fillS2_to_out := f2_pi_out io,
           DRAM_wr_cmd := f2_DRAM_wr_cmd io, DRAM_wr_data := f2_DRAM_wr_data io,
           BRAM_wr_cmd := f2_BRAM_wr_cmd io, BRAM_wr_data := f2_BRAM_wr_data io,
           dp_alloc := f2_alloc io, dp_alloc_ret := f2_alloc_ret io\<rparr>)"

definition dp_demux :: "'z data_path_st_scheme \<Rightarrow> 'z data_path_st_scheme" where
  "dp_demux s =
     (let (pin, rd, wr, pop) = demux (PI_fillS2_to_out s) (rd_reply s) (wr_reply s) (fifo_addr_pop_req s)
      in s\<lparr>PI_fillS2_to_out := pin, rd_reply := rd, wr_reply := wr, fifo_addr_pop_req := pop\<rparr>)"

definition dp_resv_table :: "'z data_path_st_scheme \<Rightarrow> 'z data_path_st_scheme" where
  "dp_resv_table s =
     (let (t, req, res, pop) = address_reservation_table (st_resv_table s) (fifo_addr_resv_req s)
            (fifo_addr_resv_res s) (fifo_addr_pop_req s)
      in s\<lparr>st_resv_table := t, fifo_addr_resv_req := req, fifo_addr_resv_res := res, fifo_addr_pop_req := pop\<rparr>)"

definition data_path :: "32 word \<Rightarrow> 'z data_path_st_scheme \<Rightarrow> 'z data_path_st_scheme" where
  "data_path base s =
     (let s = dp_remux s;
          s = dp_compute_hash s;
          s = compare_bram_ht s;
          s = dp_fill_S1 s;
          s = dp_fill_S2 base s;
          s = dp_demux s
      in dp_resv_table s)"

end
