(* ===== verification/Resv_Path.thy ===== *)
theory Resv_Path
  imports Data_Path
begin

text \<open>
  The data path as a client of the reservation table: whatever requests arrive, and whatever the memories
  and the allocator answer and when, the indices the table holds are those of the requests between the
  BRAM lookup and the reply, in order. So the table never gets a pop it has no entry for, and no two
  requests in flight work on the same bucket.
\<close>

section \<open>The environment\<close>

text \<open>A cycle of the data path (with the base address of the table in that cycle), a new request on either
  port, the answer of the BRAM to its oldest read command, and data from DRAM and answers of the allocator at any time.\<close>

datatype env_event = Tick "32 word" | New_read mapping_request | New_write mapping_request | Bram_data bucket
  | Dram_data bucket | Alloc_data buddy_alloc_ret_if

fun env_step :: "env_event \<Rightarrow> data_path_st \<Rightarrow> data_path_st" where
  "env_step (Tick base) s = data_path base s"
| "env_step (New_read r) s = s\<lparr>rd_request := swrite (rd_request s) r\<rparr>"
| "env_step (New_write r) s = s\<lparr>wr_request := swrite (wr_request s) r\<rparr>"
| "env_step (Bram_data hb) s =
     (case BRAM_rd_cmd s of [] \<Rightarrow> s | _ # cs \<Rightarrow> s\<lparr>BRAM_rd_cmd := cs, BRAM_rd_data := swrite (BRAM_rd_data s) hb\<rparr>)"
| "env_step (Dram_data hb) s = s\<lparr>DRAM_rd_data := swrite (DRAM_rd_data s) hb\<rparr>"
| "env_step (Alloc_data r) s = s\<lparr>dp_alloc_ret := swrite (dp_alloc_ret s) r\<rparr>"

section \<open>Requests in flight\<close>

definition bucket_of :: "pipeline_info \<Rightarrow> 6 word" where
  "bucket_of pi = range_get (pi_hash pi) 5 0"

text \<open>The request that \<open>read_bram\<close> has handed on but for which no reservation was granted yet.\<close>

definition refused :: "data_path_st \<Rightarrow> bool" where
  "refused s \<longleftrightarrow> rb_state (st_read_bram s) = READ_BRAM_ADDR_CHECK \<or>
     rb_state (st_read_bram s) = READ_BRAM_ADDR_RESP \<and> fifo_addr_resv_res s \<noteq> [RESV_SUCCESS]"

text \<open>The words of the pipeline behind the reservation, oldest first; \<open>fill_S1\<close> and \<open>fill_S2\<close> work on one each.\<close>

definition at_S1 :: "fill_S1_st \<Rightarrow> pipeline_info list" where
  "at_S1 st = (if f1_state st = FILL_IDLE then [] else [f1_pi st])"

definition at_S2 :: "fill_S2_st \<Rightarrow> pipeline_info list" where
  "at_S2 st = (if f2_state st = ALLOC_IDLE then [] else [f2_pi st])"

definition in_flight :: "data_path_st \<Rightarrow> pipeline_info list" where
  "in_flight s = PI_fillS2_to_out s @ at_S2 (st_fill_S2 s) @ PI_fillS1_to_fillS2 s @ at_S1 (st_fill_S1 s) @
     PI_compare_to_fillS1 s @ (if refused s then butlast (PI_1 s) else PI_1 s)"

text \<open>What \<open>read_bram\<close> waits for, and that every word behind it has its BRAM read under way.\<close>

definition read_bram_ok :: "data_path_st \<Rightarrow> bool" where
  "read_bram_ok s \<longleftrightarrow>
     (case rb_state (st_read_bram s) of
        READ_BRAM_IDLE \<Rightarrow> fifo_addr_resv_req s = [] \<and> fifo_addr_resv_res s = [] \<and>
          length (PI_1 s) = length (BRAM_rd_cmd s) + length (BRAM_rd_data s)
      | READ_BRAM_ADDR_CHECK \<Rightarrow> fifo_addr_resv_req s = [] \<and> fifo_addr_resv_res s = [] \<and>
          length (PI_1 s) = Suc (length (BRAM_rd_cmd s) + length (BRAM_rd_data s)) \<and> rb_index (st_read_bram s) = bucket_of (last (PI_1 s))
      | READ_BRAM_ADDR_RESP \<Rightarrow>
          (fifo_addr_resv_req s = [] \<and> length (fifo_addr_resv_res s) = 1 \<or>
           fifo_addr_resv_req s = [\<lparr>tr_opcode = RESV, tr_index = rb_index (st_read_bram s)\<rparr>] \<and> fifo_addr_resv_res s = []) \<and>
          length (PI_1 s) = Suc (length (BRAM_rd_cmd s) + length (BRAM_rd_data s)) \<and> rb_index (st_read_bram s) = bucket_of (last (PI_1 s)))"

text \<open>The table holds the indices of the pops under way and of the requests in flight.\<close>

definition flight_ok :: "nat \<Rightarrow> data_path_st \<Rightarrow> bool" where
  "flight_ok n s \<longleftrightarrow> resv_inv (st_resv_table s) \<and> read_bram_ok s \<and> length (fifo_addr_pop_req s) = n \<and>
     (\<exists>ks. length ks = n \<and> resv_abs (st_resv_table s) = ks @ map bucket_of (in_flight s))"

section \<open>The stages\<close>

lemma bucket_of_stages [simp]:
  "bucket_of (compare_bram_pi pi hb) = bucket_of pi"
  "bucket_of (fill_S1_hit pi a hb i) = bucket_of pi" "bucket_of (fst (fill_S1_miss pi a found hb)) = bucket_of pi"
  "bucket_of (fill_S1_end pi a found hb) = bucket_of pi"
  "bucket_of (set_bram pi) = bucket_of pi" "bucket_of (set_dram pi) = bucket_of pi" "bucket_of (get_fill_bram pi) = bucket_of pi"
  "bucket_of (pi\<lparr>pi_output_status := st\<rparr>) = bucket_of pi" "bucket_of (pi\<lparr>pi_hb_dram := hb\<rparr>) = bucket_of pi"
  by (simp_all add: bucket_of_def compare_bram_pi_def fill_S1_hit_def fill_S1_miss_def fill_S1_end_def set_bram_def set_dram_def
      get_fill_bram_def Let_def split: prod.split)

text \<open>What a stage that leaves the reservation alone has to keep.\<close>

lemma flight_okI:
  assumes "flight_ok n s" and "st_resv_table s' = st_resv_table s" and "fifo_addr_pop_req s' = fifo_addr_pop_req s"
    and "read_bram_ok s \<Longrightarrow> read_bram_ok s'" and "read_bram_ok s \<Longrightarrow> map bucket_of (in_flight s') = map bucket_of (in_flight s)"
  shows "flight_ok n s'"
  using assms by (simp add: flight_ok_def)

lemma flight_front:
  "flight_ok n s \<Longrightarrow> flight_ok n (dp_remux s)" "flight_ok n s \<Longrightarrow> flight_ok n (dp_compute_hash s)"
  by (erule flight_okI; simp add: read_bram_ok_def in_flight_def refused_def dp_remux_def dp_compute_hash_def split_beta Let_def cong: READ_BRAM_STATE.case_cong)+

text \<open>The two halves of \<open>compare_bram_ht\<close>: the reservation, and the comparison with the bucket.\<close>

definition dp_read_bram :: "data_path_st \<Rightarrow> data_path_st" where
  "dp_read_bram s =
     (let (st, pin, pi1, cmd, req, res) =
            read_bram (st_read_bram s) (PI_hash_to_compare s) (PI_1 s) (BRAM_rd_cmd s) (fifo_addr_resv_req s) (fifo_addr_resv_res s)
      in s\<lparr>st_read_bram := st, PI_hash_to_compare := pin, BRAM_rd_cmd := cmd, fifo_addr_resv_req := req,
           fifo_addr_resv_res := res, PI_1 := pi1\<rparr>)"

definition dp_compare_bram :: "data_path_st \<Rightarrow> data_path_st" where
  "dp_compare_bram s =
     (let (pi1, pout, data) = compare_bram (PI_1 s) (PI_compare_to_fillS1 s) (BRAM_rd_data s)
      in s\<lparr>PI_1 := pi1, PI_compare_to_fillS1 := pout, BRAM_rd_data := data\<rparr>)"

lemma compare_bram_ht_halves: "compare_bram_ht s = dp_compare_bram (dp_read_bram s)"
  by (simp add: compare_bram_ht_def dp_read_bram_def dp_compare_bram_def Let_def split: prod.split)

lemma flight_read_bram: "flight_ok n s \<Longrightarrow> flight_ok n (dp_read_bram s)"
proof (erule flight_okI)
  show "st_resv_table (dp_read_bram s) = st_resv_table s" "fifo_addr_pop_req (dp_read_bram s) = fifo_addr_pop_req s"
    by (simp_all add: dp_read_bram_def split_beta Let_def)
  assume ok: "read_bram_ok s"
  have "read_bram_ok (dp_read_bram s) \<and> in_flight (dp_read_bram s) = in_flight s"
  proof (cases "rb_state (st_read_bram s)")
    case READ_BRAM_IDLE
    with ok show ?thesis
      by (cases "PI_hash_to_compare s") (simp_all add: read_bram_ok_def in_flight_def refused_def dp_read_bram_def read_bram_def bucket_of_def swrite_def)
  next
    case READ_BRAM_ADDR_CHECK
    with ok show ?thesis
      by (simp add: read_bram_ok_def in_flight_def refused_def dp_read_bram_def read_bram_def)
  next
    case READ_BRAM_ADDR_RESP
    with ok show ?thesis
      by (cases "fifo_addr_resv_res s") (auto simp: read_bram_ok_def in_flight_def refused_def dp_read_bram_def read_bram_def)
  qed
  then show "read_bram_ok (dp_read_bram s)" "map bucket_of (in_flight (dp_read_bram s)) = map bucket_of (in_flight s)" by simp_all
qed

lemma flight_compare_bram: "flight_ok n s \<Longrightarrow> rb_state (st_read_bram s) \<noteq> READ_BRAM_ADDR_RESP \<or> fifo_addr_resv_res s = [] \<Longrightarrow> flight_ok n (dp_compare_bram s)"
proof (erule flight_okI)
  show "st_resv_table (dp_compare_bram s) = st_resv_table s" "fifo_addr_pop_req (dp_compare_bram s) = fifo_addr_pop_req s"
    by (simp_all add: dp_compare_bram_def split_beta Let_def)
  assume ok: "read_bram_ok s" and state: "rb_state (st_read_bram s) \<noteq> READ_BRAM_ADDR_RESP \<or> fifo_addr_resv_res s = []"
  have "read_bram_ok (dp_compare_bram s) \<and> map bucket_of (in_flight (dp_compare_bram s)) = map bucket_of (in_flight s)"
  proof (cases "PI_1 s = [] \<or> BRAM_rd_data s = []")
    case True
    then have "dp_compare_bram s = s" by (auto simp: dp_compare_bram_def compare_bram_def split: list.split)
    with ok show ?thesis by simp
  next
    case False
    then obtain pi p1 hb ds where l: "PI_1 s = pi # p1" "BRAM_rd_data s = hb # ds" by (metis list.exhaust)
    let ?s = "s\<lparr>PI_1 := p1, PI_compare_to_fillS1 := swrite (PI_compare_to_fillS1 s) (compare_bram_pi pi hb), BRAM_rd_data := ds\<rparr>"
    have s': "dp_compare_bram s = ?s" by (simp add: dp_compare_bram_def compare_bram_def l)
    have ne: "p1 \<noteq> []" if "rb_state (st_read_bram s) \<noteq> READ_BRAM_IDLE"
      using ok that l by (cases "rb_state (st_read_bram s)") (auto simp: read_bram_ok_def)
    have "read_bram_ok ?s"
      using ok l ne by (cases "rb_state (st_read_bram s)") (auto simp: read_bram_ok_def)
    moreover have "map bucket_of (in_flight ?s) = map bucket_of (in_flight s)"
      using l ne by (cases "rb_state (st_read_bram s)") (auto simp: in_flight_def refused_def swrite_def)
    ultimately show ?thesis unfolding s' by blast
  qed
  then show "read_bram_ok (dp_compare_bram s)" "map bucket_of (in_flight (dp_compare_bram s)) = map bucket_of (in_flight s)" by blast+
qed

lemma fill_S1_flight:
  assumes "fill_S1 st pin pout cmd data = (st', pin', pout', cmd', data')"
  shows "map bucket_of (pout' @ at_S1 st' @ pin' @ zs) = map bucket_of (pout @ at_S1 st @ pin @ zs)"
proof (cases "f1_state st")
  case FILL_IDLE
  with assms show ?thesis by (auto simp: fill_S1_def at_S1_def swrite_def split: list.splits if_splits)
next
  case FILL_SEND_CMD
  with assms show ?thesis by (auto simp: fill_S1_def at_S1_def)
next
  case FILL_READ_DATA
  have miss: "bucket_of pi' = bucket_of pi" if "fill_S1_miss pi a found hb = (pi', found')" for pi a found hb pi' found'
    using that bucket_of_stages(3) [of pi a found hb] by simp
  from FILL_READ_DATA assms show ?thesis
    by (auto simp: fill_S1_def at_S1_def swrite_def Let_def miss split: list.splits if_splits prod.splits)
qed

lemma flight_fill_S1: "flight_ok n s \<Longrightarrow> flight_ok n (dp_fill_S1 s)"
proof (erule flight_okI)
  obtain st pin pout cmd data where f: "fill_S1 (st_fill_S1 s) (PI_compare_to_fillS1 s) (PI_fillS1_to_fillS2 s) (DRAM_rd_cmd s) (DRAM_rd_data s)
      = (st, pin, pout, cmd, data)" by (metis prod_cases5)
  have s': "dp_fill_S1 s = s\<lparr>st_fill_S1 := st, PI_compare_to_fillS1 := pin, PI_fillS1_to_fillS2 := pout, DRAM_rd_cmd := cmd, DRAM_rd_data := data\<rparr>"
    by (simp add: dp_fill_S1_def f)
  show "st_resv_table (dp_fill_S1 s) = st_resv_table s" "fifo_addr_pop_req (dp_fill_S1 s) = fifo_addr_pop_req s"
    "read_bram_ok s \<Longrightarrow> read_bram_ok (dp_fill_S1 s)"
    unfolding s' by (simp_all add: read_bram_ok_def cong: READ_BRAM_STATE.case_cong)
  show "map bucket_of (in_flight (dp_fill_S1 s)) = map bucket_of (in_flight s)"
    using fill_S1_flight [OF f, simplified] unfolding s' by (simp add: in_flight_def refused_def)
qed

lemma fill_S2_flight:
  assumes "fill_S2 base st io = (st', io')"
  shows "map bucket_of (f2_pi_out io' @ at_S2 st' @ f2_pi_in io' @ zs) = map bucket_of (f2_pi_out io @ at_S2 st @ f2_pi_in io @ zs)"
proof (cases "f2_state st")
  case ALLOC_IDLE
  with assms show ?thesis
    by (auto simp: fill_S2_def fill_S2_idle_def at_S2_def swrite_def Let_def split: list.splits if_splits)
next
  case ALLOC_RECV_RET
  with assms show ?thesis
    by (auto simp: fill_S2_def fill_S2_recv_def at_S2_def swrite_def Let_def split: list.splits if_splits)
next
  case ALLOC_WRITE_DATA
  with assms show ?thesis by (auto simp: fill_S2_def at_S2_def swrite_def Let_def)
qed

lemma flight_fill_S2: "flight_ok n s \<Longrightarrow> flight_ok n (dp_fill_S2 base s)"
proof (erule flight_okI)
  let ?io = "\<lparr>f2_pi_in = PI_fillS1_to_fillS2 s, f2_pi_out = PI_fillS2_to_out s, f2_DRAM_wr_cmd = DRAM_wr_cmd s, f2_DRAM_wr_data = DRAM_wr_data s,
    f2_BRAM_wr_cmd = BRAM_wr_cmd s, f2_BRAM_wr_data = BRAM_wr_data s, f2_alloc = dp_alloc s, f2_alloc_ret = dp_alloc_ret s\<rparr>"
  obtain st io where f: "fill_S2 base (st_fill_S2 s) ?io = (st, io)" by fastforce
  have s': "dp_fill_S2 base s = s\<lparr>st_fill_S2 := st, PI_fillS1_to_fillS2 := f2_pi_in io, PI_fillS2_to_out := f2_pi_out io,
      DRAM_wr_cmd := f2_DRAM_wr_cmd io, DRAM_wr_data := f2_DRAM_wr_data io, BRAM_wr_cmd := f2_BRAM_wr_cmd io,
      BRAM_wr_data := f2_BRAM_wr_data io, dp_alloc := f2_alloc io, dp_alloc_ret := f2_alloc_ret io\<rparr>"
    by (simp add: dp_fill_S2_def f)
  show "st_resv_table (dp_fill_S2 base s) = st_resv_table s" "fifo_addr_pop_req (dp_fill_S2 base s) = fifo_addr_pop_req s"
    "read_bram_ok s \<Longrightarrow> read_bram_ok (dp_fill_S2 base s)"
    unfolding s' by (simp_all add: read_bram_ok_def cong: READ_BRAM_STATE.case_cong)
  show "map bucket_of (in_flight (dp_fill_S2 base s)) = map bucket_of (in_flight s)"
    using fill_S2_flight [OF f, simplified] unfolding s' by (simp add: in_flight_def refused_def)
qed

text \<open>A reply takes the oldest request out of flight and releases its entry.\<close>

lemma flight_demux:
  assumes "flight_ok 0 s"
  shows "\<exists>n \<le> 1. flight_ok n (dp_demux s)"
proof (cases "PI_fillS2_to_out s")
  case Nil
  then have "dp_demux s = s" by (simp add: dp_demux_def demux_def)
  with assms show ?thesis by (intro exI [of _ 0]) simp
next
  case (Cons pi rest)
  have d: "fst (demux (pi # rest) rd wr pop) = rest" "snd (snd (snd (demux (pi # rest) rd wr pop))) = swrite pop \<lparr>tr_opcode = POP, tr_index = 0\<rparr>" for rd wr pop
    by (simp_all add: demux_def Let_def)
  have "read_bram_ok (dp_demux s) = read_bram_ok s"
    by (simp add: read_bram_ok_def dp_demux_def split_beta Let_def cong: READ_BRAM_STATE.case_cong)
  moreover have "in_flight s = pi # in_flight (dp_demux s)"
    by (simp add: in_flight_def refused_def dp_demux_def Cons d split_beta Let_def)
  moreover have "st_resv_table (dp_demux s) = st_resv_table s" "length (fifo_addr_pop_req (dp_demux s)) = Suc (length (fifo_addr_pop_req s))"
    by (simp_all add: dp_demux_def Cons d split_beta Let_def)
  ultimately have "flight_ok 1 (dp_demux s)"
    using assms by (auto simp: flight_ok_def intro!: exI [of _ "[bucket_of pi]"])
  then show ?thesis by blast
qed

lemma flight_table:
  assumes "flight_ok n s" and "n \<le> 1"
  shows "flight_ok 0 (dp_resv_table s)"
proof -
  let ?t = "st_resv_table s" and ?hs = "map bucket_of (in_flight s)"
  obtain ks where ks: "length ks = n" "resv_abs ?t = ks @ ?hs" and ok: "resv_inv ?t" "read_bram_ok s" and pop: "length (fifo_addr_pop_req s) = n"
    using assms(1) by (auto simp: flight_ok_def)
  define t where "t = (if n = 0 then ?t else resv_pop ?t)"
  note r = rtab.release_reserve [OF ok(1) ks(2,1) assms(2), folded t_def, unfolded Let_def]
  have table: "address_reservation_table ?t req res (fifo_addr_pop_req s) =
      (case req of [] \<Rightarrow> (t, [], res, []) | q # rest \<Rightarrow> (fst (resv_try t (tr_index q)), rest, swrite res (snd (resv_try t (tr_index q))), []))" for req res
    using pop assms(2) by (cases "fifo_addr_pop_req s") (auto simp: address_reservation_table_def t_def split_beta split: list.split)
  show ?thesis
  proof (cases "fifo_addr_resv_req s")
    case Nil
    then have s': "dp_resv_table s = s\<lparr>st_resv_table := t, fifo_addr_pop_req := []\<rparr>"
      by (simp add: dp_resv_table_def table)
    from r [of 0] ok(2) show ?thesis
      unfolding s' by (simp add: flight_ok_def read_bram_ok_def in_flight_def refused_def cong: READ_BRAM_STATE.case_cong)
  next
    case (Cons q rest)
    with ok(2) have q: "rb_state (st_read_bram s) = READ_BRAM_ADDR_RESP" "fifo_addr_resv_req s = [q]" "tr_index q = bucket_of (last (PI_1 s))"
      "fifo_addr_resv_res s = []" "PI_1 s \<noteq> []"
      by (auto simp: read_bram_ok_def split: READ_BRAM_STATE.splits)
    let ?u = "resv_try t (bucket_of (last (PI_1 s)))"
    let ?s = "s\<lparr>st_resv_table := fst ?u, fifo_addr_resv_req := [], fifo_addr_resv_res := [snd ?u], fifo_addr_pop_req := []\<rparr>"
    have s': "dp_resv_table s = ?s" by (simp add: dp_resv_table_def table q)
    have "map bucket_of (in_flight ?s) = (if snd ?u = RESV_SUCCESS then ?hs @ [bucket_of (last (PI_1 s))] else ?hs)"
    proof -
      have "map bucket_of (PI_1 s) = map bucket_of (butlast (PI_1 s)) @ [bucket_of (last (PI_1 s))]"
        using append_butlast_last_id [OF q(5)] by (metis list.simps(8,9) map_append)
      with q show ?thesis by (simp add: in_flight_def refused_def)
    qed
    moreover have "read_bram_ok ?s" using ok(2) q by (simp add: read_bram_ok_def)
    ultimately show ?thesis
      unfolding s' using r [of "bucket_of (last (PI_1 s))"] by (simp add: flight_ok_def)
  qed
qed

lemma flight_cycle: "flight_ok 0 s \<Longrightarrow> flight_ok 0 (data_path base s)"
proof -
  assume "flight_ok 0 s"
  then have 1: "flight_ok 0 (dp_read_bram (dp_compute_hash (dp_remux s)))"
    by (intro flight_read_bram flight_front)
  have "rb_state (st_read_bram (dp_read_bram s)) \<noteq> READ_BRAM_ADDR_RESP \<or> fifo_addr_resv_res (dp_read_bram s) = []" if "read_bram_ok s" for s
    using that by (auto simp: dp_read_bram_def read_bram_def read_bram_ok_def split: READ_BRAM_STATE.splits list.splits if_splits)
  moreover have "read_bram_ok (dp_compute_hash (dp_remux s))"
    using flight_front(2) [OF flight_front(1) [OF \<open>flight_ok 0 s\<close>]] by (simp add: flight_ok_def)
  ultimately have "flight_ok 0 (dp_fill_S2 base (dp_fill_S1 (compare_bram_ht (dp_compute_hash (dp_remux s)))))"
    unfolding compare_bram_ht_halves by (intro flight_fill_S2 flight_fill_S1 flight_compare_bram [OF 1]) blast
  then show ?thesis
    unfolding data_path_def Let_def using flight_demux flight_table by blast
qed

lemma flight_event:
  assumes "flight_ok 0 s"
  shows "flight_ok 0 (env_step e s)"
proof (cases e)
  case (Tick base)
  with assms show ?thesis by (simp add: flight_cycle)
next
  case (Bram_data hb)
  show ?thesis
  proof (cases "BRAM_rd_cmd s")
    case (Cons c cs)
    show ?thesis
      by (rule flight_okI [OF assms])
        (simp_all add: Bram_data Cons read_bram_ok_def in_flight_def refused_def cong: READ_BRAM_STATE.case_cong)
  qed (use assms Bram_data in simp)
qed (rule flight_okI [OF assms]; simp add: read_bram_ok_def in_flight_def refused_def cong: READ_BRAM_STATE.case_cong)+

interpretation flight: cycle_machine env_step "flight_ok 0"
  by unfold_locales (rule flight_event)

section \<open>Properties\<close>

text \<open>C6: Whatever requests arrive at the two ports of the data path, and whatever the BRAM, the DRAM and the
  allocator answer and when, the reservation table holds at every moment exactly the bucket indices of the requests
  between the grant of their reservation and their reply, in the order of the pipeline, and no index twice: two
  requests in flight never work on the same BRAM bucket, each reply releases the entry of its own request, and the
  table, which pops without looking, is never popped while it is empty.\<close>

theorem reservation_exclusive:
  "resv_abs (st_resv_table (fold env_step es data_path_init)) = map bucket_of (in_flight (fold env_step es data_path_init)) \<and>
   distinct (map bucket_of (in_flight (fold env_step es data_path_init)))"
proof -
  have "flight_ok 0 data_path_init"
    by (simp add: flight_ok_def read_bram_ok_def in_flight_def at_S1_def at_S2_def refused_def data_path_init_def resv_inv_init resv_abs_init)
  from flight.run_inv [OF this, of es] show ?thesis
    by (auto simp: flight_ok_def resv_inv_def)
qed

end
