(* ===== verification/Fill_S1.thy ===== *)
theory Fill_S1
  imports Data_Path
begin

unbundle bit_operations_syntax

text \<open>
  The DRAM lookup stage \<open>fill_S1\<close> against a memory of buckets. The datamover and the DRAM
  behind it are not part of the sources: they are the memory \<open>mem\<close> (bucket index to
  bucket) and a \<open>Serve\<close> event that answers the oldest outstanding read command, at any
  time. \<open>fill_S1_walk\<close> is the reference: a walk over the bucket chain as a list.
\<close>

type_synonym bucket_mem = "32 word \<Rightarrow> bucket"

section \<open>Bucket chains\<close>

text \<open>The chain of buckets that starts at an index, if it ends within \<open>n\<close> buckets.\<close>

fun chain :: "bucket_mem \<Rightarrow> nat \<Rightarrow> 32 word \<Rightarrow> 32 word list option" where
  "chain mem 0 a = None"
| "chain mem (Suc n) a =
     (if hb_chained (mem a) then map_option ((#) a) (chain mem n (hb_chain_addr (mem a))) else Some [a])"

text \<open>The same as a predicate on the list of indices.\<close>

fun is_chain :: "bucket_mem \<Rightarrow> 32 word \<Rightarrow> 32 word list \<Rightarrow> bool" where
  "is_chain mem a [] = False"
| "is_chain mem a [b] = (b = a \<and> \<not> hb_chained (mem a))"
| "is_chain mem a (b # c # cs) = (b = a \<and> hb_chained (mem a) \<and> is_chain mem (hb_chain_addr (mem a)) (c # cs))"

lemma chain_nonempty: "chain mem n a = Some as \<Longrightarrow> as \<noteq> []"
  by (cases n) (auto split: if_splits)

lemma chain_is_chain: "chain mem n a = Some as \<Longrightarrow> is_chain mem a as"
proof (induction n arbitrary: a as)
  case 0
  then show ?case by simp
next
  case (Suc n)
  show ?case
  proof (cases "hb_chained (mem a)")
    case True
    with Suc.prems obtain cs where cs: "chain mem n (hb_chain_addr (mem a)) = Some cs" and "as = a # cs"
      by auto
    from cs obtain c cs' where "cs = c # cs'" by (cases cs) (auto dest: chain_nonempty)
    with True cs Suc.IH [OF cs] \<open>as = a # cs\<close> show ?thesis by simp
  next
    case False
    with Suc.prems show ?thesis by auto
  qed
qed

lemma is_chain_chain: "is_chain mem a as \<Longrightarrow> length as \<le> n \<Longrightarrow> chain mem n a = Some as"
proof (induction n arbitrary: a as)
  case 0
  then show ?case by (cases as) auto
next
  case (Suc n)
  then show ?case by (cases "(mem, a, as)" rule: is_chain.cases) auto
qed

lemma chain_iff: "chain mem n a = Some as \<longleftrightarrow> is_chain mem a as \<and> length as \<le> n"
proof
  show "is_chain mem a as \<and> length as \<le> n \<Longrightarrow> chain mem n a = Some as"
    using is_chain_chain by blast
  have "chain mem n a = Some as \<Longrightarrow> length as \<le> n"
    by (induction n arbitrary: a as) (auto split: if_splits)
  then show "chain mem n a = Some as \<Longrightarrow> is_chain mem a as \<and> length as \<le> n"
    using chain_is_chain by blast
qed

section \<open>The reference walk\<close>

fun fill_S1_walk :: "bucket_mem \<Rightarrow> pipeline_info \<Rightarrow> bool \<Rightarrow> 32 word list \<Rightarrow> pipeline_info" where
  "fill_S1_walk mem pi found [] = pi"
| "fill_S1_walk mem pi found (a # as) =
     (let hb = mem a; i = hb_compare hb (pi_input pi)
      in if i < NR_SLOTS_PER_BUCKET then fill_S1_hit pi a hb i
         else (let (pi, found) = fill_S1_miss pi a found hb
               in if as = [] then fill_S1_end pi a found hb else fill_S1_walk mem pi found as))"

text \<open>What the stage hands on for a pipeline word: words of a GET that hit BRAM pass through.\<close>

definition fill_S1_result :: "bucket_mem \<Rightarrow> 32 word list \<Rightarrow> pipeline_info \<Rightarrow> pipeline_info" where
  "fill_S1_result mem as pi =
     (if pi_op pi = PI_OPCODE_GET \<and> pi_state pi = PI_STATE_HIT_BRAM then pi
      else fill_S1_walk mem pi False as)"

section \<open>The stage and its memory\<close>

datatype S1_event = Cycle | Serve

record S1_sys =
  sys_st :: fill_S1_st
  sys_in :: "pipeline_info stream"
  sys_out :: "pipeline_info stream"
  sys_cmd :: "mem_cmd stream"
  sys_data :: "bucket stream"

definition S1_cycle :: "S1_sys \<Rightarrow> S1_sys" where
  "S1_cycle y =
     (let (st, pin, pout, cmd, data) = fill_S1 (sys_st y) (sys_in y) (sys_out y) (sys_cmd y) (sys_data y)
      in \<lparr>sys_st = st, sys_in = pin, sys_out = pout, sys_cmd = cmd, sys_data = data\<rparr>)"

definition S1_serve :: "bucket_mem \<Rightarrow> S1_sys \<Rightarrow> S1_sys" where
  "S1_serve mem y =
     (case sys_cmd y of
        [] \<Rightarrow> y
      | c # cs \<Rightarrow> y\<lparr>sys_cmd := cs, sys_data := swrite (sys_data y) (mem (mc_address c))\<rparr>)"

fun S1_step :: "bucket_mem \<Rightarrow> S1_event \<Rightarrow> S1_sys \<Rightarrow> S1_sys" where
  "S1_step mem Cycle y = S1_cycle y"
| "S1_step mem Serve y = S1_serve mem y"

text \<open>An idle stage with one word to look up.\<close>

definition S1_start :: "fill_S1_st \<Rightarrow> pipeline_info \<Rightarrow> S1_sys" where
  "S1_start st pi = \<lparr>sys_st = st, sys_in = [pi], sys_out = [], sys_cmd = [], sys_data = []\<rparr>"

text \<open>
  The states a lookup passes through, with the number of further events it needs. The rest
  \<open>as\<close> of the chain and the words carried so far determine the result.
\<close>

inductive S1_phase :: "bucket_mem \<Rightarrow> pipeline_info \<Rightarrow> nat \<Rightarrow> S1_sys \<Rightarrow> bool" for mem res where
  send: "S1_phase mem res (3 * length as)
       \<lparr>sys_st = st, sys_in = [], sys_out = [], sys_cmd = [], sys_data = []\<rparr>"
  if "f1_state st = FILL_SEND_CMD" "mc_address (f1_cmd st) = a" "is_chain mem a as"
     "fill_S1_walk mem (f1_pi st) (f1_slot_dram_found st) as = res"
| wait: "S1_phase mem res (3 * length as - 1)
       \<lparr>sys_st = st, sys_in = [], sys_out = [], sys_cmd = [f1_cmd st], sys_data = []\<rparr>"
  if "f1_state st = FILL_READ_DATA" "mc_address (f1_cmd st) = a" "is_chain mem a as"
     "fill_S1_walk mem (f1_pi st) (f1_slot_dram_found st) as = res"
| data: "S1_phase mem res (3 * length as - 2)
       \<lparr>sys_st = st, sys_in = [], sys_out = [], sys_cmd = [], sys_data = [mem a]\<rparr>"
  if "f1_state st = FILL_READ_DATA" "mc_address (f1_cmd st) = a" "is_chain mem a as"
     "fill_S1_walk mem (f1_pi st) (f1_slot_dram_found st) as = res"
| finished: "S1_phase mem res 0 \<lparr>sys_st = st, sys_in = [], sys_out = [res], sys_cmd = [], sys_data = []\<rparr>"
  if "f1_state st = FILL_IDLE"

inductive_cases S1_phase_0: "S1_phase mem res 0 y"

lemma is_chain_Cons: "is_chain mem a as \<Longrightarrow> \<exists>bs. as = a # bs"
  by (cases "(mem, a, as)" rule: is_chain.cases) auto

lemma S1_phase_out: "S1_phase mem res k y \<Longrightarrow> sys_out y = (if k = 0 then [res] else [])"
  by (erule S1_phase.cases) (auto dest!: is_chain_Cons)

lemma S1_read_data:
  assumes "f1_state st = FILL_READ_DATA" and "mc_address (f1_cmd st) = a" and "is_chain mem a as"
    and "fill_S1_walk mem (f1_pi st) (f1_slot_dram_found st) as = res"
  shows "S1_phase mem res (3 * length as - 3)
    (S1_cycle \<lparr>sys_st = st, sys_in = [], sys_out = [], sys_cmd = [], sys_data = [mem a]\<rparr>) \<or>
    S1_phase mem res 0 (S1_cycle \<lparr>sys_st = st, sys_in = [], sys_out = [], sys_cmd = [], sys_data = [mem a]\<rparr>)"
proof (cases "hb_compare (mem a) (pi_input (f1_pi st)) < NR_SLOTS_PER_BUCKET \<or> \<not> hb_chained (mem a)")
  case True
  obtain as' where "as = a # as'" and "\<not> hb_chained (mem a) \<Longrightarrow> as' = []"
    using assms(3) by (cases "(mem, a, as)" rule: is_chain.cases) auto
  with True assms show ?thesis
    by (intro disjI2) (auto simp: S1_cycle_def fill_S1_def Let_def split: prod.split intro!: S1_phase.finished)
next
  case False
  obtain c cs where as: "as = a # c # cs" and chain: "is_chain mem (hb_chain_addr (mem a)) (c # cs)"
    using assms(3) False by (cases "(mem, a, as)" rule: is_chain.cases) auto
  obtain pi found where miss: "fill_S1_miss (f1_pi st) a (f1_slot_dram_found st) (mem a) = (pi, found)"
    by fastforce
  with False as assms(4) have "fill_S1_walk mem pi found (c # cs) = res"
    by (simp add: Let_def)
  with False as chain miss assms(1,2) show ?thesis
    by (intro disjI1) (auto simp: S1_cycle_def fill_S1_def Let_def
        intro!: S1_phase.send [where as = "c # cs", simplified])
qed

lemma S1_phase_step:
  assumes "S1_phase mem res k y"
  shows "\<exists>k' \<le> k. S1_phase mem res k' (S1_step mem ev y)"
proof -
  have cycle: "\<exists>k' \<le> k. S1_phase mem res k' (S1_cycle y)"
    using assms
  proof (cases rule: S1_phase.cases)
    case (send st a as)
    then show ?thesis
      using S1_phase.wait [of "st\<lparr>f1_state := FILL_READ_DATA\<rparr>" a mem as res]
      by (intro exI [of _ "3 * length as - 1"]) (simp add: S1_cycle_def fill_S1_def)
  next
    case (wait st a as)
    then have "S1_cycle y = y" by (simp add: S1_cycle_def fill_S1_def)
    with assms show ?thesis by auto
  next
    case (data st a as)
    moreover have "3 * length as - 3 \<le> k" using data by simp
    ultimately show ?thesis
      using S1_read_data [of st a mem as res] by (metis le0)
  next
    case (finished st)
    then have "S1_cycle y = y" by (simp add: S1_cycle_def fill_S1_def)
    with assms show ?thesis by auto
  qed
  have serve: "\<exists>k' \<le> k. S1_phase mem res k' (S1_serve mem y)"
  proof (cases "sys_cmd y = []")
    case True
    with assms show ?thesis by (auto simp: S1_serve_def)
  next
    case False
    with assms obtain st a as where y: "y = \<lparr>sys_st = st, sys_in = [], sys_out = [], sys_cmd = [f1_cmd st], sys_data = []\<rparr>"
      and st: "f1_state st = FILL_READ_DATA" "mc_address (f1_cmd st) = a" "is_chain mem a as"
        "fill_S1_walk mem (f1_pi st) (f1_slot_dram_found st) as = res" and k: "k = 3 * length as - 1"
      by (cases rule: S1_phase.cases) auto
    from y st k show ?thesis
      using S1_phase.data [OF st] by (intro exI [of _ "3 * length as - 2"]) (simp add: S1_serve_def)
  qed
  from cycle serve show ?thesis
    by (cases ev) simp_all
qed

text \<open>A cycle followed by a memory answer makes progress.\<close>

lemma S1_phase_round:
  assumes "S1_phase mem res k y"
  shows "\<exists>k' \<le> k - 1. S1_phase mem res k' (S1_step mem Serve (S1_step mem Cycle y))"
proof -
  have "(\<exists>k' \<le> k - 1. S1_phase mem res k' (S1_step mem Cycle y)) \<or> S1_step mem Cycle y = y \<and>
      (\<exists>k' \<le> k - 1. S1_phase mem res k' (S1_step mem Serve y))"
    using assms
  proof (cases rule: S1_phase.cases)
    case (send st a as)
    then show ?thesis
      using S1_phase.wait [of "st\<lparr>f1_state := FILL_READ_DATA\<rparr>" a mem as res]
      by (auto simp: S1_cycle_def fill_S1_def)
  next
    case (wait st a as)
    then show ?thesis
      using S1_phase.data [of st a mem as res]
      by (auto simp: S1_serve_def S1_cycle_def fill_S1_def intro!: exI [of _ "3 * length as - 2"])
  next
    case (data st a as)
    then have "3 * length as - 3 \<le> k - 1"
      by auto
    with data show ?thesis
      using S1_read_data [of st a mem as res] by auto
  next
    case (finished st)
    with assms show ?thesis
      by (auto simp: S1_cycle_def fill_S1_def)
  qed
  then show ?thesis
    using S1_phase_step [of mem res _ "S1_step mem Cycle y" Serve] by (metis order_trans)
qed

lemma S1_start_cycle:
  assumes "f1_state st = FILL_IDLE" and "is_chain mem (range_get (pi_hash pi) 9 0) as"
  shows "\<exists>k \<le> 3 * length as. S1_phase mem (fill_S1_result mem as pi) k (S1_cycle (S1_start st pi))"
proof (cases "pi_op pi = PI_OPCODE_GET \<and> pi_state pi = PI_STATE_HIT_BRAM")
  case True
  with assms(1) show ?thesis
    using S1_phase.finished [of "st\<lparr>f1_pi := pi\<rparr>" mem pi]
    by (intro exI [of _ 0]) (simp add: S1_cycle_def S1_start_def fill_S1_def fill_S1_result_def)
next
  case False
  let ?st = "st\<lparr>f1_pi := pi, f1_cmd := \<lparr>mc_address = range_get (pi_hash pi) 9 0, mc_length = 1\<rparr>,
      f1_slot_dram_found := False, f1_state := FILL_SEND_CMD\<rparr>"
  have "S1_cycle (S1_start st pi) =
      \<lparr>sys_st = ?st, sys_in = [], sys_out = [], sys_cmd = [], sys_data = []\<rparr>"
    using False assms(1) by (simp add: S1_cycle_def S1_start_def fill_S1_def)
  moreover have "fill_S1_result mem as pi = fill_S1_walk mem pi False as"
    using False by (auto simp: fill_S1_result_def)
  ultimately show ?thesis
    using S1_phase.send [of ?st "range_get (pi_hash pi) 9 0" mem as "fill_S1_result mem as pi"] assms(2)
    by (intro exI [of _ "3 * length as"]) simp
qed

lemma S1_phase_run:
  "S1_phase mem res k y \<Longrightarrow> \<exists>k'. S1_phase mem res k' (fold (S1_step mem) es y)"
proof (induction es arbitrary: k y)
  case Nil
  then show ?case by auto
next
  case (Cons e es)
  obtain k' where "S1_phase mem res k' (S1_step mem e y)"
    using S1_phase_step [OF Cons.prems] by blast
  from Cons.IH [OF this] show ?case by simp
qed

lemma S1_start_run:
  assumes "f1_state st = FILL_IDLE" and "is_chain mem (range_get (pi_hash pi) 9 0) as"
  shows "sys_out (fold (S1_step mem) es (S1_cycle (S1_start st pi))) \<in> {[], [fill_S1_result mem as pi]}"
proof -
  obtain k where "S1_phase mem (fill_S1_result mem as pi) k (S1_cycle (S1_start st pi))"
    using S1_start_cycle [OF assms] by blast
  then obtain k' where "S1_phase mem (fill_S1_result mem as pi) k' (fold (S1_step mem) es (S1_cycle (S1_start st pi)))"
    using S1_phase_run by blast
  then show ?thesis by (simp add: S1_phase_out)
qed

lemma S1_phase_rounds:
  "S1_phase mem res k y \<Longrightarrow> k \<le> m \<Longrightarrow> S1_phase mem res 0 (fold (S1_step mem) (concat (replicate m [Cycle, Serve])) y)"
proof (induction m arbitrary: k y)
  case 0
  then show ?case by simp
next
  case (Suc m)
  obtain k' where "k' \<le> k - 1" and "S1_phase mem res k' (S1_step mem Serve (S1_step mem Cycle y))"
    using S1_phase_round [OF Suc.prems(1)] by blast
  with Suc.IH [of k' "S1_step mem Serve (S1_step mem Cycle y)"] Suc.prems(2) show ?case
    by simp
qed

lemma S1_phase_0_fold:
  "S1_phase mem res 0 y \<Longrightarrow> S1_phase mem res 0 (fold (S1_step mem) es y)"
proof (induction es arbitrary: y)
  case (Cons e es)
  from S1_phase_step [OF Cons.prems, of e] have "S1_phase mem res 0 (S1_step mem e y)" by simp
  then show ?case by (simp add: Cons.IH)
qed simp

lemma S1_rounds_out:
  assumes "f1_state st = FILL_IDLE" and "chain mem n (range_get (pi_hash pi) 9 0) = Some as"
  shows "sys_out (fold (S1_step mem) (concat (replicate (Suc (3 * length as)) [Cycle, Serve])) (S1_start st pi))
    = [fill_S1_result mem as pi]"
proof -
  let ?res = "fill_S1_result mem as pi"
  obtain k where "k \<le> 3 * length as" and "S1_phase mem ?res k (S1_cycle (S1_start st pi))"
    using S1_start_cycle [OF assms(1) chain_is_chain [OF assms(2)]] by blast
  then obtain k' where "k' \<le> 3 * length as" and "S1_phase mem ?res k' (S1_serve mem (S1_cycle (S1_start st pi)))"
    using S1_phase_step [of mem ?res k _ Serve] by (metis S1_step.simps(2) order_trans)
  from S1_phase_rounds [OF this(2,1)] show ?thesis
    by (simp add: S1_phase_out)
qed

section \<open>Properties\<close>

text \<open>However the cycles of \<open>fill_S1\<close> and the answers of the memory interleave, the stage hands on
  nothing but the word of the reference walk, and at most once.\<close>

lemma S1_run_out:
  assumes "f1_state st = FILL_IDLE" and "chain mem n (range_get (pi_hash pi) 9 0) = Some as"
  shows "sys_out (fold (S1_step mem) es (S1_start st pi)) \<in> {[], [fill_S1_result mem as pi]}"
proof -
  have chain: "is_chain mem (range_get (pi_hash pi) 9 0) as"
    using assms(2) by (rule chain_is_chain)
  show ?thesis
  proof (induction es rule: list.induct)
    case Nil
    then show ?case by (simp add: S1_start_def)
  next
    case (Cons e es)
    show ?case
    proof (cases e)
      case Cycle
      then show ?thesis
        using S1_start_run [OF assms(1) chain, of es] by simp
    next
      case Serve
      with Cons show ?thesis
        by (simp add: S1_serve_def S1_start_def)
    qed
  qed
qed

text \<open>A concrete memory for the witnesses: bucket 5 holds key 5 and is chained to bucket 2000,
  which holds key 1029 (the same hash index).\<close>

definition example_mem :: bucket_mem where
  "example_mem a =
     (if a = 5 then hb_set_chain (hb_set_val (hb_set_key (hb_set_used 0 0) 0 5) 0 0x1000) 2000
      else if a = 2000 then hb_set_perm (hb_set_val (hb_set_key (hb_set_used 0 0) 0 1029) 0 0x2000) 0 True
      else 0)"

definition example_get :: "32 word \<Rightarrow> pipeline_info" where
  "example_get k = pi_zero\<lparr>pi_opcode := PI_OPCODE_GET, pi_input := k, pi_hash := k, pi_state := PI_STATE_MISS_BRAM\<rparr>"

definition fill_S1_init :: fill_S1_st where
  "fill_S1_init = \<lparr>f1_pi = pi_zero, f1_state = FILL_IDLE, f1_cmd = mem_cmd_zero, f1_slot_dram_found = False\<rparr>"

lemma example_chain: "chain example_mem 2 (range_get (pi_hash (example_get 1029)) 9 0) = Some [5, 2000]"
proof -
  have "range_get (pi_hash (example_get 1029)) 9 0 = (5 :: 32 word)"
    by (simp add: example_get_def range_get_def take_bit_eq_mod)
  moreover have "hb_chained (example_mem 5)" "hb_chain_addr (example_mem 5) = 2000" "\<not> hb_chained (example_mem 2000)"
    by (simp_all add: example_mem_def hb_simps take_bit_eq_mod)
  ultimately show ?thesis
    by (simp add: numeral_2_eq_2)
qed

text \<open>C17: When the memory answers every cycle, a lookup along a chain of \<open>m\<close> buckets ends
  within \<open>3 m + 1\<close> cycles, with the word of the reference walk: the chain walk of
  \<open>fill_S1\<close> terminates on every finite chain.\<close>

theorem fill_S1_live:
  assumes "f1_state st = FILL_IDLE" and "chain mem n (range_get (pi_hash pi) 9 0) = Some as"
  shows "sys_out (fold (S1_step mem) (concat (replicate (Suc (3 * length as)) [Cycle, Serve])) (S1_start st pi))
    = [fill_S1_result mem as pi]"
  using assms by (rule S1_rounds_out)

theorem fill_S1_live_witness:
  "sys_out (fold (S1_step example_mem) (concat (replicate (Suc (3 * length [5 :: 32 word, 2000])) [Cycle, Serve]))
     (S1_start fill_S1_init (example_get 1029))) = [fill_S1_result example_mem [5, 2000] (example_get 1029)]"
  by (rule fill_S1_live [OF _ example_chain]) (simp add: fill_S1_init_def)

end
