(* ===== verification/Paging_Table.thy ===== *)
theory Paging_Table
  imports Fill_S1
begin

unbundle bit_operations_syntax

text \<open>
  What the paging unit promises: the DRAM bucket chains are a map from virtual to physical
  page addresses with a permission bit. The lookup side is the walk of \<open>fill_S1\<close>; the update
  side is the sequence of bucket writes that \<open>fill_S2\<close> emits for a SET.
\<close>

section \<open>Putting a pair into a bucket\<close>

definition hb_put :: "bucket \<Rightarrow> nat \<Rightarrow> 32 word \<Rightarrow> 32 word \<Rightarrow> bool \<Rightarrow> bucket" where
  "hb_put hb i k v p = hb_set_perm (hb_set_val (hb_set_key (hb_set_used hb i) i k) i v) i p"

lemma hb_put_simps [hb_simps]:
  assumes "i < 7" and "j < 7"
  shows "hb_key (hb_put hb i k v p) j = (if j = i then k else hb_key hb j)"
    and "hb_val (hb_put hb i k v p) j = (if j = i then v else hb_val hb j)"
    and "hb_perm (hb_put hb i k v p) j = (if j = i then p else hb_perm hb j)"
    and "hb_used (hb_put hb i k v p) j = (j = i \<or> hb_used hb j)"
  using assms by (simp_all add: hb_put_def hb_simps)

lemma hb_put_chain [hb_simps]:
  "i < 7 \<Longrightarrow> hb_chained (hb_put hb i k v p) = hb_chained hb"
  "i < 7 \<Longrightarrow> hb_chain_addr (hb_put hb i k v p) = hb_chain_addr hb"
  by (simp_all add: hb_put_def hb_simps)

lemma compare_put_same:
  assumes "i < 7" and "\<And>j. j < i \<Longrightarrow> hb_key hb j \<noteq> k"
  shows "hb_compare (hb_put hb i k v p) k = i"
  unfolding compare_eq using assms by (intro for_break_eqI) (auto simp: hb_simps)

lemma compare_put_other:
  assumes "i < 7" and "k' \<noteq> k" and "hb_key hb i \<noteq> k'"
  shows "hb_compare (hb_put hb i k v p) k' = hb_compare hb k'"
  using assms by (intro compare_cong) (auto simp: hb_simps)

text \<open>What a bucket says of a key.\<close>

definition hb_get :: "bucket \<Rightarrow> 32 word \<Rightarrow> (32 word \<times> bool) option" where
  "hb_get hb k =
     (let i = hb_compare hb k in if i < NR_SLOTS_PER_BUCKET then Some (hb_val hb i, hb_perm hb i) else None)"

lemma hb_get_put_same:
  "i < 7 \<Longrightarrow> (\<And>j. j < i \<Longrightarrow> hb_key hb j \<noteq> k) \<Longrightarrow> hb_get (hb_put hb i k v p) k = Some (v, p)"
  by (simp add: hb_get_def compare_put_same NR_SLOTS_PER_BUCKET_def hb_simps)

lemma hb_get_put_other:
  assumes "i < 7" and "k' \<noteq> k" and "hb_key hb i \<noteq> k'"
  shows "hb_get (hb_put hb i k v p) k' = hb_get hb k'"
proof -
  have "hb_compare hb k' < 7 \<Longrightarrow> hb_compare hb k' \<noteq> i"
    using assms(3) compare_key [of hb k'] by auto
  then show ?thesis
    using assms by (auto simp: hb_get_def Let_def compare_put_other NR_SLOTS_PER_BUCKET_def hb_simps)
qed

lemma hb_get_None_iff: "hb_get hb k = None \<longleftrightarrow> (\<forall>i < 7. hb_key hb i \<noteq> k)"
  using compare_hit_iff [of hb k] by (auto simp: hb_get_def NR_SLOTS_PER_BUCKET_def Let_def)

lemma hb_get_set_chain [simp]: "hb_get (hb_set_chain hb a) k = hb_get hb k"
proof -
  have "hb_compare (hb_set_chain hb a) k = hb_compare hb k"
    by (rule compare_cong) (simp add: hb_simps)
  then show ?thesis
    by (simp add: hb_get_def hb_simps NR_SLOTS_PER_BUCKET_def Let_def)
qed

text \<open>The code never compares the bitmap when it looks for a key; it is right for the keys
  other than 0 because an unused slot holds key 0.\<close>

definition bucket_wf :: "bucket \<Rightarrow> bool" where
  "bucket_wf hb \<longleftrightarrow> (\<forall>i < 7. hb_used hb i \<or> hb_key hb i = 0)"

lemma bucket_wf_put: "bucket_wf hb \<Longrightarrow> i < 7 \<Longrightarrow> bucket_wf (hb_put hb i k v p)"
  by (auto simp: bucket_wf_def hb_simps)

lemma bucket_wf_set_chain: "bucket_wf (hb_set_chain hb a) = bucket_wf hb"
  by (simp add: bucket_wf_def hb_simps)

lemma bucket_wf_0: "bucket_wf 0"
  by (simp add: bucket_wf_def hb_simps)

section \<open>The table\<close>

definition dram_index :: "32 word \<Rightarrow> 32 word" where
  "dram_index k = range_get k (10 - 1) 0"

fun chain_get :: "bucket_mem \<Rightarrow> 32 word list \<Rightarrow> 32 word \<Rightarrow> (32 word \<times> bool) option" where
  "chain_get mem [] k = None"
| "chain_get mem (a # as) k = (case hb_get (mem a) k of None \<Rightarrow> chain_get mem as k | Some vp \<Rightarrow> Some vp)"

definition table_get :: "nat \<Rightarrow> bucket_mem \<Rightarrow> 32 word \<Rightarrow> (32 word \<times> bool) option" where
  "table_get n mem k = (case chain mem n (dram_index k) of None \<Rightarrow> None | Some as \<Rightarrow> chain_get mem as k)"

text \<open>Well-formed table: each of the 1024 head buckets starts a chain of at most \<open>n\<close> buckets
  that ends, no bucket is on two chains, and unused slots hold key 0.\<close>

definition table_wf :: "nat \<Rightarrow> bucket_mem \<Rightarrow> bool" where
  "table_wf n mem \<longleftrightarrow>
     (\<forall>h < 1024. \<exists>as. chain mem n h = Some as \<and> distinct as \<and> (\<forall>a \<in> set as. a < 2 ^ 26 \<and> bucket_wf (mem a))) \<and>
     (\<forall>h < 1024. \<forall>h' < 1024. \<forall>as as'. h \<noteq> h' \<longrightarrow> chain mem n h = Some as \<longrightarrow> chain mem n h' = Some as' \<longrightarrow>
        set as \<inter> set as' = {})"

lemma dram_index_less: "dram_index k < 1024"
proof -
  have "unat (range_get k 9 0 :: 32 word) < 2 ^ 10" by (rule unat_range_get_less) simp
  then show ?thesis by (simp add: dram_index_def word_less_nat_alt)
qed

lemma chain_get_cong: "(\<And>a. a \<in> set as \<Longrightarrow> hb_get (mem a) k = hb_get (mem' a) k) \<Longrightarrow> chain_get mem as k = chain_get mem' as k"
  by (induction as) (auto split: option.split)

lemma chain_get_None: "chain_get mem as k = None \<longleftrightarrow> (\<forall>a \<in> set as. hb_get (mem a) k = None)"
  by (induction as) (auto split: option.split)

lemma chain_get_append:
  "chain_get mem (xs @ ys) k = (case chain_get mem xs k of None \<Rightarrow> chain_get mem ys k | Some vp \<Rightarrow> Some vp)"
  by (induction xs) (auto split: option.split)

lemma is_chain_cong:
  "(\<And>b. b \<in> set as \<Longrightarrow> hb_chained (mem b) = hb_chained (mem' b) \<and> hb_chain_addr (mem b) = hb_chain_addr (mem' b)) \<Longrightarrow>
   is_chain mem a as \<Longrightarrow> is_chain mem' a as"
proof (induction mem a as rule: is_chain.induct)
  case (3 mem a b c cs)
  have "is_chain mem (hb_chain_addr (mem a)) (c # cs) \<Longrightarrow> is_chain mem' (hb_chain_addr (mem a)) (c # cs)"
    using "3.prems"(1) by (intro "3.IH") auto
  with "3.prems" show ?case by auto
qed auto

lemma is_chain_unique: "is_chain mem a as \<Longrightarrow> is_chain mem a bs \<Longrightarrow> as = bs"
  using is_chain_chain [of mem a as "max (length as) (length bs)"] is_chain_chain [of mem a bs "max (length as) (length bs)"]
  by simp

text \<open>Appending a bucket at the end of a chain.\<close>

lemma is_chain_snoc:
  assumes "is_chain mem a as" and "distinct as" and "b \<notin> set as"
    and "hb_chained (mem' (last as))" and "hb_chain_addr (mem' (last as)) = b" and "\<not> hb_chained (mem' b)"
    and "\<And>c. c \<in> set as \<Longrightarrow> c \<noteq> last as \<Longrightarrow> mem' c = mem c"
  shows "is_chain mem' a (as @ [b])"
  using assms
proof (induction mem a as rule: is_chain.induct)
  case (3 mem a x c cs)
  then have "a \<noteq> last (c # cs)"
    by (metis distinct.simps(2) is_chain.simps(3) last_in_set list.distinct(1))
  with 3 have eq: "mem' a = mem a" by auto
  have "is_chain mem' (hb_chain_addr (mem a)) ((c # cs) @ [b])"
    using 3 by (intro "3.IH") auto
  with 3 eq show ?case by auto
qed auto

section \<open>What the walk finds for a SET\<close>

definition has_room :: "bucket \<Rightarrow> bool" where
  "has_room hb = (find_empty_slot_dram (hb_bitmap hb) \<noteq> - 1)"

definition dram_slot :: "pipeline_info \<Rightarrow> int \<Rightarrow> 32 word \<Rightarrow> bucket \<Rightarrow> bool" where
  "dram_slot pi i a hb \<longleftrightarrow> pi_slot_dram pi = i \<and> pi_hb_dram_addr pi = range_get a 25 0 \<and> pi_hb_dram pi = hb"

text \<open>The fields of the word that no DRAM lookup changes.\<close>

definition same_request :: "pipeline_info \<Rightarrow> pipeline_info \<Rightarrow> bool" where
  "same_request pi pi' \<longleftrightarrow> pi_input pi' = pi_input pi \<and> pi_length pi' = pi_length pi \<and>
     pi_opcode pi' = pi_opcode pi \<and> pi_channel pi' = pi_channel pi \<and> pi_hash pi' = pi_hash pi \<and>
     pi_hb_bram pi' = pi_hb_bram pi \<and> pi_slot pi' = pi_slot pi"

lemma same_request_refl [simp]: "same_request pi pi"
  and same_request_trans: "same_request pi pi' \<Longrightarrow> same_request pi' pi'' \<Longrightarrow> same_request pi pi''"
  and same_request_op: "same_request pi pi' \<Longrightarrow> pi_op pi' = pi_op pi \<and> pi_rw pi' = pi_rw pi"
  by (auto simp: same_request_def pi_op_def pi_rw_def)

lemma same_request_stages:
  "same_request pi (fill_S1_hit pi a hb i)"
  "same_request pi (fst (fill_S1_miss pi a found hb))"
  "same_request pi (fill_S1_end pi a found hb)"
  by (auto simp: same_request_def fill_S1_hit_def fill_S1_miss_def fill_S1_end_def Let_def)

lemma same_request_walk: "same_request pi (fill_S1_walk mem pi found as)"
proof (induction as arbitrary: pi found)
  case Nil
  then show ?case by simp
next
  case (Cons a as)
  obtain pi' found' where miss: "fill_S1_miss pi a found (mem a) = (pi', found')" by fastforce
  then have "same_request pi pi'" using same_request_stages(2) [of pi a found "mem a"] by simp
  with miss Cons.IH [of pi' found'] show ?case
    using same_request_stages(1,3) by (auto simp: Let_def intro: same_request_trans)
qed

lemma miss_set:
  assumes "pi_op pi = PI_OPCODE_SET"
  shows "snd (fill_S1_miss pi a found hb) = (found \<or> has_room hb)"
    and "found \<Longrightarrow> fst (fill_S1_miss pi a found hb) = pi"
    and "\<not> found \<Longrightarrow> has_room hb \<Longrightarrow>
      dram_slot (fst (fill_S1_miss pi a found hb)) (find_empty_slot_dram (hb_bitmap hb)) a hb"
    and "\<not> found \<Longrightarrow> \<not> has_room hb \<Longrightarrow> pi_slot_dram (fst (fill_S1_miss pi a found hb)) = - 1"
  using assms by (auto simp: fill_S1_miss_def has_room_def dram_slot_def Let_def)

lemma end_set:
  "found \<Longrightarrow> dram_slot (fill_S1_end pi b found hb') i a hb = dram_slot pi i a hb"
  "\<not> found \<Longrightarrow> dram_slot (fill_S1_end pi b found hb') (pi_slot_dram pi) b hb'"
  by (auto simp: fill_S1_end_def dram_slot_def Let_def)

lemma hit_set:
  "pi_op pi = PI_OPCODE_SET \<Longrightarrow> dram_slot (fill_S1_hit pi a hb i) (int i) a hb"
  by (simp add: fill_S1_hit_def dram_slot_def Let_def pi_op_def PI_OPCODE_SET_def PI_OPCODE_GET_def)

lemma walk_set_found:
  assumes "pi_op pi = PI_OPCODE_SET" and "chain_get mem as (pi_input pi) = None" and "as \<noteq> []"
    and "dram_slot pi i a hb"
  shows "dram_slot (fill_S1_walk mem pi True as) i a hb"
  using assms
proof (induction as)
  case (Cons b as)
  then have "\<not> hb_compare (mem b) (pi_input pi) < NR_SLOTS_PER_BUCKET" and "chain_get mem as (pi_input pi) = None"
    by (auto simp: hb_get_def Let_def split: option.splits if_splits)
  with Cons show ?case
    by (auto simp: Let_def fill_S1_miss_def end_set)
qed simp

text \<open>The three outcomes: the slot of the key; else the first empty slot of the chain; else
  no slot, and the last bucket of the chain.\<close>

lemma walk_set_hit:
  assumes "pi_op pi = PI_OPCODE_SET" and "chain_get mem xs (pi_input pi) = None"
    and "hb_compare (mem a) (pi_input pi) < 7"
  shows "dram_slot (fill_S1_walk mem pi found (xs @ a # ys)) (int (hb_compare (mem a) (pi_input pi))) a (mem a)"
  using assms(1,2,3)
proof (induction xs arbitrary: pi found)
  case Nil
  then show ?case by (simp add: Let_def NR_SLOTS_PER_BUCKET_def hit_set)
next
  case (Cons b xs)
  then have b: "\<not> hb_compare (mem b) (pi_input pi) < NR_SLOTS_PER_BUCKET" and xs: "chain_get mem xs (pi_input pi) = None"
    by (auto simp: hb_get_def Let_def split: option.splits if_splits)
  obtain pi' found' where miss: "fill_S1_miss pi b found (mem b) = (pi', found')" by fastforce
  then have same: "same_request pi pi'" using same_request_stages(2) [of pi b found "mem b"] by simp
  from Cons.IH [of pi' found'] Cons.prems xs b miss show ?case
    using same by (simp add: Let_def same_request_op) (simp add: same_request_def)
qed

lemma walk_set_room:
  assumes "pi_op pi = PI_OPCODE_SET" and "chain_get mem (xs @ a # ys) (pi_input pi) = None"
    and "\<forall>b \<in> set xs. \<not> has_room (mem b)" and "has_room (mem a)"
  shows "dram_slot (fill_S1_walk mem pi False (xs @ a # ys)) (find_empty_slot_dram (hb_bitmap (mem a))) a (mem a)"
  using assms
proof (induction xs arbitrary: pi)
  case Nil
  then have a: "\<not> hb_compare (mem a) (pi_input pi) < NR_SLOTS_PER_BUCKET" and ys: "chain_get mem ys (pi_input pi) = None"
    by (auto simp: hb_get_def Let_def split: option.splits if_splits)
  obtain pi' where miss: "fill_S1_miss pi a False (mem a) = (pi', True)"
    using miss_set(1) [OF Nil.prems(1), of a False "mem a"] Nil.prems(4) by (metis prod.collapse)
  have slot: "dram_slot pi' (find_empty_slot_dram (hb_bitmap (mem a))) a (mem a)"
    using miss_set(3) [OF Nil.prems(1), of False "mem a" a] Nil.prems(4) miss by simp
  have same: "same_request pi pi'"
    using same_request_stages(2) [of pi a False "mem a"] miss by simp
  then have "pi_op pi' = PI_OPCODE_SET" "pi_input pi' = pi_input pi"
    using Nil.prems(1) same_request_op [OF same] by (simp_all add: same_request_def)
  with a ys miss slot show ?case
    using walk_set_found [of pi' mem ys] by (auto simp: Let_def end_set)
next
  case (Cons b xs)
  then have b: "\<not> hb_compare (mem b) (pi_input pi) < NR_SLOTS_PER_BUCKET"
    and xs: "chain_get mem (xs @ a # ys) (pi_input pi) = None"
    by (auto simp: hb_get_def Let_def split: option.splits if_splits)
  obtain pi' where miss: "fill_S1_miss pi b False (mem b) = (pi', False)"
    using miss_set(1) [OF Cons.prems(1), of b False "mem b"] Cons.prems(3) by (metis list.set_intros(1) prod.collapse)
  then have same: "same_request pi pi'" using same_request_stages(2) [of pi b False "mem b"] by simp
  from Cons.IH [of pi'] Cons.prems xs b miss show ?case
    using same by (simp add: Let_def same_request_op) (simp add: same_request_def)
qed

lemma walk_set_full:
  assumes "pi_op pi = PI_OPCODE_SET" and "chain_get mem (xs @ [a]) (pi_input pi) = None"
    and "\<forall>b \<in> set (xs @ [a]). \<not> has_room (mem b)"
  shows "dram_slot (fill_S1_walk mem pi False (xs @ [a])) (- 1) a (mem a)"
  using assms
proof (induction xs arbitrary: pi)
  case Nil
  then have a: "\<not> hb_compare (mem a) (pi_input pi) < NR_SLOTS_PER_BUCKET"
    by (auto simp: hb_get_def Let_def split: option.splits if_splits)
  obtain pi' where miss: "fill_S1_miss pi a False (mem a) = (pi', False)"
    using miss_set(1) [OF Nil.prems(1), of a False "mem a"] Nil.prems(3) by (metis append_Nil list.set_intros(1) prod.collapse)
  have "pi_slot_dram pi' = - 1"
    using miss_set(4) [OF Nil.prems(1), of False "mem a" a] Nil.prems(3) miss by simp
  with a miss show ?case
    using end_set(2) [of False pi' a "mem a"] by (simp add: Let_def)
next
  case (Cons b xs)
  then have b: "\<not> hb_compare (mem b) (pi_input pi) < NR_SLOTS_PER_BUCKET"
    and xs: "chain_get mem (xs @ [a]) (pi_input pi) = None"
    by (auto simp: hb_get_def Let_def split: option.splits if_splits)
  obtain pi' where miss: "fill_S1_miss pi b False (mem b) = (pi', False)"
    using miss_set(1) [OF Cons.prems(1), of b False "mem b"] Cons.prems(3) by (metis append_Cons list.set_intros(1) prod.collapse)
  then have same: "same_request pi pi'" using same_request_stages(2) [of pi b False "mem b"] by simp
  from Cons.IH [of pi'] Cons.prems xs b miss show ?case
    using same by (simp add: Let_def same_request_op) (simp add: same_request_def)
qed

section \<open>Updates of the memory\<close>

lemma table_wf_chain:
  assumes "table_wf n mem" and "h < 1024"
  obtains as where "chain mem n h = Some as" "distinct as" "\<And>a. a \<in> set as \<Longrightarrow> a < 2 ^ 26" "\<And>a. a \<in> set as \<Longrightarrow> bucket_wf (mem a)"
  using assms unfolding table_wf_def by blast

lemma table_wf_disjoint:
  "table_wf n mem \<Longrightarrow> h < 1024 \<Longrightarrow> h' < 1024 \<Longrightarrow> h \<noteq> h' \<Longrightarrow> chain mem n h = Some as \<Longrightarrow>
   chain mem n h' = Some as' \<Longrightarrow> set as \<inter> set as' = {}"
  unfolding table_wf_def by blast

lemma table_wf_Suc: "table_wf n mem \<Longrightarrow> table_wf (Suc n) mem"
  and table_get_Suc: "table_wf n mem \<Longrightarrow> table_get (Suc n) mem k = table_get n mem k"
proof -
  assume wf: "table_wf n mem"
  have eq: "chain mem (Suc n) h = chain mem n h" if "h < 1024" for h
  proof -
    obtain as where as: "chain mem n h = Some as" using table_wf_chain [OF wf \<open>h < 1024\<close>] by blast
    then have "chain mem (Suc n) h = Some as" by (simp only: chain_iff) auto
    with as show ?thesis by simp
  qed
  with wf show "table_wf (Suc n) mem"
    by (simp add: table_wf_def del: chain.simps)
  show "table_get (Suc n) mem k = table_get n mem k"
    by (simp add: table_get_def eq dram_index_less del: chain.simps)
qed

text \<open>Rewriting a bucket without touching its chain pointer keeps every chain.\<close>

lemma chain_update:
  assumes "hb_chained hb = hb_chained (mem a)" and "hb_chain_addr hb = hb_chain_addr (mem a)"
  shows "chain (mem(a := hb)) n h = chain mem n h"
  by (induction n arbitrary: h) (auto simp: assms)

lemma set_in_place:
  fixes mem :: bucket_mem and v :: "32 word" and p :: bool
  assumes wf: "table_wf n mem" and as: "chain mem n (dram_index k) = Some (xs @ a # ys)"
    and xs: "chain_get mem xs k = None" and i: "i < 7" "\<And>j. j < i \<Longrightarrow> hb_key (mem a) j \<noteq> k"
    and old: "hb_key (mem a) i = k \<or> hb_key (mem a) i = 0"
  defines "mem' \<equiv> mem(a := hb_put (mem a) i k v p)"
  shows "table_wf n mem'" and "table_get n mem' k = Some (v, p)"
    and "k' \<noteq> k \<Longrightarrow> k' \<noteq> 0 \<Longrightarrow> table_get n mem' k' = table_get n mem k'"
proof -
  have chains: "chain mem' n h = chain mem n h" for h
    unfolding mem'_def by (rule chain_update) (simp_all add: hb_simps i)
  have "bucket_wf (mem' b) \<longleftrightarrow> bucket_wf (mem b)" if "b \<noteq> a" for b
    using that by (simp add: mem'_def)
  moreover have "bucket_wf (mem a) \<Longrightarrow> bucket_wf (mem' a)"
    by (simp add: mem'_def bucket_wf_put i)
  ultimately have bw: "bucket_wf (mem b) \<Longrightarrow> bucket_wf (mem' b)" for b
    by (cases "b = a") auto
  from wf show "table_wf n mem'"
    unfolding table_wf_def chains using bw by meson
  obtain as' where "chain mem n (dram_index k) = Some as'" "distinct as'"
    using table_wf_chain [OF wf dram_index_less] by blast
  with as have "a \<notin> set xs" by auto
  then have "chain_get mem' xs k = chain_get mem xs k"
    by (intro chain_get_cong) (auto simp: mem'_def)
  then show "table_get n mem' k = Some (v, p)"
    using as xs i hb_get_put_same [of i "mem a" k v p]
    by (simp add: table_get_def chains chain_get_append) (simp add: mem'_def)
  show "table_get n mem' k' = table_get n mem k'" if "k' \<noteq> k" "k' \<noteq> 0"
  proof -
    have "hb_get (mem' b) k' = hb_get (mem b) k'" for b
      using that old i by (auto simp: mem'_def hb_get_put_other)
    then have "chain_get mem' bs k' = chain_get mem bs k'" for bs
      by (intro chain_get_cong) simp
    then show ?thesis by (simp add: table_get_def chains split: option.split)
  qed
qed

text \<open>Chaining a new bucket behind the last one.\<close>

definition unused_index :: "nat \<Rightarrow> bucket_mem \<Rightarrow> 32 word \<Rightarrow> bool" where
  "unused_index n mem b \<longleftrightarrow> (\<forall>h < 1024. b \<notin> set (the (chain mem n h)))"

lemma unused_index_chain: "unused_index n mem b \<Longrightarrow> h < 1024 \<Longrightarrow> chain mem n h = Some as \<Longrightarrow> b \<notin> set as"
  by (force simp: unused_index_def)

lemma set_new_chain:
  fixes mem :: bucket_mem and hb :: bucket
  assumes wf: "table_wf n mem" and as: "chain mem n h = Some as" and h: "h < 1024"
    and new: "unused_index n mem b" and b: "b < 2 ^ 26"
    and hb: "\<not> hb_chained hb" "bucket_wf hb"
  defines "mem' \<equiv> mem(b := hb, last as := hb_set_chain (mem (last as)) b)"
  shows "chain mem' (Suc n) h = Some (as @ [b])"
    and "h' < 1024 \<Longrightarrow> h' \<noteq> h \<Longrightarrow> chain mem' (Suc n) h' = chain mem n h'"
    and "table_wf (Suc n) mem'"
proof -
  note fresh = unused_index_chain [OF new]
  obtain bs where "chain mem n h = Some bs" "distinct bs" and ok: "\<And>a. a \<in> set bs \<Longrightarrow> a < 2 ^ 26" "\<And>a. a \<in> set bs \<Longrightarrow> bucket_wf (mem a)"
    using table_wf_chain [OF wf h] by blast
  with as have dist: "distinct as" and ok: "\<And>a. a \<in> set as \<Longrightarrow> a < 2 ^ 26 \<and> bucket_wf (mem a)" by auto
  have ne: "as \<noteq> []" using as by (rule chain_nonempty)
  have nb: "b \<notin> set as" using fresh h as by blast
  have lb: "last as \<noteq> b" using nb ne by auto
  have "is_chain mem' h (as @ [b])"
  proof (rule is_chain_snoc [OF chain_is_chain [OF as] dist nb])
    show "hb_chain_addr (mem' (last as)) = b"
      using b by (simp add: mem'_def hb_simps take_bit_eq_mod mod_word_less)
  qed (use lb hb nb in \<open>auto simp: mem'_def hb_simps\<close>)
  moreover have "length as \<le> n" using as by (simp add: chain_iff)
  ultimately show ch: "chain mem' (Suc n) h = Some (as @ [b])"
    by (simp add: chain_iff del: chain.simps)
  have other: "chain mem' (Suc n) h' = Some bs \<and> (\<forall>a \<in> set bs. mem' a = mem a)"
    if h': "h' < 1024" "h' \<noteq> h" and bs: "chain mem n h' = Some bs" for h' bs
  proof -
    have "last as \<notin> set bs"
      using table_wf_disjoint [OF wf h h'(1) _ as bs] h'(2) last_in_set [OF ne] by blast
    moreover have "b \<notin> set bs" using fresh h'(1) bs by blast
    ultimately have same: "\<forall>a \<in> set bs. mem' a = mem a" by (auto simp: mem'_def)
    then have "is_chain mem' h' bs"
      using chain_is_chain [OF bs] by (intro is_chain_cong [of bs mem mem']) auto
    with same bs show ?thesis by (simp add: chain_iff del: chain.simps)
  qed
  show oth: "chain mem' (Suc n) h' = chain mem n h'" if h': "h' < 1024" "h' \<noteq> h" for h'
  proof -
    obtain bs where bs: "chain mem n h' = Some bs" using table_wf_chain [OF wf h'(1)] by blast
    then have "chain mem' (Suc n) h' = Some bs" using other [OF h'] by blast
    with bs show ?thesis by simp
  qed
  show "table_wf (Suc n) mem'"
    unfolding table_wf_def
  proof (intro conjI allI impI)
    fix g :: "32 word" assume g: "g < 1024"
    show "\<exists>bs. chain mem' (Suc n) g = Some bs \<and> distinct bs \<and> (\<forall>a \<in> set bs. a < 2 ^ 26 \<and> bucket_wf (mem' a))"
    proof (cases "g = h")
      case True
      have "\<forall>a \<in> set (as @ [b]). a < 2 ^ 26 \<and> bucket_wf (mem' a)"
        using ok b hb lb ne by (auto simp: mem'_def bucket_wf_set_chain)
      with True ch dist nb show ?thesis by (intro exI [of _ "as @ [b]"]) simp
    next
      case False
      obtain bs where bs: "chain mem n g = Some bs" "distinct bs" "\<And>a. a \<in> set bs \<Longrightarrow> a < 2 ^ 26"
        "\<And>a. a \<in> set bs \<Longrightarrow> bucket_wf (mem a)"
        using table_wf_chain [OF wf g] by blast
      with other [OF g False bs(1)] show ?thesis by (intro exI [of _ bs]) auto
    qed
  next
    fix g g' :: "32 word" and bs bs'
    assume g: "g < 1024" "g' < 1024" "g \<noteq> g'" "chain mem' (Suc n) g = Some bs" "chain mem' (Suc n) g' = Some bs'"
    have main: "set (as @ [b]) \<inter> set cs = {}" if "g < 1024" "g \<noteq> h" "chain mem' (Suc n) g = Some cs" for g cs
    proof -
      have cs: "chain mem n g = Some cs" using oth [OF that(1,2)] that(3) by simp
      then have "set as \<inter> set cs = {}" using table_wf_disjoint [OF wf h that(1) _ as cs] that(2) by auto
      with fresh [OF that(1) cs] show ?thesis by auto
    qed
    consider "g = h" | "g' = h" "g \<noteq> h" | "g \<noteq> h" "g' \<noteq> h" by blast
    then show "set bs \<inter> set bs' = {}"
    proof cases
      case 1
      with g ch main [of g' bs'] show ?thesis by auto
    next
      case 2
      with g ch main [of g bs] show ?thesis by auto
    next
      case 3
      with g oth [of g] oth [of g'] table_wf_disjoint [OF wf g(1,2,3)] show ?thesis by simp
    qed
  qed
qed

section \<open>A SET through \<open>fill_S2\<close>\<close>

text \<open>
  One word through \<open>fill_S2\<close>: the cycle that accepts it, \<open>d\<close> cycles during which the
  allocator is busy, its answer if it was asked, and two more cycles.
\<close>

definition S2_start :: "pipeline_info \<Rightarrow> fill_S2_io" where
  "S2_start pi = \<lparr>f2_pi_in = [pi], f2_pi_out = [], f2_DRAM_wr_cmd = [], f2_DRAM_wr_data = [],
     f2_BRAM_wr_cmd = [], f2_BRAM_wr_data = [], f2_alloc = [], f2_alloc_ret = []\<rparr>"

definition S2_cycle :: "32 word \<Rightarrow> fill_S2_st \<times> fill_S2_io \<Rightarrow> fill_S2_st \<times> fill_S2_io" where
  "S2_cycle base y = fill_S2 base (fst y) (snd y)"

definition S2_answer :: "buddy_alloc_ret_if \<Rightarrow> fill_S2_st \<times> fill_S2_io \<Rightarrow> fill_S2_st \<times> fill_S2_io" where
  "S2_answer resp y =
     (case f2_alloc (snd y) of
        [] \<Rightarrow> y
      | _ # as \<Rightarrow> (fst y, (snd y)\<lparr>f2_alloc := as, f2_alloc_ret := swrite (f2_alloc_ret (snd y)) resp\<rparr>))"

definition S2_txn :: "32 word \<Rightarrow> nat \<Rightarrow> buddy_alloc_ret_if \<Rightarrow> fill_S2_st \<Rightarrow> pipeline_info \<Rightarrow> fill_S2_st \<times> fill_S2_io" where
  "S2_txn base d resp st pi =
     (S2_cycle base ^^ 2) (S2_answer resp ((S2_cycle base ^^ d) (S2_cycle base (st, S2_start pi))))"

text \<open>The DRAM behind the datamover: bucket \<open>i\<close> is at byte \<open>base + 64 i\<close> modulo \<open>2 ^ 32\<close>, so
  only the low 26 bits of an index matter.\<close>

fun dram_commit :: "mem_cmd list \<Rightarrow> bucket list \<Rightarrow> bucket_mem \<Rightarrow> bucket_mem" where
  "dram_commit (c # cs) (d # ds) mem = dram_commit cs ds (mem(take_bit 26 (mc_address c) := d))"
| "dram_commit _ _ mem = mem"

definition S2_mem :: "fill_S2_st \<times> fill_S2_io \<Rightarrow> bucket_mem \<Rightarrow> bucket_mem" where
  "S2_mem y mem = dram_commit (f2_DRAM_wr_cmd (snd y)) (f2_DRAM_wr_data (snd y)) mem"

lemma take_bit_ucast_26 [simp]: "take_bit 26 (ucast (w :: 26 word) :: 32 word) = ucast w"
  by (rule bit_word_eqI) (auto simp: bit_simps dest: bit_imp_le_length)

lemma S2_cycle_idle:
  "f2_state st = ALLOC_IDLE \<Longrightarrow> f2_pi_in io = [] \<Longrightarrow> S2_cycle base (st, io) = (st, io)"
  by (simp add: S2_cycle_def fill_S2_def)

lemma S2_cycle_wait:
  "f2_state st = ALLOC_RECV_RET \<Longrightarrow> f2_alloc_ret io = [] \<Longrightarrow> S2_cycle base (st, io) = (st, io)"
  by (simp add: S2_cycle_def fill_S2_def)

lemma funpow_fixed: "f x = x \<Longrightarrow> (f ^^ d) x = x"
  by (induction d) auto

lemma S2_settles: "f y = z \<Longrightarrow> f z = z \<Longrightarrow> (f ^^ 2) (if d = 0 then y else z) = z"
  by (simp add: numeral_2_eq_2)

lemma funpow_settles: "f y = z \<Longrightarrow> f z = z \<Longrightarrow> (f ^^ d) y = (if d = 0 then y else z)"
  by (induction d) auto

text \<open>What \<open>fill_S2\<close> hands on keeps the requester and the request.\<close>

definition answers :: "pipeline_info \<Rightarrow> 1 word \<Rightarrow> pipeline_info stream \<Rightarrow> bool" where
  "answers pi status out \<longleftrightarrow>
     (\<exists>pi'. out = [pi'] \<and> pi_input pi' = pi_input pi \<and> pi_channel pi' = pi_channel pi \<and>
       pi_state pi' = pi_state pi \<and> pi_output pi' = pi_output pi \<and> pi_output_status pi' = status)"

lemma set_bram_frame [simp]:
  "pi_input (set_bram pi) = pi_input pi" "pi_length (set_bram pi) = pi_length pi"
  "pi_opcode (set_bram pi) = pi_opcode pi" "pi_channel (set_bram pi) = pi_channel pi"
  "pi_slot_dram (set_bram pi) = pi_slot_dram pi" "pi_hb_dram (set_bram pi) = pi_hb_dram pi"
  "pi_hb_dram_addr (set_bram pi) = pi_hb_dram_addr pi" "pi_rw (set_bram pi) = pi_rw pi"
  "pi_hash (set_bram pi) = pi_hash pi" "pi_state (set_bram pi) = pi_state pi"
  "pi_output (set_bram pi) = pi_output pi"
  by (auto simp: set_bram_def pi_rw_def Let_def split: prod.split)

lemma set_dram_put:
  "set_dram pi = pi\<lparr>pi_hb_dram := hb_put (pi_hb_dram pi) (nat (pi_slot_dram pi)) (pi_input pi) (pi_length pi) (pi_rw pi)\<rparr>"
  by (simp add: set_dram_def hb_put_def Let_def)

text \<open>A SET that found a slot: the bucket is written back, whatever the delay.\<close>

lemma S2_txn_slot:
  assumes "f2_state st = ALLOC_IDLE" and "pi_op pi = PI_OPCODE_SET" and "pi_slot_dram pi \<noteq> - 1"
  shows "f2_state (fst (S2_txn base d resp st pi)) = ALLOC_IDLE"
    and "S2_mem (S2_txn base d resp st pi) mem =
      mem(ucast (pi_hb_dram_addr pi) := hb_put (pi_hb_dram pi) (nat (pi_slot_dram pi)) (pi_input pi) (pi_length pi) (pi_rw pi))"
    and "answers pi PI_OUTPUT_SUCCEED (f2_pi_out (snd (S2_txn base d resp st pi)))"
    and "f2_BRAM_wr_cmd (snd (S2_txn base d resp st pi)) = [bram_wr_cmd (set_bram pi)]"
    and "f2_BRAM_wr_data (snd (S2_txn base d resp st pi)) = [pi_hb_bram (set_bram pi)]"
proof -
  let ?pi = "set_dram (set_bram pi)"
  let ?io = "(S2_start pi)\<lparr>f2_pi_in := [], f2_BRAM_wr_cmd := [bram_wr_cmd (set_bram pi)],
      f2_BRAM_wr_data := [pi_hb_bram (set_bram pi)]\<rparr>"
  let ?cmd = "\<lparr>mc_address = ucast (pi_hb_dram_addr ?pi), mc_length = 1\<rparr>"
  let ?y = "(st\<lparr>f2_pi := ?pi, f2_state := ALLOC_WRITE_DATA\<rparr>, ?io)"
  let ?z = "(st\<lparr>f2_pi := ?pi\<lparr>pi_output_status := PI_OUTPUT_SUCCEED\<rparr>, f2_cmd_d := ?cmd, f2_state := ALLOC_IDLE\<rparr>,
      ?io\<lparr>f2_DRAM_wr_cmd := [?cmd], f2_DRAM_wr_data := [pi_hb_dram ?pi], f2_pi_out := [?pi\<lparr>pi_output_status := PI_OUTPUT_SUCCEED\<rparr>]\<rparr>)"
  have accept: "S2_cycle base (st, S2_start pi) = ?y"
    using assms by (simp add: S2_cycle_def fill_S2_def S2_start_def fill_S2_idle_def Let_def)
  have yz: "S2_cycle base ?y = ?z"
    by (simp add: S2_cycle_def fill_S2_def S2_start_def Let_def)
  have zz: "S2_cycle base ?z = ?z"
    by (rule S2_cycle_idle) simp_all
  have ans: "S2_answer resp (if d = 0 then ?y else ?z) = (if d = 0 then ?y else ?z)"
    by (simp add: S2_answer_def S2_start_def)
  have txn: "S2_txn base d resp st pi = ?z"
    unfolding S2_txn_def accept funpow_settles [OF yz zz] ans by (rule S2_settles [OF yz zz])
  show "f2_state (fst (S2_txn base d resp st pi)) = ALLOC_IDLE"
    unfolding txn by simp
  show "S2_mem (S2_txn base d resp st pi) mem =
      mem(ucast (pi_hb_dram_addr pi) := hb_put (pi_hb_dram pi) (nat (pi_slot_dram pi)) (pi_input pi) (pi_length pi) (pi_rw pi))"
    unfolding txn by (simp add: S2_mem_def set_dram_put take_bit_ucast_26)
  show "answers pi PI_OUTPUT_SUCCEED (f2_pi_out (snd (S2_txn base d resp st pi)))"
    unfolding txn by (simp add: answers_def set_dram_put)
  show "f2_BRAM_wr_cmd (snd (S2_txn base d resp st pi)) = [bram_wr_cmd (set_bram pi)]"
    "f2_BRAM_wr_data (snd (S2_txn base d resp st pi)) = [pi_hb_bram (set_bram pi)]"
    unfolding txn by simp_all
qed

text \<open>A SET without room asks the allocator; the state when the answer arrives.\<close>

definition S2_asked :: "buddy_alloc_ret_if \<Rightarrow> fill_S2_st \<Rightarrow> pipeline_info \<Rightarrow> fill_S2_st \<times> fill_S2_io" where
  "S2_asked resp st pi =
     (let pi' = set_bram pi
      in (st\<lparr>f2_pi := pi', f2_new_hb_dram := set_new_bucket pi', f2_state := ALLOC_RECV_RET\<rparr>,
          (S2_start pi)\<lparr>f2_pi_in := [], f2_BRAM_wr_cmd := [bram_wr_cmd pi'], f2_BRAM_wr_data := [pi_hb_bram pi'],
             f2_alloc_ret := [resp]\<rparr>))"

lemma S2_txn_asked:
  assumes "f2_state st = ALLOC_IDLE" and "pi_op pi = PI_OPCODE_SET" and "pi_slot_dram pi = - 1"
  shows "S2_txn base d resp st pi = S2_cycle base (S2_cycle base (S2_asked resp st pi))"
proof -
  let ?y = "(fst (S2_asked resp st pi), (snd (S2_asked resp st pi))
      \<lparr>f2_alloc_ret := [], f2_alloc := [\<lparr>ba_opcode = BUDDY_ALLOC, ba_addr = 0, ba_order = 0\<rparr>]\<rparr>)"
  have accept: "S2_cycle base (st, S2_start pi) = ?y"
    using assms by (simp add: S2_asked_def S2_cycle_def fill_S2_def S2_start_def fill_S2_idle_def Let_def)
  have wait: "(S2_cycle base ^^ d) ?y = ?y"
    by (intro funpow_fixed S2_cycle_wait) (simp_all add: S2_asked_def S2_start_def Let_def)
  have ans: "S2_answer resp ?y = S2_asked resp st pi"
    by (simp add: S2_answer_def S2_start_def S2_asked_def Let_def)
  show ?thesis
    unfolding S2_txn_def accept wait ans by (simp add: numeral_2_eq_2)
qed

lemmas S2_asked_defs = S2_asked_def S2_cycle_def fill_S2_def fill_S2_recv_def S2_start_def Let_def

text \<open>The allocator delivers: the new bucket is written, then the old last bucket with the pointer to it.\<close>

lemma S2_txn_full:
  fixes base :: "32 word"
  assumes "f2_state st = ALLOC_IDLE" and "pi_op pi = PI_OPCODE_SET" and "pi_slot_dram pi = - 1"
    and "br_stat resp = BUDDY_SUCCESS"
  shows "f2_state (fst (S2_txn base d resp st pi)) = ALLOC_IDLE"
    and "S2_mem (S2_txn base d resp st pi) mem =
      (let addr = alloc_addr_trans (br_addr resp) base
       in mem(take_bit 26 addr := hb_put 0 0 (pi_input pi) (pi_length pi) (pi_rw pi),
              ucast (pi_hb_dram_addr pi) := hb_set_chain (pi_hb_dram pi) addr))"
    and "answers pi PI_OUTPUT_SUCCEED (f2_pi_out (snd (S2_txn base d resp st pi)))"
    and "f2_BRAM_wr_cmd (snd (S2_txn base d resp st pi)) = [bram_wr_cmd (set_bram pi)]"
    and "f2_BRAM_wr_data (snd (S2_txn base d resp st pi)) = [pi_hb_bram (set_bram pi)]"
  unfolding S2_txn_asked [OF assms(1-3)] using assms(4)
  by (simp_all add: S2_asked_defs S2_mem_def set_new_bucket_def hb_put_def answers_def)

text \<open>No memory for a new bucket: nothing is written to DRAM and the SET is answered with an error,
  but the BRAM bucket has been written already.\<close>

lemma S2_txn_nomem:
  assumes "f2_state st = ALLOC_IDLE" and "pi_op pi = PI_OPCODE_SET" and "pi_slot_dram pi = - 1"
    and "br_stat resp \<noteq> BUDDY_SUCCESS"
  shows "S2_mem (S2_txn base d resp st pi) mem = mem"
    and "answers pi PI_OUTPUT_FAILURE (f2_pi_out (snd (S2_txn base d resp st pi)))"
    and "f2_BRAM_wr_cmd (snd (S2_txn base d resp st pi)) = [bram_wr_cmd (set_bram pi)]"
    and "f2_BRAM_wr_data (snd (S2_txn base d resp st pi)) = [pi_hb_bram (set_bram pi)]"
  unfolding S2_txn_asked [OF assms(1-3)] using assms(4)
  by (simp_all add: S2_asked_defs S2_mem_def answers_def)

text \<open>A GET is handed on in one cycle; a GET that missed BRAM and hit DRAM fills the BRAM bucket.\<close>

lemma S2_txn_get:
  assumes "f2_state st = ALLOC_IDLE" and "pi_op pi = PI_OPCODE_GET"
  shows "S2_mem (S2_txn base d resp st pi) mem = mem"
    and "pi_state pi AND PI_STATE_MISS_BRAM = PI_STATE_MISS_BRAM \<Longrightarrow> pi_state pi AND PI_STATE_HIT_DRAM = PI_STATE_HIT_DRAM \<Longrightarrow>
      f2_BRAM_wr_cmd (snd (S2_txn base d resp st pi)) = [bram_wr_cmd pi] \<and>
      f2_BRAM_wr_data (snd (S2_txn base d resp st pi)) = [pi_hb_bram (get_fill_bram pi)] \<and>
      f2_pi_out (snd (S2_txn base d resp st pi)) = [get_fill_bram pi]"
    and "pi_state pi AND PI_STATE_MISS_BRAM \<noteq> PI_STATE_MISS_BRAM \<or> pi_state pi AND PI_STATE_HIT_DRAM \<noteq> PI_STATE_HIT_DRAM \<Longrightarrow>
      f2_BRAM_wr_cmd (snd (S2_txn base d resp st pi)) = [] \<and> f2_pi_out (snd (S2_txn base d resp st pi)) = [pi]"
proof -
  obtain st' io where y: "S2_cycle base (st, S2_start pi) = (st', io)" by fastforce
  then have acc: "fill_S2_idle pi st ((S2_start pi)\<lparr>f2_pi_in := []\<rparr>) = (st', io)"
    using assms(1) by (simp add: S2_cycle_def fill_S2_def S2_start_def)
  have ne: "PI_OPCODE_GET \<noteq> PI_OPCODE_SET" by (simp add: PI_OPCODE_SET_def PI_OPCODE_GET_def)
  from acc have idle: "f2_state st' = ALLOC_IDLE" "f2_pi_in io = []" "f2_alloc io = []"
    using assms ne by (auto simp: fill_S2_idle_def S2_start_def Let_def split: if_splits)
  have fixed: "S2_cycle base (st', io) = (st', io)" using idle by (intro S2_cycle_idle)
  have ans: "S2_answer resp (st', io) = (st', io)" using idle by (simp add: S2_answer_def)
  have txn: "S2_txn base d resp st pi = (st', io)"
    unfolding S2_txn_def y by (simp add: funpow_fixed [of "S2_cycle base", OF fixed] ans)
  note ev = fill_S2_idle_def S2_start_def Let_def get_fill_bram_def bram_wr_cmd_def
  show "S2_mem (S2_txn base d resp st pi) mem = mem"
    unfolding txn using acc assms(2) ne by (auto simp: ev S2_mem_def split: if_splits)
  show "pi_state pi AND PI_STATE_MISS_BRAM = PI_STATE_MISS_BRAM \<Longrightarrow> pi_state pi AND PI_STATE_HIT_DRAM = PI_STATE_HIT_DRAM \<Longrightarrow>
      f2_BRAM_wr_cmd (snd (S2_txn base d resp st pi)) = [bram_wr_cmd pi] \<and>
      f2_BRAM_wr_data (snd (S2_txn base d resp st pi)) = [pi_hb_bram (get_fill_bram pi)] \<and>
      f2_pi_out (snd (S2_txn base d resp st pi)) = [get_fill_bram pi]"
    unfolding txn using acc assms(2) ne by (auto simp: ev)
  show "pi_state pi AND PI_STATE_MISS_BRAM \<noteq> PI_STATE_MISS_BRAM \<or> pi_state pi AND PI_STATE_HIT_DRAM \<noteq> PI_STATE_HIT_DRAM \<Longrightarrow>
      f2_BRAM_wr_cmd (snd (S2_txn base d resp st pi)) = [] \<and> f2_pi_out (snd (S2_txn base d resp st pi)) = [pi]"
    unfolding txn using acc assms(2) ne by (auto simp: ev)
qed

section \<open>GET and SET on the table\<close>

definition S2_idle :: fill_S2_st where
  "S2_idle = \<lparr>f2_pi = pi_zero, f2_state = ALLOC_IDLE, f2_cmd_d = mem_cmd_zero, f2_new_hb_dram = 0\<rparr>"

lemma S2_idle_state [simp]: "f2_state S2_idle = ALLOC_IDLE"
  by (simp add: S2_idle_def)

text \<open>A SET of the pair through both stages, and its effect on the DRAM; \<open>n\<close> bounds the chains.\<close>

definition dram_set ::
  "32 word \<Rightarrow> nat \<Rightarrow> buddy_alloc_ret_if \<Rightarrow> nat \<Rightarrow> pipeline_info \<Rightarrow> bucket_mem \<Rightarrow> fill_S2_st \<times> fill_S2_io" where
  "dram_set base d resp n pi mem =
     S2_txn base d resp S2_idle
       (fill_S1_result mem (the (chain mem n (dram_index (pi_hash pi)))) pi)"

definition new_index :: "32 word \<Rightarrow> buddy_alloc_ret_if \<Rightarrow> 32 word" where
  "new_index base resp = take_bit 26 (alloc_addr_trans (br_addr resp) base)"

lemma set_result:
  "pi_op pi = PI_OPCODE_SET \<Longrightarrow> fill_S1_result mem as pi = fill_S1_walk mem pi False as"
  by (simp add: fill_S1_result_def PI_OPCODE_SET_def PI_OPCODE_GET_def)

lemma chain_get_split:
  "chain_get mem as k \<noteq> None \<Longrightarrow>
   \<exists>xs a ys. as = xs @ a # ys \<and> chain_get mem xs k = None \<and> hb_compare (mem a) k < 7"
proof (induction as)
  case (Cons a as)
  show ?case
  proof (cases "hb_get (mem a) k")
    case None
    with Cons obtain xs b ys where "as = xs @ b # ys \<and> chain_get mem xs k = None \<and> hb_compare (mem b) k < 7"
      by auto
    with None show ?thesis by (intro exI [of _ "a # xs"] exI [of _ b] exI [of _ ys]) simp
  next
    case (Some vp)
    then have "hb_compare (mem a) k < 7"
      by (auto simp: hb_get_def Let_def NR_SLOTS_PER_BUCKET_def split: if_splits)
    then show ?thesis by (intro exI [of _ "[]"]) simp
  qed
qed simp

lemma ucast_index: "a < 2 ^ 26 \<Longrightarrow> ucast (range_get a 25 0 :: 26 word) = (a :: 32 word)"
proof -
  assume "a < 2 ^ 26"
  then have "take_bit 26 a = a" by (simp add: take_bit_eq_mod mod_word_less)
  moreover have "ucast (range_get a 25 0 :: 26 word) = take_bit 26 a"
    by (rule bit_word_eqI) (auto simp: bit_simps)
  ultimately show ?thesis by simp
qed

text \<open>The three outcomes of a SET on a well-formed table.\<close>

lemma set_outcome:
  assumes wf: "table_wf n mem" and as: "chain mem n (dram_index k) = Some as"
    and op: "pi_op pi = PI_OPCODE_SET" and k: "pi_input pi = k" "k \<noteq> 0"
  defines "pi' \<equiv> fill_S1_walk mem pi False as"
  obtains (slot) xs a ys i where "as = xs @ a # ys" "chain_get mem xs k = None" "i < 7"
      "\<And>j. j < i \<Longrightarrow> hb_key (mem a) j \<noteq> k" "hb_key (mem a) i = k \<or> hb_key (mem a) i = 0" "dram_slot pi' (int i) a (mem a)"
  | (full) "chain_get mem as k = None" "dram_slot pi' (- 1) (last as) (mem (last as))"
proof (cases "chain_get mem as k")
  case (Some vp)
  then obtain xs a ys where as': "as = xs @ a # ys" "chain_get mem xs k = None" and hit: "hb_compare (mem a) k < 7"
    using chain_get_split [of mem as k] by auto
  show ?thesis
  proof (rule slot [OF as' hit])
    show "hb_key (mem a) j \<noteq> k" if "j < hb_compare (mem a) k" for j
      using that for_break_before [of 0 j "\<lambda>i. hb_key (mem a) i = k" 7] by (simp add: compare_eq)
    show "hb_key (mem a) (hb_compare (mem a) k) = k \<or> hb_key (mem a) (hb_compare (mem a) k) = 0"
      using compare_key [OF hit] by simp
    show "dram_slot pi' (int (hb_compare (mem a) k)) a (mem a)"
      unfolding pi'_def as'(1) using walk_set_hit [OF op, of mem xs a False ys] as'(2) hit k by simp
  qed
next
  case None
  show ?thesis
  proof (cases "\<exists>a \<in> set as. has_room (mem a)")
    case True
    then obtain xs a ys where as': "as = xs @ a # ys" and room: "has_room (mem a)" "\<forall>b \<in> set xs. \<not> has_room (mem b)"
      using split_list_first_prop [of as "\<lambda>a. has_room (mem a)"] by blast
    obtain i where i: "i < 7" "find_empty_slot_dram (hb_bitmap (mem a)) = int i" "\<not> bit (hb_bitmap (mem a)) i"
      using find_empty_slot_dram_free [of "hb_bitmap (mem a)"] room by (auto simp: has_room_def)
    have nokey: "hb_key (mem a) j \<noteq> k" if "j < 7" for j
      using None that as' by (simp add: chain_get_None hb_get_None_iff)
    have "bucket_wf (mem a)"
      using wf as' as dram_index_less [of k] by (auto elim!: table_wf_chain [of n mem "dram_index k"])
    then have "hb_key (mem a) i = 0"
      using i by (auto simp: bucket_wf_def hb_used_def)
    moreover have "dram_slot pi' (int i) a (mem a)"
      unfolding pi'_def as' using walk_set_room [OF op, of mem xs a ys] None as' room i k by simp
    moreover have "chain_get mem xs k = None"
      using None as' by (simp add: chain_get_None)
    ultimately show ?thesis
      using slot [OF as' _ i(1)] nokey i(1) by simp
  next
    case False
    have "as = butlast as @ [last as]"
      using chain_nonempty [OF as] by simp
    with walk_set_full [OF op, of mem "butlast as" "last as"] False None k
    have "dram_slot pi' (- 1) (last as) (mem (last as))"
      unfolding pi'_def by metis
    with None show ?thesis by (rule full)
  qed
qed

lemma same_request_answers: "same_request pi pi' \<Longrightarrow> answers pi' s out \<Longrightarrow> \<exists>pi''. out = [pi''] \<and> pi_channel pi'' = pi_channel pi \<and> pi_output_status pi'' = s"
  by (auto simp: answers_def same_request_def)

lemma hb_set_chain_take_bit: "hb_set_chain hb (take_bit 26 a) = hb_set_chain hb a"
proof -
  have "range_get (take_bit 26 a) 25 0 = (range_get a 25 0 :: 26 word)"
    by (rule bit_word_eqI) (auto simp: bit_simps)
  then show ?thesis by (simp add: hb_set_chain_def)
qed

lemma hb_get_new: "k' \<noteq> 0 \<Longrightarrow> hb_get (hb_put 0 0 k v p) k' = (if k' = k then Some (v, p) else None)"
proof -
  have "hb_get 0 k' = None" if "k' \<noteq> 0" using that by (auto simp: hb_get_None_iff hb_simps)
  then show "k' \<noteq> 0 \<Longrightarrow> ?thesis"
    using hb_get_put_same [of 0 0 k v p] hb_get_put_other [of 0 k' k 0 v p] by (simp add: hb_simps)
qed

lemma new_chain_get:
  fixes mem :: bucket_mem and v :: "32 word" and p :: bool
  assumes wf: "table_wf n mem" and as: "chain mem n (dram_index k) = Some as"
    and none: "chain_get mem as k = None" and new: "unused_index n mem b" and b: "b < 2 ^ 26"
    and k: "k \<noteq> 0"
  defines "mem' \<equiv> mem(b := hb_put 0 0 k v p, last as := hb_set_chain (mem (last as)) b)"
  shows "table_wf (Suc n) mem'"
    and "table_get (Suc n) mem' k = Some (v, p)"
    and "k' \<noteq> k \<Longrightarrow> k' \<noteq> 0 \<Longrightarrow> table_get (Suc n) mem' k' = table_get n mem k'"
proof -
  let ?hb = "hb_put 0 0 k v p"
  note fresh = unused_index_chain [OF new]
  have hb: "\<not> hb_chained ?hb" "bucket_wf ?hb"
    by (simp_all add: hb_simps bucket_wf_put bucket_wf_0)
  note new_chain = set_new_chain [OF wf as dram_index_less new b hb, folded mem'_def]
  show "table_wf (Suc n) mem'" by (rule new_chain(3))
  have same: "chain_get mem' bs j = chain_get mem bs j" if "b \<notin> set bs" for bs j
    using that by (intro chain_get_cong) (auto simp: mem'_def)
  have nb: "b \<notin> set as" by (rule fresh [OF dram_index_less as])
  then have "mem' b = ?hb"
    using chain_nonempty [OF as] by (auto simp: mem'_def)
  then have get: "table_get (Suc n) mem' j = (case chain_get mem as j of None \<Rightarrow> hb_get ?hb j | Some vp \<Rightarrow> Some vp)"
    if "dram_index j = dram_index k" for j
    using that new_chain(1) same [OF nb] by (simp add: table_get_def chain_get_append del: chain.simps split: option.split)
  show "table_get (Suc n) mem' k = Some (v, p)"
    using get [OF refl] none k by (simp add: hb_get_new)
  show "table_get (Suc n) mem' k' = table_get n mem k'" if k': "k' \<noteq> k" "k' \<noteq> 0"
  proof (cases "dram_index k' = dram_index k")
    case True
    with get [OF True] k' as show ?thesis
      by (simp add: hb_get_new table_get_def split: option.split)
  next
    case False
    obtain bs where bs: "chain mem n (dram_index k') = Some bs"
      using table_wf_chain [OF wf dram_index_less] by blast
    then show ?thesis
      using new_chain(2) [OF dram_index_less False] same [OF fresh [OF dram_index_less bs]]
      by (simp add: table_get_def del: chain.simps)
  qed
qed

lemma dram_set_correct:
  fixes d :: nat
  assumes wf: "table_wf n mem" and op: "pi_op pi = PI_OPCODE_SET" and hash: "pi_hash pi = pi_input pi"
    and nz: "pi_input pi \<noteq> 0" and ok: "br_stat resp = BUDDY_SUCCESS" and new: "unused_index n mem (new_index base resp)"
  defines "y \<equiv> dram_set base d resp n pi mem"
  shows "table_wf (Suc n) (S2_mem y mem)" (is ?wf)
    and "table_get (Suc n) (S2_mem y mem) (pi_input pi) = Some (pi_length pi, pi_rw pi)" (is ?same)
    and "k' \<noteq> pi_input pi \<Longrightarrow> k' \<noteq> 0 \<Longrightarrow> table_get (Suc n) (S2_mem y mem) k' = table_get n mem k'"
    and "\<exists>pi'. f2_pi_out (snd y) = [pi'] \<and> pi_channel pi' = pi_channel pi \<and> pi_output_status pi' = PI_OUTPUT_SUCCEED" (is ?out)
proof -
  let ?k = "pi_input pi" and ?st = S2_idle
  obtain as where as: "chain mem n (dram_index ?k) = Some as" and small: "\<And>a. a \<in> set as \<Longrightarrow> a < 2 ^ 26"
    using table_wf_chain [OF wf dram_index_less] by metis
  define pi' where "pi' = fill_S1_walk mem pi False as"
  have same: "same_request pi pi'" unfolding pi'_def by (rule same_request_walk)
  then have pi': "pi_op pi' = PI_OPCODE_SET" "pi_input pi' = ?k" "pi_length pi' = pi_length pi" "pi_rw pi' = pi_rw pi"
    using op same_request_op [OF same] by (simp_all add: same_request_def)
  have y: "y = S2_txn base d resp ?st pi'"
    using as hash by (simp add: y_def dram_set_def pi'_def set_result [OF op])
  have "?wf \<and> ?same \<and> (\<forall>k'. k' \<noteq> ?k \<longrightarrow> k' \<noteq> 0 \<longrightarrow> table_get (Suc n) (S2_mem y mem) k' = table_get n mem k') \<and> ?out"
  proof (cases rule: set_outcome [OF wf as op refl nz])
    case (1 xs a ys i)
    note slot = this
    note * = S2_txn_slot [of ?st pi' base d resp]
    have d: "pi_slot_dram pi' = int i" "ucast (pi_hb_dram_addr pi') = a" "pi_hb_dram pi' = mem a"
      using slot(6) small [of a] slot(1) by (simp_all add: pi'_def dram_slot_def ucast_index)
    have mem: "S2_mem y mem = mem(a := hb_put (mem a) i ?k (pi_length pi) (pi_rw pi))"
      unfolding y using *(2) d pi' by simp
    have put: "table_wf n (S2_mem y mem)" "table_get n (S2_mem y mem) ?k = Some (pi_length pi, pi_rw pi)"
      "k' \<noteq> ?k \<Longrightarrow> k' \<noteq> 0 \<Longrightarrow> table_get n (S2_mem y mem) k' = table_get n mem k'" for k'
      unfolding mem using set_in_place [OF wf as [unfolded slot(1)] slot(2,3,4,5)] by auto
    moreover have ?out
      unfolding y using *(3) d pi' same_request_answers [OF same] by simp
    ultimately show ?thesis
      by (simp add: table_wf_Suc table_get_Suc)
  next
    case 2
    note full = this
    note * = S2_txn_full [of ?st pi' resp base d]
    have d: "pi_slot_dram pi' = - 1" "ucast (pi_hb_dram_addr pi') = last as" "pi_hb_dram pi' = mem (last as)"
      using full(2) small [of "last as"] chain_nonempty [OF as] by (simp_all add: pi'_def dram_slot_def ucast_index)
    have mem: "S2_mem y mem = mem(new_index base resp := hb_put 0 0 ?k (pi_length pi) (pi_rw pi),
        last as := hb_set_chain (mem (last as)) (new_index base resp))"
      unfolding y using *(2) d pi' ok by (simp add: Let_def new_index_def hb_set_chain_take_bit)
    have b: "new_index base resp < 2 ^ 26"
      by (simp add: new_index_def take_bit_eq_mod word_mod_less_divisor)
    have ?out
      unfolding y using *(3) d pi' ok same_request_answers [OF same] by simp
    then show ?thesis
      unfolding mem using new_chain_get [OF wf as full(1) new b nz] by auto
  qed
  then show ?wf ?same ?out "k' \<noteq> ?k \<Longrightarrow> k' \<noteq> 0 \<Longrightarrow> table_get (Suc n) (S2_mem y mem) k' = table_get n mem k'"
    by auto
qed

end
