(* ===== verification/Lookup_Spec.thy ===== *)
theory Lookup_Spec
  imports Paging_Table
begin

unbundle bit_operations_syntax

text \<open>
  What a lookup in DRAM is meant to find, said over the bits of the buckets on the chain and
  without the search functions of the code: the slots of the chain in order, the first one with the
  key, the first one that is not occupied. The chain walk of \<open>fill_S1\<close> finds them.
\<close>

section \<open>The slots of a chain\<close>

definition chain_slots :: "32 word list \<Rightarrow> (32 word \<times> nat) list" where
  "chain_slots as = [(a, i). a \<leftarrow> as, i \<leftarrow> [0..<7]]"

definition key_slot :: "bucket_mem \<Rightarrow> 32 word list \<Rightarrow> 32 word \<Rightarrow> (32 word \<times> nat) option" where
  "key_slot mem as k = find (\<lambda>(a, i). hb_key (mem a) i = k) (chain_slots as)"

definition free_slot :: "bucket_mem \<Rightarrow> 32 word list \<Rightarrow> (32 word \<times> nat) option" where
  "free_slot mem as = find (\<lambda>(a, i). \<not> hb_used (mem a) i) (chain_slots as)"

text \<open>The word \<open>r\<close> that answers the word \<open>pi\<close>. The request is kept. A GET that hit BRAM passes. Otherwise
  the first slot with the key decides: a GET for writing fails when the slot does not permit it, every
  other operation gets the value and the place of the slot. Without such a slot the lookup fails, and a
  SET is told the first empty slot of the chain, or (\<open>- 1\<close>) none and the last bucket.\<close>

definition lookup_spec :: "bucket_mem \<Rightarrow> 32 word list \<Rightarrow> pipeline_info \<Rightarrow> pipeline_info \<Rightarrow> bool" where
  "lookup_spec mem as pi r \<longleftrightarrow> same_request pi r \<and>
     (if pi_op pi = PI_OPCODE_GET \<and> pi_state pi = PI_STATE_HIT_BRAM then r = pi
      else case key_slot mem as (pi_input pi) of
        Some (a, i) \<Rightarrow>
          if pi_op pi = PI_OPCODE_GET \<and> pi_rw pi \<and> \<not> hb_perm (mem a) i
          then pi_output_status r = PI_OUTPUT_FAILURE \<and> pi_output r = 0 \<and>
            pi_state r = (pi_state pi OR PI_STATE_HIT_DRAM) OR PI_STATE_NO_PERM
          else pi_output_status r = PI_OUTPUT_SUCCEED \<and> pi_output r = hb_val (mem a) i \<and>
            pi_state r = pi_state pi OR PI_STATE_HIT_DRAM \<and> dram_slot r (int i) a (mem a)
      | None \<Rightarrow>
          pi_output_status r = PI_OUTPUT_FAILURE \<and> pi_output r = 0 \<and> pi_state r = pi_state pi OR PI_STATE_MISS_DRAM \<and>
          (pi_op pi = PI_OPCODE_SET \<longrightarrow>
             (case free_slot mem as of
                Some (a, i) \<Rightarrow> dram_slot r (int i) a (mem a)
              | None \<Rightarrow> dram_slot r (- 1) (last as) (mem (last as)))))"

section \<open>The searches of the code\<close>

lemma find_append: "find p (xs @ ys) = (case find p xs of None \<Rightarrow> find p ys | Some x \<Rightarrow> Some x)"
  by (induction xs) auto

lemma find_map: "find p (map f xs) = map_option f (find (p \<circ> f) xs)"
  by (induction xs) auto

lemma chain_slots_Cons: "chain_slots (a # as) = map (Pair a) [0..<7] @ chain_slots as"
  by (simp add: chain_slots_def)

lemma find_upt: "i \<le> n \<Longrightarrow> find p [i..<n] = (let j = for_break p i n in if j < n then Some j else None)"
proof (induction p i n rule: for_break.induct)
  case (1 p i n)
  show ?case
  proof (cases "i < n")
    case True
    then have "[i..<n] = i # [Suc i..<n]" by (simp add: upt_conv_Cons)
    with 1 True show ?thesis by (simp add: for_break.simps [of p i n])
  qed (simp add: for_break.simps)
qed

lemma key_slot_Cons:
  "key_slot mem (a # as) k = (if hb_compare (mem a) k < 7 then Some (a, hb_compare (mem a) k) else key_slot mem as k)"
  by (simp add: key_slot_def chain_slots_Cons find_append find_map find_upt compare_eq comp_def Let_def del: upt_rec_numeral)

lemma free_slot_Cons:
  "free_slot mem (a # as) =
     (if has_room (mem a) then Some (a, nat (find_empty_slot_dram (hb_bitmap (mem a)))) else free_slot mem as)"
  by (simp add: free_slot_def chain_slots_Cons find_append find_map find_upt comp_def Let_def has_room_def hb_used_def
      find_empty_slot_dram_def NR_SLOTS_PER_BUCKET_def del: upt_rec_numeral)

lemma slots_Nil [simp]: "key_slot mem [] k = None" "free_slot mem [] = None"
  by (simp_all add: key_slot_def free_slot_def chain_slots_def)

section \<open>The walk\<close>

lemma miss_keeps:
  assumes "fill_S1_miss pi a found hb = (pi', found')"
  shows "pi_input pi' = pi_input pi" "pi_op pi' = pi_op pi" "pi_rw pi' = pi_rw pi" "pi_state pi' = pi_state pi"
  using assms by (auto simp: fill_S1_miss_def Let_def pi_op_def pi_rw_def split: if_splits)

lemma walk_hit:
  "key_slot mem as (pi_input pi) = Some (a, i) \<Longrightarrow> r = fill_S1_walk mem pi found as \<Longrightarrow>
   (if pi_op pi = PI_OPCODE_GET \<and> pi_rw pi \<and> \<not> hb_perm (mem a) i
    then pi_output_status r = PI_OUTPUT_FAILURE \<and> pi_output r = 0 \<and>
      pi_state r = (pi_state pi OR PI_STATE_HIT_DRAM) OR PI_STATE_NO_PERM
    else pi_output_status r = PI_OUTPUT_SUCCEED \<and> pi_output r = hb_val (mem a) i \<and>
      pi_state r = pi_state pi OR PI_STATE_HIT_DRAM \<and> dram_slot r (int i) a (mem a))"
proof (induction as arbitrary: pi found)
  case (Cons b as)
  obtain pi' found' where miss: "fill_S1_miss pi b found (mem b) = (pi', found')" by fastforce
  show ?case
  proof (cases "hb_compare (mem b) (pi_input pi) < 7")
    case True
    with Cons.prems show ?thesis
      by (auto simp: key_slot_Cons fill_S1_hit_def dram_slot_def Let_def NR_SLOTS_PER_BUCKET_def pi_op_def pi_rw_def)
  next
    case False
    with Cons.prems(1) have ks: "key_slot mem as (pi_input pi') = Some (a, i)" "as \<noteq> []"
      by (auto simp: key_slot_Cons miss_keeps [OF miss])
    with False miss Cons.prems(2) have "r = fill_S1_walk mem pi' found' as"
      by (simp add: Let_def NR_SLOTS_PER_BUCKET_def)
    from Cons.IH [OF ks(1) this] show ?thesis unfolding miss_keeps [OF miss] .
  qed
qed simp

lemma walk_miss:
  "key_slot mem as (pi_input pi) = None \<Longrightarrow> as \<noteq> [] \<Longrightarrow> r = fill_S1_walk mem pi found as \<Longrightarrow>
   pi_output_status r = PI_OUTPUT_FAILURE \<and> pi_output r = 0 \<and> pi_state r = pi_state pi OR PI_STATE_MISS_DRAM"
proof (induction as arbitrary: pi found)
  case (Cons b as)
  obtain pi' found' where miss: "fill_S1_miss pi b found (mem b) = (pi', found')" by fastforce
  have b: "\<not> hb_compare (mem b) (pi_input pi) < 7" "key_slot mem as (pi_input pi') = None"
    using Cons.prems(1) by (auto simp: key_slot_Cons miss_keeps [OF miss] split: if_splits)
  show ?case
  proof (cases "as = []")
    case True
    with Cons.prems(3) b(1) miss show ?thesis
      by (simp add: fill_S1_end_def Let_def NR_SLOTS_PER_BUCKET_def miss_keeps [OF miss])
  next
    case False
    with Cons.prems(3) b(1) miss have "r = fill_S1_walk mem pi' found' as"
      by (simp add: Let_def NR_SLOTS_PER_BUCKET_def)
    from Cons.IH [OF b(2) False this] show ?thesis unfolding miss_keeps [OF miss] .
  qed
qed simp

lemma key_slot_None: "key_slot mem as k = None \<longleftrightarrow> chain_get mem as k = None"
  by (induction as) (simp_all add: key_slot_Cons hb_get_def NR_SLOTS_PER_BUCKET_def Let_def)

lemma free_slot_None: "free_slot mem as = None \<longleftrightarrow> (\<forall>b \<in> set as. \<not> has_room (mem b))"
  by (induction as) (simp_all add: free_slot_Cons)

lemma free_slot_Some:
  "free_slot mem as = Some (a, i) \<Longrightarrow> \<exists>xs ys. as = xs @ a # ys \<and> (\<forall>b \<in> set xs. \<not> has_room (mem b)) \<and> has_room (mem a) \<and>
     int i = find_empty_slot_dram (hb_bitmap (mem a))"
proof (induction as)
  case (Cons b as)
  show ?case
  proof (cases "has_room (mem b)")
    case True
    with Cons.prems find_empty_slot_dram_free [of "hb_bitmap (mem b)"] have "b # as = [] @ a # as" "has_room (mem a)"
      "int i = find_empty_slot_dram (hb_bitmap (mem a))" by (auto simp: free_slot_Cons has_room_def)
    then show ?thesis by (metis empty_iff list.set(1))
  next
    case False
    with Cons.prems Cons.IH obtain xs ys where "as = xs @ a # ys" "\<forall>b \<in> set xs. \<not> has_room (mem b)" "has_room (mem a)"
      "int i = find_empty_slot_dram (hb_bitmap (mem a))" by (auto simp: free_slot_Cons)
    with False have "b # as = (b # xs) @ a # ys" "\<forall>c \<in> set (b # xs). \<not> has_room (mem c)" "has_room (mem a)"
      "int i = find_empty_slot_dram (hb_bitmap (mem a))" by auto
    then show ?thesis by metis
  qed
qed simp

lemma walk_room:
  assumes op: "pi_op pi = PI_OPCODE_SET" and none: "key_slot mem as (pi_input pi) = None" and ne: "as \<noteq> []"
  shows "case free_slot mem as of Some (a, i) \<Rightarrow> dram_slot (fill_S1_walk mem pi False as) (int i) a (mem a)
    | None \<Rightarrow> dram_slot (fill_S1_walk mem pi False as) (- 1) (last as) (mem (last as))"
proof (cases "free_slot mem as")
  case None
  with walk_set_full [OF op, of mem "butlast as" "last as"] none ne
  have "dram_slot (fill_S1_walk mem pi False as) (- 1) (last as) (mem (last as))"
    by (simp add: key_slot_None free_slot_None)
  with None show ?thesis by simp
next
  case (Some ai)
  obtain a i where ai: "ai = (a, i)" by fastforce
  from free_slot_Some [OF Some [unfolded ai]] obtain xs ys where "as = xs @ a # ys" "\<forall>b \<in> set xs. \<not> has_room (mem b)"
    "has_room (mem a)" "int i = find_empty_slot_dram (hb_bitmap (mem a))" by blast
  with walk_set_room [OF op, of mem xs a ys] none have "dram_slot (fill_S1_walk mem pi False as) (int i) a (mem a)"
    by (simp add: key_slot_None)
  with Some ai show ?thesis by simp
qed

lemma fill_S1_result_spec:
  assumes "as \<noteq> []"
  shows "lookup_spec mem as pi (fill_S1_result mem as pi)"
proof (cases "pi_op pi = PI_OPCODE_GET \<and> pi_state pi = PI_STATE_HIT_BRAM")
  case True
  then show ?thesis by (simp add: lookup_spec_def fill_S1_result_def)
next
  case False
  then have r: "fill_S1_result mem as pi = fill_S1_walk mem pi False as" by (auto simp: fill_S1_result_def)
  show ?thesis
  proof (cases "key_slot mem as (pi_input pi)")
    case None
    with False walk_miss [OF None assms refl] walk_room [OF _ None assms] show ?thesis
      unfolding r lookup_spec_def by (auto simp: same_request_walk)
  next
    case (Some ai)
    obtain a i where ai: "ai = (a, i)" by fastforce
    from walk_hit [OF Some [unfolded ai] refl, of False] Some ai False show ?thesis
      unfolding r lookup_spec_def by (auto simp: same_request_walk)
  qed
qed

section \<open>Properties\<close>

text \<open>C16: However the cycles of \<open>fill_S1\<close> and the answers of the memory interleave, the stage hands on at most
  one word for the word it took, and it is the right one: a value comes from the first slot of the DRAM bucket
  chain whose key is the requested one, a GET for writing succeeds only when the permission bit of that slot is
  set, a lookup fails exactly when no slot of the chain has the key (or the permission is missing), and a SET is
  led to the slot of the key, else to the first unoccupied slot of the chain, else to the chain's last bucket.\<close>

theorem fill_S1_safe:
  assumes "f1_state st = FILL_IDLE" and "chain mem n (range_get (pi_hash pi) 9 0) = Some as"
  shows "sys_out (fold (S1_step mem) es (S1_start st pi)) = [] \<or>
    (\<exists>r. sys_out (fold (S1_step mem) es (S1_start st pi)) = [r] \<and> lookup_spec mem as pi r)"
  using S1_run_out [OF assms, of es] fill_S1_result_spec [OF chain_nonempty [OF assms(2)], of mem pi] by auto

theorem fill_S1_safe_witness:
  "\<exists>es r. sys_out (fold (S1_step example_mem) es (S1_start fill_S1_init (example_get 1029))) = [r] \<and> pi_output r = 0x2000 \<and>
     pi_output_status r = PI_OUTPUT_SUCCEED"
proof -
  let ?es = "concat (replicate (Suc (3 * length [5 :: 32 word, 2000])) [Cycle, Serve])"
  let ?out = "sys_out (fold (S1_step example_mem) ?es (S1_start fill_S1_init (example_get 1029)))"
  have st: "f1_state fill_S1_init = FILL_IDLE" by (simp add: fill_S1_init_def)
  have "?out \<noteq> []"
    using S1_rounds_out [OF st example_chain] by simp
  with fill_S1_safe [OF st example_chain, of ?es] obtain r where r: "?out = [r]" "lookup_spec example_mem [5, 2000] (example_get 1029) r"
    by blast
  have slots: "[0..<7] = [0, 1, 2, 3, 4, 5, 6 :: nat]" by (simp add: upt_rec)
  have "key_slot example_mem [5, 2000] 1029 = Some (2000, 0)"
    by (simp add: key_slot_def chain_slots_def slots example_mem_def hb_simps)
  moreover have "hb_val (example_mem 2000) 0 = 0x2000" by (simp add: example_mem_def hb_simps)
  moreover have "pi_input (example_get 1029) = 1029" "\<not> pi_rw (example_get 1029)" "pi_state (example_get 1029) \<noteq> PI_STATE_HIT_BRAM"
    by (simp_all add: example_get_def pi_rw_def PI_OPCODE_GET_def PI_STATE_MISS_BRAM_def PI_STATE_HIT_BRAM_def)
  ultimately have "pi_output r = 0x2000 \<and> pi_output_status r = PI_OUTPUT_SUCCEED"
    using r(2) by (simp add: lookup_spec_def)
  with r(1) show ?thesis by blast
qed

end
