(* ===== verification/Paging_Unit.thy ===== *)
theory Paging_Unit
  imports Paging_Table
begin

unbundle bit_operations_syntax

text \<open>
  What one request does to the two tables: the BRAM comparison, the DRAM walk and the write back
  as one transaction on the memories, and the invariant that makes the BRAM a cache of the DRAM
  table. That the data path performs these transactions is the subject of \<open>Paging_Run\<close>.
\<close>

section \<open>GET\<close>

lemma walk_get:
  fixes mem :: bucket_mem and found :: bool
  assumes "pi_op pi = PI_OPCODE_GET" and "as \<noteq> []"
  defines "r \<equiv> fill_S1_walk mem pi found as"
  shows "chain_get mem as (pi_input pi) = None \<Longrightarrow>
      pi_state r = pi_state pi OR PI_STATE_MISS_DRAM \<and> pi_output_status r = PI_OUTPUT_FAILURE \<and> pi_output r = 0"
    and "chain_get mem as (pi_input pi) = Some (v, p) \<Longrightarrow> pi_rw pi \<Longrightarrow> \<not> p \<Longrightarrow>
      r = pi\<lparr>pi_state := (pi_state pi OR PI_STATE_HIT_DRAM) OR PI_STATE_NO_PERM, pi_slot_dram := 0,
             pi_output_status := PI_OUTPUT_FAILURE, pi_output := 0\<rparr>"
    and "chain_get mem as (pi_input pi) = Some (v, p) \<Longrightarrow> \<not> (pi_rw pi \<and> \<not> p) \<Longrightarrow>
      \<exists>a i. i < 7 \<and> hb_key (mem a) i = pi_input pi \<and> hb_val (mem a) i = v \<and>
      r = pi\<lparr>pi_state := pi_state pi OR PI_STATE_HIT_DRAM, pi_slot_dram := int i, pi_hb_dram := mem a,
             pi_hb_dram_addr := range_get a 25 0, pi_output_status := PI_OUTPUT_SUCCEED, pi_output := v\<rparr>"
proof -
  have miss: "fill_S1_miss pi a found hb = (pi, found)" for a hb
    using assms(1) by (simp add: fill_S1_miss_def PI_OPCODE_SET_def PI_OPCODE_GET_def)
  have cons: "fill_S1_walk mem pi found (a # bs) =
      (if hb_compare (mem a) (pi_input pi) < 7 then fill_S1_hit pi a (mem a) (hb_compare (mem a) (pi_input pi))
       else if bs = [] then fill_S1_end pi a found (mem a) else fill_S1_walk mem pi found bs)" for a bs
    by (simp add: miss Let_def NR_SLOTS_PER_BUCKET_def)
  have get: "chain_get mem (a # bs) (pi_input pi) =
      (if hb_compare (mem a) (pi_input pi) < 7
       then Some (hb_val (mem a) (hb_compare (mem a) (pi_input pi)), hb_perm (mem a) (hb_compare (mem a) (pi_input pi)))
       else chain_get mem bs (pi_input pi))" for a bs
    by (simp add: hb_get_def Let_def NR_SLOTS_PER_BUCKET_def)
  show "chain_get mem as (pi_input pi) = None \<Longrightarrow>
      pi_state r = pi_state pi OR PI_STATE_MISS_DRAM \<and> pi_output_status r = PI_OUTPUT_FAILURE \<and> pi_output r = 0"
    unfolding r_def using assms(2)
    by (induction as) (auto simp: get cons fill_S1_end_def Let_def simp del: fill_S1_walk.simps(2) chain_get.simps(2) split: if_splits)
  show "chain_get mem as (pi_input pi) = Some (v, p) \<Longrightarrow> pi_rw pi \<Longrightarrow> \<not> p \<Longrightarrow>
      r = pi\<lparr>pi_state := (pi_state pi OR PI_STATE_HIT_DRAM) OR PI_STATE_NO_PERM, pi_slot_dram := 0,
             pi_output_status := PI_OUTPUT_FAILURE, pi_output := 0\<rparr>"
    unfolding r_def using assms(2,1)
    by (induction as) (auto simp: get cons fill_S1_hit_def Let_def pi_op_def pi_rw_def
        simp del: fill_S1_walk.simps(2) chain_get.simps(2) split: if_splits)
  show "chain_get mem as (pi_input pi) = Some (v, p) \<Longrightarrow> \<not> (pi_rw pi \<and> \<not> p) \<Longrightarrow>
      \<exists>a i. i < 7 \<and> hb_key (mem a) i = pi_input pi \<and> hb_val (mem a) i = v \<and>
      r = pi\<lparr>pi_state := pi_state pi OR PI_STATE_HIT_DRAM, pi_slot_dram := int i, pi_hb_dram := mem a,
             pi_hb_dram_addr := range_get a 25 0, pi_output_status := PI_OUTPUT_SUCCEED, pi_output := v\<rparr>"
    unfolding r_def using assms(2,1)
  proof (induction as)
    case (Cons a as)
    show ?case
    proof (cases "hb_compare (mem a) (pi_input pi) < 7")
      case True
      with Cons.prems compare_key [OF True] show ?thesis
        by (intro exI [of _ a] exI [of _ "hb_compare (mem a) (pi_input pi)"])
          (auto simp: get cons fill_S1_hit_def Let_def pi_op_def pi_rw_def simp del: fill_S1_walk.simps(2) chain_get.simps(2))
    next
      case False
      with Cons show ?thesis
        by (cases as) (auto simp: get cons simp del: fill_S1_walk.simps(2) chain_get.simps(2))
    qed
  qed simp
qed

section \<open>The BRAM bucket\<close>

text \<open>The pair ends up in exactly one slot of the bucket, the others keep their pairs.\<close>

definition bram_put :: "bucket \<Rightarrow> 32 word \<Rightarrow> 32 word \<Rightarrow> bucket \<Rightarrow> bool" where
  "bram_put hb k v hb' \<longleftrightarrow>
     (\<exists>i < 7. hb_key hb' i = k \<and> hb_val hb' i = v \<and>
        (\<forall>j < 7. j \<noteq> i \<longrightarrow> hb_key hb' j = hb_key hb j \<and> hb_val hb' j = hb_val hb j \<and> (k \<noteq> 0 \<longrightarrow> hb_key hb j \<noteq> k)))"

text \<open>A cached bucket: the non-zero keys are distinct, hash to this bucket, and carry the value the
  table has for them.\<close>

definition bram_ok :: "(32 word \<Rightarrow> (32 word \<times> bool) option) \<Rightarrow> 32 word \<Rightarrow> bucket \<Rightarrow> bool" where
  "bram_ok T x hb \<longleftrightarrow>
     (\<forall>i < 7. hb_key hb i \<noteq> 0 \<longrightarrow> range_get (hb_key hb i) 5 0 = x \<and> (\<exists>p. T (hb_key hb i) = Some (hb_val hb i, p))) \<and>
     (\<forall>i < 7. \<forall>j < 7. hb_key hb i \<noteq> 0 \<longrightarrow> hb_key hb i = hb_key hb j \<longrightarrow> i = j)"

lemma bram_ok_put:
  assumes ok: "bram_ok T x hb" and put: "bram_put hb k v hb'"
    and new: "k \<noteq> 0 \<Longrightarrow> range_get k 5 0 = x \<and> (\<exists>p. T' k = Some (v, p))"
    and old: "\<And>k'. k' \<noteq> k \<Longrightarrow> k' \<noteq> 0 \<Longrightarrow> T' k' = T k'"
  shows "bram_ok T' x hb'"
proof -
  obtain i where i: "i < 7" "hb_key hb' i = k" "hb_val hb' i = v"
    and other: "\<And>j. j < 7 \<Longrightarrow> j \<noteq> i \<Longrightarrow> hb_key hb' j = hb_key hb j \<and> hb_val hb' j = hb_val hb j \<and> (k \<noteq> 0 \<longrightarrow> hb_key hb j \<noteq> k)"
    using put unfolding bram_put_def by blast
  have "range_get (hb_key hb' j) 5 0 = x \<and> (\<exists>p. T' (hb_key hb' j) = Some (hb_val hb' j, p))"
    if "j < 7" "hb_key hb' j \<noteq> 0" for j
  proof (cases "j = i")
    case True
    with i new that show ?thesis by auto
  next
    case False
    then have "hb_key hb j \<noteq> 0" "hb_key hb j \<noteq> k" using that other [of j] by auto
    with ok that False other [of j] old show ?thesis by (auto simp: bram_ok_def)
  qed
  moreover have "j = l" if "j < 7" "l < 7" "hb_key hb' j \<noteq> 0" "hb_key hb' j = hb_key hb' l" for j l
  proof -
    have "hb_key hb j = hb_key hb l \<and> hb_key hb j \<noteq> 0 \<Longrightarrow> j = l"
      using ok that(1,2) unfolding bram_ok_def by blast
    with that i(2) other [of j] other [of l] show ?thesis by metis
  qed
  ultimately show ?thesis unfolding bram_ok_def by blast
qed

lemma bram_ok_cong:
  assumes "bram_ok T x hb" and "\<And>k'. k' \<noteq> 0 \<Longrightarrow> range_get k' 5 0 = x \<Longrightarrow> T' k' = T k'"
  shows "bram_ok T' x hb"
  using assms by (simp add: bram_ok_def)

lemma bram_ok_compare:
  assumes "bram_ok T x hb" and "k \<noteq> 0" and "hb_compare hb k < 7"
  shows "\<exists>p. T k = Some (hb_val hb (hb_compare hb k), p)"
  using assms compare_key [OF assms(3)] by (auto simp: bram_ok_def)

text \<open>The state word: bit 0 says that BRAM hit, bit 8 that it missed; the DRAM walk keeps both.\<close>

lemma state_flag:
  "w AND PI_STATE_HIT_BRAM = PI_STATE_HIT_BRAM \<longleftrightarrow> bit w 0"
  "w AND PI_STATE_MISS_BRAM = PI_STATE_MISS_BRAM \<longleftrightarrow> bit w 8"
  "w AND PI_STATE_HIT_DRAM = PI_STATE_HIT_DRAM \<longleftrightarrow> bit w 4"
proof -
  have "w AND (2 ^ n) = 2 ^ n \<longleftrightarrow> bit w n" if "n < 32" for w :: "32 word" and n
    using that by (simp add: bit_eq_iff [of _ "2 ^ n"] bit_simps) auto
  from this [of 0] this [of 8] this [of 4] show
    "w AND PI_STATE_HIT_BRAM = PI_STATE_HIT_BRAM \<longleftrightarrow> bit w 0"
    "w AND PI_STATE_MISS_BRAM = PI_STATE_MISS_BRAM \<longleftrightarrow> bit w 8"
    "w AND PI_STATE_HIT_DRAM = PI_STATE_HIT_DRAM \<longleftrightarrow> bit w 4"
    by (simp_all add: PI_STATE_HIT_BRAM_def PI_STATE_MISS_BRAM_def PI_STATE_HIT_DRAM_def)
qed

lemma state_bits [simp]:
  "bit PI_STATE_HIT_DRAM n \<longleftrightarrow> n = 4" "bit PI_STATE_MISS_DRAM n \<longleftrightarrow> n = 12" "bit PI_STATE_NO_PERM n \<longleftrightarrow> n = 15"
  "bit PI_STATE_HIT_BRAM n \<longleftrightarrow> n = 0" "bit PI_STATE_MISS_BRAM n \<longleftrightarrow> n = 8"
proof -
  have "bit ((2 :: 32 word) ^ m) n \<longleftrightarrow> n = m" if "m < 32" for m
    using that by (auto simp: bit_simps)
  from this [of 4] this [of 12] this [of 15] this [of 0] this [of 8] show
    "bit PI_STATE_HIT_DRAM n \<longleftrightarrow> n = 4" "bit PI_STATE_MISS_DRAM n \<longleftrightarrow> n = 12" "bit PI_STATE_NO_PERM n \<longleftrightarrow> n = 15"
    "bit PI_STATE_HIT_BRAM n \<longleftrightarrow> n = 0" "bit PI_STATE_MISS_BRAM n \<longleftrightarrow> n = 8"
    by (simp_all add: PI_STATE_HIT_BRAM_def PI_STATE_MISS_BRAM_def PI_STATE_HIT_DRAM_def PI_STATE_MISS_DRAM_def PI_STATE_NO_PERM_def)
qed

lemma walk_state:
  "n = 0 \<or> n = 8 \<Longrightarrow> bit (pi_state (fill_S1_walk mem pi found as)) n = bit (pi_state pi) n"
proof (induction as arbitrary: pi found)
  case (Cons a as)
  have miss: "pi_state (fst (fill_S1_miss pi a found (mem a))) = pi_state pi"
    by (simp add: fill_S1_miss_def Let_def)
  with Cons show ?case
    by (auto simp: Let_def fill_S1_hit_def fill_S1_end_def bit_simps split: prod.split)
qed simp

lemma compare_bram_pi_simps:
  "same_request (pi\<lparr>pi_hb_bram := hb, pi_slot := pi_slot (compare_bram_pi pi hb)\<rparr>) (compare_bram_pi pi hb)"
  "pi_hb_bram (compare_bram_pi pi hb) = hb"
  "pi_op pi = PI_OPCODE_SET \<Longrightarrow> bit (pi_state (compare_bram_pi pi hb)) 0 \<longleftrightarrow> hb_compare hb (pi_input pi) < 7"
  "pi_op pi = PI_OPCODE_SET \<Longrightarrow> hb_compare hb (pi_input pi) < 7 \<Longrightarrow> pi_slot (compare_bram_pi pi hb) = int (hb_compare hb (pi_input pi))"
  by (auto simp: compare_bram_pi_def same_request_def Let_def NR_SLOTS_PER_BUCKET_def pi_op_def pi_rw_def
      PI_OPCODE_SET_def PI_OPCODE_GET_def bit_simps)

lemma bram_put_slot:
  assumes "i < 7" and "k \<noteq> 0 \<Longrightarrow> (\<forall>j < 7. j \<noteq> i \<longrightarrow> hb_key hb j \<noteq> k)"
  shows "bram_put hb k v (hb_set_val (hb_set_key hb i k) i v)"
    and "bram_put hb k v (hb_set_val (hb_set_key (hb_set_used hb i) i k) i v)"
    and "bram_put hb k v (hb_set_perm (hb_set_val (hb_set_key hb i k) i v) i p)"
    and "bram_put hb k v (hb_set_perm (hb_set_val (hb_set_key (hb_set_used hb i) i k) i v) i p)"
  using assms unfolding bram_put_def by (auto intro!: exI [of _ i] simp: hb_simps)

section \<open>Transactions\<close>

text \<open>The two tables; \<open>pm_depth\<close> bounds the length of the DRAM chains.\<close>

record paging_mem =
  pm_depth :: nat
  pm_bram :: bucket_mem
  pm_dram :: bucket_mem

fun bram_commit :: "mem_cmd list \<Rightarrow> bucket list \<Rightarrow> bucket_mem \<Rightarrow> bucket_mem" where
  "bram_commit (c # cs) (d # ds) mem = bram_commit cs ds (mem(mc_address c := d))"
| "bram_commit _ _ mem = mem"

definition bram_index :: "32 word \<Rightarrow> 32 word" where
  "bram_index k = range_get k (6 - 1) 0"

text \<open>The word of a request after \<open>remux\<close> and \<open>compute_hash\<close>.\<close>

definition hashed :: "mapping_request \<Rightarrow> 1 word \<Rightarrow> pipeline_info" where
  "hashed req ch = (let pi = remux_info req ch in pi\<lparr>pi_hash := pi_input pi\<rparr>)"

definition looked_up :: "paging_mem \<Rightarrow> pipeline_info \<Rightarrow> pipeline_info" where
  "looked_up s pi =
     fill_S1_result (pm_dram s) (the (chain (pm_dram s) (pm_depth s) (dram_index (pi_hash pi))))
       (compare_bram_pi pi (pm_bram s (bram_index (pi_hash pi))))"

definition paging_txn ::
  "32 word \<Rightarrow> nat \<Rightarrow> buddy_alloc_ret_if \<Rightarrow> pipeline_info \<Rightarrow> paging_mem \<Rightarrow> paging_mem \<times> pipeline_info stream" where
  "paging_txn base d resp pi s =
     (let y = S2_txn base d resp S2_idle (looked_up s pi)
      in (\<lparr>pm_depth = Suc (pm_depth s),
           pm_bram = bram_commit (f2_BRAM_wr_cmd (snd y)) (f2_BRAM_wr_data (snd y)) (pm_bram s),
           pm_dram = S2_mem y (pm_dram s)\<rparr>,
          f2_pi_out (snd y)))"

definition paging_map :: "paging_mem \<Rightarrow> 32 word \<Rightarrow> (32 word \<times> bool) option" where
  "paging_map s k = table_get (pm_depth s) (pm_dram s) k"

definition paging_inv :: "paging_mem \<Rightarrow> bool" where
  "paging_inv s \<longleftrightarrow> table_wf (pm_depth s) (pm_dram s) \<and>
     (\<forall>x < 64. bram_ok (paging_map s) x (pm_bram s x))"

lemma hashed_simps [simp]:
  "pi_input (hashed req ch) = mr_address req" "pi_length (hashed req ch) = mr_length req"
  "pi_hash (hashed req ch) = mr_address req" "pi_channel (hashed req ch) = ch"
  "pi_hb_dram (hashed req ch) = 0" "pi_opcode (hashed req ch) = remux_opcode (mr_opcode req)"
  by (simp_all add: hashed_def remux_info_def pi_zero_def Let_def)

lemma bram_index_less: "bram_index k < 64"
proof -
  have "unat (range_get k 5 0 :: 32 word) < 2 ^ 6" by (rule unat_range_get_less) simp
  then show ?thesis by (simp add: bram_index_def word_less_nat_alt)
qed

text \<open>The BRAM writes of a SET, on every path.\<close>

lemma S2_txn_set_bram:
  assumes "pi_op pi = PI_OPCODE_SET"
  shows "f2_BRAM_wr_cmd (snd (S2_txn base d resp S2_idle pi)) = [bram_wr_cmd pi]"
    and "f2_BRAM_wr_data (snd (S2_txn base d resp S2_idle pi)) = [pi_hb_bram (set_bram pi)]"
proof -
  have cmd: "bram_wr_cmd (set_bram pi) = bram_wr_cmd pi" by (simp add: bram_wr_cmd_def)
  consider "pi_slot_dram pi \<noteq> - 1" | "pi_slot_dram pi = - 1" "br_stat resp = BUDDY_SUCCESS"
    | "pi_slot_dram pi = - 1" "br_stat resp \<noteq> BUDDY_SUCCESS" by blast
  then have "f2_BRAM_wr_cmd (snd (S2_txn base d resp S2_idle pi)) = [bram_wr_cmd pi] \<and>
      f2_BRAM_wr_data (snd (S2_txn base d resp S2_idle pi)) = [pi_hb_bram (set_bram pi)]"
    using S2_txn_slot(4,5) [of S2_idle pi base d resp, OF S2_idle_state assms]
      S2_txn_full(4,5) [of S2_idle pi resp base d, OF S2_idle_state assms]
      S2_txn_nomem(3,4) [of S2_idle pi resp base d, OF S2_idle_state assms]
    unfolding cmd by cases blast+
  then show "f2_BRAM_wr_cmd (snd (S2_txn base d resp S2_idle pi)) = [bram_wr_cmd pi]"
    and "f2_BRAM_wr_data (snd (S2_txn base d resp S2_idle pi)) = [pi_hb_bram (set_bram pi)]"
    by blast+
qed

text \<open>What the write back of a SET makes of the BRAM bucket the word was compared with.\<close>

lemma set_bram_put:
  assumes "pi_op pi = PI_OPCODE_SET" and same: "same_request (compare_bram_pi pi hb) pi'"
    and state: "bit (pi_state pi') 0 = bit (pi_state (compare_bram_pi pi hb)) 0"
    and dist: "\<forall>i < 7. \<forall>j < 7. hb_key hb i \<noteq> 0 \<longrightarrow> hb_key hb i = hb_key hb j \<longrightarrow> i = j"
  shows "bram_put hb (pi_input pi) (pi_length pi) (pi_hb_bram (set_bram pi'))"
proof -
  have pi': "pi_hb_bram pi' = hb" "pi_input pi' = pi_input pi" "pi_length pi' = pi_length pi"
    "pi_slot pi' = pi_slot (compare_bram_pi pi hb)"
    using same compare_bram_pi_simps(1,2) [of pi hb] by (auto simp: same_request_def)
  let ?i = "hb_compare hb (pi_input pi)"
  show ?thesis
  proof (cases "?i < 7")
    case True
    then have "\<forall>j < 7. j \<noteq> ?i \<longrightarrow> hb_key hb j \<noteq> pi_input pi" if "pi_input pi \<noteq> 0"
      using dist compare_key [OF True] that by metis
    with True state compare_bram_pi_simps(3,4) [OF assms(1), of hb] show ?thesis
      using bram_put_slot(3) [of ?i "pi_input pi" hb "pi_length pi"] by (simp add: set_bram_def state_flag pi' Let_def)
  next
    case False
    then have "\<forall>j < 7. hb_key hb j \<noteq> pi_input pi"
      using compare_hit_iff [of hb "pi_input pi"] by blast
    moreover obtain i where "i < 7" "find_empty_slot (hb_bitmap hb) = int i"
      using find_empty_slot_range by blast
    ultimately show ?thesis
      using False state compare_bram_pi_simps(3) [OF assms(1), of hb] bram_put_slot(4) [of i "pi_input pi" hb "pi_length pi"]
      by (simp add: set_bram_def state_flag pi' Let_def)
  qed
qed

lemma get_fill_put:
  assumes "hb_compare (pi_hb_bram pi) k \<ge> 7" and "hb_key (pi_hb_dram pi) (nat (pi_slot_dram pi)) = k"
  shows "bram_put (pi_hb_bram pi) k (hb_val (pi_hb_dram pi) (nat (pi_slot_dram pi))) (pi_hb_bram (get_fill_bram pi))"
proof -
  have "\<not> hb_compare (pi_hb_bram pi) k < 7" using assms(1) by simp
  then have "\<forall>j < 7. hb_key (pi_hb_bram pi) j \<noteq> k"
    unfolding compare_hit_iff by blast
  moreover obtain i where "i < 7" "find_empty_slot (hb_bitmap (pi_hb_bram pi)) = int i"
    using find_empty_slot_range by blast
  ultimately show ?thesis
    using assms(2) bram_put_slot(2) [of i k "pi_hb_bram pi"] by (simp add: get_fill_bram_def Let_def)
qed

text \<open>The pollution case: a denied write copies the empty pair.\<close>

lemma get_fill_zero:
  assumes "pi_hb_dram pi = 0"
  shows "bram_put (pi_hb_bram pi) 0 0 (pi_hb_bram (get_fill_bram pi))"
proof -
  obtain i where "i < 7" "find_empty_slot (hb_bitmap (pi_hb_bram pi)) = int i"
    using find_empty_slot_range by blast
  then show ?thesis
    using assms bram_put_slot(2) [of i 0 "pi_hb_bram pi" 0] by (simp add: get_fill_bram_def Let_def hb_simps)
qed

text \<open>Keeping the invariant: the buckets of other BRAM indices hold other keys.\<close>

lemma bram_all_ok:
  assumes ok: "\<forall>x < 64. bram_ok T x (bram x)" and put: "bram_put (bram (bram_index a)) k v hb'"
    and k: "k = 0 \<or> k = a" and new: "k \<noteq> 0 \<Longrightarrow> \<exists>p. T' k = Some (v, p)" and old: "\<And>k'. k' \<noteq> k \<Longrightarrow> k' \<noteq> 0 \<Longrightarrow> T' k' = T k'"
  shows "\<forall>x < 64. bram_ok T' x ((bram(bram_index a := hb')) x)"
proof (intro allI impI)
  fix x :: "32 word" assume x: "x < 64"
  show "bram_ok T' x ((bram(bram_index a := hb')) x)"
  proof (cases "x = bram_index a")
    case True
    have "bram_ok T' x hb'"
    proof (rule bram_ok_put [of T x "bram x" k v])
      show "bram_ok T x (bram x)" using ok x by blast
      show "bram_put (bram x) k v hb'" using put True by simp
      show "range_get k 5 0 = x \<and> (\<exists>p. T' k = Some (v, p))" if "k \<noteq> 0"
        using True k new [OF that] that by (simp add: bram_index_def)
    qed (rule old)
    with True show ?thesis by simp
  next
    case False
    then have "T' k' = T k'" if "k' \<noteq> 0" "range_get k' 5 0 = x" for k'
      using that k old [of k'] by (cases "k' = a") (auto simp: bram_index_def)
    with ok x False show ?thesis by (auto intro: bram_ok_cong)
  qed
qed

lemma compare_bram_pi_request:
  "pi_input (compare_bram_pi pi hb) = pi_input pi" "pi_hash (compare_bram_pi pi hb) = pi_hash pi"
  "pi_length (compare_bram_pi pi hb) = pi_length pi" "pi_op (compare_bram_pi pi hb) = pi_op pi"
  "pi_rw (compare_bram_pi pi hb) = pi_rw pi" "pi_channel (compare_bram_pi pi hb) = pi_channel pi"
  "pi_hb_dram (compare_bram_pi pi hb) = pi_hb_dram pi"
  by (auto simp: compare_bram_pi_def Let_def pi_op_def pi_rw_def)

lemma paging_txn_set:
  fixes base :: "32 word" and d :: nat
  assumes inv: "paging_inv s" and op: "pi_op pi = PI_OPCODE_SET" and hash: "pi_hash pi = pi_input pi"
    and nz: "pi_input pi \<noteq> 0" and ok: "br_stat resp = BUDDY_SUCCESS"
    and new: "unused_index (pm_depth s) (pm_dram s) (new_index base resp)"
  defines "s' \<equiv> fst (paging_txn base d resp pi s)"
  shows "paging_inv s'" and "paging_map s' (pi_input pi) = Some (pi_length pi, pi_rw pi)"
    and "k' \<noteq> pi_input pi \<Longrightarrow> k' \<noteq> 0 \<Longrightarrow> paging_map s' k' = paging_map s k'"
    and "\<exists>pi'. snd (paging_txn base d resp pi s) = [pi'] \<and> pi_channel pi' = pi_channel pi \<and> pi_output_status pi' = PI_OUTPUT_SUCCEED"
proof -
  let ?b = "bram_index (pi_input pi)" and ?n = "pm_depth s" and ?mem = "pm_dram s"
  let ?pi = "compare_bram_pi pi (pm_bram s ?b)"
  let ?y = "S2_txn base d resp S2_idle (looked_up s pi)"
  have wf: "table_wf ?n ?mem" and bram: "\<forall>x < 64. bram_ok (paging_map s) x (pm_bram s x)"
    using inv by (auto simp: paging_inv_def)
  have look: "looked_up s pi = fill_S1_walk ?mem ?pi False (the (chain ?mem ?n (dram_index (pi_input pi))))"
    by (simp add: looked_up_def hash set_result compare_bram_pi_request op)
  have y: "?y = dram_set base d resp ?n ?pi ?mem"
    by (simp add: dram_set_def looked_up_def compare_bram_pi_request hash)
  note set = dram_set_correct [OF wf _ _ _ ok new, of ?pi, unfolded compare_bram_pi_request, OF op hash nz, where d = d, folded y]
  have same: "same_request ?pi (looked_up s pi)" unfolding look by (rule same_request_walk)
  have op': "pi_op (looked_up s pi) = PI_OPCODE_SET"
    using same_request_op [OF same] op by (simp add: compare_bram_pi_request)
  have hash': "pi_hash (looked_up s pi) = pi_input pi"
    using same hash by (simp add: same_request_def compare_bram_pi_request)
  have s': "s' = \<lparr>pm_depth = Suc ?n, pm_bram = (pm_bram s)(?b := pi_hb_bram (set_bram (looked_up s pi))), pm_dram = S2_mem ?y ?mem\<rparr>"
    using hash' by (simp add: s'_def paging_txn_def Let_def S2_txn_set_bram [OF op'] bram_wr_cmd_def bram_index_def)
  show map: "paging_map s' (pi_input pi) = Some (pi_length pi, pi_rw pi)"
    using set(2) by (simp add: paging_map_def s')
  show other: "paging_map s' k' = paging_map s k'" if "k' \<noteq> pi_input pi" "k' \<noteq> 0" for k'
    using set(3) [OF that] by (simp add: paging_map_def s')
  show "\<exists>pi'. snd (paging_txn base d resp pi s) = [pi'] \<and> pi_channel pi' = pi_channel pi \<and> pi_output_status pi' = PI_OUTPUT_SUCCEED"
    using set(4) by (simp add: paging_txn_def Let_def)
  have "bram_put (pm_bram s ?b) (pi_input pi) (pi_length pi) (pi_hb_bram (set_bram (looked_up s pi)))"
    using bram bram_index_less [of "pi_input pi"]
    by (intro set_bram_put [OF op same]) (auto simp: look walk_state bram_ok_def)
  from bram_all_ok [OF bram this, of "paging_map s'"] map other
  have "\<forall>x < 64. bram_ok (paging_map s') x (pm_bram s' x)"
    by (simp add: s')
  with set(1) show "paging_inv s'"
    by (simp add: paging_inv_def s' paging_map_def)
qed

text \<open>What a GET is answered: \<open>m\<close> is the entry of the table for the key.\<close>

definition get_answer :: "(32 word \<times> bool) option \<Rightarrow> bool \<Rightarrow> 1 word \<times> 32 word" where
  "get_answer m rw =
     (case m of None \<Rightarrow> (PI_OUTPUT_FAILURE, 0)
      | Some (v, p) \<Rightarrow> if rw \<and> \<not> p then (PI_OUTPUT_FAILURE, 0) else (PI_OUTPUT_SUCCEED, v))"

lemma get_answer_simps [simp]:
  "get_answer None rw = (PI_OUTPUT_FAILURE, 0)"
  "get_answer (Some (v, p)) rw = (if rw \<and> \<not> p then (PI_OUTPUT_FAILURE, 0) else (PI_OUTPUT_SUCCEED, v))"
  by (simp_all add: get_answer_def)

lemma get_walk_answer:
  assumes "pi_op pi = PI_OPCODE_GET" and "as \<noteq> []"
  shows "(pi_output_status (fill_S1_walk mem pi found as), pi_output (fill_S1_walk mem pi found as)) =
    get_answer (chain_get mem as (pi_input pi)) (pi_rw pi)"
proof (cases "chain_get mem as (pi_input pi)")
  case None
  with walk_get(1) [OF assms None] show ?thesis by simp
next
  case (Some vp)
  obtain v p where vp: "vp = (v, p)" by fastforce
  show ?thesis
  proof (cases "pi_rw pi \<and> \<not> p")
    case True
    with walk_get(2) [OF assms, of mem v p found] Some vp show ?thesis by simp
  next
    case False
    with walk_get(3) [OF assms, of mem v p found] Some vp show ?thesis by auto
  qed
qed

text \<open>The word after the lookup, when the BRAM bucket does not hold the key.\<close>

lemma looked_up_miss:
  assumes "hb_compare (pm_bram s (bram_index (pi_hash pi))) (pi_input pi) \<ge> 7"
  shows "looked_up s pi = fill_S1_walk (pm_dram s) (compare_bram_pi pi (pm_bram s (bram_index (pi_hash pi)))) False
    (the (chain (pm_dram s) (pm_depth s) (dram_index (pi_hash pi))))"
  using assms by (simp add: looked_up_def fill_S1_result_def compare_bram_pi_def NR_SLOTS_PER_BUCKET_def Let_def
      PI_STATE_MISS_BRAM_def PI_STATE_HIT_BRAM_def)

lemma get_fill_bram_frame [simp]:
  "pi_output (get_fill_bram pi) = pi_output pi" "pi_output_status (get_fill_bram pi) = pi_output_status pi"
  "pi_channel (get_fill_bram pi) = pi_channel pi"
  by (simp_all add: get_fill_bram_def Let_def)

text \<open>A GET leaves the DRAM alone; what it writes to BRAM keeps the cache coherent.\<close>

lemma paging_txn_get_miss:
  fixes base :: "32 word" and d :: nat and resp :: buddy_alloc_ret_if
  assumes inv: "paging_inv s" and op: "pi_op pi = PI_OPCODE_GET" and hash: "pi_hash pi = pi_input pi"
    and dram0: "pi_hb_dram pi = 0" and miss: "hb_compare (pm_bram s (bram_index (pi_input pi))) (pi_input pi) \<ge> 7"
  defines "s' \<equiv> fst (paging_txn base d resp pi s)"
  shows "\<forall>x < 64. bram_ok (paging_map s) x (pm_bram s' x)"
    and "\<exists>pi'. snd (paging_txn base d resp pi s) = [pi'] \<and> pi_channel pi' = pi_channel pi \<and>
      (pi_output_status pi', pi_output pi') = get_answer (paging_map s (pi_input pi)) (pi_rw pi)"
proof -
  let ?b = "bram_index (pi_input pi)" and ?n = "pm_depth s" and ?mem = "pm_dram s"
  let ?hb = "pm_bram s ?b" and ?k = "pi_input pi"
  let ?pi = "compare_bram_pi pi ?hb" and ?l = "looked_up s pi"
  have bram: "\<forall>x < 64. bram_ok (paging_map s) x (pm_bram s x)"
    using inv by (auto simp: paging_inv_def)
  obtain as where as: "chain ?mem ?n (dram_index ?k) = Some as"
    using inv table_wf_chain [OF _ dram_index_less] unfolding paging_inv_def by metis
  then have ne: "as \<noteq> []" by (rule chain_nonempty)
  have get: "paging_map s ?k = chain_get ?mem as ?k"
    by (simp add: paging_map_def table_get_def as)
  have op1: "pi_op ?pi = PI_OPCODE_GET" by (simp add: compare_bram_pi_request op)
  have l: "?l = fill_S1_walk ?mem ?pi False as"
    using looked_up_miss [of s pi] miss hash as by simp
  have same: "same_request ?pi ?l" unfolding l by (rule same_request_walk)
  have lr: "pi_op ?l = PI_OPCODE_GET" "pi_hash ?l = ?k" "pi_hb_bram ?l = ?hb" "pi_channel ?l = pi_channel pi"
    using same same_request_op [OF same] op1 hash by (simp_all add: same_request_def compare_bram_pi_request compare_bram_pi_simps)
  have missbit: "bit (pi_state ?l) 8"
    unfolding l using miss by (simp add: walk_state) (simp add: compare_bram_pi_def Let_def NR_SLOTS_PER_BUCKET_def)
  have ans: "(pi_output_status ?l, pi_output ?l) = get_answer (paging_map s ?k) (pi_rw pi)"
    using get_walk_answer [OF op1 ne, of ?mem False] by (simp add: l get compare_bram_pi_request)
  note txn = S2_txn_get [OF S2_idle_state lr(1), of base d resp, unfolded state_flag]
  have put: "\<exists>k v. bram_put ?hb k v (pi_hb_bram (get_fill_bram ?l)) \<and> (k = 0 \<or> k = ?k) \<and> (k \<noteq> 0 \<longrightarrow> (\<exists>p. paging_map s k = Some (v, p)))"
    if "bit (pi_state ?l) 4"
  proof -
    have "chain_get ?mem as ?k \<noteq> None"
    proof
      assume "chain_get ?mem as ?k = None"
      then have "pi_state ?l = pi_state ?pi OR PI_STATE_MISS_DRAM"
        unfolding l using walk_get(1) [OF op1 ne, of ?mem False] by (simp add: compare_bram_pi_request)
      with that miss show False
        by (simp add: bit_simps compare_bram_pi_def Let_def NR_SLOTS_PER_BUCKET_def)
    qed
    then obtain v p where vp: "chain_get ?mem as ?k = Some (v, p)" by auto
    show ?thesis
    proof (cases "pi_rw pi \<and> \<not> p")
      case True
      then have "pi_hb_dram ?l = 0"
        unfolding l using walk_get(2) [OF op1 ne, of ?mem v p False] vp dram0 by (simp add: compare_bram_pi_request)
      then show ?thesis using get_fill_zero [of ?l] lr(3) by auto
    next
      case False
      then obtain a i where "i < 7" "hb_key (?mem a) i = ?k" "hb_val (?mem a) i = v" "pi_hb_dram ?l = ?mem a" "pi_slot_dram ?l = int i"
        unfolding l using walk_get(3) [OF op1 ne, of ?mem v p False] vp by (auto simp: compare_bram_pi_request)
      then have "bram_put ?hb ?k v (pi_hb_bram (get_fill_bram ?l))"
        using get_fill_put [of ?l ?k] lr(3) miss by simp
      then show ?thesis using vp get by auto
    qed
  qed
  show "\<forall>x < 64. bram_ok (paging_map s) x (pm_bram s' x)"
  proof (cases "bit (pi_state ?l) 4")
    case True
    then have "pm_bram s' = (pm_bram s)(?b := pi_hb_bram (get_fill_bram ?l))"
      using txn(2) [OF missbit] lr(2) by (simp add: s'_def paging_txn_def Let_def bram_wr_cmd_def bram_index_def)
    with put [OF True] bram_all_ok [OF bram, of ?k] show ?thesis by metis
  next
    case False
    with txn(3) bram show ?thesis by (simp add: s'_def paging_txn_def Let_def)
  qed
  have "snd (paging_txn base d resp pi s) = [if bit (pi_state ?l) 4 then get_fill_bram ?l else ?l]"
    using txn(2) [OF missbit] txn(3) by (simp add: paging_txn_def Let_def)
  with ans lr(4) show "\<exists>pi'. snd (paging_txn base d resp pi s) = [pi'] \<and> pi_channel pi' = pi_channel pi \<and>
      (pi_output_status pi', pi_output pi') = get_answer (paging_map s ?k) (pi_rw pi)"
    by simp
qed

lemma paging_txn_get_hit:
  fixes base :: "32 word" and d :: nat and resp :: buddy_alloc_ret_if
  assumes inv: "paging_inv s" and op: "pi_op pi = PI_OPCODE_GET" and hash: "pi_hash pi = pi_input pi"
    and hit: "hb_compare (pm_bram s (bram_index (pi_input pi))) (pi_input pi) < 7"
  defines "hb \<equiv> pm_bram s (bram_index (pi_input pi))"
  defines "i \<equiv> hb_compare hb (pi_input pi)"
  shows "pm_bram (fst (paging_txn base d resp pi s)) = pm_bram s"
    and "\<exists>pi'. snd (paging_txn base d resp pi s) = [pi'] \<and> pi_channel pi' = pi_channel pi \<and>
      (pi_output_status pi', pi_output pi') =
        (if pi_rw pi \<and> \<not> hb_perm hb i then get_answer (paging_map s (pi_input pi)) True
         else (PI_OUTPUT_SUCCEED, hb_val hb i))"
proof -
  let ?n = "pm_depth s" and ?mem = "pm_dram s" and ?k = "pi_input pi"
  let ?pi = "compare_bram_pi pi hb" and ?l = "looked_up s pi"
  have i: "i < 7" using hit by (simp add: i_def hb_def)
  obtain as where as: "chain ?mem ?n (dram_index ?k) = Some as"
    using inv table_wf_chain [OF _ dram_index_less] unfolding paging_inv_def by metis
  then have ne: "as \<noteq> []" by (rule chain_nonempty)
  have op1: "pi_op ?pi = PI_OPCODE_GET" by (simp add: compare_bram_pi_request op)
  have l: "?l = fill_S1_result ?mem as ?pi" by (simp add: looked_up_def as hash hb_def)
  have same: "same_request ?pi ?l"
    unfolding l fill_S1_result_def using same_request_walk by simp
  have lr: "pi_op ?l = PI_OPCODE_GET" "pi_channel ?l = pi_channel pi"
    using same same_request_op [OF same] op1 by (simp_all add: same_request_def compare_bram_pi_request)
  have "\<not> bit (pi_state ?pi) 8"
    using i by (simp add: compare_bram_pi_def Let_def NR_SLOTS_PER_BUCKET_def bit_simps i_def)
  then have nomiss: "\<not> bit (pi_state ?l) 8"
    unfolding l by (simp add: fill_S1_result_def walk_state)
  note txn = S2_txn_get(3) [OF S2_idle_state lr(1), of base d resp, unfolded state_flag]
  show "pm_bram (fst (paging_txn base d resp pi s)) = pm_bram s"
    using txn nomiss by (simp add: paging_txn_def Let_def)
  have "(pi_output_status ?l, pi_output ?l) =
      (if pi_rw pi \<and> \<not> hb_perm hb i then get_answer (paging_map s ?k) True else (PI_OUTPUT_SUCCEED, hb_val hb i))"
  proof (cases "pi_rw pi \<and> \<not> hb_perm hb i")
    case True
    then have "pi_state ?pi \<noteq> PI_STATE_HIT_BRAM"
      using i op by (simp add: compare_bram_pi_def Let_def NR_SLOTS_PER_BUCKET_def i_def pi_op_def pi_rw_def
          PI_STATE_HIT_BRAM_def PI_STATE_NO_PERM_def)
    then have "?l = fill_S1_walk ?mem ?pi False as" by (simp add: l fill_S1_result_def)
    with True get_walk_answer [OF op1 ne, of ?mem False] show ?thesis
      by (simp add: compare_bram_pi_request paging_map_def table_get_def as)
  next
    case False
    then have "?pi = pi\<lparr>pi_hb_bram := hb, pi_state := PI_STATE_HIT_BRAM, pi_slot := int i,
        pi_output_status := PI_OUTPUT_SUCCEED, pi_output := hb_val hb i\<rparr>"
      using i op by (auto simp: compare_bram_pi_def Let_def NR_SLOTS_PER_BUCKET_def i_def pi_op_def pi_rw_def)
    with False op1 show ?thesis by (auto simp: l fill_S1_result_def)
  qed
  with txn nomiss lr show "\<exists>pi'. snd (paging_txn base d resp pi s) = [pi'] \<and> pi_channel pi' = pi_channel pi \<and>
      (pi_output_status pi', pi_output pi') =
        (if pi_rw pi \<and> \<not> hb_perm hb i then get_answer (paging_map s ?k) True else (PI_OUTPUT_SUCCEED, hb_val hb i))"
    by (simp add: paging_txn_def Let_def)
qed

lemma paging_txn_get:
  assumes inv: "paging_inv s" and op: "pi_op pi = PI_OPCODE_GET" and hash: "pi_hash pi = pi_input pi"
    and dram0: "pi_hb_dram pi = 0"
  shows "paging_inv (fst (paging_txn base d resp pi s))"
    and "paging_map (fst (paging_txn base d resp pi s)) k = paging_map s k"
    and "pi_input pi \<noteq> 0 \<Longrightarrow> \<not> pi_rw pi \<Longrightarrow> \<exists>pi'. snd (paging_txn base d resp pi s) = [pi'] \<and> pi_channel pi' = pi_channel pi \<and>
      (pi_output_status pi', pi_output pi') = get_answer (paging_map s (pi_input pi)) False"
proof -
  let ?s' = "fst (paging_txn base d resp pi s)"
  have wf: "table_wf (pm_depth s) (pm_dram s)" and bram: "\<forall>x < 64. bram_ok (paging_map s) x (pm_bram s x)"
    using inv by (simp_all add: paging_inv_def)
  have "same_request (compare_bram_pi pi (pm_bram s (bram_index (pi_hash pi)))) (looked_up s pi)"
    unfolding looked_up_def fill_S1_result_def using same_request_walk by simp
  from same_request_op [OF this] op have "pi_op (looked_up s pi) = PI_OPCODE_GET"
    by (simp add: compare_bram_pi_request)
  from S2_txn_get(1) [OF S2_idle_state this]
  have s': "pm_depth ?s' = Suc (pm_depth s)" "pm_dram ?s' = pm_dram s"
    by (simp_all add: paging_txn_def Let_def)
  then show map: "paging_map ?s' k = paging_map s k" for k
    by (simp add: paging_map_def table_get_Suc [OF wf])
  have "\<forall>x < 64. bram_ok (paging_map s) x (pm_bram ?s' x)"
    using paging_txn_get_miss(1) [OF inv op hash dram0, of base d resp] paging_txn_get_hit(1) [OF inv op hash, of base d resp] bram
    by (cases "hb_compare (pm_bram s (bram_index (pi_input pi))) (pi_input pi) < 7") (simp_all add: not_less)
  moreover have "paging_map ?s' = paging_map s" by (rule ext) (rule map)
  ultimately show "paging_inv ?s'"
    using s' table_wf_Suc [OF wf] by (simp add: paging_inv_def)
  assume nz: "pi_input pi \<noteq> 0" and rd: "\<not> pi_rw pi"
  show "\<exists>pi'. snd (paging_txn base d resp pi s) = [pi'] \<and> pi_channel pi' = pi_channel pi \<and>
      (pi_output_status pi', pi_output pi') = get_answer (paging_map s (pi_input pi)) False"
  proof (cases "hb_compare (pm_bram s (bram_index (pi_input pi))) (pi_input pi) < 7")
    case True
    with paging_txn_get_hit(2) [OF inv op hash, of base d resp] rd bram_ok_compare [OF _ nz True, of "paging_map s" "bram_index (pi_input pi)"]
      bram bram_index_less show ?thesis by auto
  next
    case False
    with paging_txn_get_miss(2) [OF inv op hash dram0, of base d resp] rd show ?thesis by simp
  qed
qed

section \<open>Properties\<close>

text \<open>A SET that needs a new bucket and gets no memory is answered with a failure and leaves
  the DRAM table alone, but its pair has been written to the BRAM bucket: the mapping that was
  refused is visible to the next GET.\<close>

theorem set_out_of_memory:
  assumes "pi_op pi = PI_OPCODE_SET" and "pi_slot_dram pi = - 1" and "br_stat resp \<noteq> BUDDY_SUCCESS"
    and slot: "0 \<le> pi_slot pi" "pi_slot pi < 7"
  shows "S2_mem (S2_txn base d resp S2_idle pi) mem = mem \<and>
    answers pi PI_OUTPUT_FAILURE (f2_pi_out (snd (S2_txn base d resp S2_idle pi))) \<and>
    (\<exists>hb i. f2_BRAM_wr_data (snd (S2_txn base d resp S2_idle pi)) = [hb] \<and> i < 7 \<and>
       hb_key hb i = pi_input pi \<and> hb_val hb i = pi_length pi)"
proof -
  note txn = S2_txn_nomem [OF S2_idle_state assms(1-3), of base d]
  obtain j where j: "j < 7" "find_empty_slot (hb_bitmap (pi_hb_bram pi)) = int j"
    using find_empty_slot_range by blast
  have "\<exists>i < 7. hb_key (pi_hb_bram (set_bram pi)) i = pi_input pi \<and> hb_val (pi_hb_bram (set_bram pi)) i = pi_length pi"
  proof (cases "bit (pi_state pi) 0")
    case True
    with slot show ?thesis
      by (intro exI [of _ "nat (pi_slot pi)"]) (simp add: set_bram_def state_flag hb_simps Let_def)
  next
    case False
    with j show ?thesis
      by (intro exI [of _ j]) (simp add: set_bram_def state_flag hb_simps Let_def)
  qed
  with txn(1,2,4) show ?thesis by auto
qed

theorem set_out_of_memory_witness:
  "S2_mem (S2_txn 0 3 \<lparr>br_stat = BUDDY_FAILED, br_addr = 0\<rparr> S2_idle
     (pi_zero\<lparr>pi_opcode := PI_OPCODE_SET, pi_input := 5, pi_length := 77, pi_slot_dram := - 1\<rparr>)) example_mem = example_mem"
  using set_out_of_memory [of "pi_zero\<lparr>pi_opcode := PI_OPCODE_SET, pi_input := 5, pi_length := 77, pi_slot_dram := - 1\<rparr>"
      "\<lparr>br_stat = BUDDY_FAILED, br_addr = 0\<rparr>" 0 3 example_mem]
  by (simp add: pi_op_def pi_zero_def PI_OPCODE_SET_def range_get_def BUDDY_FAILED_def BUDDY_SUCCESS_def take_bit_eq_mod)

text \<open>C37: The fill of a BRAM bucket by a GET copies key and value but not the permission: when the
  bucket is full and the pair evicted from slot 0 was writable, the next write request for the
  key passes the BRAM permission check, whatever permission the DRAM table has for it.\<close>

theorem get_fill_stale_permission:
  assumes "\<forall>i < 7. bit (hb_bitmap (pi_hb_bram pi)) i" and "hb_perm (pi_hb_bram pi) 0"
    and "hb_key (pi_hb_dram pi) (nat (pi_slot_dram pi)) = pi_input wr"
  shows "compare_bram_pi wr (pi_hb_bram (get_fill_bram pi)) =
    wr\<lparr>pi_hb_bram := pi_hb_bram (get_fill_bram pi), pi_state := PI_STATE_HIT_BRAM, pi_slot := 0,
       pi_output_status := PI_OUTPUT_SUCCEED, pi_output := hb_val (pi_hb_dram pi) (nat (pi_slot_dram pi))\<rparr>"
proof -
  let ?hb = "pi_hb_bram (get_fill_bram pi)"
  have "find_empty_slot (hb_bitmap (pi_hb_bram pi)) = 0"
    using assms(1) for_break_less [of 0 7 "\<lambda>i. \<not> bit (hb_bitmap (pi_hb_bram pi)) i"]
    by (auto simp: find_empty_slot_def NR_SLOTS_PER_BUCKET_def Let_def)
  then have hb: "hb_key ?hb 0 = pi_input wr" "hb_val ?hb 0 = hb_val (pi_hb_dram pi) (nat (pi_slot_dram pi))" "hb_perm ?hb 0"
    using assms(2,3) by (simp_all add: get_fill_bram_def Let_def hb_simps)
  then have "hb_compare ?hb (pi_input wr) = 0"
    unfolding compare_eq by (intro for_break_eqI) auto
  with hb show ?thesis
    by (simp add: compare_bram_pi_def Let_def NR_SLOTS_PER_BUCKET_def)
qed

text \<open>A full BRAM bucket whose slot 0 is writable, and a read-only DRAM pair.\<close>

definition stale_word :: pipeline_info where
  "stale_word = pi_zero\<lparr>pi_hb_bram := hb_set_perm (foldr (\<lambda>i hb. hb_set_used (hb_set_key hb i (64 * of_nat (Suc i))) i) [0..<7] 0) 0 True,
     pi_hb_dram := hb_set_val (hb_set_key (hb_set_used 0 0) 0 (64 * 9)) 0 0x1000, pi_slot_dram := 0\<rparr>"

theorem get_fill_stale_permission_witness:
  "\<not> hb_perm (pi_hb_dram stale_word) 0 \<and>
   pi_output_status (compare_bram_pi (pi_zero\<lparr>pi_opcode := PI_OPCODE_GET OR MAPPING_PERMISSION_RW, pi_input := 64 * 9\<rparr>)
     (pi_hb_bram (get_fill_bram stale_word))) = PI_OUTPUT_SUCCEED"
proof -
  have full: "\<forall>i < 7. bit (hb_bitmap (pi_hb_bram stale_word)) i"
    unfolding hb_used_def [symmetric] stale_word_def
    by (simp add: hb_simps upt_rec numeral_nat) (auto simp: less_Suc_eq numeral_eq_Suc)
  have perm: "hb_perm (pi_hb_bram stale_word) 0" by (simp add: stale_word_def hb_simps)
  have key: "hb_key (pi_hb_dram stale_word) (nat (pi_slot_dram stale_word)) =
      pi_input (pi_zero\<lparr>pi_opcode := PI_OPCODE_GET OR MAPPING_PERMISSION_RW, pi_input := 64 * 9\<rparr>)"
    by (simp add: stale_word_def hb_simps)
  show ?thesis
    using get_fill_stale_permission [OF full perm key] by (simp add: stale_word_def hb_simps)
qed

text \<open>The comparison ignores the occupancy bitmap: a read of key 0 hits the empty bucket, with address 0.\<close>

lemma get_key_zero_hits_empty_bucket:
  assumes "pi_input pi = 0" and "\<not> pi_rw pi"
  shows "compare_bram_pi pi 0 = pi\<lparr>pi_hb_bram := 0, pi_state := PI_STATE_HIT_BRAM, pi_slot := 0,
    pi_output_status := PI_OUTPUT_SUCCEED, pi_output := 0\<rparr>"
proof -
  have "hb_compare 0 0 = 0"
    unfolding compare_eq by (intro for_break_eqI) (auto simp: hb_simps)
  with assms show ?thesis
    by (simp add: compare_bram_pi_def Let_def NR_SLOTS_PER_BUCKET_def hb_simps pi_rw_def)
qed

end
