(* ===== verification/Paging_Run.thy ===== *)
theory Paging_Run
  imports Paging_Unit
begin

unbundle bit_operations_syntax

text \<open>
  The data path with its memories: the cycle function \<open>data_path\<close> itself, a BRAM and a DRAM that perform a
  write in the cycle in which it is issued and answer a read at any later time, and an allocator that answers
  at any later time. Requests are issued one after the other. A request takes the words of
  \<open>paging_txn\<close> through the stages, ends with its reply on the port it came from, and leaves the memories as
  \<open>paging_txn\<close> does.
\<close>

section \<open>The data path and its memories\<close>

text \<open>The writes of a cycle are performed.\<close>

definition dp_commit :: "data_path_st \<times> paging_mem \<Rightarrow> data_path_st \<times> paging_mem" where
  "dp_commit y =
     ((fst y)\<lparr>BRAM_wr_cmd := [], BRAM_wr_data := [], DRAM_wr_cmd := [], DRAM_wr_data := []\<rparr>,
      (snd y)\<lparr>pm_bram := bram_commit (BRAM_wr_cmd (fst y)) (BRAM_wr_data (fst y)) (pm_bram (snd y)),
              pm_dram := dram_commit (DRAM_wr_cmd (fst y)) (DRAM_wr_data (fst y)) (pm_dram (snd y))\<rparr>)"

datatype dp_event = Dp_cycle | Bram_serve | Dram_serve | Alloc_serve

fun dp_step :: "32 word \<Rightarrow> buddy_alloc_ret_if \<Rightarrow> dp_event \<Rightarrow> data_path_st \<times> paging_mem \<Rightarrow> data_path_st \<times> paging_mem" where
  "dp_step base resp Dp_cycle y = dp_commit (data_path base (fst y), snd y)"
| "dp_step base resp Bram_serve y =
     (case BRAM_rd_cmd (fst y) of
        [] \<Rightarrow> y
      | c # cs \<Rightarrow> ((fst y)\<lparr>BRAM_rd_cmd := cs, BRAM_rd_data := swrite (BRAM_rd_data (fst y)) (pm_bram (snd y) (mc_address c))\<rparr>, snd y))"
| "dp_step base resp Dram_serve y =
     (case DRAM_rd_cmd (fst y) of
        [] \<Rightarrow> y
      | c # cs \<Rightarrow> ((fst y)\<lparr>DRAM_rd_cmd := cs, DRAM_rd_data := swrite (DRAM_rd_data (fst y)) (pm_dram (snd y) (take_bit 26 (mc_address c)))\<rparr>, snd y))"
| "dp_step base resp Alloc_serve y =
     (case dp_alloc (fst y) of
        [] \<Rightarrow> y
      | _ # as \<Rightarrow> ((fst y)\<lparr>dp_alloc := as, dp_alloc_ret := swrite (dp_alloc_ret (fst y)) resp\<rparr>, snd y))"

section \<open>What the write back leaves\<close>

text \<open>The two memories after \<open>fill_S2\<close> has dealt with a word, and the reply.\<close>

definition write_back ::
  "32 word \<Rightarrow> buddy_alloc_ret_if \<Rightarrow> pipeline_info \<Rightarrow> bucket_mem \<Rightarrow> bucket_mem \<Rightarrow> bucket_mem \<times> bucket_mem \<times> mapping_reply" where
  "write_back base resp pi bram dram =
     (if pi_op pi = PI_OPCODE_SET then
        (let bram = bram(bram_index (pi_hash pi) := pi_hb_bram (set_bram pi)); addr = alloc_addr_trans (br_addr resp) base
         in if pi_slot_dram pi \<noteq> - 1
            then (bram, dram(ucast (pi_hb_dram_addr pi) := hb_put (pi_hb_dram pi) (nat (pi_slot_dram pi)) (pi_input pi) (pi_length pi) (pi_rw pi)),
                  reply_of (pi\<lparr>pi_output_status := PI_OUTPUT_SUCCEED\<rparr>))
            else if br_stat resp = BUDDY_SUCCESS
            then (bram, dram(take_bit 26 addr := hb_put 0 0 (pi_input pi) (pi_length pi) (pi_rw pi),
                             ucast (pi_hb_dram_addr pi) := hb_set_chain (pi_hb_dram pi) addr),
                  reply_of (pi\<lparr>pi_output_status := PI_OUTPUT_SUCCEED\<rparr>))
            else (bram, dram, reply_of (pi\<lparr>pi_output_status := PI_OUTPUT_FAILURE\<rparr>)))
      else if pi_op pi = PI_OPCODE_GET \<and> pi_state pi AND PI_STATE_MISS_BRAM = PI_STATE_MISS_BRAM \<and>
              pi_state pi AND PI_STATE_HIT_DRAM = PI_STATE_HIT_DRAM
      then (bram(bram_index (pi_hash pi) := pi_hb_bram (get_fill_bram pi)), dram, reply_of pi)
      else (bram, dram, reply_of pi))"

lemma reply_of_answers: "answers pi st out \<Longrightarrow> map reply_of out = [reply_of (pi\<lparr>pi_output_status := st\<rparr>)]"
  by (auto simp: answers_def reply_of_def)

lemma write_back_txn:
  assumes "pi_op (looked_up m pi) = PI_OPCODE_SET \<or> pi_op (looked_up m pi) = PI_OPCODE_GET"
  shows "write_back base resp (looked_up m pi) (pm_bram m) (pm_dram m) =
    (pm_bram (fst (paging_txn base d resp pi m)), pm_dram (fst (paging_txn base d resp pi m)), hd (map reply_of (snd (paging_txn base d resp pi m))))"
  and "\<exists>pi'. snd (paging_txn base d resp pi m) = [pi']"
proof -
  let ?p = "looked_up m pi"
  let ?y = "S2_txn base d resp S2_idle ?p"
  have "write_back base resp ?p (pm_bram m) (pm_dram m) =
      (bram_commit (f2_BRAM_wr_cmd (snd ?y)) (f2_BRAM_wr_data (snd ?y)) (pm_bram m), S2_mem ?y (pm_dram m), hd (map reply_of (f2_pi_out (snd ?y)))) \<and>
    (\<exists>pi'. f2_pi_out (snd ?y) = [pi'])"
  proof (cases "pi_op ?p = PI_OPCODE_SET")
    case True
    note b = S2_txn_set_bram [OF True, of base d resp]
    have bram: "bram_commit (f2_BRAM_wr_cmd (snd ?y)) (f2_BRAM_wr_data (snd ?y)) (pm_bram m) = (pm_bram m)(bram_index (pi_hash ?p) := pi_hb_bram (set_bram ?p))"
      unfolding b by (simp add: bram_wr_cmd_def bram_index_def)
    consider "pi_slot_dram ?p \<noteq> - 1" | "pi_slot_dram ?p = - 1" "br_stat resp = BUDDY_SUCCESS"
      | "pi_slot_dram ?p = - 1" "br_stat resp \<noteq> BUDDY_SUCCESS" by blast
    then show ?thesis
    proof cases
      case 1
      note x = S2_txn_slot(2,3) [OF S2_idle_state True 1, of base d resp]
      from reply_of_answers [OF x(2)] x(2) show ?thesis
        unfolding bram x(1) using True 1 by (simp add: write_back_def answers_def) blast
    next
      case 2
      note x = S2_txn_full(2,3) [OF S2_idle_state True 2, of base d]
      from reply_of_answers [OF x(2)] x(2) show ?thesis
        unfolding bram x(1) using True 2 by (simp add: write_back_def answers_def Let_def) blast
    next
      case 3
      note x = S2_txn_nomem(1,2) [OF S2_idle_state True 3, of base d]
      from reply_of_answers [OF x(2)] x(2) show ?thesis
        unfolding bram x(1) using True 3 by (simp add: write_back_def answers_def) blast
    qed
  next
    case False
    then have op: "pi_op ?p = PI_OPCODE_GET" using assms by simp
    note x = S2_txn_get [OF S2_idle_state op, of base d resp]
    show ?thesis
      using x False op by (auto simp: write_back_def bram_wr_cmd_def bram_index_def reply_of_def get_fill_bram_def Let_def)
  qed
  then show "write_back base resp ?p (pm_bram m) (pm_dram m) =
    (pm_bram (fst (paging_txn base d resp pi m)), pm_dram (fst (paging_txn base d resp pi m)), hd (map reply_of (snd (paging_txn base d resp pi m))))"
    "\<exists>pi'. snd (paging_txn base d resp pi m) = [pi']"
    by (simp_all add: paging_txn_def Let_def)
qed

section \<open>One request in the pipeline\<close>

text \<open>The data path with all its streams empty but for the replies.\<close>

definition dp_quiet :: "mapping_reply stream \<Rightarrow> mapping_reply stream \<Rightarrow> read_bram_st \<Rightarrow> fill_S1_st \<Rightarrow> fill_S2_st \<Rightarrow> resv_table \<Rightarrow> data_path_st" where
  "dp_quiet rr wr rb f1 f2 t = \<lparr>rd_request = [], wr_request = [], rd_reply = rr, wr_reply = wr,
     DRAM_rd_cmd = [], DRAM_wr_cmd = [], DRAM_rd_data = [], DRAM_wr_data = [],
     BRAM_rd_cmd = [], BRAM_wr_cmd = [], BRAM_rd_data = [], BRAM_wr_data = [],
     dp_alloc = [], dp_alloc_ret = [],
     PI_pipeline_info = [], PI_hash_to_compare = [], PI_1 = [], PI_compare_to_fillS1 = [],
     PI_fillS1_to_fillS2 = [], PI_fillS2_to_out = [],
     fifo_addr_resv_req = [], fifo_addr_resv_res = [], fifo_addr_pop_req = [],
     st_read_bram = rb, st_fill_S1 = f1, st_fill_S2 = f2, st_resv_table = t\<rparr>"

lemma dp_quiet_simps [simp]:
  "rd_request (dp_quiet rr wr rb f1 f2 t) = []" "wr_request (dp_quiet rr wr rb f1 f2 t) = []"
  "rd_reply (dp_quiet rr wr rb f1 f2 t) = rr" "wr_reply (dp_quiet rr wr rb f1 f2 t) = wr"
  "DRAM_rd_cmd (dp_quiet rr wr rb f1 f2 t) = []" "DRAM_wr_cmd (dp_quiet rr wr rb f1 f2 t) = []"
  "DRAM_rd_data (dp_quiet rr wr rb f1 f2 t) = []" "DRAM_wr_data (dp_quiet rr wr rb f1 f2 t) = []"
  "BRAM_rd_cmd (dp_quiet rr wr rb f1 f2 t) = []" "BRAM_wr_cmd (dp_quiet rr wr rb f1 f2 t) = []"
  "BRAM_rd_data (dp_quiet rr wr rb f1 f2 t) = []" "BRAM_wr_data (dp_quiet rr wr rb f1 f2 t) = []"
  "dp_alloc (dp_quiet rr wr rb f1 f2 t) = []" "dp_alloc_ret (dp_quiet rr wr rb f1 f2 t) = []"
  "PI_pipeline_info (dp_quiet rr wr rb f1 f2 t) = []" "PI_hash_to_compare (dp_quiet rr wr rb f1 f2 t) = []"
  "PI_1 (dp_quiet rr wr rb f1 f2 t) = []" "PI_compare_to_fillS1 (dp_quiet rr wr rb f1 f2 t) = []"
  "PI_fillS1_to_fillS2 (dp_quiet rr wr rb f1 f2 t) = []" "PI_fillS2_to_out (dp_quiet rr wr rb f1 f2 t) = []"
  "fifo_addr_resv_req (dp_quiet rr wr rb f1 f2 t) = []" "fifo_addr_resv_res (dp_quiet rr wr rb f1 f2 t) = []"
  "fifo_addr_pop_req (dp_quiet rr wr rb f1 f2 t) = []"
  "st_read_bram (dp_quiet rr wr rb f1 f2 t) = rb" "st_fill_S1 (dp_quiet rr wr rb f1 f2 t) = f1"
  "st_fill_S2 (dp_quiet rr wr rb f1 f2 t) = f2" "st_resv_table (dp_quiet rr wr rb f1 f2 t) = t"
  by (simp_all add: dp_quiet_def)

text \<open>A stage with nothing to do.\<close>

lemma stage_idle:
  fixes s :: data_path_st
  shows "rd_request s = [] \<Longrightarrow> wr_request s = [] \<Longrightarrow> dp_remux s = s"
    and "PI_pipeline_info s = [] \<Longrightarrow> dp_compute_hash s = s"
    and "rb_state (st_read_bram s) = READ_BRAM_IDLE \<Longrightarrow> PI_hash_to_compare s = [] \<Longrightarrow> PI_1 s = [] \<or> BRAM_rd_data s = [] \<Longrightarrow> compare_bram_ht s = s"
    and "f1_state (st_fill_S1 s) = FILL_IDLE \<Longrightarrow> PI_compare_to_fillS1 s = [] \<Longrightarrow> dp_fill_S1 s = s"
    and "f2_state (st_fill_S2 s) = ALLOC_IDLE \<Longrightarrow> PI_fillS1_to_fillS2 s = [] \<Longrightarrow> dp_fill_S2 base s = s"
    and "PI_fillS2_to_out s = [] \<Longrightarrow> dp_demux s = s"
    and "fifo_addr_resv_req s = [] \<Longrightarrow> fifo_addr_pop_req s = [] \<Longrightarrow> dp_resv_table s = s"
proof -
  show "rd_request s = [] \<Longrightarrow> wr_request s = [] \<Longrightarrow> dp_remux s = s" by (cases s) (simp add: dp_remux_def remux_def)
  show "PI_pipeline_info s = [] \<Longrightarrow> dp_compute_hash s = s" by (cases s) (simp add: dp_compute_hash_def compute_hash_def)
  show "rb_state (st_read_bram s) = READ_BRAM_IDLE \<Longrightarrow> PI_hash_to_compare s = [] \<Longrightarrow> PI_1 s = [] \<or> BRAM_rd_data s = [] \<Longrightarrow> compare_bram_ht s = s"
    by (cases s) (auto simp: compare_bram_ht_def read_bram_def compare_bram_def split: list.split)
  show "f1_state (st_fill_S1 s) = FILL_IDLE \<Longrightarrow> PI_compare_to_fillS1 s = [] \<Longrightarrow> dp_fill_S1 s = s" by (cases s) (simp add: dp_fill_S1_def fill_S1_def)
  show "f2_state (st_fill_S2 s) = ALLOC_IDLE \<Longrightarrow> PI_fillS1_to_fillS2 s = [] \<Longrightarrow> dp_fill_S2 base s = s" by (cases s) (simp add: dp_fill_S2_def fill_S2_def)
  show "PI_fillS2_to_out s = [] \<Longrightarrow> dp_demux s = s" by (cases s) (simp add: dp_demux_def demux_def)
  show "fifo_addr_resv_req s = [] \<Longrightarrow> fifo_addr_pop_req s = [] \<Longrightarrow> dp_resv_table s = s"
    by (cases s) (simp add: dp_resv_table_def address_reservation_table_def)
qed

definition holds_only :: "resv_table \<Rightarrow> 6 word list \<Rightarrow> bool" where
  "holds_only t ks \<longleftrightarrow> resv_inv t \<and> resv_abs t = ks"

lemma holds_only_try: "holds_only t [] \<Longrightarrow> holds_only (fst (resv_try t i)) [i] \<and> snd (resv_try t i) = RESV_SUCCESS"
  using resv_try_abs [of t i] resv_try_inv [of t i] by (simp add: holds_only_def spec_resv_def)

lemma holds_only_pop: "holds_only t [i] \<Longrightarrow> holds_only (resv_pop t) []"
  using resv_pop_abs [of t] resv_pop_inv [of t] by (simp add: holds_only_def)

text \<open>The state in which a request is handed in, on the port of its channel.\<close>

definition dp_issue :: "mapping_request \<Rightarrow> 1 word \<Rightarrow> data_path_st \<times> paging_mem \<Rightarrow> data_path_st \<times> paging_mem" where
  "dp_issue req ch y =
     (if ch = PI_CHANNEL_READ then (fst y)\<lparr>rd_request := swrite (rd_request (fst y)) req, rd_reply := [], wr_reply := []\<rparr>
      else (fst y)\<lparr>wr_request := swrite (wr_request (fst y)) req, rd_reply := [], wr_reply := []\<rparr>, snd y)"

lemma channel_cases: "ch = PI_CHANNEL_READ \<or> ch = PI_CHANNEL_WRITE"
proof -
  have "ch = (if bit ch 0 then 1 else 0)" by (rule bit_word_eqI) (auto simp: bit_simps)
  then show ?thesis by (metis PI_CHANNEL_READ_def PI_CHANNEL_WRITE_def)
qed

lemma cycle_issue:
  assumes "rb_state rb = READ_BRAM_IDLE" and "f1_state f1 = FILL_IDLE" and "f2_state f2 = ALLOC_IDLE"
  shows "data_path base (fst (dp_issue req ch (dp_quiet rr wr rb f1 f2 t, m))) =
    (dp_quiet [] [] (rb\<lparr>rb_pi := hashed req ch, rb_index := range_get (mr_address req) 5 0, rb_state := READ_BRAM_ADDR_CHECK\<rparr>) f1 f2 t)\<lparr>PI_1 := [hashed req ch]\<rparr>"
proof -
  have 1: "dp_remux (fst (dp_issue req ch (dp_quiet rr wr rb f1 f2 t, m))) = (dp_quiet [] [] rb f1 f2 t)\<lparr>PI_pipeline_info := [remux_info req ch]\<rparr>"
    using channel_cases [of ch] by (auto simp: dp_issue_def dp_remux_def remux_def dp_quiet_def PI_CHANNEL_READ_def PI_CHANNEL_WRITE_def)
  have 2: "dp_compute_hash ((dp_quiet [] [] rb f1 f2 t)\<lparr>PI_pipeline_info := [remux_info req ch]\<rparr>) = (dp_quiet [] [] rb f1 f2 t)\<lparr>PI_hash_to_compare := [hashed req ch]\<rparr>"
    by (simp add: dp_compute_hash_def compute_hash_def hashed_def dp_quiet_def Let_def)
  have 3: "compare_bram_ht ((dp_quiet [] [] rb f1 f2 t)\<lparr>PI_hash_to_compare := [hashed req ch]\<rparr>) =
      (dp_quiet [] [] (rb\<lparr>rb_pi := hashed req ch, rb_index := range_get (mr_address req) 5 0, rb_state := READ_BRAM_ADDR_CHECK\<rparr>) f1 f2 t)\<lparr>PI_1 := [hashed req ch]\<rparr>"
    using assms(1) by (simp add: compare_bram_ht_def read_bram_def compare_bram_def dp_quiet_def)
  show ?thesis unfolding data_path_def Let_def 1 2 3 using assms(2,3) by (simp add: stage_idle)
qed

lemma cycle_check:
  assumes "rb_state rb = READ_BRAM_ADDR_CHECK" and "f1_state f1 = FILL_IDLE" and "f2_state f2 = ALLOC_IDLE"
  shows "data_path base ((dp_quiet [] [] rb f1 f2 t)\<lparr>PI_1 := [pi]\<rparr>) =
    (dp_quiet [] [] (rb\<lparr>rb_state := READ_BRAM_ADDR_RESP\<rparr>) f1 f2 (fst (resv_try t (rb_index rb))))\<lparr>PI_1 := [pi], fifo_addr_resv_res := [snd (resv_try t (rb_index rb))]\<rparr>"
proof -
  have 3: "compare_bram_ht ((dp_quiet [] [] rb f1 f2 t)\<lparr>PI_1 := [pi]\<rparr>) =
      (dp_quiet [] [] (rb\<lparr>rb_state := READ_BRAM_ADDR_RESP\<rparr>) f1 f2 t)\<lparr>PI_1 := [pi], fifo_addr_resv_req := [\<lparr>tr_opcode = RESV, tr_index = rb_index rb\<rparr>]\<rparr>"
    using assms(1) by (simp add: compare_bram_ht_def read_bram_def compare_bram_def dp_quiet_def)
  show ?thesis unfolding data_path_def Let_def using assms(2,3)
    by (simp add: stage_idle 3) (simp add: dp_resv_table_def address_reservation_table_def split_beta dp_quiet_def)
qed

lemma cycle_granted:
  assumes "rb_state rb = READ_BRAM_ADDR_RESP" and "f1_state f1 = FILL_IDLE" and "f2_state f2 = ALLOC_IDLE"
  shows "data_path base ((dp_quiet [] [] rb f1 f2 t)\<lparr>PI_1 := [pi], fifo_addr_resv_res := [RESV_SUCCESS]\<rparr>) =
    (dp_quiet [] [] (rb\<lparr>rb_state := READ_BRAM_IDLE\<rparr>) f1 f2 t)\<lparr>PI_1 := [pi], BRAM_rd_cmd := [\<lparr>mc_address = ucast (rb_index rb), mc_length = 1\<rparr>]\<rparr>"
proof -
  have 3: "compare_bram_ht ((dp_quiet [] [] rb f1 f2 t)\<lparr>PI_1 := [pi], fifo_addr_resv_res := [RESV_SUCCESS]\<rparr>) =
      (dp_quiet [] [] (rb\<lparr>rb_state := READ_BRAM_IDLE\<rparr>) f1 f2 t)\<lparr>PI_1 := [pi], BRAM_rd_cmd := [\<lparr>mc_address = ucast (rb_index rb), mc_length = 1\<rparr>]\<rparr>"
    using assms(1) by (simp add: compare_bram_ht_def read_bram_def compare_bram_def dp_quiet_def)
  show ?thesis unfolding data_path_def Let_def using assms(2,3) by (simp add: stage_idle 3)
qed

lemma cycle_fetch:
  assumes "rb_state rb = READ_BRAM_IDLE" and "f1_state f1 = FILL_IDLE" and "f2_state f2 = ALLOC_IDLE"
  shows "data_path base ((dp_quiet [] [] rb f1 f2 t)\<lparr>PI_1 := [pi], BRAM_rd_cmd := cmd\<rparr>) = (dp_quiet [] [] rb f1 f2 t)\<lparr>PI_1 := [pi], BRAM_rd_cmd := cmd\<rparr>"
  unfolding data_path_def Let_def using assms by (simp add: stage_idle)

text \<open>The part of a cycle behind the DRAM lookup.\<close>

definition dp_tail :: "32 word \<Rightarrow> data_path_st \<Rightarrow> data_path_st" where
  "dp_tail base s = dp_resv_table (dp_demux (dp_fill_S2 base s))"

lemma cycle_fetched:
  assumes "rb_state rb = READ_BRAM_IDLE"
  shows "data_path base ((dp_quiet [] [] rb f1 f2 t)\<lparr>PI_1 := [pi], BRAM_rd_data := [hb]\<rparr>) =
    dp_tail base (dp_fill_S1 ((dp_quiet [] [] rb f1 f2 t)\<lparr>PI_compare_to_fillS1 := [compare_bram_pi pi hb]\<rparr>))"
proof -
  have "compare_bram_ht ((dp_quiet [] [] rb f1 f2 t)\<lparr>PI_1 := [pi], BRAM_rd_data := [hb]\<rparr>) =
      (dp_quiet [] [] rb f1 f2 t)\<lparr>PI_compare_to_fillS1 := [compare_bram_pi pi hb]\<rparr>"
    using assms by (simp add: compare_bram_ht_def read_bram_def compare_bram_def dp_quiet_def)
  then show ?thesis unfolding data_path_def Let_def dp_tail_def by (simp add: stage_idle)
qed

lemma cycle_front_idle:
  assumes "rb_state (st_read_bram s) = READ_BRAM_IDLE" and "rd_request s = []" and "wr_request s = []" and "PI_pipeline_info s = []"
    and "PI_hash_to_compare s = []" and "PI_1 s = []"
  shows "data_path base s = dp_tail base (dp_fill_S1 s)"
  unfolding data_path_def Let_def dp_tail_def using assms by (simp add: stage_idle)

lemma tail_idle:
  assumes "f2_state (st_fill_S2 s) = ALLOC_IDLE" and "PI_fillS1_to_fillS2 s = []" and "PI_fillS2_to_out s = []"
    and "fifo_addr_resv_req s = []" and "fifo_addr_pop_req s = []"
  shows "dp_tail base s = s"
  unfolding dp_tail_def using assms by (simp add: stage_idle)

lemma commit_idle:
  assumes "BRAM_wr_cmd s = []" and "BRAM_wr_data s = []" and "DRAM_wr_cmd s = []" and "DRAM_wr_data s = []"
  shows "dp_commit (s, m) = (s, m)"
  using assms by (cases s; cases m) (simp add: dp_commit_def)

text \<open>The DRAM lookup on its own.\<close>

lemma S1_take:
  assumes "f1_state f1 = FILL_IDLE"
  shows "dp_fill_S1 ((dp_quiet [] [] rb f1 f2 t)\<lparr>PI_compare_to_fillS1 := [p]\<rparr>) =
    (if pi_op p = PI_OPCODE_GET \<and> pi_state p = PI_STATE_HIT_BRAM then (dp_quiet [] [] rb (f1\<lparr>f1_pi := p\<rparr>) f2 t)\<lparr>PI_fillS1_to_fillS2 := [p]\<rparr>
     else dp_quiet [] [] rb (f1\<lparr>f1_pi := p, f1_cmd := \<lparr>mc_address = dram_index (pi_hash p), mc_length = 1\<rparr>,
       f1_slot_dram_found := False, f1_state := FILL_SEND_CMD\<rparr>) f2 t)"
  using assms by (simp add: dp_fill_S1_def fill_S1_def dp_quiet_def dram_index_def)

lemma S1_send:
  assumes "f1_state f1 = FILL_SEND_CMD"
  shows "dp_fill_S1 (dp_quiet [] [] rb f1 f2 t) = (dp_quiet [] [] rb (f1\<lparr>f1_state := FILL_READ_DATA\<rparr>) f2 t)\<lparr>DRAM_rd_cmd := [f1_cmd f1]\<rparr>"
  using assms by (simp add: dp_fill_S1_def fill_S1_def dp_quiet_def)

lemma S1_wait:
  assumes "f1_state f1 = FILL_READ_DATA"
  shows "dp_fill_S1 ((dp_quiet [] [] rb f1 f2 t)\<lparr>DRAM_rd_cmd := cmd\<rparr>) = (dp_quiet [] [] rb f1 f2 t)\<lparr>DRAM_rd_cmd := cmd\<rparr>"
  using assms by (simp add: dp_fill_S1_def fill_S1_def dp_quiet_def)

text \<open>A bucket ends the walk with the word of the reference walk, or leads to the next bucket of the chain.\<close>

lemma S1_data:
  fixes rb :: read_bram_st and f2 :: fill_S2_st and t :: resv_table
  assumes st: "f1_state f1 = FILL_READ_DATA" and chain: "is_chain mem (mc_address (f1_cmd f1)) as"
  defines "s \<equiv> dp_fill_S1 ((dp_quiet [] [] rb f1 f2 t)\<lparr>DRAM_rd_data := [mem (mc_address (f1_cmd f1))]\<rparr>)"
    and "r \<equiv> fill_S1_walk mem (f1_pi f1) (f1_slot_dram_found f1) as"
  shows "(\<exists>f1'. f1_state f1' = FILL_IDLE \<and> s = (dp_quiet [] [] rb f1' f2 t)\<lparr>PI_fillS1_to_fillS2 := [r]\<rparr>) \<or>
    (\<exists>f1' as'. f1_state f1' = FILL_SEND_CMD \<and> s = dp_quiet [] [] rb f1' f2 t \<and> is_chain mem (mc_address (f1_cmd f1')) as' \<and>
       Suc (length as') = length as \<and> take_bit 26 (mc_address (f1_cmd f1')) = mc_address (f1_cmd f1') \<and>
       pi_channel (f1_pi f1') = pi_channel (f1_pi f1) \<and> fill_S1_walk mem (f1_pi f1') (f1_slot_dram_found f1') as' = r)"
proof -
  let ?a = "mc_address (f1_cmd f1)" and ?p = "f1_pi f1"
  let ?i = "hb_compare (mem ?a) (pi_input ?p)"
  obtain as' where as: "as = ?a # as'" and last: "\<not> hb_chained (mem ?a) \<Longrightarrow> as' = []"
    using chain by (cases "(mem, ?a, as)" rule: is_chain.cases) auto
  obtain p' found' where miss: "fill_S1_miss ?p ?a (f1_slot_dram_found f1) (mem ?a) = (p', found')" by fastforce
  have keep: "pi_channel p' = pi_channel ?p"
    using same_request_stages(2) [of ?p ?a "f1_slot_dram_found f1" "mem ?a"] by (simp add: miss same_request_def)
  consider "?i < NR_SLOTS_PER_BUCKET" | "\<not> ?i < NR_SLOTS_PER_BUCKET" "\<not> hb_chained (mem ?a)" | "\<not> ?i < NR_SLOTS_PER_BUCKET" "hb_chained (mem ?a)" by blast
  then show ?thesis
  proof cases
    case 1
    then have "r = fill_S1_hit ?p ?a (mem ?a) ?i" by (simp add: r_def as Let_def)
    moreover have "s = (dp_quiet [] [] rb (f1\<lparr>f1_state := FILL_IDLE, f1_pi := fill_S1_hit ?p ?a (mem ?a) ?i\<rparr>) f2 t)\<lparr>PI_fillS1_to_fillS2 := [fill_S1_hit ?p ?a (mem ?a) ?i]\<rparr>"
      using 1 st by (simp add: s_def dp_fill_S1_def fill_S1_def dp_quiet_def Let_def)
    ultimately show ?thesis
      by (intro disjI1 exI [of _ "f1\<lparr>f1_state := FILL_IDLE, f1_pi := fill_S1_hit ?p ?a (mem ?a) ?i\<rparr>"]) simp
  next
    case 2
    let ?r = "fill_S1_end p' ?a found' (mem ?a)"
    from 2 have "r = ?r" by (simp add: r_def as last Let_def miss)
    moreover have "s = (dp_quiet [] [] rb (f1\<lparr>f1_state := FILL_IDLE, f1_pi := ?r, f1_slot_dram_found := found'\<rparr>) f2 t)\<lparr>PI_fillS1_to_fillS2 := [?r]\<rparr>"
      using 2 st by (simp add: s_def dp_fill_S1_def fill_S1_def dp_quiet_def Let_def miss)
    ultimately show ?thesis
      by (intro disjI1 exI [of _ "f1\<lparr>f1_state := FILL_IDLE, f1_pi := ?r, f1_slot_dram_found := found'\<rparr>"]) simp
  next
    case 3
    let ?f = "f1\<lparr>f1_state := FILL_SEND_CMD, f1_pi := p', f1_slot_dram_found := found', f1_cmd := \<lparr>mc_address = hb_chain_addr (mem ?a), mc_length = 1\<rparr>\<rparr>"
    have chain': "as' \<noteq> []" "is_chain mem (hb_chain_addr (mem ?a)) as'"
      using chain 3(2) unfolding as by (cases as'; simp)+
    have "s = dp_quiet [] [] rb ?f f2 t"
      using 3 st by (simp add: s_def dp_fill_S1_def fill_S1_def dp_quiet_def Let_def miss)
    moreover have "fill_S1_walk mem p' found' as' = r" using 3 chain'(1) by (simp add: r_def as Let_def miss)
    moreover have "take_bit 26 (hb_chain_addr (mem ?a)) = hb_chain_addr (mem ?a)"
      by (rule bit_word_eqI) (auto simp: hb_chain_addr_def bit_simps)
    ultimately show ?thesis
      using chain'(2) keep by (intro disjI2 exI [of _ ?f] exI [of _ as']) (simp add: as)
  qed
qed

text \<open>A word that leaves \<open>fill_S2\<close> is answered and its reservation given back.\<close>

lemma tail_reply:
  assumes "PI_fillS2_to_out s = [pi]" and "fifo_addr_resv_req s = []" and "fifo_addr_pop_req s = []"
  shows "dp_resv_table (dp_demux s) = s\<lparr>PI_fillS2_to_out := [], st_resv_table := resv_pop (st_resv_table s),
     rd_reply := (if pi_channel pi = PI_CHANNEL_READ then rd_reply s @ [reply_of pi] else rd_reply s),
     wr_reply := (if pi_channel pi = PI_CHANNEL_READ then wr_reply s else wr_reply s @ [reply_of pi])\<rparr>"
proof -
  have "pi_channel pi = PI_CHANNEL_READ \<or> pi_channel pi = ucast MAPPING_REQUEST_WRITE"
    using channel_cases [of "pi_channel pi"] by (simp add: PI_CHANNEL_WRITE_def MAPPING_REQUEST_WRITE_def)
  with assms show ?thesis
    by (cases s) (auto simp: dp_demux_def demux_def dp_resv_table_def address_reservation_table_def swrite_def Let_def)
qed

text \<open>The answered data path: idle, with the reply on the port of the request.\<close>

definition dp_replied :: "1 word \<Rightarrow> mapping_reply \<Rightarrow> read_bram_st \<Rightarrow> fill_S1_st \<Rightarrow> fill_S2_st \<Rightarrow> resv_table \<Rightarrow> data_path_st" where
  "dp_replied ch r rb f1 f2 t = dp_quiet (if ch = PI_CHANNEL_READ then [r] else []) (if ch = PI_CHANNEL_READ then [] else [r]) rb f1 f2 t"

lemma mem_update [simp]: "m\<lparr>pm_bram := pm_bram m\<rparr> = m" "m\<lparr>pm_dram := pm_dram m\<rparr> = m" "m\<lparr>pm_bram := B, pm_dram := pm_dram m\<rparr> = m\<lparr>pm_bram := B\<rparr>"
  for m :: paging_mem
  by (cases m; simp)+

lemma tail_pass:
  assumes "f2_state f2 = ALLOC_IDLE" and "\<not> pi_op p = PI_OPCODE_SET"
  shows "\<exists>f2'. f2_state f2' = ALLOC_IDLE \<and>
    dp_commit (dp_tail base ((dp_quiet [] [] rb f1 f2 t)\<lparr>PI_fillS1_to_fillS2 := [p]\<rparr>), m) =
      (dp_replied (pi_channel p) (snd (snd (write_back base resp p (pm_bram m) (pm_dram m)))) rb f1 f2' (resv_pop t),
       m\<lparr>pm_bram := fst (write_back base resp p (pm_bram m) (pm_dram m))\<rparr>) \<and>
    fst (snd (write_back base resp p (pm_bram m) (pm_dram m))) = pm_dram m"
proof (cases "pi_op p = PI_OPCODE_GET \<and> pi_state p AND PI_STATE_MISS_BRAM = PI_STATE_MISS_BRAM \<and>
    pi_state p AND PI_STATE_HIT_DRAM = PI_STATE_HIT_DRAM")
  case True
  let ?p = "get_fill_bram p"
  have 1: "dp_fill_S2 base ((dp_quiet [] [] rb f1 f2 t)\<lparr>PI_fillS1_to_fillS2 := [p]\<rparr>) =
      (dp_quiet [] [] rb f1 (f2\<lparr>f2_pi := ?p\<rparr>) t)\<lparr>PI_fillS2_to_out := [?p], BRAM_wr_cmd := [bram_wr_cmd ?p], BRAM_wr_data := [pi_hb_bram ?p]\<rparr>"
    using assms True by (simp add: dp_fill_S2_def fill_S2_def fill_S2_idle_def dp_quiet_def Let_def)
  have "bram_wr_cmd ?p = bram_wr_cmd p" "reply_of ?p = reply_of p" "pi_channel ?p = pi_channel p"
    by (simp_all add: bram_wr_cmd_def reply_of_def get_fill_bram_def Let_def)
  with True assms show ?thesis
    by (intro exI [of _ "f2\<lparr>f2_pi := ?p\<rparr>"])
      (simp add: dp_tail_def 1 tail_reply dp_commit_def write_back_def bram_wr_cmd_def bram_index_def dp_replied_def; simp add: dp_quiet_def)
next
  case False
  have 1: "dp_fill_S2 base ((dp_quiet [] [] rb f1 f2 t)\<lparr>PI_fillS1_to_fillS2 := [p]\<rparr>) =
      (dp_quiet [] [] rb f1 (f2\<lparr>f2_pi := p\<rparr>) t)\<lparr>PI_fillS2_to_out := [p]\<rparr>"
    using assms False by (auto simp: dp_fill_S2_def fill_S2_def fill_S2_idle_def dp_quiet_def Let_def)
  have wb: "write_back base resp p (pm_bram m) (pm_dram m) = (pm_bram m, pm_dram m, reply_of p)"
    using False assms(2) by (auto simp: write_back_def)
  from assms show ?thesis
    by (intro exI [of _ "f2\<lparr>f2_pi := p\<rparr>"]) (simp add: dp_tail_def 1 tail_reply dp_commit_def wb dp_replied_def; simp add: dp_quiet_def)
qed

lemma tail_set:
  assumes "f2_state f2 = ALLOC_IDLE" and "pi_op p = PI_OPCODE_SET"
  shows "dp_commit (dp_tail base ((dp_quiet [] [] rb f1 f2 t)\<lparr>PI_fillS1_to_fillS2 := [p]\<rparr>), m) =
    (if pi_slot_dram p = - 1
     then (dp_quiet [] [] rb f1 (f2\<lparr>f2_pi := set_bram p, f2_new_hb_dram := set_new_bucket (set_bram p), f2_state := ALLOC_RECV_RET\<rparr>) t)
            \<lparr>dp_alloc := [\<lparr>ba_opcode = BUDDY_ALLOC, ba_addr = 0, ba_order = 0\<rparr>]\<rparr>
     else dp_quiet [] [] rb f1 (f2\<lparr>f2_pi := set_dram (set_bram p), f2_state := ALLOC_WRITE_DATA\<rparr>) t,
     m\<lparr>pm_bram := (pm_bram m)(bram_index (pi_hash p) := pi_hb_bram (set_bram p))\<rparr>)"
proof -
  have 1: "dp_fill_S2 base ((dp_quiet [] [] rb f1 f2 t)\<lparr>PI_fillS1_to_fillS2 := [p]\<rparr>) =
    (if pi_slot_dram p = - 1
     then (dp_quiet [] [] rb f1 (f2\<lparr>f2_pi := set_bram p, f2_new_hb_dram := set_new_bucket (set_bram p), f2_state := ALLOC_RECV_RET\<rparr>) t)
            \<lparr>dp_alloc := [\<lparr>ba_opcode = BUDDY_ALLOC, ba_addr = 0, ba_order = 0\<rparr>]\<rparr>
     else dp_quiet [] [] rb f1 (f2\<lparr>f2_pi := set_dram (set_bram p), f2_state := ALLOC_WRITE_DATA\<rparr>) t)
       \<lparr>BRAM_wr_cmd := [bram_wr_cmd (set_bram p)], BRAM_wr_data := [pi_hb_bram (set_bram p)]\<rparr>"
    using assms by (simp add: dp_fill_S2_def fill_S2_def fill_S2_idle_def dp_quiet_def Let_def)
  show ?thesis
    by (simp add: dp_tail_def 1 stage_idle dp_commit_def bram_wr_cmd_def bram_index_def; simp add: dp_quiet_def)
qed

lemma tail_write:
  assumes "f2_state f2 = ALLOC_WRITE_DATA"
  shows "\<exists>f2'. f2_state f2' = ALLOC_IDLE \<and> dp_commit (dp_tail base (dp_quiet [] [] rb f1 f2 t), m) =
    (dp_replied (pi_channel (f2_pi f2)) (reply_of ((f2_pi f2)\<lparr>pi_output_status := PI_OUTPUT_SUCCEED\<rparr>)) rb f1 f2' (resv_pop t),
     m\<lparr>pm_dram := (pm_dram m)(ucast (pi_hb_dram_addr (f2_pi f2)) := pi_hb_dram (f2_pi f2))\<rparr>)"
proof -
  let ?p = "(f2_pi f2)\<lparr>pi_output_status := PI_OUTPUT_SUCCEED\<rparr>" and ?c = "\<lparr>mc_address = ucast (pi_hb_dram_addr (f2_pi f2)), mc_length = 1\<rparr>"
  let ?f2 = "f2\<lparr>f2_cmd_d := ?c, f2_pi := ?p, f2_state := ALLOC_IDLE\<rparr>"
  have 1: "dp_fill_S2 base (dp_quiet [] [] rb f1 f2 t) =
      (dp_quiet [] [] rb f1 ?f2 t)\<lparr>PI_fillS2_to_out := [?p], DRAM_wr_cmd := [?c], DRAM_wr_data := [pi_hb_dram (f2_pi f2)]\<rparr>"
    using assms by (simp add: dp_fill_S2_def fill_S2_def dp_quiet_def Let_def)
  show ?thesis
    by (intro exI [of _ ?f2]) (simp add: dp_tail_def 1 tail_reply dp_commit_def dp_replied_def; simp add: dp_quiet_def)
qed

lemma tail_wait:
  assumes "f2_state f2 = ALLOC_RECV_RET"
  shows "dp_commit (dp_tail base ((dp_quiet [] [] rb f1 f2 t)\<lparr>dp_alloc := al\<rparr>), m) = ((dp_quiet [] [] rb f1 f2 t)\<lparr>dp_alloc := al\<rparr>, m)"
proof -
  have 1: "dp_fill_S2 base ((dp_quiet [] [] rb f1 f2 t)\<lparr>dp_alloc := al\<rparr>) = (dp_quiet [] [] rb f1 f2 t)\<lparr>dp_alloc := al\<rparr>"
    using assms by (simp add: dp_fill_S2_def fill_S2_def dp_quiet_def)
  show ?thesis by (simp add: dp_tail_def 1 stage_idle dp_commit_def; simp add: dp_quiet_def)
qed

lemma tail_chain:
  assumes "f2_state f2 = ALLOC_RECV_RET" and "br_stat resp = BUDDY_SUCCESS"
  shows "\<exists>c. dp_commit (dp_tail base ((dp_quiet [] [] rb f1 f2 t)\<lparr>dp_alloc_ret := [resp]\<rparr>), m) =
    (dp_quiet [] [] rb f1 (f2\<lparr>f2_pi := (f2_pi f2)\<lparr>pi_hb_dram := hb_set_chain (pi_hb_dram (f2_pi f2)) (alloc_addr_trans (br_addr resp) base)\<rparr>,
       f2_cmd_d := c, f2_state := ALLOC_WRITE_DATA\<rparr>) t,
     m\<lparr>pm_dram := (pm_dram m)(take_bit 26 (alloc_addr_trans (br_addr resp) base) := f2_new_hb_dram f2)\<rparr>)"
proof -
  let ?a = "alloc_addr_trans (br_addr resp) base" and ?c = "\<lparr>mc_address = alloc_addr_trans (br_addr resp) base, mc_length = 1\<rparr>"
  let ?f2 = "f2\<lparr>f2_pi := (f2_pi f2)\<lparr>pi_hb_dram := hb_set_chain (pi_hb_dram (f2_pi f2)) ?a\<rparr>, f2_cmd_d := ?c, f2_state := ALLOC_WRITE_DATA\<rparr>"
  have 1: "dp_fill_S2 base ((dp_quiet [] [] rb f1 f2 t)\<lparr>dp_alloc_ret := [resp]\<rparr>) =
      (dp_quiet [] [] rb f1 ?f2 t)\<lparr>DRAM_wr_cmd := [?c], DRAM_wr_data := [f2_new_hb_dram f2]\<rparr>"
    using assms by (simp add: dp_fill_S2_def fill_S2_def fill_S2_recv_def dp_quiet_def Let_def)
  show ?thesis
    by (intro exI [of _ ?c]) (simp add: dp_tail_def 1 stage_idle dp_commit_def; simp add: dp_quiet_def)
qed

lemma tail_nomem:
  assumes "f2_state f2 = ALLOC_RECV_RET" and "br_stat resp \<noteq> BUDDY_SUCCESS"
  shows "\<exists>f2'. f2_state f2' = ALLOC_IDLE \<and> dp_commit (dp_tail base ((dp_quiet [] [] rb f1 f2 t)\<lparr>dp_alloc_ret := [resp]\<rparr>), m) =
    (dp_replied (pi_channel (f2_pi f2)) (reply_of ((f2_pi f2)\<lparr>pi_output_status := PI_OUTPUT_FAILURE\<rparr>)) rb f1 f2' (resv_pop t), m)"
proof -
  let ?p = "(f2_pi f2)\<lparr>pi_output_status := PI_OUTPUT_FAILURE\<rparr>"
  have 1: "dp_fill_S2 base ((dp_quiet [] [] rb f1 f2 t)\<lparr>dp_alloc_ret := [resp]\<rparr>) =
      (dp_quiet [] [] rb f1 (f2\<lparr>f2_pi := ?p, f2_state := ALLOC_IDLE\<rparr>) t)\<lparr>PI_fillS2_to_out := [?p]\<rparr>"
    using assms by (simp add: dp_fill_S2_def fill_S2_def fill_S2_recv_def dp_quiet_def Let_def)
  show ?thesis
    by (intro exI [of _ "f2\<lparr>f2_pi := ?p, f2_state := ALLOC_IDLE\<rparr>"])
      (simp add: dp_tail_def 1 tail_reply dp_commit_def dp_replied_def; simp add: dp_quiet_def)
qed

section \<open>The phases of a request\<close>

text \<open>
  The states a request passes through, with the number of rounds it needs at most. \<open>tgt\<close> is what it is to end
  with: the BRAM, the DRAM and the reply.
\<close>

definition to_look where
  "to_look base resp tgt as pi m \<longleftrightarrow> is_chain (pm_dram m) (dram_index (pi_hash pi)) as \<and>
     write_back base resp (fill_S1_result (pm_dram m) as (compare_bram_pi pi (pm_bram m (bram_index (pi_hash pi))))) (pm_bram m) (pm_dram m) = tgt"

definition to_walk where
  "to_walk base resp tgt as f1 m \<longleftrightarrow> take_bit 26 (mc_address (f1_cmd f1)) = mc_address (f1_cmd f1) \<and> is_chain (pm_dram m) (mc_address (f1_cmd f1)) as \<and>
     write_back base resp (fill_S1_walk (pm_dram m) (f1_pi f1) (f1_slot_dram_found f1) as) (pm_bram m) (pm_dram m) = tgt"

definition to_write where
  "to_write tgt p m \<longleftrightarrow> tgt = (pm_bram m, (pm_dram m)(ucast (pi_hb_dram_addr p) := pi_hb_dram p), reply_of (p\<lparr>pi_output_status := PI_OUTPUT_SUCCEED\<rparr>))"

definition to_chain where
  "to_chain base resp tgt p hb m \<longleftrightarrow>
     (if br_stat resp = BUDDY_SUCCESS
      then to_write tgt (p\<lparr>pi_hb_dram := hb_set_chain (pi_hb_dram p) (alloc_addr_trans (br_addr resp) base)\<rparr>)
             (m\<lparr>pm_dram := (pm_dram m)(take_bit 26 (alloc_addr_trans (br_addr resp) base) := hb)\<rparr>)
      else tgt = (pm_bram m, pm_dram m, reply_of (p\<lparr>pi_output_status := PI_OUTPUT_FAILURE\<rparr>)))"

inductive dp_phase :: "32 word \<Rightarrow> buddy_alloc_ret_if \<Rightarrow> 1 word \<Rightarrow> nat \<Rightarrow> bucket_mem \<times> bucket_mem \<times> mapping_reply \<Rightarrow> nat \<Rightarrow> data_path_st \<times> paging_mem \<Rightarrow> bool"
  for base resp ch depth tgt where
  issued: "dp_phase base resp ch depth tgt (3 * length as + 8) (dp_issue req ch (dp_quiet rr wr rb f1 f2 t, m))"
  if "rb_state rb = READ_BRAM_IDLE" "f1_state f1 = FILL_IDLE" "f2_state f2 = ALLOC_IDLE" "holds_only t []"
     "to_look base resp tgt as (hashed req ch) m" "pm_depth m = depth"
| check: "dp_phase base resp ch depth tgt (3 * length as + 7) ((dp_quiet [] [] rb f1 f2 t)\<lparr>PI_1 := [pi]\<rparr>, m)"
  if "rb_state rb = READ_BRAM_ADDR_CHECK" "rb_index rb = range_get (pi_hash pi) 5 0" "f1_state f1 = FILL_IDLE" "f2_state f2 = ALLOC_IDLE"
     "holds_only t []" "pi_channel pi = ch" "to_look base resp tgt as pi m" "pm_depth m = depth"
| granted: "dp_phase base resp ch depth tgt (3 * length as + 6) ((dp_quiet [] [] rb f1 f2 t)\<lparr>PI_1 := [pi], fifo_addr_resv_res := [RESV_SUCCESS]\<rparr>, m)"
  if "rb_state rb = READ_BRAM_ADDR_RESP" "rb_index rb = range_get (pi_hash pi) 5 0" "f1_state f1 = FILL_IDLE" "f2_state f2 = ALLOC_IDLE"
     "holds_only t [i]" "pi_channel pi = ch" "to_look base resp tgt as pi m" "pm_depth m = depth"
| fetch: "dp_phase base resp ch depth tgt (3 * length as + 5)
       ((dp_quiet [] [] rb f1 f2 t)\<lparr>PI_1 := [pi], BRAM_rd_cmd := [\<lparr>mc_address = bram_index (pi_hash pi), mc_length = 1\<rparr>]\<rparr>, m)"
  if "rb_state rb = READ_BRAM_IDLE" "f1_state f1 = FILL_IDLE" "f2_state f2 = ALLOC_IDLE"
     "holds_only t [i]" "pi_channel pi = ch" "to_look base resp tgt as pi m" "pm_depth m = depth"
| fetched: "dp_phase base resp ch depth tgt (3 * length as + 4)
       ((dp_quiet [] [] rb f1 f2 t)\<lparr>PI_1 := [pi], BRAM_rd_data := [pm_bram m (bram_index (pi_hash pi))]\<rparr>, m)"
  if "rb_state rb = READ_BRAM_IDLE" "f1_state f1 = FILL_IDLE" "f2_state f2 = ALLOC_IDLE"
     "holds_only t [i]" "pi_channel pi = ch" "to_look base resp tgt as pi m" "pm_depth m = depth"
| send: "dp_phase base resp ch depth tgt (3 * length as + 3) (dp_quiet [] [] rb f1 f2 t, m)"
  if "rb_state rb = READ_BRAM_IDLE" "f1_state f1 = FILL_SEND_CMD" "f2_state f2 = ALLOC_IDLE"
     "holds_only t [i]" "pi_channel (f1_pi f1) = ch" "to_walk base resp tgt as f1 m" "pm_depth m = depth"
| wait: "dp_phase base resp ch depth tgt (3 * length as + 2) ((dp_quiet [] [] rb f1 f2 t)\<lparr>DRAM_rd_cmd := [f1_cmd f1]\<rparr>, m)"
  if "rb_state rb = READ_BRAM_IDLE" "f1_state f1 = FILL_READ_DATA" "f2_state f2 = ALLOC_IDLE"
     "holds_only t [i]" "pi_channel (f1_pi f1) = ch" "to_walk base resp tgt as f1 m" "pm_depth m = depth"
| data: "dp_phase base resp ch depth tgt (3 * length as + 1) ((dp_quiet [] [] rb f1 f2 t)\<lparr>DRAM_rd_data := [pm_dram m (mc_address (f1_cmd f1))]\<rparr>, m)"
  if "rb_state rb = READ_BRAM_IDLE" "f1_state f1 = FILL_READ_DATA" "f2_state f2 = ALLOC_IDLE"
     "holds_only t [i]" "pi_channel (f1_pi f1) = ch" "to_walk base resp tgt as f1 m" "pm_depth m = depth"
| asking: "dp_phase base resp ch depth tgt 3 ((dp_quiet [] [] rb f1 f2 t)\<lparr>dp_alloc := [\<lparr>ba_opcode = BUDDY_ALLOC, ba_addr = 0, ba_order = 0\<rparr>]\<rparr>, m)"
  if "rb_state rb = READ_BRAM_IDLE" "f1_state f1 = FILL_IDLE" "f2_state f2 = ALLOC_RECV_RET"
     "holds_only t [i]" "pi_channel (f2_pi f2) = ch" "to_chain base resp tgt (f2_pi f2) (f2_new_hb_dram f2) m" "pm_depth m = depth"
| answered: "dp_phase base resp ch depth tgt 2 ((dp_quiet [] [] rb f1 f2 t)\<lparr>dp_alloc_ret := [resp]\<rparr>, m)"
  if "rb_state rb = READ_BRAM_IDLE" "f1_state f1 = FILL_IDLE" "f2_state f2 = ALLOC_RECV_RET"
     "holds_only t [i]" "pi_channel (f2_pi f2) = ch" "to_chain base resp tgt (f2_pi f2) (f2_new_hb_dram f2) m" "pm_depth m = depth"
| writing: "dp_phase base resp ch depth tgt 1 (dp_quiet [] [] rb f1 f2 t, m)"
  if "rb_state rb = READ_BRAM_IDLE" "f1_state f1 = FILL_IDLE" "f2_state f2 = ALLOC_WRITE_DATA"
     "holds_only t [i]" "pi_channel (f2_pi f2) = ch" "to_write tgt (f2_pi f2) m" "pm_depth m = depth"
| replied: "dp_phase base resp ch depth tgt 0 (dp_replied ch (snd (snd tgt)) rb f1 f2 t, m)"
  if "rb_state rb = READ_BRAM_IDLE" "f1_state f1 = FILL_IDLE" "f2_state f2 = ALLOC_IDLE"
     "holds_only t []" "pm_bram m = fst tgt" "pm_dram m = fst (snd tgt)" "pm_depth m = depth"

text \<open>A word enters \<open>fill_S2\<close>.\<close>

lemma phase_enter:
  assumes "rb_state rb = READ_BRAM_IDLE" "f1_state f1 = FILL_IDLE" "f2_state f2 = ALLOC_IDLE"
    "holds_only t [i]" "pi_channel p = ch" "pm_depth m = depth"
    and wb: "write_back base resp p (pm_bram m) (pm_dram m) = tgt"
  shows "\<exists>k \<le> 3. dp_phase base resp ch depth tgt k (dp_commit (dp_tail base ((dp_quiet [] [] rb f1 f2 t)\<lparr>PI_fillS1_to_fillS2 := [p]\<rparr>), m))"
proof (cases "pi_op p = PI_OPCODE_SET")
  case False
  from tail_pass [OF assms(3) False, of base rb f1 t m resp, unfolded wb] obtain f2' where
    f2': "f2_state f2' = ALLOC_IDLE" "dp_commit (dp_tail base ((dp_quiet [] [] rb f1 f2 t)\<lparr>PI_fillS1_to_fillS2 := [p]\<rparr>), m) =
      (dp_replied (pi_channel p) (snd (snd tgt)) rb f1 f2' (resv_pop t), m\<lparr>pm_bram := fst tgt\<rparr>)" "fst (snd tgt) = pm_dram m" by blast
  then show ?thesis
    using dp_phase.replied [OF assms(1,2) f2'(1) holds_only_pop [OF assms(4)], of "m\<lparr>pm_bram := fst tgt\<rparr>" tgt depth base resp ch] assms(5,6) by auto
next
  case True
  let ?m = "m\<lparr>pm_bram := (pm_bram m)(bram_index (pi_hash p) := pi_hb_bram (set_bram p))\<rparr>"
  show ?thesis
  proof (cases "pi_slot_dram p = - 1")
    case slot: True
    let ?f2 = "f2\<lparr>f2_pi := set_bram p, f2_new_hb_dram := set_new_bucket (set_bram p), f2_state := ALLOC_RECV_RET\<rparr>"
    have "to_chain base resp tgt (set_bram p) (set_new_bucket (set_bram p)) ?m"
      using wb True slot by (auto simp: to_chain_def to_write_def write_back_def Let_def set_new_bucket_def hb_put_def reply_of_def)
    with assms show ?thesis
      unfolding tail_set [OF assms(3) True] using slot dp_phase.asking [of rb f1 ?f2 t i ch base resp tgt ?m depth] by auto
  next
    case slot: False
    let ?f2 = "f2\<lparr>f2_pi := set_dram (set_bram p), f2_state := ALLOC_WRITE_DATA\<rparr>"
    have "to_write tgt (set_dram (set_bram p)) ?m"
      using wb True slot by (auto simp: to_write_def write_back_def set_dram_put reply_of_def)
    with assms show ?thesis
      unfolding tail_set [OF assms(3) True] using slot dp_phase.writing [of rb f1 ?f2 t i ch tgt ?m depth base resp]
      by (auto simp: set_dram_put intro!: exI [of _ "1 :: nat"])
  qed
qed

lemma cycle_first:
  assumes "to_look base resp tgt as pi m" and "rb_state rb = READ_BRAM_IDLE" "f1_state f1 = FILL_IDLE" "f2_state f2 = ALLOC_IDLE"
    "holds_only t [i]" "pi_channel pi = ch" "pm_depth m = depth"
  defines "p \<equiv> compare_bram_pi pi (pm_bram m (bram_index (pi_hash pi)))"
  shows "\<exists>k < 3 * length as + 4. dp_phase base resp ch depth tgt k
    (dp_commit (dp_tail base (dp_fill_S1 ((dp_quiet [] [] rb f1 f2 t)\<lparr>PI_compare_to_fillS1 := [p]\<rparr>)), m))"
proof -
  have p: "pi_channel p = ch" "pi_hash p = pi_hash pi"
    using assms(6) by (simp_all add: p_def compare_bram_pi_request)
  have look: "is_chain (pm_dram m) (dram_index (pi_hash pi)) as" "write_back base resp (fill_S1_result (pm_dram m) as p) (pm_bram m) (pm_dram m) = tgt"
    using assms(1) by (simp_all add: to_look_def p_def)
  show ?thesis
  proof (cases "pi_op p = PI_OPCODE_GET \<and> pi_state p = PI_STATE_HIT_BRAM")
    case True
    then have "write_back base resp p (pm_bram m) (pm_dram m) = tgt" using look(2) by (simp add: fill_S1_result_def)
    from phase_enter [OF assms(2) _ assms(4,5) p(1) assms(7) this, of "f1\<lparr>f1_pi := p\<rparr>"] assms(3) obtain k where
      "k \<le> 3" "dp_phase base resp ch depth tgt k (dp_commit (dp_tail base ((dp_quiet [] [] rb (f1\<lparr>f1_pi := p\<rparr>) f2 t)\<lparr>PI_fillS1_to_fillS2 := [p]\<rparr>), m))" by auto
    with True assms(3) show ?thesis by (intro exI [of _ k]) (simp add: S1_take)
  next
    case False
    let ?f = "f1\<lparr>f1_pi := p, f1_cmd := \<lparr>mc_address = dram_index (pi_hash p), mc_length = 1\<rparr>, f1_slot_dram_found := False, f1_state := FILL_SEND_CMD\<rparr>"
    have "take_bit 26 (dram_index (pi_hash pi)) = dram_index (pi_hash pi)"
      by (rule bit_word_eqI) (auto simp: dram_index_def bit_simps)
    then have "to_walk base resp tgt as ?f m" using look False by (simp add: to_walk_def p fill_S1_result_def)
    from dp_phase.send [OF assms(2) _ assms(4,5) _ this assms(7), of ch] p(1)
    have "dp_phase base resp ch depth tgt (3 * length as + 3) (dp_quiet [] [] rb ?f f2 t, m)" by simp
    moreover have "dp_commit (dp_tail base (dp_quiet [] [] rb ?f f2 t), m) = (dp_quiet [] [] rb ?f f2 t, m)"
      using assms(4) by (simp add: tail_idle commit_idle)
    ultimately show ?thesis
      unfolding S1_take [OF assms(3)] if_not_P [OF False] by (intro exI [of _ "3 * length as + 3"]) simp
  qed
qed

lemma cycle_next:
  assumes "to_walk base resp tgt as f1 m" and "rb_state rb = READ_BRAM_IDLE" "f1_state f1 = FILL_READ_DATA" "f2_state f2 = ALLOC_IDLE"
    "holds_only t [i]" "pi_channel (f1_pi f1) = ch" "pm_depth m = depth"
  shows "\<exists>k < 3 * length as + 1. dp_phase base resp ch depth tgt k
    (dp_commit (dp_tail base (dp_fill_S1 ((dp_quiet [] [] rb f1 f2 t)\<lparr>DRAM_rd_data := [pm_dram m (mc_address (f1_cmd f1))]\<rparr>)), m))"
proof -
  let ?r = "fill_S1_walk (pm_dram m) (f1_pi f1) (f1_slot_dram_found f1) as"
  have chain: "is_chain (pm_dram m) (mc_address (f1_cmd f1)) as" and wb: "write_back base resp ?r (pm_bram m) (pm_dram m) = tgt"
    using assms(1) by (simp_all add: to_walk_def)
  then have pos: "0 < length as" using is_chain_Cons by fastforce
  have r: "pi_channel ?r = ch" using same_request_walk [of "f1_pi f1" "pm_dram m" "f1_slot_dram_found f1" as] assms(6) by (simp add: same_request_def)
  from S1_data [OF assms(3) chain, of rb f2 t] show ?thesis
  proof (elim disjE exE conjE)
    fix f1' assume f1': "f1_state f1' = FILL_IDLE" and s: "dp_fill_S1 ((dp_quiet [] [] rb f1 f2 t)\<lparr>DRAM_rd_data := [pm_dram m (mc_address (f1_cmd f1))]\<rparr>) =
      (dp_quiet [] [] rb f1' f2 t)\<lparr>PI_fillS1_to_fillS2 := [?r]\<rparr>"
    from phase_enter [OF assms(2) f1' assms(4,5) r assms(7) wb] obtain k where "k \<le> 3"
      "dp_phase base resp ch depth tgt k (dp_commit (dp_tail base ((dp_quiet [] [] rb f1' f2 t)\<lparr>PI_fillS1_to_fillS2 := [?r]\<rparr>), m))" by blast
    moreover have "k < 3 * length as + 1" using \<open>k \<le> 3\<close> pos by linarith
    ultimately show ?thesis unfolding s by blast
  next
    fix f1' as' assume f1': "f1_state f1' = FILL_SEND_CMD" and s: "dp_fill_S1 ((dp_quiet [] [] rb f1 f2 t)\<lparr>DRAM_rd_data := [pm_dram m (mc_address (f1_cmd f1))]\<rparr>) =
        dp_quiet [] [] rb f1' f2 t"
      and w: "is_chain (pm_dram m) (mc_address (f1_cmd f1')) as'" "Suc (length as') = length as" "take_bit 26 (mc_address (f1_cmd f1')) = mc_address (f1_cmd f1')"
        "pi_channel (f1_pi f1') = pi_channel (f1_pi f1)" "fill_S1_walk (pm_dram m) (f1_pi f1') (f1_slot_dram_found f1') as' = ?r"
    have "to_walk base resp tgt as' f1' m" using w wb by (simp add: to_walk_def)
    from dp_phase.send [OF assms(2) f1' assms(4,5) _ this assms(7), of ch] w(4) assms(6)
    have "dp_phase base resp ch depth tgt (3 * length as' + 3) (dp_quiet [] [] rb f1' f2 t, m)" by simp
    moreover have "dp_commit (dp_tail base (dp_quiet [] [] rb f1' f2 t), m) = (dp_quiet [] [] rb f1' f2 t, m)"
      using assms(4) by (simp add: tail_idle commit_idle)
    ultimately show ?thesis unfolding s using w(2) [symmetric] by (intro exI [of _ "3 * length as' + 3"]) simp
  qed
qed

text \<open>A cycle brings the request on, unless a memory or the allocator has to answer first.\<close>

definition dp_asks :: "data_path_st \<Rightarrow> bool" where
  "dp_asks s \<longleftrightarrow> BRAM_rd_cmd s \<noteq> [] \<or> DRAM_rd_cmd s \<noteq> [] \<or> dp_alloc s \<noteq> []"

lemma ucast_bucket: "(ucast (range_get h 5 0 :: 6 word) :: 32 word) = bram_index h"
  by (rule bit_word_eqI) (auto simp: bram_index_def bit_simps)

lemma back_cycle:
  assumes "rb_state rb = READ_BRAM_IDLE" and "f1_state f1 = FILL_IDLE"
  shows "data_path base (dp_quiet rr wr rb f1 f2 t) = dp_tail base (dp_quiet rr wr rb f1 f2 t)"
    and "data_path base ((dp_quiet rr wr rb f1 f2 t)\<lparr>dp_alloc := al\<rparr>) = dp_tail base ((dp_quiet rr wr rb f1 f2 t)\<lparr>dp_alloc := al\<rparr>)"
    and "data_path base ((dp_quiet rr wr rb f1 f2 t)\<lparr>dp_alloc_ret := ar\<rparr>) = dp_tail base ((dp_quiet rr wr rb f1 f2 t)\<lparr>dp_alloc_ret := ar\<rparr>)"
  using assms by (simp_all add: cycle_front_idle stage_idle)

lemma phase_cycle:
  assumes "dp_phase base resp ch depth tgt k y"
  shows "(\<exists>k' < k. dp_phase base resp ch depth tgt k' (dp_step base resp Dp_cycle y)) \<or>
    dp_step base resp Dp_cycle y = y \<and> (k = 0 \<or> dp_asks (fst y))"
  using assms
proof (cases rule: dp_phase.cases)
  case (issued rb f1 f2 t as req m rr wr)
  let ?rb = "rb\<lparr>rb_pi := hashed req ch, rb_index := range_get (mr_address req) 5 0, rb_state := READ_BRAM_ADDR_CHECK\<rparr>"
  have "dp_step base resp Dp_cycle y = ((dp_quiet [] [] ?rb f1 f2 t)\<lparr>PI_1 := [hashed req ch]\<rparr>, m)"
    using cycle_issue [OF issued(3-5), of base req ch rr wr t m] by (simp add: issued(2) commit_idle) (simp add: dp_issue_def)
  with dp_phase.check [of ?rb "hashed req ch" f1 f2 t ch base resp tgt as m depth] issued(1,3-8) show ?thesis
    by (intro disjI1 exI [of _ "3 * length as + 7"]) simp
next
  case (check rb pi f1 f2 t as m)
  note hold = holds_only_try [OF check(7), of "rb_index rb"]
  have "dp_step base resp Dp_cycle y =
      ((dp_quiet [] [] (rb\<lparr>rb_state := READ_BRAM_ADDR_RESP\<rparr>) f1 f2 (fst (resv_try t (rb_index rb))))\<lparr>PI_1 := [pi], fifo_addr_resv_res := [RESV_SUCCESS]\<rparr>, m)"
    using hold by (simp add: check(2) cycle_check [OF check(3,5,6)] commit_idle)
  with dp_phase.granted [of "rb\<lparr>rb_state := READ_BRAM_ADDR_RESP\<rparr>" pi f1 f2 "fst (resv_try t (rb_index rb))" "rb_index rb" ch base resp tgt as m depth]
    hold check show ?thesis
    by (intro disjI1 exI [of _ "3 * length as + 6"]) simp
next
  case (granted rb pi f1 f2 t i as m)
  have "dp_step base resp Dp_cycle y =
      ((dp_quiet [] [] (rb\<lparr>rb_state := READ_BRAM_IDLE\<rparr>) f1 f2 t)\<lparr>PI_1 := [pi], BRAM_rd_cmd := [\<lparr>mc_address = bram_index (pi_hash pi), mc_length = 1\<rparr>]\<rparr>, m)"
    by (simp add: granted(2,4) cycle_granted [OF granted(3,5,6)] commit_idle ucast_bucket)
  with dp_phase.fetch [of "rb\<lparr>rb_state := READ_BRAM_IDLE\<rparr>" f1 f2 t i pi ch base resp tgt as m depth] granted show ?thesis
    by (intro disjI1 exI [of _ "3 * length as + 5"]) simp
next
  case (fetch rb f1 f2 t i pi as m)
  then show ?thesis by (intro disjI2) (simp add: cycle_fetch commit_idle dp_asks_def)
next
  case (fetched rb f1 f2 t i pi as m)
  with cycle_first [OF fetched(8,3-7,9)] show ?thesis by (intro disjI1) (simp add: cycle_fetched)
next
  case (send rb f1 f2 t i as m)
  let ?f = "f1\<lparr>f1_state := FILL_READ_DATA\<rparr>"
  have "dp_step base resp Dp_cycle y = ((dp_quiet [] [] rb ?f f2 t)\<lparr>DRAM_rd_cmd := [f1_cmd ?f]\<rparr>, m)"
    using send by (simp add: cycle_front_idle S1_send tail_idle commit_idle)
  moreover have "to_walk base resp tgt as ?f m" using send(8) by (simp add: to_walk_def)
  ultimately show ?thesis
    using dp_phase.wait [of rb ?f f2 t i ch base resp tgt as m depth] send by (intro disjI1 exI [of _ "3 * length as + 2"]) simp
next
  case (wait rb f1 f2 t i as m)
  then show ?thesis by (intro disjI2) (simp add: cycle_front_idle S1_wait tail_idle commit_idle dp_asks_def)
next
  case (data rb f1 f2 t i as m)
  with cycle_next [OF data(8,3-7,9)] show ?thesis by (intro disjI1) (simp add: cycle_front_idle)
next
  case (asking rb f1 f2 t i m)
  then show ?thesis by (intro disjI2) (simp add: back_cycle tail_wait dp_asks_def)
next
  case (answered rb f1 f2 t i m)
  let ?s = "(dp_quiet [] [] rb f1 f2 t)\<lparr>dp_alloc_ret := [resp]\<rparr>"
  show ?thesis
  proof (cases "br_stat resp = BUDDY_SUCCESS")
    case True
    from tail_chain [OF answered(5) True, of base rb f1 t m] obtain c where c: "dp_commit (dp_tail base ?s, m) =
      (dp_quiet [] [] rb f1 (f2\<lparr>f2_pi := (f2_pi f2)\<lparr>pi_hb_dram := hb_set_chain (pi_hb_dram (f2_pi f2)) (alloc_addr_trans (br_addr resp) base)\<rparr>,
         f2_cmd_d := c, f2_state := ALLOC_WRITE_DATA\<rparr>) t,
       m\<lparr>pm_dram := (pm_dram m)(take_bit 26 (alloc_addr_trans (br_addr resp) base) := f2_new_hb_dram f2)\<rparr>)" (is "_ = (dp_quiet [] [] rb f1 ?f2 t, ?m)") by blast
    have "dp_phase base resp ch depth tgt 1 (dp_quiet [] [] rb f1 ?f2 t, ?m)"
      using dp_phase.writing [of rb f1 ?f2 t i ch tgt ?m depth base resp] answered(3-9) True by (simp add: to_chain_def)
    then show ?thesis
      using answered(1-4) c by (intro disjI1 exI [of _ 1]) (simp add: back_cycle)
  next
    case False
    from tail_nomem [OF answered(5) False, of base rb f1 t m] obtain f2' where f2': "f2_state f2' = ALLOC_IDLE" "dp_commit (dp_tail base ?s, m) =
      (dp_replied (pi_channel (f2_pi f2)) (reply_of ((f2_pi f2)\<lparr>pi_output_status := PI_OUTPUT_FAILURE\<rparr>)) rb f1 f2' (resv_pop t), m)" by blast
    have "dp_phase base resp ch depth tgt 0 (dp_replied ch (snd (snd tgt)) rb f1 f2' (resv_pop t), m)"
      using answered(8) False by (intro dp_phase.replied [OF answered(3,4) f2'(1) holds_only_pop [OF answered(6)] _ _ answered(9)]) (simp_all add: to_chain_def)
    with answered False f2'(2) show ?thesis by (intro disjI1 exI [of _ 0]) (simp add: back_cycle to_chain_def)
  qed
next
  case (writing rb f1 f2 t i m)
  from tail_write [OF writing(5), of base rb f1 t m] obtain f2' where f2': "f2_state f2' = ALLOC_IDLE" "dp_commit (dp_tail base (dp_quiet [] [] rb f1 f2 t), m) =
    (dp_replied (pi_channel (f2_pi f2)) (reply_of ((f2_pi f2)\<lparr>pi_output_status := PI_OUTPUT_SUCCEED\<rparr>)) rb f1 f2' (resv_pop t),
     m\<lparr>pm_dram := (pm_dram m)(ucast (pi_hb_dram_addr (f2_pi f2)) := pi_hb_dram (f2_pi f2))\<rparr>)" (is "_ = (_, ?m)") by blast
  have "dp_phase base resp ch depth tgt 0 (dp_replied ch (snd (snd tgt)) rb f1 f2' (resv_pop t), ?m)"
    using writing(8,9) by (intro dp_phase.replied [OF writing(3,4) f2'(1) holds_only_pop [OF writing(6)]]) (simp_all add: to_write_def)
  with writing f2'(2) show ?thesis by (intro disjI1 exI [of _ 0]) (simp add: back_cycle to_write_def)
next
  case (replied rb f1 f2 t m)
  then show ?thesis by (intro disjI2) (simp add: dp_replied_def back_cycle tail_idle commit_idle)
qed

text \<open>An answer brings on a request that waits for it, and changes nothing otherwise.\<close>

lemma phase_serve:
  assumes "dp_phase base resp ch depth tgt k y"
  shows "if BRAM_rd_cmd (fst y) = [] then dp_step base resp Bram_serve y = y else \<exists>k' < k. dp_phase base resp ch depth tgt k' (dp_step base resp Bram_serve y)"
    and "if DRAM_rd_cmd (fst y) = [] then dp_step base resp Dram_serve y = y else \<exists>k' < k. dp_phase base resp ch depth tgt k' (dp_step base resp Dram_serve y)"
    and "if dp_alloc (fst y) = [] then dp_step base resp Alloc_serve y = y else \<exists>k' < k. dp_phase base resp ch depth tgt k' (dp_step base resp Alloc_serve y)"
proof -
  show "if BRAM_rd_cmd (fst y) = [] then dp_step base resp Bram_serve y = y else \<exists>k' < k. dp_phase base resp ch depth tgt k' (dp_step base resp Bram_serve y)"
    using assms
  proof (cases rule: dp_phase.cases)
    case (fetch rb f1 f2 t i pi as m)
    have "dp_step base resp Bram_serve y = ((dp_quiet [] [] rb f1 f2 t)\<lparr>PI_1 := [pi], BRAM_rd_data := [pm_bram m (bram_index (pi_hash pi))]\<rparr>, m)"
      by (simp add: fetch(2) dp_quiet_def)
    with fetch(1,2) dp_phase.fetched [OF fetch(3-9)] show ?thesis by (auto simp del: dp_step.simps intro!: exI [of _ "3 * length as + 4"])
  qed (simp_all add: dp_replied_def dp_issue_def)
  show "if DRAM_rd_cmd (fst y) = [] then dp_step base resp Dram_serve y = y else \<exists>k' < k. dp_phase base resp ch depth tgt k' (dp_step base resp Dram_serve y)"
    using assms
  proof (cases rule: dp_phase.cases)
    case (wait rb f1 f2 t i as m)
    have "dp_step base resp Dram_serve y = ((dp_quiet [] [] rb f1 f2 t)\<lparr>DRAM_rd_data := [pm_dram m (mc_address (f1_cmd f1))]\<rparr>, m)"
      using wait(8) by (simp add: wait(2) to_walk_def dp_quiet_def)
    with wait(1,2) dp_phase.data [OF wait(3-9)] show ?thesis by (auto simp del: dp_step.simps intro!: exI [of _ "3 * length as + 1"])
  qed (simp_all add: dp_replied_def dp_issue_def)
  show "if dp_alloc (fst y) = [] then dp_step base resp Alloc_serve y = y else \<exists>k' < k. dp_phase base resp ch depth tgt k' (dp_step base resp Alloc_serve y)"
    using assms
  proof (cases rule: dp_phase.cases)
    case (asking rb f1 f2 t i m)
    have "dp_step base resp Alloc_serve y = ((dp_quiet [] [] rb f1 f2 t)\<lparr>dp_alloc_ret := [resp]\<rparr>, m)"
      by (simp add: asking(2) dp_quiet_def)
    with asking(1,2) dp_phase.answered [OF asking(3-9)] show ?thesis by (auto simp del: dp_step.simps intro!: exI [of _ "2 :: nat"])
  qed (simp_all add: dp_replied_def dp_issue_def)
qed

lemma phase_step:
  assumes "dp_phase base resp ch depth tgt k y"
  shows "\<exists>k' \<le> k. dp_phase base resp ch depth tgt k' (dp_step base resp e y)"
proof (cases e)
  case Dp_cycle
  with phase_cycle [OF assms] assms show ?thesis by (auto simp del: dp_step.simps intro: less_imp_le)
qed (use phase_serve [OF assms] assms in \<open>auto simp del: dp_step.simps intro: less_imp_le split: if_splits\<close>)

text \<open>A round: a cycle, and then every memory and the allocator answer.\<close>

definition dp_round :: "dp_event list" where
  "dp_round = [Dp_cycle, Bram_serve, Dram_serve, Alloc_serve]"

lemma phase_run: "dp_phase base resp ch depth tgt k y \<Longrightarrow> \<exists>k' \<le> k. dp_phase base resp ch depth tgt k' (fold (dp_step base resp) es y)"
proof (induction es arbitrary: k y)
  case (Cons e es)
  obtain k' where "k' \<le> k" "dp_phase base resp ch depth tgt k' (dp_step base resp e y)" using phase_step [OF Cons.prems] by blast
  with Cons.IH [OF this(2)] show ?case by (auto intro: order_trans)
qed auto

lemma phase_asks:
  assumes "dp_phase base resp ch depth tgt k y" and "dp_asks (fst y)"
  shows "\<exists>k' < k. dp_phase base resp ch depth tgt k' (fold (dp_step base resp) [Bram_serve, Dram_serve, Alloc_serve] y)"
proof (cases "BRAM_rd_cmd (fst y) = []")
  case False
  with phase_serve(1) [OF assms(1)] obtain k' where k': "k' < k" "dp_phase base resp ch depth tgt k' (dp_step base resp Bram_serve y)" by auto
  from phase_run [OF k'(2), of "[Dram_serve, Alloc_serve]"] k'(1) show ?thesis by (auto simp del: dp_step.simps intro: le_less_trans)
next
  case bram: True
  with phase_serve(1) [OF assms(1)] have b: "dp_step base resp Bram_serve y = y" by simp
  show ?thesis
  proof (cases "DRAM_rd_cmd (fst y) = []")
    case False
    with phase_serve(2) [OF assms(1)] obtain k' where k': "k' < k" "dp_phase base resp ch depth tgt k' (dp_step base resp Dram_serve y)" by auto
    from phase_run [OF k'(2), of "[Alloc_serve]"] k'(1) b show ?thesis by (auto simp del: dp_step.simps intro: le_less_trans)
  next
    case True
    with phase_serve(2) [OF assms(1)] have "dp_step base resp Dram_serve y = y" by simp
    moreover have "dp_alloc (fst y) \<noteq> []" using assms(2) bram True by (simp add: dp_asks_def)
    ultimately show ?thesis using phase_serve(3) [OF assms(1)] b by (simp del: dp_step.simps)
  qed
qed

lemma phase_round:
  assumes "dp_phase base resp ch depth tgt k y"
  shows "\<exists>k' \<le> k - 1. dp_phase base resp ch depth tgt k' (fold (dp_step base resp) dp_round y)"
proof -
  have round: "fold (dp_step base resp) dp_round y = fold (dp_step base resp) [Bram_serve, Dram_serve, Alloc_serve] (dp_step base resp Dp_cycle y)"
    by (simp add: dp_round_def del: dp_step.simps)
  from phase_cycle [OF assms] show ?thesis
  proof (elim disjE exE conjE)
    fix k' assume k': "k' < k" "dp_phase base resp ch depth tgt k' (dp_step base resp Dp_cycle y)"
    from phase_run [OF k'(2)] k'(1) show ?thesis unfolding round by (metis Suc_diff_1 less_Suc_eq_le order_trans not_less_zero gr0I less_le_not_le)
  next
    assume "dp_step base resp Dp_cycle y = y" "k = 0"
    with phase_run [OF assms, of "[Bram_serve, Dram_serve, Alloc_serve]"] show ?thesis unfolding round by (simp del: dp_step.simps)
  next
    assume eq: "dp_step base resp Dp_cycle y = y" and "dp_asks (fst y)"
    from phase_asks [OF assms this(2)] obtain k' where "k' < k" "dp_phase base resp ch depth tgt k' (fold (dp_step base resp) dp_round y)"
      unfolding round eq by blast
    then show ?thesis by (intro exI [of _ k']) simp
  qed
qed

lemma phase_rounds:
  "dp_phase base resp ch depth tgt k y \<Longrightarrow> \<exists>k' \<le> k - n. dp_phase base resp ch depth tgt k' (fold (dp_step base resp) (concat (replicate n dp_round)) y)"
proof (induction n arbitrary: k y)
  case (Suc n)
  obtain k' where "k' \<le> k - 1" "dp_phase base resp ch depth tgt k' (fold (dp_step base resp) dp_round y)" using phase_round [OF Suc.prems] by blast
  moreover from Suc.IH [OF this(2)] obtain k'' where "k'' \<le> k' - n"
    "dp_phase base resp ch depth tgt k'' (fold (dp_step base resp) (concat (replicate n dp_round)) (fold (dp_step base resp) dp_round y))" by blast
  ultimately show ?case by (intro exI [of _ k'']) simp
qed auto

section \<open>A request from beginning to end\<close>

text \<open>The replies on the two ports, with the port, the status and the address of each.\<close>

definition dp_replies :: "data_path_st \<Rightarrow> (1 word \<times> mapping_reply) list" where
  "dp_replies s = map (Pair PI_CHANNEL_READ) (rd_reply s) @ map (Pair PI_CHANNEL_WRITE) (wr_reply s)"

lemma phase_replies:
  assumes "dp_phase base resp ch depth tgt k y"
  shows "dp_replies (fst y) = (if k = 0 then [(ch, snd (snd tgt))] else [])"
  using assms channel_cases [of ch]
  by (cases rule: dp_phase.cases) (auto simp: dp_replies_def dp_replied_def dp_issue_def PI_CHANNEL_READ_def PI_CHANNEL_WRITE_def)

definition dp_idle :: "data_path_st \<Rightarrow> bool" where
  "dp_idle s \<longleftrightarrow> s = dp_quiet (rd_reply s) (wr_reply s) (st_read_bram s) (st_fill_S1 s) (st_fill_S2 s) (st_resv_table s) \<and>
     rb_state (st_read_bram s) = READ_BRAM_IDLE \<and> f1_state (st_fill_S1 s) = FILL_IDLE \<and> f2_state (st_fill_S2 s) = ALLOC_IDLE \<and>
     holds_only (st_resv_table s) []"

text \<open>What has become of a request: nothing yet, or its reply is there, the data path is idle again, and the
  memories are those of the transaction.\<close>

lemma request_outcome:
  fixes base :: "32 word" and resp :: buddy_alloc_ret_if
  assumes "dp_idle (fst y)" and "table_wf (pm_depth (snd y)) (pm_dram (snd y))"
    and op: "pi_op (hashed req ch) = PI_OPCODE_SET \<or> pi_op (hashed req ch) = PI_OPCODE_GET"
  defines "T \<equiv> paging_txn base 0 resp (hashed req ch) (snd y)"
    and "z \<equiv> \<lambda>es. fold (dp_step base resp) es (dp_issue req ch y)"
  shows "dp_replies (fst (z es)) = [] \<or> dp_replies (fst (z es)) = map (\<lambda>pi. (ch, reply_of pi)) (snd T)"
    and "dp_replies (fst (z es)) \<noteq> [] \<Longrightarrow> dp_idle (fst (z es)) \<and> (snd (z es))\<lparr>pm_depth := Suc (pm_depth (snd (z es)))\<rparr> = fst T"
    and "3 * pm_depth (snd y) + 8 \<le> n \<Longrightarrow> dp_replies (fst (z (concat (replicate n dp_round)))) = map (\<lambda>pi. (ch, reply_of pi)) (snd T)"
proof -
  let ?m = "snd y" and ?pi = "hashed req ch" and ?s = "fst y"
  let ?tgt = "(pm_bram (fst T), pm_dram (fst T), hd (map reply_of (snd T)))"
  obtain as where as: "chain (pm_dram ?m) (pm_depth ?m) (dram_index (pi_hash ?pi)) = Some as"
    using table_wf_chain [OF assms(2) dram_index_less] by blast
  then have len: "length as \<le> pm_depth ?m" and chain: "is_chain (pm_dram ?m) (dram_index (pi_hash ?pi)) as" by (simp_all add: chain_iff)
  have look: "looked_up ?m ?pi = fill_S1_result (pm_dram ?m) as (compare_bram_pi ?pi (pm_bram ?m (bram_index (pi_hash ?pi))))"
    using as by (simp add: looked_up_def)
  then have "same_request (compare_bram_pi ?pi (pm_bram ?m (bram_index (pi_hash ?pi)))) (looked_up ?m ?pi)"
    by (simp add: fill_S1_result_def same_request_walk)
  from same_request_op [OF this] op have op': "pi_op (looked_up ?m ?pi) = PI_OPCODE_SET \<or> pi_op (looked_up ?m ?pi) = PI_OPCODE_GET"
    by (simp add: compare_bram_pi_request)
  note wb = write_back_txn [OF op', where base = base and resp = resp and d = 0, folded T_def]
  then obtain pi' where pi': "snd T = [pi']" by blast
  have "to_look base resp ?tgt as ?pi ?m" unfolding to_look_def look [symmetric] using chain wb(1) by simp
  with assms(1) have "dp_phase base resp ch (pm_depth ?m) ?tgt (3 * length as + 8)
      (dp_issue req ch (dp_quiet (rd_reply ?s) (wr_reply ?s) (st_read_bram ?s) (st_fill_S1 ?s) (st_fill_S2 ?s) (st_resv_table ?s), ?m))"
    unfolding dp_idle_def by (intro dp_phase.issued) simp_all
  moreover have "(dp_quiet (rd_reply ?s) (wr_reply ?s) (st_read_bram ?s) (st_fill_S1 ?s) (st_fill_S2 ?s) (st_resv_table ?s), ?m) = y"
    using assms(1) unfolding dp_idle_def by (metis prod.collapse)
  ultimately have start: "dp_phase base resp ch (pm_depth ?m) ?tgt (3 * length as + 8) (dp_issue req ch y)" by simp
  have depth: "pm_depth (fst T) = Suc (pm_depth ?m)" by (simp add: T_def paging_txn_def Let_def)
  obtain k where k: "dp_phase base resp ch (pm_depth ?m) ?tgt k (z es)" using phase_run [OF start, of es] unfolding z_def by blast
  from phase_replies [OF k] pi' show "dp_replies (fst (z es)) = [] \<or> dp_replies (fst (z es)) = map (\<lambda>pi. (ch, reply_of pi)) (snd T)" by simp
  show "dp_idle (fst (z es)) \<and> (snd (z es))\<lparr>pm_depth := Suc (pm_depth (snd (z es)))\<rparr> = fst T" if "dp_replies (fst (z es)) \<noteq> []"
  proof -
    have "k = 0" using that phase_replies [OF k] by (simp split: if_splits)
    with k obtain rb f1 f2 t m where "z es = (dp_replied ch (snd (snd ?tgt)) rb f1 f2 t, m)" "rb_state rb = READ_BRAM_IDLE" "f1_state f1 = FILL_IDLE"
        "f2_state f2 = ALLOC_IDLE" "holds_only t []" "pm_bram m = pm_bram (fst T)" "pm_dram m = pm_dram (fst T)" "pm_depth m = pm_depth ?m"
      by (cases rule: dp_phase.cases) auto
    then show ?thesis by (cases "fst T") (simp add: dp_idle_def dp_replied_def depth [symmetric])
  qed
  show "dp_replies (fst (z (concat (replicate n dp_round)))) = map (\<lambda>pi. (ch, reply_of pi)) (snd T)" if "3 * pm_depth (snd y) + 8 \<le> n"
  proof -
    have "3 * length as + 8 - n = 0" using that len by simp
    with phase_rounds [OF start, of n] have "dp_phase base resp ch (pm_depth ?m) ?tgt 0 (z (concat (replicate n dp_round)))" by (simp add: z_def)
    from phase_replies [OF this] pi' show ?thesis by simp
  qed
qed

section \<open>The interface of a translation table\<close>

text \<open>The last value written to a key by a sequence of operations.\<close>

definition last_write :: "('k \<times> 'v) option list \<Rightarrow> 'k \<Rightarrow> 'v option \<Rightarrow> 'v option" where
  "last_write ws k d = foldl (\<lambda>r w. case w of None \<Rightarrow> r | Some (k', v) \<Rightarrow> if k' = k then Some v else r) d ws"

lemma last_write_simps [simp]:
  "last_write [] k d = d"
  "last_write (w # ws) k d = last_write ws k (case w of None \<Rightarrow> d | Some (k', v) \<Rightarrow> if k' = k then Some v else d)"
  by (simp_all add: last_write_def)

fun run_ok :: "('o \<Rightarrow> 's \<Rightarrow> 's) \<Rightarrow> ('o \<Rightarrow> 's \<Rightarrow> bool) \<Rightarrow> 'o list \<Rightarrow> 's \<Rightarrow> bool" where
  "run_ok step ok [] s = True"
| "run_ok step ok (x # xs) s = (ok x s \<and> run_ok step ok xs (step x s))"

locale translation_table =
  fixes step :: "'o \<Rightarrow> 's \<Rightarrow> 's" and ok :: "'o \<Rightarrow> 's \<Rightarrow> bool" and inv :: "'s \<Rightarrow> bool"
    and entry :: "'s \<Rightarrow> 'k \<Rightarrow> 'v option" and written :: "'o \<Rightarrow> ('k \<times> 'v) option" and key :: "'k \<Rightarrow> bool"
  assumes step_inv: "inv s \<Longrightarrow> ok x s \<Longrightarrow> inv (step x s)"
    and step_entry: "inv s \<Longrightarrow> ok x s \<Longrightarrow> key k \<Longrightarrow>
      entry (step x s) k = (case written x of None \<Rightarrow> entry s k | Some (k', v) \<Rightarrow> if k' = k then Some v else entry s k)"
begin

lemma run_inv: "inv s \<Longrightarrow> run_ok step ok xs s \<Longrightarrow> inv (fold step xs s)"
  by (induction xs arbitrary: s) (auto intro: step_inv)

lemma run_entry:
  "inv s \<Longrightarrow> run_ok step ok xs s \<Longrightarrow> key k \<Longrightarrow> entry (fold step xs s) k = last_write (map written xs) k (entry s k)"
proof (induction xs arbitrary: s)
  case (Cons x xs)
  then show ?case using step_inv [of s x] step_entry [of s x k] by simp
qed simp

end

text \<open>Its implementation: a request, the port it comes to, what the allocator answers if it is asked, and the
  order in which cycles and answers follow until the next request is issued.\<close>

record paging_op =
  po_req :: mapping_request
  po_channel :: "1 word"
  po_resp :: buddy_alloc_ret_if
  po_events :: "dp_event list"

definition dp_answers :: "32 word \<Rightarrow> paging_op \<Rightarrow> dp_event list \<Rightarrow> data_path_st \<times> paging_mem \<Rightarrow> (1 word \<times> 1 word \<times> 32 word) list" where
  "dp_answers base x es y = map (\<lambda>(ch, r). (ch, mp_status r, mp_address r))
     (dp_replies (fst (fold (dp_step base (po_resp x)) es (dp_issue (po_req x) (po_channel x) y))))"

text \<open>The state after a request; \<open>pm_depth\<close>, the bound on the length of the chains, grows with every request.\<close>

definition dp_serve :: "32 word \<Rightarrow> paging_op \<Rightarrow> data_path_st \<times> paging_mem \<Rightarrow> data_path_st \<times> paging_mem" where
  "dp_serve base x y =
     (let z = fold (dp_step base (po_resp x)) (po_events x) (dp_issue (po_req x) (po_channel x) y)
      in (fst z, (snd z)\<lparr>pm_depth := Suc (pm_depth (snd z))\<rparr>))"

definition is_set :: "mapping_request \<Rightarrow> bool" where
  "is_set req \<longleftrightarrow> mr_opcode req = MAPPING_SET OR MAPPING_PERMISSION_R \<or> mr_opcode req = MAPPING_SET OR MAPPING_PERMISSION_RW"

definition is_get :: "mapping_request \<Rightarrow> bool" where
  "is_get req \<longleftrightarrow> mr_opcode req = MAPPING_REQUEST_READ \<or> mr_opcode req = MAPPING_REQUEST_WRITE"

definition set_writable :: "mapping_request \<Rightarrow> bool" where
  "set_writable req \<longleftrightarrow> mr_opcode req = MAPPING_SET OR MAPPING_PERMISSION_RW"

text \<open>The next request is issued after the reply; a SET is not for key 0, and the allocator has memory and hands out
  a bucket that is not in the table.\<close>

definition dp_ok :: "32 word \<Rightarrow> paging_op \<Rightarrow> data_path_st \<times> paging_mem \<Rightarrow> bool" where
  "dp_ok base x y \<longleftrightarrow> dp_answers base x (po_events x) y \<noteq> [] \<and>
     (is_get (po_req x) \<or>
      is_set (po_req x) \<and> mr_address (po_req x) \<noteq> 0 \<and> br_stat (po_resp x) = BUDDY_SUCCESS \<and>
      unused_index (pm_depth (snd y)) (pm_dram (snd y)) (new_index base (po_resp x)))"

definition paging_written :: "paging_op \<Rightarrow> (32 word \<times> (32 word \<times> bool)) option" where
  "paging_written x =
     (if is_set (po_req x) then Some (mr_address (po_req x), (mr_length (po_req x), set_writable (po_req x))) else None)"

lemmas mapping_consts = MAPPING_REQUEST_READ_def MAPPING_REQUEST_WRITE_def MAPPING_SET_def
  MAPPING_PERMISSION_R_def MAPPING_PERMISSION_RW_def PI_OPCODE_GET_def PI_OPCODE_SET_def PI_OPCODE_UNKNOWN_def

lemma hashed_op:
  "is_set req \<Longrightarrow> pi_op (hashed req ch) = PI_OPCODE_SET \<and> pi_rw (hashed req ch) = set_writable req"
  "is_get req \<Longrightarrow> pi_op (hashed req ch) = PI_OPCODE_GET \<and> pi_rw (hashed req ch) = (mr_opcode req = MAPPING_REQUEST_WRITE)"
  by (auto simp: is_set_def is_get_def set_writable_def pi_op_def pi_rw_def remux_opcode_def mapping_consts range_get_def bit_simps take_bit_eq_mod)

lemma set_not_get: "is_set req \<Longrightarrow> \<not> is_get req"
  by (auto simp: is_set_def is_get_def mapping_consts)

lemma hashed_either: "is_get req \<or> is_set req \<Longrightarrow> pi_op (hashed req ch) = PI_OPCODE_SET \<or> pi_op (hashed req ch) = PI_OPCODE_GET"
  using hashed_op by blast

definition dp_inv :: "data_path_st \<times> paging_mem \<Rightarrow> bool" where
  "dp_inv y \<longleftrightarrow> dp_idle (fst y) \<and> paging_inv (snd y)"

lemma dp_serve_txn:
  assumes "dp_inv y" and "dp_ok base x y"
  shows "dp_idle (fst (dp_serve base x y)) \<and>
    snd (dp_serve base x y) = fst (paging_txn base 0 (po_resp x) (hashed (po_req x) (po_channel x)) (snd y))"
proof -
  have inv: "dp_idle (fst y)" "table_wf (pm_depth (snd y)) (pm_dram (snd y))" using assms(1) by (simp_all add: dp_inv_def paging_inv_def)
  have "is_get (po_req x) \<or> is_set (po_req x)" using assms(2) by (auto simp: dp_ok_def)
  from request_outcome(2) [OF inv hashed_either [OF this], of base "po_resp x" "po_events x"] assms(2) show ?thesis
    by (auto simp: dp_ok_def dp_answers_def dp_serve_def Let_def)
qed

interpretation dpt: translation_table "dp_serve base" "dp_ok base" dp_inv "\<lambda>y. paging_map (snd y)" paging_written "\<lambda>k. k \<noteq> 0"
proof
  fix y x assume inv: "dp_inv y" and ok: "dp_ok base x y"
  let ?pi = "hashed (po_req x) (po_channel x)"
  note txn = dp_serve_txn [OF inv ok]
  have pinv: "paging_inv (snd y)" using inv by (simp add: dp_inv_def)
  have "paging_inv (snd (dp_serve base x y))"
    using txn pinv ok hashed_op [of "po_req x" "po_channel x"] set_not_get
      paging_txn_get(1) [of "snd y" ?pi base] paging_txn_set(1) [of "snd y" ?pi "po_resp x" base]
    by (auto simp: dp_ok_def)
  with txn show "dp_inv (dp_serve base x y)" by (simp add: dp_inv_def)
  show "paging_map (snd (dp_serve base x y)) k =
      (case paging_written x of None \<Rightarrow> paging_map (snd y) k | Some (k', v) \<Rightarrow> if k' = k then Some v else paging_map (snd y) k)"
    if "k \<noteq> 0" for k
    using txn pinv ok that hashed_op [of "po_req x" "po_channel x"] set_not_get
      paging_txn_get(2) [of "snd y" ?pi base] paging_txn_set(2,3) [of "snd y" ?pi "po_resp x" base]
    by (auto simp: dp_ok_def paging_written_def)
qed

section \<open>Properties\<close>

definition paging_init :: paging_mem where
  "paging_init = \<lparr>pm_depth = 1, pm_bram = (\<lambda>_. 0), pm_dram = (\<lambda>_. 0)\<rparr>"

lemma paging_init: "paging_inv paging_init" "k \<noteq> 0 \<Longrightarrow> paging_map paging_init k = None"
proof -
  have ch: "chain (\<lambda>_. 0) 1 h = Some [h]" for h by (simp add: One_nat_def hb_simps)
  have small: "h < 2 ^ 26" if "h < 1024" for h :: "32 word"
    using that by (rule less_trans) simp
  have "table_wf 1 (\<lambda>_. 0)"
    unfolding table_wf_def ch using small by (auto simp: bucket_wf_0)
  then show "paging_inv paging_init"
    by (simp add: paging_inv_def paging_init_def bram_ok_def hb_simps)
  have "hb_get 0 k = None" if "k \<noteq> 0" using that by (auto simp: hb_get_None_iff hb_simps)
  then show "k \<noteq> 0 \<Longrightarrow> paging_map paging_init k = None"
    unfolding paging_map_def table_get_def paging_init_def paging_mem.simps ch by simp
qed

lemma init_unused: "1024 \<le> b \<Longrightarrow> unused_index (pm_depth paging_init) (pm_dram paging_init) b"
proof -
  have ch: "chain (\<lambda>_. 0) 1 h = Some [h]" for h by (simp add: One_nat_def hb_simps)
  show "1024 \<le> b \<Longrightarrow> ?thesis"
    unfolding unused_index_def paging_init_def paging_mem.simps ch by auto
qed

definition dp_start :: "data_path_st \<times> paging_mem" where
  "dp_start = (data_path_init, paging_init)"

lemma dp_start: "dp_inv dp_start" "k \<noteq> 0 \<Longrightarrow> paging_map (snd dp_start) k = None" "pm_depth (snd dp_start) = 1"
proof -
  have "dp_idle data_path_init"
    by (simp add: dp_idle_def holds_only_def resv_inv_init resv_abs_init) (simp add: data_path_init_def dp_quiet_def resv_inv_init resv_abs_init)
  with paging_init show "dp_inv dp_start" "k \<noteq> 0 \<Longrightarrow> paging_map (snd dp_start) k = None" "pm_depth (snd dp_start) = 1"
    by (simp_all add: dp_start_def dp_inv_def paging_init_def)
qed

lemma run_depth: "dp_inv y \<Longrightarrow> run_ok (dp_serve base) (dp_ok base) xs y \<Longrightarrow> pm_depth (snd (fold (dp_serve base) xs y)) = pm_depth (snd y) + length xs"
proof (induction xs arbitrary: y)
  case (Cons x xs)
  have "pm_depth (snd (dp_serve base x y)) = Suc (pm_depth (snd y))"
    using dp_serve_txn [of y base x] Cons.prems by (simp add: paging_txn_def Let_def)
  with Cons dpt.step_inv [of y base x] show ?case by simp
qed simp

text \<open>What a request is answered after a run.\<close>

lemma run_answer:
  fixes base :: "32 word" and xs :: "paging_op list"
  assumes run: "run_ok (dp_serve base) (dp_ok base) xs dp_start" and op: "is_get (po_req x) \<or> is_set (po_req x)"
    and a: "snd (paging_txn base 0 (po_resp x) (hashed (po_req x) (po_channel x)) (snd (fold (dp_serve base) xs dp_start))) = [pi]"
  defines "y \<equiv> fold (dp_serve base) xs dp_start"
  shows "dp_answers base x es y \<in> {[], [(po_channel x, pi_output_status pi, pi_output pi)]}"
    and "3 * length xs + 11 \<le> n \<Longrightarrow> dp_answers base x (concat (replicate n dp_round)) y = [(po_channel x, pi_output_status pi, pi_output pi)]"
proof -
  have "dp_inv y" unfolding y_def by (rule dpt.run_inv [OF dp_start(1) run])
  then have inv: "dp_idle (fst y)" "table_wf (pm_depth (snd y)) (pm_dram (snd y))" by (simp_all add: dp_inv_def paging_inv_def)
  have depth: "pm_depth (snd y) = length xs + 1" unfolding y_def using run_depth [OF dp_start(1) run] dp_start(3) by simp
  note out = request_outcome(1,3) [OF inv hashed_either [OF op], where base = base and resp = "po_resp x"]
  from out(1) [of es "po_channel x"] a show "dp_answers base x es y \<in> {[], [(po_channel x, pi_output_status pi, pi_output pi)]}"
    by (auto simp: dp_answers_def y_def reply_of_def)
  show "dp_answers base x (concat (replicate n dp_round)) y = [(po_channel x, pi_output_status pi, pi_output pi)]" if "3 * length xs + 11 \<le> n"
    using out(2) [of n "po_channel x"] that depth a by (simp add: dp_answers_def y_def reply_of_def)
qed

text \<open>C2: The paging unit behaves like one map. Start \<open>data_path\<close> with empty tables and issue SETs and GETs one after
  the other, each after the reply of the one before, with the BRAM, the DRAM and the allocator answering whenever
  they like; no SET is for key 0, and the allocator has memory and hands out a bucket that is not in the table. Then
  a read request (for a key other than 0) gets at most one reply, on the port it came to, with the address of the last
  SET of its key, or with a failure when there was none; and the reply is there after \<open>3 n + 11\<close> rounds of a cycle and
  an answer of each memory, where \<open>n\<close> is the number of requests before.\<close>

theorem paging_read_last_write:
  assumes run: "run_ok (dp_serve base) (dp_ok base) xs dp_start"
    and rd: "mr_opcode (po_req x) = MAPPING_REQUEST_READ" and nz: "mr_address (po_req x) \<noteq> 0"
  shows "dp_answers base x es (fold (dp_serve base) xs dp_start) \<in>
      {[], [(po_channel x, get_answer (last_write (map paging_written xs) (mr_address (po_req x)) None) False)]} \<and>
    dp_answers base x (concat (replicate (3 * length xs + 11 + n) dp_round)) (fold (dp_serve base) xs dp_start) =
      [(po_channel x, get_answer (last_write (map paging_written xs) (mr_address (po_req x)) None) False)]"
proof -
  let ?y = "fold (dp_serve base) xs dp_start" and ?pi = "hashed (po_req x) (po_channel x)"
  have inv: "paging_inv (snd ?y)" using dpt.run_inv [OF dp_start(1) run] by (simp add: dp_inv_def)
  have entry: "paging_map (snd ?y) (mr_address (po_req x)) = last_write (map paging_written xs) (mr_address (po_req x)) None"
    using dpt.run_entry [OF dp_start(1) run nz] dp_start(2) [OF nz] by simp
  have get: "is_get (po_req x)" using rd by (simp add: is_get_def)
  from hashed_op(2) [OF get] rd have "pi_op ?pi = PI_OPCODE_GET" "\<not> pi_rw ?pi" by (auto simp: mapping_consts)
  with paging_txn_get(3) [OF inv, of ?pi base 0 "po_resp x"] nz entry obtain pi where
    pi: "snd (paging_txn base 0 (po_resp x) ?pi (snd ?y)) = [pi]"
      "(pi_output_status pi, pi_output pi) = get_answer (last_write (map paging_written xs) (mr_address (po_req x)) None) False" by auto
  from run_answer [OF run disjI1 [OF get] pi(1)] show ?thesis unfolding pi(2) by simp
qed

definition example_op :: "8 word \<Rightarrow> 32 word \<Rightarrow> 32 word \<Rightarrow> paging_op" where
  "example_op opc k v = \<lparr>po_req = \<lparr>mr_address = k, mr_length = v, mr_opcode = opc\<rparr>, po_channel = 0,
     po_resp = \<lparr>br_stat = BUDDY_SUCCESS, br_addr = 128000\<rparr>, po_events = concat (replicate 14 dp_round)\<rparr>"

text \<open>A SET of key 5 to 77, read and write, is a run.\<close>

lemma example_run: "run_ok (dp_serve 0) (dp_ok 0) [example_op 0x82 5 77] dp_start"
proof -
  let ?x = "example_op 0x82 5 77"
  have set: "is_set (po_req ?x)" by (simp add: is_set_def example_op_def mapping_consts)
  have inv: "dp_idle (fst dp_start)" "table_wf (pm_depth (snd dp_start)) (pm_dram (snd dp_start))" "paging_inv (snd dp_start)"
    using dp_start(1) by (simp_all add: dp_inv_def paging_inv_def)
  have idx: "new_index 0 (po_resp ?x) = 2000"
    by (simp add: new_index_def example_op_def alloc_addr_trans_def take_bit_eq_mod)
  have new: "unused_index (pm_depth (snd dp_start)) (pm_dram (snd dp_start)) (new_index 0 (po_resp ?x))"
    unfolding idx dp_start_def using init_unused [of 2000] by simp
  have req: "mr_address (po_req ?x) \<noteq> 0" "br_stat (po_resp ?x) = BUDDY_SUCCESS" by (simp_all add: example_op_def)
  from paging_txn_set(4) [OF inv(3) _ _ _ req(2) new, of "hashed (po_req ?x) (po_channel ?x)" 0] hashed_op(1) [OF set] req(1)
  obtain pi where "snd (paging_txn 0 0 (po_resp ?x) (hashed (po_req ?x) (po_channel ?x)) (snd dp_start)) = [pi]" by auto
  with run_answer(2) [of 0 "[]" ?x pi 14] set have "dp_answers 0 ?x (po_events ?x) dp_start \<noteq> []"
    by (simp add: example_op_def)
  with set req new show ?thesis by (simp add: dp_ok_def)
qed

theorem paging_read_last_write_witness:
  "dp_answers 0 (example_op 0 5 0) (concat (replicate 14 dp_round)) (fold (dp_serve 0) [example_op 0x82 5 77] dp_start) = [(0, PI_OUTPUT_SUCCEED, 77)]"
  using paging_read_last_write [OF example_run, of "example_op 0 5 0" "[]" 0]
  by (simp add: example_op_def mapping_consts paging_written_def is_set_def set_writable_def)



end
