(* ===== verification/Paging_Top.thy ===== *)
theory Paging_Top
  imports Paging_Unit
begin

unbundle bit_operations_syntax

text \<open>
  The paging IP around the data path: the request buffers and \<open>paging_top\<close>
  (\<^verbatim>\<open>hls_mapping/top.cpp\<close>), the pipes to the datamover (\<^verbatim>\<open>dm.cpp\<close>), the BRAM hash table
  (\<^verbatim>\<open>hls_bram_ht/top.cpp\<close>) and the stand-in bucket allocator (\<^verbatim>\<open>dummy_allocator/top.cpp\<close>).
  Whether an output port of the IP is full is an input of the cycle; the queues between the
  pipes and the data path have the depth of their pragma.
\<close>

section \<open>Datamover pipes\<close>

definition NR_BYTES_MEM_BUS :: nat where "NR_BYTES_MEM_BUS = 64"
definition NR_HT_BUCKET_BRAM :: nat where "NR_HT_BUCKET_BRAM = 64"
definition NR_HT_BUCKET_DRAM :: nat where "NR_HT_BUCKET_DRAM = 1024"

definition dm_word :: "32 word \<Rightarrow> dm_cmd" where
  "dm_word a = \<lparr>dm_btt = of_nat NR_BYTES_MEM_BUS, dm_type = DM_CMD_TYPE_INCR, dm_dsa = 0, dm_eof = 1, dm_drr = 0,
     dm_start_address = a, dm_rsvd = 0\<rparr>"

definition dram_cmd :: "32 word \<Rightarrow> mem_cmd \<Rightarrow> dm_cmd" where
  "dram_cmd base c = dm_word (mc_address c * of_nat NR_BYTES_MEM_BUS + base)"

definition bram_cmd :: "mem_cmd \<Rightarrow> dm_cmd" where
  "bram_cmd c = dm_word (mc_address c)"

definition axis_word :: "512 word \<Rightarrow> axis_mem" where
  "axis_word d = \<lparr>am_data = d, am_keep = 0xFFFFFFFFFFFFFFFF, am_last = 1\<rparr>"

definition DRAM_rd_pipe ::
  "32 word \<Rightarrow> bool \<Rightarrow> mem_cmd stream \<Rightarrow> bucket stream \<Rightarrow> dm_cmd stream \<Rightarrow> axis_mem stream \<Rightarrow> 8 word stream \<Rightarrow>
     mem_cmd stream \<times> bucket stream \<times> dm_cmd stream \<times> axis_mem stream \<times> 8 word stream" where
  "DRAM_rd_pipe base full mem_read_cmd mem_read_data dm_read_cmd dm_read_data dm_read_status =
     (let (mem_read_cmd, dm_read_cmd) = transfer (dram_cmd base) full mem_read_cmd dm_read_cmd;
          (dm_read_data, mem_read_data) = transfer am_data (length mem_read_data \<ge> 128) dm_read_data mem_read_data
      in (mem_read_cmd, mem_read_data, dm_read_cmd, dm_read_data, tl dm_read_status))"

definition DRAM_wr_pipe ::
  "32 word \<Rightarrow> bool \<Rightarrow> bool \<Rightarrow> mem_cmd stream \<Rightarrow> bucket stream \<Rightarrow> dm_cmd stream \<Rightarrow> axis_mem stream \<Rightarrow> 8 word stream \<Rightarrow>
     mem_cmd stream \<times> bucket stream \<times> dm_cmd stream \<times> axis_mem stream \<times> 8 word stream" where
  "DRAM_wr_pipe base cmd_full data_full mem_write_cmd mem_write_data dm_write_cmd dm_write_data dm_write_status =
     (let (mem_write_cmd, dm_write_cmd) = transfer (dram_cmd base) cmd_full mem_write_cmd dm_write_cmd;
          (mem_write_data, dm_write_data) = transfer axis_word data_full mem_write_data dm_write_data
      in (mem_write_cmd, mem_write_data, dm_write_cmd, dm_write_data, tl dm_write_status))"

definition BRAM_rd_pipe ::
  "bool \<Rightarrow> mem_cmd stream \<Rightarrow> bucket stream \<Rightarrow> dm_cmd stream \<Rightarrow> axis_mem stream \<Rightarrow>
     mem_cmd stream \<times> bucket stream \<times> dm_cmd stream \<times> axis_mem stream" where
  "BRAM_rd_pipe full mem_read_cmd mem_read_data dm_read_cmd dm_read_data =
     (let (mem_read_cmd, dm_read_cmd) = transfer bram_cmd full mem_read_cmd dm_read_cmd;
          (dm_read_data, mem_read_data) = transfer am_data (length mem_read_data \<ge> 16) dm_read_data mem_read_data
      in (mem_read_cmd, mem_read_data, dm_read_cmd, dm_read_data))"

definition BRAM_wr_pipe ::
  "bool \<Rightarrow> bool \<Rightarrow> mem_cmd stream \<Rightarrow> bucket stream \<Rightarrow> dm_cmd stream \<Rightarrow> axis_mem stream \<Rightarrow>
     mem_cmd stream \<times> bucket stream \<times> dm_cmd stream \<times> axis_mem stream" where
  "BRAM_wr_pipe cmd_full data_full mem_write_cmd mem_write_data dm_write_cmd dm_write_data =
     (let (mem_write_cmd, dm_write_cmd) = transfer bram_cmd cmd_full mem_write_cmd dm_write_cmd;
          (mem_write_data, dm_write_data) = transfer axis_word data_full mem_write_data dm_write_data
      in (mem_write_cmd, mem_write_data, dm_write_cmd, dm_write_data))"

section \<open>The top function\<close>

definition buffer_req_read ::
  "mapping_request stream \<Rightarrow> mapping_request stream \<Rightarrow> mapping_request stream \<times> mapping_request stream" where
  "buffer_req_read pin pout = (case pin of [] \<Rightarrow> ([], pout) | req # rest \<Rightarrow> (rest, swrite pout req))"

definition buffer_req_write ::
  "mapping_request stream \<Rightarrow> mapping_request stream \<Rightarrow> mapping_request stream \<times> mapping_request stream" where
  "buffer_req_write pin pout =
     (case pin of [] \<Rightarrow> ([], pout) | req # rest \<Rightarrow> (rest, swrite pout (req\<lparr>mr_opcode := MAPPING_REQUEST_WRITE\<rparr>)))"

definition set_base_addr :: "32 word stream \<Rightarrow> 32 word \<Rightarrow> 32 word stream \<times> 32 word" where
  "set_base_addr base_addr base = (case base_addr of [] \<Rightarrow> ([], base) | a # rest \<Rightarrow> (rest, a))"

text \<open>Ports and static variables of \<open>paging_top\<close>; the queues named \<open>fifo_...\<close> in the code are the
  fields of the data path.\<close>

record paging_top_st = data_path_st +
  in_read :: "mapping_request stream"
  in_write :: "mapping_request stream"
  base_addr :: "32 word stream"
  mapping_table_addr_base :: "32 word"
  dm_DRAM_rd_cmd :: "dm_cmd stream"
  dm_DRAM_wr_cmd :: "dm_cmd stream"
  dm_DRAM_rd_data :: "axis_mem stream"
  dm_DRAM_wr_data :: "axis_mem stream"
  dm_DRAM_rd_status :: "8 word stream"
  dm_DRAM_wr_status :: "8 word stream"
  dm_BRAM_rd_cmd :: "dm_cmd stream"
  dm_BRAM_wr_cmd :: "dm_cmd stream"
  dm_BRAM_rd_data :: "axis_mem stream"
  dm_BRAM_wr_data :: "axis_mem stream"

text \<open>Which output ports are full in a cycle.\<close>

record port_full =
  full_DRAM_rd_cmd :: bool
  full_DRAM_wr_cmd :: bool
  full_DRAM_wr_data :: bool
  full_BRAM_rd_cmd :: bool
  full_BRAM_wr_cmd :: bool
  full_BRAM_wr_data :: bool

definition top_buffers :: "paging_top_st \<Rightarrow> paging_top_st" where
  "top_buffers s =
     (let (ir, rd) = buffer_req_read (in_read s) (rd_request s);
          (iw, wr) = buffer_req_write (in_write s) (wr_request s);
          (ba, base) = set_base_addr (base_addr s) (mapping_table_addr_base s)
      in s\<lparr>in_read := ir, rd_request := rd, in_write := iw, wr_request := wr, base_addr := ba,
           mapping_table_addr_base := base\<rparr>)"

definition top_BRAM_pipes :: "port_full \<Rightarrow> paging_top_st \<Rightarrow> paging_top_st" where
  "top_BRAM_pipes f s =
     (let (c, d, dc, dd) = BRAM_rd_pipe (full_BRAM_rd_cmd f) (BRAM_rd_cmd s) (BRAM_rd_data s) (dm_BRAM_rd_cmd s) (dm_BRAM_rd_data s);
          (wc, wd, dwc, dwd) = BRAM_wr_pipe (full_BRAM_wr_cmd f) (full_BRAM_wr_data f) (BRAM_wr_cmd s) (BRAM_wr_data s)
            (dm_BRAM_wr_cmd s) (dm_BRAM_wr_data s)
      in s\<lparr>BRAM_rd_cmd := c, BRAM_rd_data := d, dm_BRAM_rd_cmd := dc, dm_BRAM_rd_data := dd,
           BRAM_wr_cmd := wc, BRAM_wr_data := wd, dm_BRAM_wr_cmd := dwc, dm_BRAM_wr_data := dwd\<rparr>)"

definition top_DRAM_pipes :: "port_full \<Rightarrow> paging_top_st \<Rightarrow> paging_top_st" where
  "top_DRAM_pipes f s =
     (let (c, d, dc, dd, st) = DRAM_rd_pipe (mapping_table_addr_base s) (full_DRAM_rd_cmd f) (DRAM_rd_cmd s) (DRAM_rd_data s)
            (dm_DRAM_rd_cmd s) (dm_DRAM_rd_data s) (dm_DRAM_rd_status s);
          (wc, wd, dwc, dwd, wst) = DRAM_wr_pipe (mapping_table_addr_base s) (full_DRAM_wr_cmd f) (full_DRAM_wr_data f)
            (DRAM_wr_cmd s) (DRAM_wr_data s) (dm_DRAM_wr_cmd s) (dm_DRAM_wr_data s) (dm_DRAM_wr_status s)
      in s\<lparr>DRAM_rd_cmd := c, DRAM_rd_data := d, dm_DRAM_rd_cmd := dc, dm_DRAM_rd_data := dd, dm_DRAM_rd_status := st,
           DRAM_wr_cmd := wc, DRAM_wr_data := wd, dm_DRAM_wr_cmd := dwc, dm_DRAM_wr_data := dwd, dm_DRAM_wr_status := wst\<rparr>)"

definition paging_top :: "port_full \<Rightarrow> paging_top_st \<Rightarrow> paging_top_st" where
  "paging_top f s =
     (let s = top_buffers s;
          s = data_path (mapping_table_addr_base s) s;
          s = top_BRAM_pipes f s
      in top_DRAM_pipes f s)"

section \<open>The BRAM hash table\<close>

text \<open>The table is an array of 64 buckets; an index outside is undefined behaviour, \<open>None\<close> here.\<close>

definition bram_read :: "bucket list \<Rightarrow> dm_cmd stream \<Rightarrow> axis_mem stream \<Rightarrow> (dm_cmd stream \<times> axis_mem stream) option" where
  "bram_read ht_bram rd_cmd rd_data =
     (case rd_cmd of
        [] \<Rightarrow> Some ([], rd_data)
      | c # cs \<Rightarrow>
          (let index_r = unat (dm_start_address c)
           in if index_r < length ht_bram then Some (cs, swrite rd_data (axis_word (ht_bram ! index_r))) else None))"

definition bram_write ::
  "bucket list \<Rightarrow> dm_cmd stream \<Rightarrow> axis_mem stream \<Rightarrow> (bucket list \<times> dm_cmd stream \<times> axis_mem stream) option" where
  "bram_write ht_bram wr_cmd wr_data =
     (case (wr_cmd, wr_data) of
        (c # cs, d # ds) \<Rightarrow>
          (let index = unat (dm_start_address c)
           in if index < length ht_bram then Some (ht_bram[index := am_data d], cs, ds) else None)
      | _ \<Rightarrow> Some (ht_bram, wr_cmd, wr_data))"

definition bram_hashtable ::
  "bucket list \<Rightarrow> dm_cmd stream \<Rightarrow> dm_cmd stream \<Rightarrow> axis_mem stream \<Rightarrow> axis_mem stream \<Rightarrow>
     (bucket list \<times> dm_cmd stream \<times> dm_cmd stream \<times> axis_mem stream \<times> axis_mem stream) option" where
  "bram_hashtable ht_bram rd_cmd wr_cmd rd_data wr_data =
     (case bram_read ht_bram rd_cmd rd_data of
        None \<Rightarrow> None
      | Some (rd_cmd, rd_data) \<Rightarrow>
          (case bram_write ht_bram wr_cmd wr_data of
             None \<Rightarrow> None
           | Some (ht_bram, wr_cmd, wr_data) \<Rightarrow> Some (ht_bram, rd_cmd, wr_cmd, rd_data, wr_data)))"

section \<open>The stand-in allocator\<close>

definition NR_MAX_BUCKET_ALLOC :: nat where "NR_MAX_BUCKET_ALLOC = 50"
definition MAPPING_TABLE_ADDRESS_BASE :: nat where "MAPPING_TABLE_ADDRESS_BASE = 0x100000"

definition dummy_response :: "nat \<Rightarrow> buddy_alloc_ret_if" where
  "dummy_response l =
     (if l < NR_MAX_BUCKET_ALLOC
      then \<lparr>br_stat = BUDDY_SUCCESS, br_addr = of_nat ((NR_HT_BUCKET_DRAM + l) * NR_BYTES_MEM_BUS + MAPPING_TABLE_ADDRESS_BASE)\<rparr>
      else \<lparr>br_stat = BUDDY_FAILED, br_addr = 0\<rparr>)"

definition dummy_allocator ::
  "nat \<Rightarrow> buddy_alloc_if stream \<Rightarrow> buddy_alloc_ret_if stream \<Rightarrow> nat \<times> buddy_alloc_if stream \<times> buddy_alloc_ret_if stream" where
  "dummy_allocator l alloc alloc_ret =
     (case alloc of
        [] \<Rightarrow> (l, [], alloc_ret)
      | _ # rest \<Rightarrow> (if l < NR_MAX_BUCKET_ALLOC then Suc l else l, rest, swrite alloc_ret (dummy_response l)))"

section \<open>BRAM indices stay in range\<close>

definition index_ok :: "mem_cmd \<Rightarrow> bool" where
  "index_ok c \<longleftrightarrow> unat (mc_address c) < NR_HT_BUCKET_BRAM"

definition bram_cmds_ok :: "'z data_path_st_scheme \<Rightarrow> bool" where
  "bram_cmds_ok s \<longleftrightarrow> (\<forall>c \<in> set (BRAM_rd_cmd s) \<union> set (BRAM_wr_cmd s). index_ok c)"

lemma index_ok_hash: "index_ok \<lparr>mc_address = range_get h 5 0, mc_length = n\<rparr>"
  using unat_range_get_less [of 5 0 6 h, where 'b = 32] by (simp add: index_ok_def NR_HT_BUCKET_BRAM_def)

lemma index_ok_ucast: "index_ok \<lparr>mc_address = ucast (i :: 6 word), mc_length = n\<rparr>"
proof -
  have "unat i < 2 ^ 6" using unsigned_less [of i, where 'a = nat] by simp
  then have "unat (ucast i :: 32 word) < 64"
    unfolding unsigned_ucast_eq using le_less_trans [OF take_bit_nat_less_eq_self [of "LENGTH(32)" "unat i"]] by simp
  then show ?thesis by (simp add: index_ok_def NR_HT_BUCKET_BRAM_def)
qed

lemma read_bram_cmds:
  "read_bram st pin pout cmd req res = (st', pin', pout', cmd', req', res') \<Longrightarrow> \<forall>c \<in> set cmd. index_ok c \<Longrightarrow> \<forall>c \<in> set cmd'. index_ok c"
  by (auto simp: read_bram_def index_ok_ucast split: READ_BRAM_STATE.splits list.splits if_splits)

lemma fill_S2_cmds:
  assumes "fill_S2 base st io = (st', io')" and "\<forall>c \<in> set (f2_BRAM_wr_cmd io). index_ok c"
  shows "\<forall>c \<in> set (f2_BRAM_wr_cmd io'). index_ok c"
proof -
  have idle: "\<forall>c \<in> set (f2_BRAM_wr_cmd io'). index_ok c"
    if "fill_S2_idle pi st io = (st', io')" "\<forall>c \<in> set (f2_BRAM_wr_cmd io). index_ok c" for pi io
    using that index_ok_hash by (auto simp: fill_S2_idle_def Let_def bram_wr_cmd_def split: if_splits)
  have recv: "f2_BRAM_wr_cmd (snd (fill_S2_recv base resp st io)) = f2_BRAM_wr_cmd io" for resp io
    by (simp add: fill_S2_recv_def Let_def)
  show ?thesis
  proof (cases "f2_state st")
    case ALLOC_IDLE
    with assms show ?thesis
      by (cases "f2_pi_in io") (auto simp: fill_S2_def intro: idle [rule_format])
  next
    case ALLOC_RECV_RET
    with assms recv show ?thesis
      by (cases "f2_alloc_ret io") (auto simp: fill_S2_def dest: arg_cong [where f = "\<lambda>p. f2_BRAM_wr_cmd (snd p)"])
  next
    case ALLOC_WRITE_DATA
    with assms show ?thesis by (auto simp: fill_S2_def Let_def)
  qed
qed

lemma bram_cmds_ok_stages:
  "bram_cmds_ok s \<Longrightarrow> bram_cmds_ok (dp_remux s)"
  "bram_cmds_ok s \<Longrightarrow> bram_cmds_ok (dp_compute_hash s)"
  "bram_cmds_ok s \<Longrightarrow> bram_cmds_ok (compare_bram_ht s)"
  "bram_cmds_ok s \<Longrightarrow> bram_cmds_ok (dp_fill_S1 s)"
  "bram_cmds_ok s \<Longrightarrow> bram_cmds_ok (dp_fill_S2 base s)"
  "bram_cmds_ok s \<Longrightarrow> bram_cmds_ok (dp_demux s)"
  "bram_cmds_ok s \<Longrightarrow> bram_cmds_ok (dp_resv_table s)"
proof -
  show "bram_cmds_ok (compare_bram_ht s)" if "bram_cmds_ok s"
    using that unfolding bram_cmds_ok_def compare_bram_ht_def
    by (auto simp: Let_def split: prod.splits dest: read_bram_cmds)
  show "bram_cmds_ok (dp_fill_S2 base s)" if "bram_cmds_ok s"
    using that unfolding bram_cmds_ok_def dp_fill_S2_def
    by (auto simp: Let_def split: prod.splits dest: fill_S2_cmds)
qed (simp_all add: bram_cmds_ok_def dp_remux_def dp_compute_hash_def dp_fill_S1_def dp_demux_def dp_resv_table_def
    Let_def split: prod.split)

lemma bram_cmds_ok_data_path: "bram_cmds_ok s \<Longrightarrow> bram_cmds_ok (data_path base s)"
  by (simp add: data_path_def Let_def bram_cmds_ok_stages)

text \<open>The IP with its BRAM hash table, one cycle of each; the environment hands in requests, base
  addresses, DRAM data and allocator answers.\<close>

record paging_env =
  env_full :: port_full
  env_read :: "mapping_request stream"
  env_write :: "mapping_request stream"
  env_base :: "32 word stream"
  env_DRAM_data :: "axis_mem stream"
  env_alloc_ret :: "buddy_alloc_ret_if stream"

definition env_put :: "paging_env \<Rightarrow> paging_top_st \<Rightarrow> paging_top_st" where
  "env_put e s = s\<lparr>in_read := in_read s @ env_read e, in_write := in_write s @ env_write e, base_addr := base_addr s @ env_base e,
     dm_DRAM_rd_data := dm_DRAM_rd_data s @ env_DRAM_data e, dp_alloc_ret := dp_alloc_ret s @ env_alloc_ret e\<rparr>"

definition paging_sys :: "paging_env \<Rightarrow> (paging_top_st \<times> bucket list) option \<Rightarrow> (paging_top_st \<times> bucket list) option" where
  "paging_sys e y =
     (case y of None \<Rightarrow> None
      | Some (s, ht) \<Rightarrow>
          (let s = paging_top (env_full e) (env_put e s)
           in map_option (\<lambda>(ht, rc, wc, rd, wd). (s\<lparr>dm_BRAM_rd_cmd := rc, dm_BRAM_wr_cmd := wc, dm_BRAM_rd_data := rd, dm_BRAM_wr_data := wd\<rparr>, ht))
                (bram_hashtable ht (dm_BRAM_rd_cmd s) (dm_BRAM_wr_cmd s) (dm_BRAM_rd_data s) (dm_BRAM_wr_data s))))"

definition dm_ok :: "dm_cmd \<Rightarrow> bool" where
  "dm_ok c \<longleftrightarrow> unat (dm_start_address c) < NR_HT_BUCKET_BRAM"

fun sys_inv :: "(paging_top_st \<times> bucket list) option \<Rightarrow> bool" where
  "sys_inv None = False"
| "sys_inv (Some (s, ht)) =
     (length ht = NR_HT_BUCKET_BRAM \<and> bram_cmds_ok s \<and> (\<forall>c \<in> set (dm_BRAM_rd_cmd s) \<union> set (dm_BRAM_wr_cmd s). dm_ok c))"

lemma transfer_all:
  "transfer f full xs ys = (xs', ys') \<Longrightarrow> \<forall>x \<in> set xs. P x \<and> Q (f x) \<Longrightarrow> \<forall>y \<in> set ys. Q y \<Longrightarrow>
     (\<forall>x \<in> set xs'. P x) \<and> (\<forall>y \<in> set ys'. Q y)"
  by (auto simp: transfer_def split: list.splits if_splits)

lemma dm_ok_bram_cmd: "dm_ok (bram_cmd c) = index_ok c"
  by (simp add: dm_ok_def bram_cmd_def dm_word_def index_ok_def)

text \<open>The \<open>transfer\<close> of a pipe loses and invents nothing.\<close>

lemma transfer_conserves: "transfer f full xs ys = (xs', ys') \<Longrightarrow> ys' @ map f xs' = ys @ map f xs"
  by (auto simp: transfer_def swrite_def split: list.splits if_splits)

lemma top_BRAM_pipes_inv:
  assumes "bram_cmds_ok s" and "\<forall>c \<in> set (dm_BRAM_rd_cmd s) \<union> set (dm_BRAM_wr_cmd s). dm_ok c"
  shows "bram_cmds_ok (top_BRAM_pipes f s) \<and>
    (\<forall>c \<in> set (dm_BRAM_rd_cmd (top_BRAM_pipes f s)) \<union> set (dm_BRAM_wr_cmd (top_BRAM_pipes f s)). dm_ok c)"
proof -
  obtain rc rdc where r: "transfer bram_cmd (full_BRAM_rd_cmd f) (BRAM_rd_cmd s) (dm_BRAM_rd_cmd s) = (rc, rdc)" by fastforce
  obtain wc wdc where w: "transfer bram_cmd (full_BRAM_wr_cmd f) (BRAM_wr_cmd s) (dm_BRAM_wr_cmd s) = (wc, wdc)" by fastforce
  have "(\<forall>c \<in> set rc. index_ok c) \<and> (\<forall>c \<in> set rdc. dm_ok c)" "(\<forall>c \<in> set wc. index_ok c) \<and> (\<forall>c \<in> set wdc. dm_ok c)"
    using assms by (auto intro!: transfer_all [OF r] transfer_all [OF w] simp: bram_cmds_ok_def dm_ok_bram_cmd)
  then show ?thesis
    by (auto simp: top_BRAM_pipes_def BRAM_rd_pipe_def BRAM_wr_pipe_def r w Let_def bram_cmds_ok_def split: prod.splits)
qed

lemma top_frame:
  "bram_cmds_ok (top_buffers s) = bram_cmds_ok s" "bram_cmds_ok (top_DRAM_pipes f s) = bram_cmds_ok s"
  "bram_cmds_ok (env_put e s) = bram_cmds_ok s"
  "dm_BRAM_rd_cmd (top_buffers s) = dm_BRAM_rd_cmd s" "dm_BRAM_wr_cmd (top_buffers s) = dm_BRAM_wr_cmd s"
  "dm_BRAM_rd_cmd (top_DRAM_pipes f s) = dm_BRAM_rd_cmd s" "dm_BRAM_wr_cmd (top_DRAM_pipes f s) = dm_BRAM_wr_cmd s"
  "dm_BRAM_rd_cmd (env_put e s) = dm_BRAM_rd_cmd s" "dm_BRAM_wr_cmd (env_put e s) = dm_BRAM_wr_cmd s"
  by (simp_all add: bram_cmds_ok_def top_buffers_def top_DRAM_pipes_def env_put_def Let_def split: prod.splits)

text \<open>The stages of the data path leave the ports to the BRAM hash table alone.\<close>

definition dm_ports :: "paging_top_st \<Rightarrow> dm_cmd stream \<times> dm_cmd stream" where
  "dm_ports s = (dm_BRAM_rd_cmd s, dm_BRAM_wr_cmd s)"

lemma stage_ports:
  "dm_ports (dp_remux s) = dm_ports s" "dm_ports (dp_compute_hash s) = dm_ports s" "dm_ports (compare_bram_ht s) = dm_ports s"
  "dm_ports (dp_fill_S1 s) = dm_ports s" "dm_ports (dp_fill_S2 base s) = dm_ports s" "dm_ports (dp_demux s) = dm_ports s"
  "dm_ports (dp_resv_table s) = dm_ports s"
  by (simp_all add: dm_ports_def dp_remux_def dp_compute_hash_def compare_bram_ht_def dp_fill_S1_def dp_fill_S2_def
      dp_demux_def dp_resv_table_def Let_def split: prod.split)

lemma data_path_ports:
  fixes s :: paging_top_st
  shows
  "dm_BRAM_rd_cmd (data_path base s) = dm_BRAM_rd_cmd s" "dm_BRAM_wr_cmd (data_path base s) = dm_BRAM_wr_cmd s"
proof -
  have "dm_ports (data_path base s) = dm_ports s"
    by (simp add: data_path_def Let_def stage_ports)
  then show "dm_BRAM_rd_cmd (data_path base s) = dm_BRAM_rd_cmd s" "dm_BRAM_wr_cmd (data_path base s) = dm_BRAM_wr_cmd s"
    by (simp_all add: dm_ports_def)
qed

lemma paging_top_inv:
  assumes "bram_cmds_ok s" and "\<forall>c \<in> set (dm_BRAM_rd_cmd s) \<union> set (dm_BRAM_wr_cmd s). dm_ok c"
  shows "bram_cmds_ok (paging_top f s) \<and>
    (\<forall>c \<in> set (dm_BRAM_rd_cmd (paging_top f s)) \<union> set (dm_BRAM_wr_cmd (paging_top f s)). dm_ok c)"
  using assms top_BRAM_pipes_inv [of "data_path (mapping_table_addr_base (top_buffers s)) (top_buffers s)" f]
  by (simp add: paging_top_def Let_def top_frame data_path_ports bram_cmds_ok_data_path)

lemma bram_hashtable_inv:
  assumes "length ht = NR_HT_BUCKET_BRAM" and "\<forall>c \<in> set rc \<union> set wc. dm_ok c"
  shows "\<exists>ht' rc' wc' rd' wd'. bram_hashtable ht rc wc rd wd = Some (ht', rc', wc', rd', wd') \<and>
    length ht' = NR_HT_BUCKET_BRAM \<and> set rc' \<subseteq> set rc \<and> set wc' \<subseteq> set wc"
  using assms by (cases rc; cases wc; cases wd) (auto simp: bram_hashtable_def bram_read_def bram_write_def dm_ok_def Let_def)

interpretation paging_cycle: cycle_machine paging_sys sys_inv
proof
  fix y e assume "sys_inv y"
  then obtain s ht where y: "y = Some (s, ht)" and len: "length ht = NR_HT_BUCKET_BRAM" and inv: "bram_cmds_ok s"
      "\<forall>c \<in> set (dm_BRAM_rd_cmd s) \<union> set (dm_BRAM_wr_cmd s). dm_ok c"
    by (cases y) auto
  let ?s = "paging_top (env_full e) (env_put e s)"
  have top: "bram_cmds_ok ?s \<and> (\<forall>c \<in> set (dm_BRAM_rd_cmd ?s) \<union> set (dm_BRAM_wr_cmd ?s). dm_ok c)"
    using inv by (intro paging_top_inv) (simp_all add: top_frame)
  then obtain ht' rc' wc' rd' wd' where
    "bram_hashtable ht (dm_BRAM_rd_cmd ?s) (dm_BRAM_wr_cmd ?s) (dm_BRAM_rd_data ?s) (dm_BRAM_wr_data ?s) = Some (ht', rc', wc', rd', wd')"
    "length ht' = NR_HT_BUCKET_BRAM" "set rc' \<subseteq> set (dm_BRAM_rd_cmd ?s)" "set wc' \<subseteq> set (dm_BRAM_wr_cmd ?s)"
    using bram_hashtable_inv [OF len] by blast
  with top show "sys_inv (paging_sys e y)"
    by (auto simp: paging_sys_def y Let_def bram_cmds_ok_def)
qed

section \<open>Properties\<close>

definition paging_top_init :: paging_top_st where
  "paging_top_init = data_path_st.extend data_path_init
     (paging_top_st.fields [] [] [] 0 [] [] [] [] [] [] [] [] [] [])"

text \<open>C33: Whatever requests, base addresses, DRAM data and allocator answers arrive and whatever ports are
  full, the paging unit never indexes the BRAM hash table outside its 64 buckets.\<close>

theorem bram_index_in_range:
  "fold paging_sys es (Some (paging_top_init, replicate NR_HT_BUCKET_BRAM 0)) \<noteq> None"
proof -
  have "sys_inv (Some (paging_top_init, replicate NR_HT_BUCKET_BRAM 0))"
    by (simp add: paging_top_init_def data_path_init_def data_path_st.defs paging_top_st.defs bram_cmds_ok_def)
  from paging_cycle.run_inv [OF this, of es] show ?thesis
    by (cases "fold paging_sys es (Some (paging_top_init, replicate NR_HT_BUCKET_BRAM 0))") auto
qed

text \<open>C34: The bucket that the allocator handed out is the one the datamover is sent to: for an address at a
  multiple of 64 bytes from the table base, below or above it, the command of the write of the new bucket and
  the command of a later walk along the 26-bit chain pointer both carry the allocated address.\<close>

theorem chained_bucket_address:
  assumes "64 dvd uint addr - uint base"
  shows "dm_start_address (dram_cmd base \<lparr>mc_address = alloc_addr_trans addr base, mc_length = 1\<rparr>) = addr \<and>
    dm_start_address (dram_cmd base \<lparr>mc_address = hb_chain_addr (hb_set_chain hb (alloc_addr_trans addr base)), mc_length = 1\<rparr>) = addr"
proof -
  have "(uint addr - uint base) div 64 * 64 = uint addr - uint base"
    using assms by simp
  then have "(of_int ((uint addr - uint base) div 64 * 64) :: 32 word) = of_int (uint addr - uint base)"
    by (rule arg_cong)
  then have mult: "alloc_addr_trans addr base * 64 = addr - base"
    by (simp only: of_int_mult of_int_diff alloc_addr_trans_def) simp
  have "take_bit 26 w * 64 = w * (64 :: 32 word)" for w
  proof -
    have "push_bit 6 (take_bit 26 w) = push_bit 6 w"
      by (rule bit_word_eqI) (auto simp: bit_simps)
    then show ?thesis by (simp add: push_bit_eq_mult)
  qed
  with mult show ?thesis
    by (simp add: dram_cmd_def dm_word_def NR_BYTES_MEM_BUS_def hb_simps)
qed

theorem chained_bucket_address_witness:
  "dm_start_address (dram_cmd 0x100000 \<lparr>mc_address = hb_chain_addr (hb_set_chain 0 (alloc_addr_trans 0x40 0x100000)), mc_length = 1\<rparr>) = 0x40"
  using chained_bucket_address [of "0x40" "0x100000" 0] by simp

text \<open>The stand-in allocator hands out each of its 50 buckets once, right behind the 1024 head buckets,
  and fails from then on: the \<open>l\<close>-th allocation is bucket \<open>1024 + l\<close>.\<close>

theorem dummy_allocator_buckets:
  "fst (fold (\<lambda>r (l, out). let (l', _, out') = dummy_allocator l [r] out in (l', out')) rs (0, [])) = min (length rs) NR_MAX_BUCKET_ALLOC \<and>
   snd (fold (\<lambda>r (l, out). let (l', _, out') = dummy_allocator l [r] out in (l', out')) rs (0, [])) =
     map (\<lambda>l. if l < NR_MAX_BUCKET_ALLOC
        then \<lparr>br_stat = BUDDY_SUCCESS, br_addr = of_nat (MAPPING_TABLE_ADDRESS_BASE + 64 * (1024 + l))\<rparr>
        else \<lparr>br_stat = BUDDY_FAILED, br_addr = 0\<rparr>) [0..<length rs]"
proof -
  let ?f = "\<lambda>r (l, out). let (l', _, out') = dummy_allocator l [r] out in (l', out')"
  let ?resp = "\<lambda>l. if l < NR_MAX_BUCKET_ALLOC
        then \<lparr>br_stat = BUDDY_SUCCESS, br_addr = of_nat (MAPPING_TABLE_ADDRESS_BASE + 64 * (1024 + l))\<rparr>
        else \<lparr>br_stat = BUDDY_FAILED, br_addr = 0\<rparr>"
  have resp: "dummy_response (min l NR_MAX_BUCKET_ALLOC) = ?resp l" for l
    by (auto simp: dummy_response_def NR_HT_BUCKET_DRAM_def NR_BYTES_MEM_BUS_def algebra_simps)
  have "fold ?f rs (0, []) = (min (length rs) NR_MAX_BUCKET_ALLOC, map ?resp [0..<length rs])"
  proof (induction rs rule: rev_induct)
    case (snoc r rs)
    then show ?case
      by (simp add: dummy_allocator_def resp swrite_def)
  qed simp
  then show ?thesis by simp
qed

end
