(* ===== verification/Log2.thy ===== *)
theory Log2
  imports HLS_Prelude
begin

unbundle bit_operations_syntax

text \<open>
  Integer logarithms (\<^verbatim>\<open>include/fpga/log2.h\<close>, and \<open>order_base_2_hls\<close> of
  \<^verbatim>\<open>alloc/buddy/buddy.cpp\<close>, the same loop at width 32): a binary search for the highest set
  bit, halving the shift each round.
\<close>

definition is_power_of_2 :: "64 word \<Rightarrow> bool" where
  "is_power_of_2 n \<longleftrightarrow> n \<noteq> 0 \<and> n AND (n - 1) = 0"

text \<open>One round: \<open>ap_uint<WIDTH>(-1) << (WIDTH - shift)\<close> masks the top \<open>shift\<close> bits.\<close>

definition log2_round :: "nat \<Rightarrow> 'a::len word \<times> 'a word \<Rightarrow> 'a word \<times> 'a word" where
  "log2_round shift s =
     (let (num, word) = s
      in if word AND push_bit (LENGTH('a) - shift) (- 1) = 0
         then (num - of_nat shift, push_bit shift word) else (num, word))"

function log2_loop :: "nat \<Rightarrow> 'a::len word \<times> 'a word \<Rightarrow> 'a word" where
  "log2_loop shift s = (if shift = 0 then fst s else log2_loop (shift div 2) (log2_round shift s))"
  by pat_completeness auto
termination
  by (relation "measure fst") auto

declare log2_loop.simps [simp del]

definition log2 :: "'a::len word \<Rightarrow> 'a word" where
  "log2 word = log2_loop (LENGTH('a) div 2) (of_nat (LENGTH('a) - 1), word)"

definition order_base_2 :: "'a::len word \<Rightarrow> 'a word" where
  "order_base_2 n = (if n > 1 then log2 (n - 1) + 1 else 0)"

text \<open>\<open>Buddy::order_base_2_hls\<close> has the loop written out at width 32.\<close>

definition order_base_2_hls :: "32 word \<Rightarrow> 32 word" where
  "order_base_2_hls n = (if n > 1 then log2_loop 16 (31, n - 1) + 1 else 0)"

section \<open>Correctness\<close>

lemma order_base_2_hls_eq: "order_base_2_hls n = order_base_2 n"
  by (simp add: order_base_2_hls_def order_base_2_def log2_def)

lemma high_bits_zero:
  assumes "s \<le> LENGTH('a)"
  shows "w AND push_bit (LENGTH('a) - s) (- 1) = 0 \<longleftrightarrow> unat (w :: 'a::len word) < 2 ^ (LENGTH('a) - s)"
proof -
  have "w AND push_bit (LENGTH('a) - s) (- 1) = 0 \<longleftrightarrow> take_bit (LENGTH('a) - s) w = w"
    by (simp add: bit_eq_iff bit_simps) (auto dest: bit_imp_le_length)
  also have "\<dots> \<longleftrightarrow> unat w < 2 ^ (LENGTH('a) - s)"
    by (metis take_bit_nat_eq_self_iff unsigned_take_bit_eq word_unat_eq_iff)
  finally show ?thesis .
qed

text \<open>The invariant: the word is the input shifted left by \<open>WIDTH - 1 - num\<close> without loss, and one
  of its top \<open>2 * shift\<close> bits is set.\<close>

definition log2_inv :: "'a::len word \<Rightarrow> nat \<Rightarrow> 'a word \<times> 'a word \<Rightarrow> bool" where
  "log2_inv w t s \<longleftrightarrow>
     (\<exists>k < LENGTH('a). unat (fst s) = LENGTH('a) - 1 - k \<and> unat (snd s) = unat w * 2 ^ k \<and> 2 ^ (LENGTH('a) - t) \<le> unat (snd s))"

lemma log2_inv_round:
  assumes inv: "log2_inv w (2 * shift) s" and shift: "0 < shift" "2 * shift \<le> LENGTH('a)" and s: "s = (num, word)"
  shows "log2_inv (w :: 'a::len word) shift (log2_round shift s)"
proof (cases "unat word < 2 ^ (LENGTH('a) - shift)")
  case False
  with inv s high_bits_zero [of shift word] shift show ?thesis
    by (auto simp: log2_inv_def log2_round_def)
next
  case True
  from inv s obtain k where k: "k < LENGTH('a)" "unat num = LENGTH('a) - 1 - k" "unat word = unat w * 2 ^ k"
      "2 ^ (LENGTH('a) - 2 * shift) \<le> unat word"
    by (auto simp: log2_inv_def)
  have "unat word * 2 ^ shift < 2 ^ (LENGTH('a) - shift) * 2 ^ shift"
    using True by simp
  also have "\<dots> = 2 ^ LENGTH('a)"
    using shift by (simp flip: power_add)
  finally have fits: "unat word * 2 ^ shift < 2 ^ LENGTH('a)" .
  then have word': "unat (push_bit shift word) = unat w * 2 ^ (k + shift)"
    unfolding unsigned_push_bit_eq using k(3)
    by (simp add: push_bit_eq_mult take_bit_nat_eq_self power_add mult.assoc)
  have "unat w \<noteq> 0"
  proof
    assume "unat w = 0"
    with k(3,4) show False by simp
  qed
  then have "2 ^ (k + shift) \<le> unat w * 2 ^ (k + shift)" by simp
  also have "\<dots> < 2 ^ LENGTH('a)"
    using fits k(3) by (simp add: power_add mult.assoc)
  finally have k': "k + shift < LENGTH('a)"
    by (simp add: power_strict_increasing_iff)
  have "shift < 2 ^ LENGTH('a)"
    using shift less_exp [of "LENGTH('a)"] by linarith
  then have "unat (of_nat shift :: 'a word) = shift"
    by (simp add: unat_of_nat take_bit_nat_eq_self)
  then have num': "unat (num - of_nat shift) = LENGTH('a) - 1 - (k + shift)"
    using k(2) k' by (simp add: unat_sub word_le_nat_alt)
  have "2 ^ (LENGTH('a) - shift) = 2 ^ (LENGTH('a) - 2 * shift) * (2 ^ shift :: nat)"
    using shift by (simp flip: power_add)
  also have "\<dots> \<le> unat word * 2 ^ shift"
    using k(4) by simp
  finally have top: "2 ^ (LENGTH('a) - shift) \<le> unat (push_bit shift word)"
    using word' k(3) by (simp add: power_add mult.assoc)
  have "log2_round shift s = (num - of_nat shift, push_bit shift word)"
    using True s high_bits_zero [of shift word] shift by (simp add: log2_round_def)
  with num' word' top k' show ?thesis
    unfolding log2_inv_def by (intro exI [of _ "k + shift"]) simp
qed

lemma log2_loop_inv:
  assumes "log2_inv w (2 * 2 ^ m) s" and "2 * 2 ^ m \<le> LENGTH('a)"
  shows "\<exists>k < LENGTH('a). unat (log2_loop (2 ^ m) s) = LENGTH('a) - 1 - k \<and>
    2 ^ (LENGTH('a) - 1) \<le> unat (w :: 'a::len word) * 2 ^ k \<and> unat w * 2 ^ k < 2 ^ LENGTH('a)"
  using assms
proof (induction m arbitrary: s)
  case 0
  obtain num word where s: "s = (num, word)" by fastforce
  have "log2_inv w 1 (log2_round 1 s)"
    using log2_inv_round [OF _ _ _ s, of w 1] 0 by simp
  then obtain k where "k < LENGTH('a)" "unat (fst (log2_round 1 s)) = LENGTH('a) - 1 - k"
      "unat (snd (log2_round 1 s)) = unat w * 2 ^ k" "2 ^ (LENGTH('a) - 1) \<le> unat (snd (log2_round 1 s))"
    unfolding log2_inv_def by blast
  then show ?case
    using unsigned_less [of "snd (log2_round 1 s)", where 'a = nat]
    by (intro exI [of _ k]) (simp add: log2_loop.simps [of "Suc 0" s] log2_loop.simps [of 0])
next
  case (Suc m)
  obtain num word where s: "s = (num, word)" by fastforce
  have "log2_inv w (2 ^ Suc m) (log2_round (2 ^ Suc m) s)"
    using log2_inv_round [OF Suc.prems(1) _ Suc.prems(2) s] by simp
  with Suc.IH [of "log2_round (2 ^ Suc m) s"] Suc.prems(2) show ?case
    by (simp add: log2_loop.simps [of "2 * 2 ^ m" s])
qed

lemma log2_bounds:
  assumes "LENGTH('a) = 2 ^ Suc m" and "(w :: 'a::len word) \<noteq> 0"
  shows "2 ^ unat (log2 w) \<le> unat w" and "unat w < 2 ^ Suc (unat (log2 w))" and "unat (log2 w) < LENGTH('a)"
proof -
  have pos: "0 < LENGTH('a)" by simp
  have "unat (of_nat (LENGTH('a) - 1) :: 'a word) = LENGTH('a) - 1"
    by (simp add: unat_of_nat take_bit_nat_eq_self_iff)
  moreover have "1 \<le> unat w" using assms(2) by (simp add: Suc_le_eq unat_gt_0)
  ultimately have "log2_inv w (2 * 2 ^ m) (of_nat (LENGTH('a) - 1), w)"
    unfolding log2_inv_def using assms(1) by (intro exI [of _ 0]) simp
  from log2_loop_inv [OF this] assms(1) obtain k where k: "k < LENGTH('a)" "unat (log2 w) = LENGTH('a) - 1 - k"
      "2 ^ (LENGTH('a) - 1) \<le> unat w * 2 ^ k" "unat w * 2 ^ k < 2 ^ LENGTH('a)"
    by (auto simp: log2_def)
  have "2 ^ unat (log2 w) * 2 ^ k = (2 :: nat) ^ (LENGTH('a) - 1)"
    using k(1,2) by (simp flip: power_add)
  with k(3) show "2 ^ unat (log2 w) \<le> unat w"
    by (metis mult_le_cancel2 zero_less_numeral zero_less_power)
  have "2 ^ Suc (unat (log2 w)) * 2 ^ k = (2 :: nat) ^ LENGTH('a)"
    using k(1,2) by (simp flip: power_add power_Suc)
  with k(4) show "unat w < 2 ^ Suc (unat (log2 w))"
    by (metis mult_less_cancel2)
  show "unat (log2 w) < LENGTH('a)" using k(2) pos by simp
qed

text \<open>C35: \<open>order_base_2\<close> is the rounded-up base-2 logarithm at every width that is a power of two:
  the least \<open>r\<close> with \<open>n \<le> 2 ^ r\<close>.\<close>

theorem order_base_2_ceiling:
  assumes "LENGTH('a) = 2 ^ Suc m" and "1 < (n :: 'a::len word)"
  shows "unat n \<le> 2 ^ unat (order_base_2 n) \<and> 2 ^ (unat (order_base_2 n) - 1) < unat n"
proof -
  have n: "unat (n - 1) = unat n - 1" "1 < unat n"
    using assms(2) by (auto simp: unat_sub word_less_nat_alt word_le_nat_alt)
  then have "n - 1 \<noteq> 0" by (metis diff_is_0_eq not_less unat_0)
  note b = log2_bounds [OF assms(1) this]
  have "unat (log2 (n - 1) + 1) = Suc (unat (log2 (n - 1)))"
  proof -
    have "Suc (unat (log2 (n - 1))) < 2 ^ LENGTH('a)"
      using b(3) by (meson Suc_leI le_less_trans less_exp)
    then show ?thesis
      by (simp add: unat_word_ariths(1) add.commute)
  qed
  moreover have "unat n \<le> 2 * 2 ^ unat (log2 (n - 1))" "2 ^ unat (log2 (n - 1)) < unat n"
    using b(1,2) n by auto
  ultimately show ?thesis
    using assms(2) by (simp add: order_base_2_def)
qed

theorem order_base_2_ceiling_witness:
  "unat (9362 :: 32 word) \<le> 2 ^ unat (order_base_2 (9362 :: 32 word)) \<and> 2 ^ (unat (order_base_2 (9362 :: 32 word)) - 1) < unat (9362 :: 32 word)"
  by (rule order_base_2_ceiling [where m = 4]) simp_all

end
