(* ===== verification/Buddy.thy ===== *)
theory Buddy
  imports Channels Log2
begin

unbundle bit_operations_syntax

text \<open>
  The buddy allocator (\<^verbatim>\<open>alloc/buddy/buddy.h\<close>, \<^verbatim>\<open>buddy.cpp\<close>, \<^verbatim>\<open>core.cpp\<close>; constants of
  \<^verbatim>\<open>include/fpga/mem_common.h\<close>). The managed space of \<open>2 ^ 30\<close> bytes is an eight-way tree of
  eight levels; a node is one byte of occupancy bits, kept in DRAM, with a cache of at most two
  lines per level in front of it. Levels, line numbers, bit indices and widths are small numbers
  (nat); tags are 22-bit words and addresses 32-bit words as in the code. An \<open>assert\<close> that
  fails and an array index out of range are faults, not results.
\<close>

section \<open>Configuration\<close>

definition PA_WIDTH :: nat where "PA_WIDTH = 32"
definition BUDDY_MAX_SHIFT :: nat where "BUDDY_MAX_SHIFT = 30"
definition BUDDY_MIN_SHIFT :: nat where "BUDDY_MIN_SHIFT = 8"
definition BUDDY_SET_SIZE :: nat where "BUDDY_SET_SIZE = 2"
definition ORDER_MAX :: nat where "ORDER_MAX = BUDDY_MAX_SHIFT - BUDDY_MIN_SHIFT"
definition ORDER_PAD_BITS :: nat where "ORDER_PAD_BITS = (if ORDER_MAX mod 3 \<noteq> 0 then 3 - ORDER_MAX mod 3 else 0)"
definition ORDER_MAX_PAD :: nat where "ORDER_MAX_PAD = ORDER_MAX + ORDER_PAD_BITS"
definition LEVEL_MAX :: nat where "LEVEL_MAX = ORDER_MAX_PAD div 3"
definition BUDDY_META_SIZE :: nat where "BUDDY_META_SIZE = 2 ^ (3 * LEVEL_MAX) div 7"

lemma config [simp]:
  "ORDER_MAX = 22" "ORDER_PAD_BITS = 2" "ORDER_MAX_PAD = 24" "LEVEL_MAX = 8" "BUDDY_SET_SIZE = 2"
  "BUDDY_MAX_SHIFT = 30" "BUDDY_MIN_SHIFT = 8" "BUDDY_META_SIZE = 2396745"
  by (simp_all add: ORDER_MAX_def ORDER_PAD_BITS_def ORDER_MAX_PAD_def LEVEL_MAX_def BUDDY_SET_SIZE_def
      BUDDY_MAX_SHIFT_def BUDDY_MIN_SHIFT_def BUDDY_META_SIZE_def)

type_synonym tag = "22 word"

datatype fault = Assert_failed | Out_of_bounds

section \<open>State\<close>

record cache_line =
  bl_valid :: bool
  bl_tag :: tag
  bl_children :: "8 word"

record cache_set =
  bs_level :: nat
  bs_size :: nat
  bs_lines :: "cache_line list"
  bs_rand_counter :: nat

record cache_free_set =
  bf_level :: nat
  bf_line :: cache_line

text \<open>The allocator and the DRAM behind its \<open>dram\<close> pointer.\<close>

record buddy =
  buddy_managed_base :: "64 word"
  buddy_initialized :: bool
  buddy_set :: "cache_set list"
  buddy_free_set :: "cache_free_set list"
  buddy_dram :: "64 word \<Rightarrow> 8 word"

section \<open>Helpers on orders, tags and addresses\<close>

definition order_to_level :: "22 word \<Rightarrow> nat" where
  "order_to_level order = (ORDER_MAX - 1 - unat order) div 3"

definition order_to_width :: "22 word \<Rightarrow> nat" where
  "order_to_width order = 2 ^ (2 - (ORDER_MAX - 1 - unat order) mod 3)"

definition addr_to_tag :: "32 word \<Rightarrow> nat \<Rightarrow> tag" where
  "addr_to_tag addr level = range_get addr (BUDDY_MAX_SHIFT - 1) BUDDY_MIN_SHIFT AND NOT (drop_bit (level * 3) (- 1))"

definition addr_to_idx :: "32 word \<Rightarrow> nat \<Rightarrow> nat" where
  "addr_to_idx addr level =
     (let mask = (- 1 :: 30 word) XOR drop_bit 3 (- 1);
          tmp_idx = push_bit (3 * level) (ucast addr) AND mask
      in unat (range_get tmp_idx (BUDDY_MAX_SHIFT - 1) (BUDDY_MAX_SHIFT - 3) :: 3 word))"

definition tag_to_addr :: "tag \<Rightarrow> 32 word" where
  "tag_to_addr tag = push_bit BUDDY_MIN_SHIFT (ucast tag)"

text \<open>The tag padded to a multiple of three bits; \<open>tag_to_ancestor_idx\<close> asserts its level.\<close>

definition tag_pad :: "tag \<Rightarrow> 24 word" where
  "tag_pad tag = push_bit ORDER_PAD_BITS (ucast tag)"

definition tag_to_ancestor_tag :: "tag \<Rightarrow> nat \<Rightarrow> tag" where
  "tag_to_ancestor_tag tag level = tag AND NOT (drop_bit (level * 3) (- 1))"

definition tag_to_ancestor_idx :: "tag \<Rightarrow> nat \<Rightarrow> fault + nat" where
  "tag_to_ancestor_idx tag level =
     (if level < LEVEL_MAX
      then Inr (unat (range_get (tag_pad tag) (ORDER_MAX_PAD - 1 - level * 3) (ORDER_MAX_PAD - 3 - level * 3) :: 3 word))
      else Inl Assert_failed)"

definition tag_to_parent_idx :: "tag \<Rightarrow> nat \<Rightarrow> fault + nat" where
  "tag_to_parent_idx tag level = (if level > 0 then tag_to_ancestor_idx tag (level - 1) else Inl Assert_failed)"

definition parenttag_idx_to_tag :: "tag \<Rightarrow> nat \<Rightarrow> nat \<Rightarrow> tag" where
  "parenttag_idx_to_tag parent_tag parent_level idx =
     parent_tag OR drop_bit (parent_level * 3) (push_bit (ORDER_MAX - 3) (of_nat idx))"

definition tag_level_to_drambuddy :: "64 word \<Rightarrow> tag \<Rightarrow> nat \<Rightarrow> fault + 64 word" where
  "tag_level_to_drambuddy base tag level =
     (if level > 0
      then Inr (base + ucast (drop_bit (3 * (LEVEL_MAX - level)) (tag_pad tag)) + of_nat (2 ^ (3 * level) div 7))
      else Inl Assert_failed)"

section \<open>Lines\<close>

definition width_mask :: "nat \<Rightarrow> 8 word" where
  "width_mask width = (if width = 1 then 0x1 else if width = 2 then 0x3 else if width = 4 then 0xF else 0)"

definition test_valid_bits :: "cache_line \<Rightarrow> nat \<Rightarrow> nat \<Rightarrow> bool" where
  "test_valid_bits line width idx \<longleftrightarrow> bl_valid line \<and> bl_children line AND push_bit idx (width_mask width) \<noteq> 0"

definition set_clear_bits :: "cache_line \<Rightarrow> nat \<Rightarrow> nat \<Rightarrow> bool \<Rightarrow> cache_line" where
  "set_clear_bits line width idx set_clear =
     (let mask = push_bit idx (width_mask width)
      in if set_clear then line\<lparr>bl_children := bl_children line OR mask\<rparr>
         else line\<lparr>bl_children := bl_children line AND NOT mask\<rparr>)"

definition get_free_4bit :: "cache_line \<Rightarrow> nat" where
  "get_free_4bit line = (if bl_children line AND 0xF = 0 then 0 else 4)"

definition get_free_2bit :: "cache_line \<Rightarrow> nat" where
  "get_free_2bit line =
     (if bl_children line AND 0x3 = 0 then 0 else if bl_children line AND 0xC = 0 then 2
      else if bl_children line AND 0x30 = 0 then 4 else 6)"

definition get_free_1bit :: "cache_line \<Rightarrow> nat" where
  "get_free_1bit line =
     (if bl_children line AND 0x1 = 0 then 0 else if bl_children line AND 0x2 = 0 then 1
      else if bl_children line AND 0x4 = 0 then 2 else if bl_children line AND 0x8 = 0 then 3
      else if bl_children line AND 0x10 = 0 then 4 else if bl_children line AND 0x20 = 0 then 5
      else if bl_children line AND 0x40 = 0 then 6 else 7)"

text \<open>The result and the new value of \<open>*idx\<close>.\<close>

definition get_valid_free_line :: "cache_line \<Rightarrow> nat \<Rightarrow> nat \<Rightarrow> bool \<times> nat" where
  "get_valid_free_line line width idx =
     (if \<not> bl_valid line then (False, idx)
      else (let idx = (if width = 1 then get_free_1bit line else if width = 2 then get_free_2bit line
                       else if width = 4 then get_free_4bit line else idx);
                ret = (width = 1 \<or> width = 2 \<or> width = 4)
            in (ret \<and> push_bit idx (width_mask width) AND bl_children line = 0, idx)))"

section \<open>Sets\<close>

definition count :: "cache_set \<Rightarrow> cache_set" where
  "count bset =
     (let r = Suc (bs_rand_counter bset) mod 4
      in bset\<lparr>bs_rand_counter := if r \<ge> bs_size bset then 0 else r\<rparr>)"

definition choose_line :: "cache_set \<Rightarrow> bool \<times> nat \<times> cache_set" where
  "choose_line bset =
     (let i = for_break (\<lambda>i. \<not> bl_valid (bs_lines bset ! i)) 0 (bs_size bset)
      in if i < bs_size bset then (True, i, bset) else (False, bs_rand_counter bset, count bset))"

definition tag_in_cache :: "cache_set \<Rightarrow> tag \<Rightarrow> bool \<times> nat" where
  "tag_in_cache bset tag =
     (let nr_asso = for_break (\<lambda>i. bl_valid (bs_lines bset ! i) \<and> bl_tag (bs_lines bset ! i) = tag) 0 (bs_size bset)
      in (nr_asso < bs_size bset, nr_asso))"

fun get_valid_free_lines :: "cache_line list \<Rightarrow> nat \<Rightarrow> nat \<Rightarrow> nat \<Rightarrow> bool \<times> nat \<times> nat" where
  "get_valid_free_lines [] width nr_asso idx = (False, nr_asso, idx)"
| "get_valid_free_lines (line # lines) width nr_asso idx =
     (let (ret, idx) = get_valid_free_line line width idx
      in if ret then (True, nr_asso, idx) else get_valid_free_lines lines width (Suc nr_asso) idx)"

definition get_valid_free_set :: "cache_set \<Rightarrow> nat \<Rightarrow> nat \<Rightarrow> bool \<times> nat \<times> nat" where
  "get_valid_free_set bset width idx =
     get_valid_free_lines (take (bs_size bset) (take BUDDY_SET_SIZE (bs_lines bset))) width 0 idx"

section \<open>The cache and the DRAM\<close>

definition the_line :: "buddy \<Rightarrow> nat \<Rightarrow> nat \<Rightarrow> cache_line" where
  "the_line b i j = bs_lines (buddy_set b ! i) ! j"

definition put_line :: "buddy \<Rightarrow> nat \<Rightarrow> nat \<Rightarrow> cache_line \<Rightarrow> buddy" where
  "put_line b i j line =
     b\<lparr>buddy_set := (buddy_set b)[i := (buddy_set b ! i)\<lparr>bs_lines := (bs_lines (buddy_set b ! i))[j := line]\<rparr>]\<rparr>"

definition dram_read :: "buddy \<Rightarrow> 64 word \<Rightarrow> 8 word" where
  "dram_read b src = buddy_dram b src"

definition dram_write :: "buddy \<Rightarrow> 64 word \<Rightarrow> 8 word \<Rightarrow> buddy" where
  "dram_write b dest v = b\<lparr>buddy_dram := (buddy_dram b)(dest := v)\<rparr>"

definition flush_line :: "buddy \<Rightarrow> nat \<Rightarrow> nat \<Rightarrow> fault + buddy" where
  "flush_line b i nr_asso =
     (let line = the_line b i nr_asso
      in case tag_level_to_drambuddy (buddy_managed_base b) (bl_tag line) (bs_level (buddy_set b ! i)) of
           Inl f \<Rightarrow> Inl f
         | Inr a \<Rightarrow> Inr (put_line (dram_write b a (bl_children line)) i nr_asso \<lparr>bl_valid = False, bl_tag = 0, bl_children = 0\<rparr>))"

definition flush_if_full :: "buddy \<Rightarrow> nat \<Rightarrow> nat \<Rightarrow> fault + buddy" where
  "flush_if_full b i nr_asso = (if bl_children (the_line b i nr_asso) = 0xFF then flush_line b i nr_asso else Inr b)"

text \<open>\<open>flush_set\<close> and \<open>flush_children\<close> are declared and defined but nothing calls them.\<close>

fun flush_set_from :: "buddy \<Rightarrow> nat \<Rightarrow> nat \<Rightarrow> nat list \<Rightarrow> bool \<Rightarrow> fault + (buddy \<times> bool)" where
  "flush_set_from b i flush_idx [] cont = Inr (b, cont)"
| "flush_set_from b i flush_idx (j # js) cont =
     (case tag_to_parent_idx (bl_tag (the_line b i j)) (bs_level (buddy_set b ! i)) of
        Inl f \<Rightarrow> Inl f
      | Inr idx \<Rightarrow>
          if idx = flush_idx
          then (case flush_line b i j of Inl f \<Rightarrow> Inl f | Inr b \<Rightarrow> flush_set_from b i flush_idx js True)
          else flush_set_from b i flush_idx js cont)"

definition flush_set :: "buddy \<Rightarrow> nat \<Rightarrow> nat \<Rightarrow> fault + (buddy \<times> bool)" where
  "flush_set b i flush_idx = flush_set_from b i flush_idx [0..<bs_size (buddy_set b ! i)] False"

fun flush_children_from :: "buddy \<Rightarrow> nat \<Rightarrow> nat list \<Rightarrow> fault + buddy" where
  "flush_children_from b flush_tag [] = Inr b"
| "flush_children_from b flush_tag (i # is) =
     (case flush_set b i flush_tag of
        Inl f \<Rightarrow> Inl f
      | Inr (b, cont) \<Rightarrow> if cont then flush_children_from b flush_tag is else Inr b)"

definition flush_children :: "buddy \<Rightarrow> nat \<Rightarrow> nat \<Rightarrow> fault + buddy" where
  "flush_children b i which =
     (if \<not> which < bs_size (buddy_set b ! i) then Inl Assert_failed
      else (let line = the_line b i which; level = bs_level (buddy_set b ! i)
            in if \<not> bl_valid line then Inr b
               else (case tag_to_parent_idx (bl_tag line) level of
                       Inl f \<Rightarrow> Inl f
                     | Inr flush_tag \<Rightarrow>
                         (case tag_level_to_drambuddy (buddy_managed_base b) (bl_tag line) level of
                            Inl f \<Rightarrow> Inl f
                          | Inr a \<Rightarrow> flush_children_from (dram_write b a (bl_children line)) flush_tag [Suc level..<LEVEL_MAX]))))"

section \<open>Allocation\<close>

text \<open>
  The search for a line with a free child, from \<open>req_level\<close> up to the root. The loop variable is
  an \<open>ap_uint<8>\<close>, so its condition \<open>start_level >= 0\<close> always holds and \<open>start_level--\<close> wraps
  around; an index outside \<open>buddy_set[LEVEL_MAX]\<close> is a fault. Termination: the levels below
  \<open>LEVEL_MAX\<close> are left downwards, and what follows level 0 is outside the array.
\<close>

lemma level_wraps [simp]: "unat (- 1 :: 8 word) = 255"
  by (simp add: unsigned_minus_1_eq_mask mask_eq_exp_minus_1)

function alloc_look_up :: "buddy \<Rightarrow> nat \<Rightarrow> nat \<Rightarrow> nat \<Rightarrow> 8 word \<Rightarrow> fault + (nat \<times> nat \<times> nat)" where
  "alloc_look_up b req_level width idx start_level =
     (if \<not> unat start_level < LEVEL_MAX then Inl Out_of_bounds
      else (let (available, nr_asso, idx) =
                  get_valid_free_set (buddy_set b ! unat start_level) (if unat start_level = req_level then width else 1) idx
            in if available then Inr (unat start_level, nr_asso, idx)
               else alloc_look_up b req_level width idx (start_level - 1)))"
  by pat_completeness auto
termination
proof (relation "measure (\<lambda>(b, r, w, i, l). if unat l < LEVEL_MAX then Suc (unat l) else 0)")
  fix b :: buddy and req_level width idx :: nat and start_level :: "8 word"
  assume "\<not> \<not> unat start_level < LEVEL_MAX"
  then show "((b, req_level, width, idx', start_level - 1), (b, req_level, width, idx, start_level))
      \<in> measure (\<lambda>(b, r, w, i, l). if unat l < LEVEL_MAX then Suc (unat l) else 0)" for idx'
    by (cases "start_level = 0") (simp_all add: unat_minus_one unat_gt_0 [symmetric] del: unat_gt_0)
qed simp

declare alloc_look_up.simps [simp del]

text \<open>The levels as numbers: below level 0 the index is 255.\<close>

lemma look_up_level:
  assumes "l < LEVEL_MAX"
  shows "alloc_look_up b r w idx (of_nat l) =
    (let (available, nr_asso, idx) = get_valid_free_set (buddy_set b ! l) (if l = r then w else 1) idx
     in if available then Inr (l, nr_asso, idx)
        else if l = 0 then Inl Out_of_bounds else alloc_look_up b r w idx (of_nat (l - 1)))"
proof -
  have u: "unat (of_nat l :: 8 word) = l" using assms by (simp add: unat_of_nat take_bit_nat_eq_self)
  have "alloc_look_up b r w i (- 1) = Inl Out_of_bounds" for i
    by (simp add: alloc_look_up.simps [of b r w i "- 1"])
  then have next_level: "alloc_look_up b r w i (of_nat l - 1) =
      (if l = 0 then Inl Out_of_bounds else alloc_look_up b r w i (of_nat (l - 1)))" for i
    by (cases l) simp_all
  have "alloc_look_up b r w idx (of_nat l) =
      (let (available, nr_asso, idx) = get_valid_free_set (buddy_set b ! l) (if l = r then w else 1) idx
       in if available then Inr (l, nr_asso, idx) else alloc_look_up b r w idx (of_nat l - 1))"
    using assms alloc_look_up.simps [of b r w idx "of_nat l"] unfolding u by (simp only: not_not not_True_eq_False if_False)
  then show ?thesis unfolding next_level .
qed

text \<open>Marking the child found in a cached line, and its tag.\<close>

definition alloc_take :: "buddy \<Rightarrow> nat \<Rightarrow> nat \<Rightarrow> nat \<Rightarrow> nat \<Rightarrow> fault + (buddy \<times> tag)" where
  "alloc_take b i nr_asso width idx =
     (let b = put_line b i nr_asso (set_clear_bits (the_line b i nr_asso) width idx True);
          tag = parenttag_idx_to_tag (bl_tag (the_line b i nr_asso)) i idx
      in case flush_if_full b i nr_asso of Inl f \<Rightarrow> Inl f | Inr b \<Rightarrow> Inr (b, tag))"

text \<open>Loading the line of a tag into the cache of its level.\<close>

definition cache_load :: "buddy \<Rightarrow> nat \<Rightarrow> tag \<Rightarrow> fault + (buddy \<times> nat)" where
  "cache_load b i tag =
     (let (no_flush, nr_asso, set') = choose_line (buddy_set b ! i);
          b = b\<lparr>buddy_set := (buddy_set b)[i := set']\<rparr>
      in case (if no_flush then Inr b else flush_line b i nr_asso) of
           Inl f \<Rightarrow> Inl f
         | Inr b \<Rightarrow>
             (case tag_level_to_drambuddy (buddy_managed_base b) tag i of
                Inl f \<Rightarrow> Inl f
              | Inr a \<Rightarrow> Inr (put_line b i nr_asso \<lparr>bl_valid = True, bl_tag = tag, bl_children = dram_read b a\<rparr>, nr_asso)))"

definition load_level :: "buddy \<Rightarrow> nat \<Rightarrow> nat \<Rightarrow> tag \<Rightarrow> nat \<Rightarrow> fault + (buddy \<times> tag \<times> nat)" where
  "load_level b i w tag idx =
     (case cache_load b i tag of
        Inl f \<Rightarrow> Inl f
      | Inr (b, nr_asso) \<Rightarrow>
          (let idx = snd (get_valid_free_line (the_line b i nr_asso) w idx)
           in case alloc_take b i nr_asso w idx of Inl f \<Rightarrow> Inl f | Inr (b, tag) \<Rightarrow> Inr (b, tag, idx)))"

fun alloc_load :: "buddy \<Rightarrow> nat \<Rightarrow> nat \<Rightarrow> nat list \<Rightarrow> tag \<Rightarrow> nat \<Rightarrow> fault + (buddy \<times> tag)" where
  "alloc_load b req_level width [] tag idx = Inr (b, tag)"
| "alloc_load b req_level width (i # is) tag idx =
     (case load_level b i (if i = req_level then width else 1) tag idx of
        Inl f \<Rightarrow> Inl f
      | Inr (b, tag, idx) \<Rightarrow> alloc_load b req_level width is tag idx)"

definition alloc :: "buddy \<Rightarrow> 22 word \<Rightarrow> fault + (buddy \<times> 1 word \<times> 32 word)" where
  "alloc b order =
     (if unat order \<ge> ORDER_MAX - 1 then Inr (b, 1, 0)
      else
        (let width = order_to_width order; req_level = order_to_level order
         in case alloc_look_up b req_level width 0 (of_nat req_level) of
              Inl f \<Rightarrow> Inl f
            | Inr (start_level, nr_asso, idx) \<Rightarrow>
                (case alloc_take b start_level nr_asso (if start_level = req_level then width else 1) idx of
                   Inl f \<Rightarrow> Inl f
                 | Inr (b, tag) \<Rightarrow>
                     (case alloc_load b req_level width [Suc start_level..<Suc req_level] tag idx of
                        Inl f \<Rightarrow> Inl f
                      | Inr (b, tag) \<Rightarrow> Inr (b, 0, tag_to_addr tag)))))"

section \<open>Free\<close>

definition put_free_line :: "buddy \<Rightarrow> nat \<Rightarrow> cache_line \<Rightarrow> buddy" where
  "put_free_line b i line = b\<lparr>buddy_free_set := (buddy_free_set b)[i := (buddy_free_set b ! i)\<lparr>bf_line := line\<rparr>]\<rparr>"

text \<open>The check of one level: \<open>in_cache[i]\<close> with \<open>nr_asso[i]\<close>, and \<open>valid_req\<close>.\<close>

definition free_check_level :: "buddy \<Rightarrow> 32 word \<Rightarrow> nat \<Rightarrow> nat \<Rightarrow> fault + (buddy \<times> bool \<times> nat option)" where
  "free_check_level b addr i width_i =
     (let idx_i = addr_to_idx addr i;
          tag = addr_to_tag addr i;
          (hit, nr_asso) = tag_in_cache (buddy_set b ! i) tag
      in if hit then Inr (b, test_valid_bits (the_line b i nr_asso) width_i idx_i, Some nr_asso)
         else (case tag_level_to_drambuddy (buddy_managed_base b) tag i of
                 Inl f \<Rightarrow> Inl f
               | Inr a \<Rightarrow>
                   (let line = \<lparr>bl_valid = True, bl_tag = tag, bl_children = dram_read b a\<rparr>
                    in Inr (put_free_line b i line, test_valid_bits line width_i idx_i, None))))"

fun free_check :: "buddy \<Rightarrow> 32 word \<Rightarrow> nat \<Rightarrow> nat \<Rightarrow> nat list \<Rightarrow> (nat \<Rightarrow> nat option) \<Rightarrow> fault + (buddy \<times> bool \<times> (nat \<Rightarrow> nat option))" where
  "free_check b addr req_level width [] in_cache = Inr (b, True, in_cache)"
| "free_check b addr req_level width (i # is) in_cache =
     (case free_check_level b addr i (if i = req_level then width else 1) of
        Inl f \<Rightarrow> Inl f
      | Inr (b, valid_req, hit) \<Rightarrow>
          if valid_req then free_check b addr req_level width is (in_cache(i := hit)) else Inr (b, False, in_cache(i := hit)))"

text \<open>Clearing the bits of one level; the result says whether to go on with the parent.\<close>

definition free_clear_level :: "buddy \<Rightarrow> 32 word \<Rightarrow> nat \<Rightarrow> nat \<Rightarrow> nat option \<Rightarrow> fault + (buddy \<times> bool)" where
  "free_clear_level b addr i width_i hit =
     (let idx_i = addr_to_idx addr i
      in case hit of
           Some nr_asso \<Rightarrow>
             (let line = set_clear_bits (the_line b i nr_asso) width_i idx_i False;
                  b = put_line b i nr_asso line;
                  cont = (bl_children line = 0)
              in if bl_children line = 0 \<and> bs_level (buddy_set b ! i) > 0
                 then (case tag_level_to_drambuddy (buddy_managed_base b) (bl_tag line) (bs_level (buddy_set b ! i)) of
                         Inl f \<Rightarrow> Inl f
                       | Inr a \<Rightarrow> Inr (put_line (dram_write b a (bl_children line)) i nr_asso (line\<lparr>bl_valid := False, bl_tag := 0\<rparr>), cont))
                 else Inr (b, cont))
         | None \<Rightarrow>
             (let line = set_clear_bits (bf_line (buddy_free_set b ! i)) width_i idx_i False;
                  b = put_free_line b i line;
                  cont = (bl_children line = 0)
              in case tag_level_to_drambuddy (buddy_managed_base b) (bl_tag line) (bf_level (buddy_free_set b ! i)) of
                   Inl f \<Rightarrow> Inl f
                 | Inr a \<Rightarrow> Inr (put_free_line (dram_write b a (bl_children line)) i (line\<lparr>bl_valid := False\<rparr>), cont)))"

fun free_clear :: "buddy \<Rightarrow> 32 word \<Rightarrow> nat \<Rightarrow> nat \<Rightarrow> nat list \<Rightarrow> (nat \<Rightarrow> nat option) \<Rightarrow> fault + buddy" where
  "free_clear b addr req_level width [] in_cache = Inr b"
| "free_clear b addr req_level width (i # is) in_cache =
     (case free_clear_level b addr i (if i = req_level then width else 1) (in_cache i) of
        Inl f \<Rightarrow> Inl f
      | Inr (b, cont) \<Rightarrow> if cont then free_clear b addr req_level width is in_cache else Inr b)"

definition free :: "buddy \<Rightarrow> 22 word \<Rightarrow> 32 word \<Rightarrow> fault + (buddy \<times> 1 word)" where
  "free b order addr =
     (if unat order \<ge> ORDER_MAX - 1 then Inr (b, 1)
      else
        (let req_level = order_to_level order; width = order_to_width order; levels = rev [0..<Suc req_level]
         in case free_check b addr req_level width levels (\<lambda>_. None) of
              Inl f \<Rightarrow> Inl f
            | Inr (b, valid_req, in_cache) \<Rightarrow>
                if \<not> valid_req then Inr (b, 1)
                else (case free_clear b addr req_level width levels in_cache of Inl f \<Rightarrow> Inl f | Inr b \<Rightarrow> Inr (b, 0))))"

section \<open>Start-up and requests\<close>

definition metadata_order :: "32 word" where
  "metadata_order = order_base_2 (drop_bit BUDDY_MIN_SHIFT (of_nat BUDDY_META_SIZE))"

definition empty_line :: cache_line where
  "empty_line = \<lparr>bl_valid = False, bl_tag = 0, bl_children = 0\<rparr>"

definition init_line :: "nat \<Rightarrow> cache_line" where
  "init_line i =
     (let metadata_level = order_to_level (ucast metadata_order)
      in if i \<le> metadata_level
         then set_clear_bits (empty_line\<lparr>bl_valid := True\<rparr>) (if i = metadata_level then order_to_width (ucast metadata_order) else 1) 0 True
         else empty_line)"

definition init_set :: "nat \<Rightarrow> cache_set" where
  "init_set i = \<lparr>bs_level = i, bs_size = min (2 ^ (3 * i)) BUDDY_SET_SIZE, bs_lines = [init_line i, empty_line], bs_rand_counter = 0\<rparr>"

definition Buddy_init :: "64 word \<Rightarrow> (64 word \<Rightarrow> 8 word) \<Rightarrow> buddy" where
  "Buddy_init base dram = \<lparr>buddy_managed_base = base, buddy_initialized = False, buddy_set = map init_set [0..<LEVEL_MAX],
     buddy_free_set = map (\<lambda>i. \<lparr>bf_level = i, bf_line = empty_line\<rparr>) [0..<LEVEL_MAX], buddy_dram = dram\<rparr>"

definition init :: "buddy \<Rightarrow> 64 word stream \<Rightarrow> buddy \<times> 64 word stream" where
  "init b buddy_init = (case buddy_init of [] \<Rightarrow> (b, []) | a # rest \<Rightarrow> (b\<lparr>buddy_managed_base := a, buddy_initialized := True\<rparr>, rest))"

definition handler :: "buddy \<Rightarrow> buddy_alloc_if \<Rightarrow> fault + (buddy \<times> buddy_alloc_ret_if)" where
  "handler b req =
     (if ba_opcode req = BUDDY_ALLOC
      then (case alloc b (ba_order req) of
              Inl f \<Rightarrow> Inl f
            | Inr (b, stat, addr) \<Rightarrow>
                Inr (b, \<lparr>br_stat = stat, br_addr = if stat = 1 then 0 else addr + ucast (buddy_managed_base b)\<rparr>))
      else (case free b (ba_order req) (ba_addr req - ucast (buddy_managed_base b)) of
              Inl f \<Rightarrow> Inl f
            | Inr (b, stat) \<Rightarrow> Inr (b, \<lparr>br_stat = stat, br_addr = 0\<rparr>)))"

definition buddy_allocator ::
  "buddy \<Rightarrow> buddy_alloc_if stream \<Rightarrow> buddy_alloc_ret_if stream \<Rightarrow> 64 word stream \<Rightarrow>
     fault + (buddy \<times> buddy_alloc_if stream \<times> buddy_alloc_ret_if stream \<times> 64 word stream)" where
  "buddy_allocator b alloc_in alloc_ret buddy_init =
     (let (b, buddy_init) = init b buddy_init
      in case alloc_in of
           [] \<Rightarrow> Inr (b, [], alloc_ret, buddy_init)
         | req # rest \<Rightarrow>
             (case handler b req of
                Inl f \<Rightarrow> Inl f
              | Inr (b, ret) \<Rightarrow> Inr (b, rest, swrite alloc_ret ret, buddy_init)))"

end
