(* ===== verification/Buddy_Tree.thy ===== *)
theory Buddy_Tree
  imports Buddy
begin

unbundle bit_operations_syntax

text \<open>
  The tree behind the buddy allocator's tags: node \<open>n < 8 ^ l\<close> of level \<open>l\<close>, its tag, its byte in
  DRAM, its children. The helper functions of \<^verbatim>\<open>buddy.cpp\<close> compute exactly these.
\<close>

section \<open>Nodes and tags\<close>

definition ntag :: "nat \<Rightarrow> nat \<Rightarrow> tag" where
  "ntag l n = push_bit (22 - 3 * l) (of_nat n)"

definition child :: "nat \<Rightarrow> nat \<Rightarrow> nat" where
  "child n i = 8 * n + i"

lemma child_div [simp]: "i < 8 \<Longrightarrow> child n i div 8 = n" "i < 8 \<Longrightarrow> child n i mod 8 = i"
  by (simp_all add: child_def)

lemma child_eq: "child (m div 8) (m mod 8) = m"
  by (simp add: child_def)

lemma child_less: "n < 8 ^ l \<Longrightarrow> i < 8 \<Longrightarrow> child n i < 8 ^ Suc l"
  by (simp add: child_def)

lemma child_inj: "i < 8 \<Longrightarrow> j < 8 \<Longrightarrow> child n i = child m j \<Longrightarrow> n = m \<and> i = j"
  using child_div by metis

lemma bit_child: "i < 8 \<Longrightarrow> bit (child n i) j = (if j < 3 then bit i j else bit n (j - 3))"
proof -
  assume i: "i < 8"
  then have i': "take_bit 3 i = i" by (simp add: take_bit_nat_eq_self)
  have high: "bit i j \<Longrightarrow> j < 3" for j
    using i' by (metis bit_take_bit_iff)
  have "push_bit 3 n AND i = 0"
    by (rule bit_eqI) (auto simp: bit_simps dest: high)
  then have "push_bit 3 n + i = push_bit 3 n OR i"
    by (rule disjunctive_add_eq_or)
  then have "child n i = push_bit 3 n OR i"
    by (simp add: child_def push_bit_eq_mult mult.commute)
  then show ?thesis
    by (auto simp: bit_simps dest: high)
qed

lemma node_bits: "n < 8 ^ l \<Longrightarrow> bit n j \<Longrightarrow> j < 3 * l" for n :: nat
proof -
  assume "n < 8 ^ l" "bit n j"
  moreover have "(8 :: nat) ^ l = 2 ^ (3 * l)" by (simp add: power_mult)
  ultimately have "take_bit (3 * l) n = n" by (simp add: take_bit_nat_eq_self)
  with \<open>bit n j\<close> show "j < 3 * l" by (metis bit_take_bit_iff)
qed

lemma bit_ntag: "bit (ntag l n) j \<longleftrightarrow> j < 22 \<and> 22 - 3 * l \<le> j \<and> bit n (j - (22 - 3 * l))"
  by (auto simp: ntag_def bit_simps)

lemma ntag_inj: "n < 8 ^ l \<Longrightarrow> m < 8 ^ l \<Longrightarrow> l \<le> 7 \<Longrightarrow> ntag l n = ntag l m \<Longrightarrow> n = m"
proof (rule bit_eqI)
  fix j assume *: "n < 8 ^ l" "m < 8 ^ l" "l \<le> 7" "ntag l n = ntag l m"
  have "bit (ntag l n) (j + (22 - 3 * l)) = bit (ntag l m) (j + (22 - 3 * l))" using *(4) by simp
  with *(1,2,3) show "bit n j = bit m j"
    unfolding bit_ntag using node_bits [of n l j] node_bits [of m l j] by auto
qed

lemma parenttag_ntag:
  assumes "l \<le> 6" and "n < 8 ^ l" and "i < 8"
  shows "parenttag_idx_to_tag (ntag l n) l i = ntag (Suc l) (child n i)"
proof (rule bit_word_eqI)
  fix j assume "j < LENGTH(22)"
  then have j: "j < 22" by simp
  have i: "bit i k \<Longrightarrow> k < 3" for k using node_bits [of i 1 k] assms(3) by simp
  have lhs: "bit (parenttag_idx_to_tag (ntag l n) l i) j \<longleftrightarrow>
      22 - 3 * l \<le> j \<and> bit n (j - (22 - 3 * l)) \<or> 3 * l + j < 22 \<and> 19 \<le> 3 * l + j \<and> bit i (3 * l + j - 19)"
    using j by (auto simp: parenttag_idx_to_tag_def bit_simps bit_ntag mult.commute)
  have rhs: "bit (ntag (Suc l) (child n i)) j \<longleftrightarrow>
      19 - 3 * l \<le> j \<and> (if j - (19 - 3 * l) < 3 then bit i (j - (19 - 3 * l)) else bit n (j - (19 - 3 * l) - 3))"
    using j assms(1) by (simp add: bit_ntag bit_child assms(3))
  consider "j < 19 - 3 * l" | "19 - 3 * l \<le> j" "j < 22 - 3 * l" | "22 - 3 * l \<le> j" by linarith
  then show "bit (parenttag_idx_to_tag (ntag l n) l i) j = bit (ntag (Suc l) (child n i)) j"
  proof cases
    case 1
    with assms(1) show ?thesis unfolding lhs rhs by auto
  next
    case 2
    with assms(1) have "j - (19 - 3 * l) = 3 * l + j - 19" "j - (19 - 3 * l) < 3" by auto
    with 2 assms(1) show ?thesis unfolding lhs rhs by auto
  next
    case 3
    with assms(1) have "j - (19 - 3 * l) - 3 = j - (22 - 3 * l)" "\<not> j - (19 - 3 * l) < 3" "\<not> 3 * l + j < 22" by auto
    with 3 assms(1) show ?thesis unfolding lhs rhs by auto
  qed
qed

text \<open>The address of the region that child \<open>i\<close> of a node covers.\<close>

definition region_addr :: "nat \<Rightarrow> nat \<Rightarrow> nat \<Rightarrow> nat" where
  "region_addr l n i = child n i * 2 ^ (27 - 3 * l)"

lemma tag_to_addr_ntag:
  assumes "l \<le> 7" and "n < 8 ^ l"
  shows "unat (tag_to_addr (ntag l n)) = n * 2 ^ (30 - 3 * l)"
proof -
  have "(8 :: nat) ^ l = 2 ^ (3 * l)" by (simp add: power_mult)
  with assms(2) have "n * 2 ^ (30 - 3 * l) < 2 ^ (3 * l) * 2 ^ (30 - 3 * l)" by simp
  also have "\<dots> = 2 ^ 30" using assms(1) by (simp flip: power_add)
  finally have small: "n * 2 ^ (30 - 3 * l) < 2 ^ 30" .
  have "tag_to_addr (ntag l n) = of_nat (n * 2 ^ (30 - 3 * l))"
  proof (rule bit_word_eqI)
    fix j assume "j < LENGTH(32)"
    then have j: "j < 32" by simp
    have "bit (of_nat (n * 2 ^ (30 - 3 * l)) :: 32 word) j \<longleftrightarrow> 30 - 3 * l \<le> j \<and> bit n (j - (30 - 3 * l))"
      using j by (simp add: bit_simps flip: push_bit_eq_mult)
    moreover have "bit (tag_to_addr (ntag l n)) j \<longleftrightarrow> 8 \<le> j \<and> j - 8 < 22 \<and> 22 - 3 * l \<le> j - 8 \<and> bit n (j - 8 - (22 - 3 * l))"
      using j by (simp add: tag_to_addr_def bit_simps bit_ntag) auto
    moreover have "j - 8 - (22 - 3 * l) = j - (30 - 3 * l)" using assms(1) by auto
    moreover have "30 - 3 * l \<le> j \<Longrightarrow> bit n (j - (30 - 3 * l)) \<Longrightarrow> j - 8 < 22"
      using node_bits [OF assms(2), of "j - (30 - 3 * l)"] assms(1) by auto
    ultimately show "bit (tag_to_addr (ntag l n)) j = bit (of_nat (n * 2 ^ (30 - 3 * l)) :: 32 word) j"
      using assms(1) by auto
  qed
  then have "unat (tag_to_addr (ntag l n)) = take_bit LENGTH(32) (n * 2 ^ (30 - 3 * l))"
    by (simp only: unat_of_nat take_bit_eq_mod)
  then show ?thesis
    using small by (simp add: take_bit_nat_eq_self)
qed

text \<open>The lowest level hands out children in groups of four, so that the tag is still exact.\<close>

lemma alloc_addr:
  assumes "l \<le> 7" and "n < 8 ^ l" and "i < 8" and "l = 7 \<Longrightarrow> 4 dvd i"
  shows "unat (tag_to_addr (parenttag_idx_to_tag (ntag l n) l i)) = region_addr l n i"
proof (cases "l = 7")
  case False
  with assms have l: "l \<le> 6" by simp
  have eq: "30 - 3 * Suc l = 27 - 3 * l" using l by simp
  show ?thesis
    unfolding parenttag_ntag [OF l assms(2,3)] region_addr_def
    using tag_to_addr_ntag [of "Suc l" "child n i"] child_less [OF assms(2,3)] l by (simp only: eq)
next
  case True
  from assms(3,4) True have i: "i = 0 \<or> i = 4" by (auto simp: dvd_def)
  let ?a = "parenttag_idx_to_tag (ntag l n) l i"
  have n: "bit n k \<Longrightarrow> k < 21" for k using node_bits [OF assms(2), of k] True by simp
  have n21: "n < 2 ^ 21" using assms(2) True by simp
  have "tag_to_addr ?a = of_nat (region_addr l n i)"
  proof (rule bit_word_eqI)
    fix j assume "j < LENGTH(32)"
    then have j: "j < 32" by simp
    have "bit (child n i) (j - 6) = (if j - 6 < 3 then bit i (j - 6) else bit n (j - 6 - 3))"
      by (rule bit_child) (rule assms(3))
    moreover have "region_addr l n i = push_bit 6 (child n i)"
      by (simp add: region_addr_def True push_bit_eq_mult)
    ultimately have rhs: "bit (of_nat (region_addr l n i) :: 32 word) j \<longleftrightarrow>
        6 \<le> j \<and> (if j - 6 < 3 then bit i (j - 6) else bit n (j - 6 - 3))"
      using j by (simp add: bit_simps)
    have four: "bit (4 :: nat) m = (m = 2)" for m
      using bit_push_bit_iff [of 2 "1 :: nat" m] by (auto simp: bit_simps push_bit_eq_mult)
    have lhs: "bit (tag_to_addr ?a) j \<longleftrightarrow> 8 \<le> j \<and> j < 30 \<and> (1 \<le> j - 8 \<and> bit n (j - 9) \<or> j = 8 \<and> i = 4)"
    proof (cases "8 \<le> j \<and> j < 30")
      case in_range: True
      from in_range j i show ?thesis
        by (auto simp: tag_to_addr_def parenttag_idx_to_tag_def bit_simps bit_ntag True four)
    next
      case False
      with j show ?thesis
        by (auto simp: tag_to_addr_def bit_simps dest: bit_imp_le_length)
    qed
    consider "j < 8" | "j = 8" | "9 \<le> j" by linarith
    then show "bit (tag_to_addr ?a) j = bit (of_nat (region_addr l n i) :: 32 word) j"
    proof cases
      case 1
      with i show ?thesis unfolding lhs rhs by (auto simp: four)
    next
      case 2
      with i show ?thesis unfolding lhs rhs by (auto simp: four bit_0)
    next
      case 3
      then have "j - 6 - 3 = j - 9" by simp
      with 3 n [of "j - 9"] show ?thesis unfolding lhs rhs by auto
    qed
  qed
  have "region_addr l n i < 2 ^ 30"
    using n21 assms(3) by (simp add: region_addr_def True child_def)
  with \<open>tag_to_addr ?a = of_nat (region_addr l n i)\<close> show ?thesis
    by (simp add: unat_of_nat take_bit_nat_eq_self)
qed

section \<open>The DRAM byte of a node\<close>

definition node_off :: "nat \<Rightarrow> nat \<Rightarrow> nat" where
  "node_off l n = n + 8 ^ l div 7"

text \<open>The levels follow each other without gap or overlap: level \<open>l\<close> occupies the \<open>8 ^ l\<close> bytes from
  \<open>8 ^ l div 7 = 1 + 8 + ... + 8 ^ (l - 1)\<close>.\<close>

lemma level_start: "8 ^ Suc l div 7 = 8 ^ l + 8 ^ l div (7 :: nat)"
proof -
  have "(8 :: nat) ^ Suc l = 8 ^ l + 8 ^ l * 7" by simp
  then show ?thesis by simp
qed

lemma level_start_mono: "l < k \<Longrightarrow> 8 ^ l + 8 ^ l div 7 \<le> (8 ^ k div 7 :: nat)"
proof (induction k)
  case (Suc k)
  then show ?case
    using level_start [of k] by (cases "l = k") auto
qed simp

lemma node_off_inj:
  assumes "n < 8 ^ l" and "m < 8 ^ k" and "node_off l n = node_off k m"
  shows "l = k \<and> n = m"
proof (cases l k rule: linorder_cases)
  case less
  with level_start_mono [of l k] assms show ?thesis by (simp add: node_off_def)
next
  case equal
  with assms show ?thesis by (simp add: node_off_def)
next
  case greater
  with level_start_mono [of k l] assms show ?thesis by (simp add: node_off_def)
qed

lemma node_off_less: "l \<le> 7 \<Longrightarrow> n < 8 ^ l \<Longrightarrow> node_off l n < BUDDY_META_SIZE"
proof -
  assume "l \<le> 7" "n < 8 ^ l"
  then have "node_off l n < 8 ^ l + 8 ^ l div 7" by (simp add: node_off_def)
  also have "\<dots> \<le> 8 ^ 8 div 7" using \<open>l \<le> 7\<close> level_start_mono [of l 8] by simp
  finally show ?thesis by simp
qed

definition node_addr :: "64 word \<Rightarrow> nat \<Rightarrow> nat \<Rightarrow> 64 word" where
  "node_addr base l n = base + of_nat (node_off l n)"

lemma node_addr_inj:
  assumes "l \<le> 7" "n < 8 ^ l" "k \<le> 7" "m < 8 ^ k" and "node_addr base l n = node_addr base k m"
  shows "l = k \<and> n = m"
proof -
  have small: "node_off l n < 2 ^ 64" "node_off k m < 2 ^ 64"
    using node_off_less [OF assms(1,2)] node_off_less [OF assms(3,4)] by simp_all
  have "unat (of_nat (node_off l n) :: 64 word) = unat (of_nat (node_off k m) :: 64 word)"
    using assms(5) by (simp add: node_addr_def)
  then have "node_off l n = node_off k m"
    unfolding unat_of_nat using small by simp
  then show ?thesis using node_off_inj assms(2,4) by blast
qed

lemma drambuddy_ntag:
  assumes "0 < l" "l \<le> 7" "n < 8 ^ l"
  shows "tag_level_to_drambuddy base (ntag l n) l = Inr (node_addr base l n)"
proof -
  have "ucast (drop_bit (3 * (8 - l)) (tag_pad (ntag l n))) = (of_nat n :: 64 word)"
  proof (rule bit_word_eqI)
    fix j assume "j < LENGTH(64)"
    then have j: "j < 64" by simp
    have n: "bit n j \<Longrightarrow> j < 3 * l" by (rule node_bits [OF assms(3)])
    have e: "3 * (8 - l) + j - 2 - (22 - 3 * l) = j" "2 \<le> 3 * (8 - l) + j" "22 - 3 * l \<le> 3 * (8 - l) + j - 2"
      using assms(1,2) by auto
    have "bit (ucast (drop_bit (3 * (8 - l)) (tag_pad (ntag l n))) :: 64 word) j \<longleftrightarrow>
        3 * (8 - l) + j < 24 \<and> 3 * (8 - l) + j - 2 < 22 \<and> bit n j"
      using j e by (auto simp: tag_pad_def bit_simps bit_ntag)
    also have "\<dots> \<longleftrightarrow> bit n j" using n assms(1,2) by auto
    finally show "bit (ucast (drop_bit (3 * (8 - l)) (tag_pad (ntag l n))) :: 64 word) j = bit (of_nat n :: 64 word) j"
      using j by (simp add: bit_simps)
  qed
  moreover have "(2 :: nat) ^ (3 * l) = 8 ^ l" by (simp add: power_mult)
  ultimately show ?thesis
    using assms(1) by (simp add: tag_level_to_drambuddy_def node_addr_def node_off_def algebra_simps)
qed

section \<open>The node of an address\<close>

definition addr_node :: "32 word \<Rightarrow> nat \<Rightarrow> nat" where
  "addr_node a l = unat a div 2 ^ (30 - 3 * l) mod 8 ^ l"

lemma bit_addr_node: "l \<le> 10 \<Longrightarrow> bit (addr_node a l) j \<longleftrightarrow> j < 3 * l \<and> bit a (j + (30 - 3 * l))"
proof -
  have "addr_node a l = take_bit (3 * l) (drop_bit (30 - 3 * l) (unat a))"
    by (simp add: addr_node_def take_bit_eq_mod drop_bit_eq_div power_mult)
  then show ?thesis by (simp add: bit_simps add.commute)
qed

lemma addr_node_less: "addr_node a l < 8 ^ l"
  by (simp add: addr_node_def)

lemma addr_to_tag_node:
  assumes "l \<le> 7"
  shows "addr_to_tag a l = ntag l (addr_node a l)"
proof (rule bit_word_eqI)
  fix j assume "j < LENGTH(22)"
  then have j: "j < 22" by simp
  have "bit (addr_to_tag a l) j \<longleftrightarrow> bit a (8 + j) \<and> \<not> l * 3 + j < 22"
    using j by (auto simp: addr_to_tag_def bit_simps)
  moreover have "bit (ntag l (addr_node a l)) j \<longleftrightarrow> 22 - 3 * l \<le> j \<and> bit a (j - (22 - 3 * l) + (30 - 3 * l))"
    using j assms by (auto simp: bit_ntag bit_addr_node)
  moreover have "22 - 3 * l \<le> j \<Longrightarrow> j - (22 - 3 * l) + (30 - 3 * l) = 8 + j" using assms by auto
  ultimately show "bit (addr_to_tag a l) j = bit (ntag l (addr_node a l)) j" by (auto simp: not_less)
qed

lemma addr_to_idx_less: "addr_to_idx a l < 8"
  using unsigned_less [of "range_get (push_bit (3 * l) (ucast a) AND ((- 1 :: 30 word) XOR drop_bit 3 (- 1))) 29 27 :: 3 word", where 'a = nat]
  by (simp add: addr_to_idx_def Let_def)

lemma bit_addr_to_idx:
  assumes "l \<le> 7"
  shows "bit (addr_to_idx a l) j \<longleftrightarrow> j < 3 \<and> bit a (j + (27 - 3 * l))"
  using assms by (auto simp: addr_to_idx_def Let_def bit_simps) (auto simp: algebra_simps)

lemma addr_node_Suc:
  assumes "l \<le> 7"
  shows "addr_node a (Suc l) = child (addr_node a l) (addr_to_idx a l)"
proof (rule bit_eqI)
  fix j
  have "bit (child (addr_node a l) (addr_to_idx a l)) j \<longleftrightarrow>
      (if j < 3 then bit a (j + (27 - 3 * l)) else j - 3 < 3 * l \<and> bit a (j - 3 + (30 - 3 * l)))"
    using assms by (simp add: bit_child addr_to_idx_less bit_addr_to_idx bit_addr_node)
  moreover have "30 - 3 * Suc l = 27 - 3 * l" by simp
  moreover have "3 \<le> j \<Longrightarrow> j - 3 + (30 - 3 * l) = j + (27 - 3 * l)" using assms by auto
  ultimately show "bit (addr_node a (Suc l)) j = bit (child (addr_node a l) (addr_to_idx a l)) j"
    using assms by (auto simp: bit_addr_node)
qed

section \<open>Occupancy trees\<close>

type_synonym tree = "nat \<Rightarrow> nat \<Rightarrow> 8 word"

definition node_ok :: "nat \<Rightarrow> nat \<Rightarrow> bool" where
  "node_ok l n \<longleftrightarrow> l < 8 \<and> n < 8 ^ l"

text \<open>A child that is in use has its bit set in the parent.\<close>

definition tree_ok :: "tree \<Rightarrow> bool" where
  "tree_ok T \<longleftrightarrow> (\<forall>l n. node_ok (Suc l) n \<longrightarrow> T (Suc l) n \<noteq> 0 \<longrightarrow> bit (T l (n div 8)) (n mod 8))"

text \<open>The regions that are handed out: a bit is set and nothing below it is in use.\<close>

definition live :: "tree \<Rightarrow> (nat \<times> nat \<times> nat) set" where
  "live T = {(l, n, i). node_ok l n \<and> i < 8 \<and> bit (T l n) i \<and> (l = 7 \<or> T (Suc l) (child n i) = 0)}"

definition region_size :: "nat \<Rightarrow> nat" where
  "region_size l = 2 ^ (27 - 3 * l)"

fun region_bytes :: "nat \<times> nat \<times> nat \<Rightarrow> nat set" where
  "region_bytes (l, n, i) = {region_addr l n i..<region_addr l n i + region_size l}"

definition bytes :: "tree \<Rightarrow> nat set" where
  "bytes T = (\<Union>r \<in> live T. region_bytes r)"

definition set_node :: "tree \<Rightarrow> nat \<Rightarrow> nat \<Rightarrow> 8 word \<Rightarrow> tree" where
  "set_node T l n c = T(l := (T l)(n := c))"

lemma set_node_simps [simp]:
  "set_node T l n c l n = c" "(k, m) \<noteq> (l, n) \<Longrightarrow> set_node T l n c k m = T k m"
  by (auto simp: set_node_def)

lemma node_ok_child: "node_ok l n \<Longrightarrow> l < 7 \<Longrightarrow> i < 8 \<Longrightarrow> node_ok (Suc l) (child n i)"
  using child_less by (auto simp: node_ok_def)

lemma node_ok_parent: "node_ok (Suc l) n \<Longrightarrow> node_ok l (n div 8)"
  by (auto simp: node_ok_def)

lemma tree_okD: "tree_ok T \<Longrightarrow> node_ok (Suc l) n \<Longrightarrow> T (Suc l) n \<noteq> 0 \<Longrightarrow> bit (T l (n div 8)) (n mod 8)"
  by (simp add: tree_ok_def)

text \<open>Below an unset bit nothing is in use.\<close>

lemma free_child_zero:
  "tree_ok T \<Longrightarrow> node_ok l n \<Longrightarrow> l < 7 \<Longrightarrow> i < 8 \<Longrightarrow> \<not> bit (T l n) i \<Longrightarrow> T (Suc l) (child n i) = 0"
  using tree_okD [of T l "child n i"] node_ok_child by fastforce

lemma ancestor_nonzero:
  "tree_ok T \<Longrightarrow> node_ok (l + d) m \<Longrightarrow> T (l + d) m \<noteq> 0 \<Longrightarrow> T l (m div 8 ^ d) \<noteq> 0"
proof (induction d arbitrary: m)
  case (Suc d)
  have "bit (T (l + d) (m div 8)) (m mod 8)"
    using tree_okD [of T "l + d" m] Suc.prems by simp
  then have "T (l + d) (m div 8) \<noteq> 0" by auto
  with Suc.IH [of "m div 8"] Suc.prems node_ok_parent [of "l + d" m] show ?case
    by (simp add: div_mult2_eq)
qed simp

text \<open>Distinct live regions of a well-formed tree do not share a byte.\<close>

lemma region_overlap:
  assumes "x \<in> region_bytes (l, n, i)" and "x \<in> region_bytes (k, m, j)" and "l \<le> k" and "k < 8" and "j < 8"
  shows "child m j div 8 ^ (k - l) = child n i"
proof -
  have size: "region_size l = 8 ^ (k - l) * region_size k"
  proof -
    have "27 - 3 * l = 3 * (k - l) + (27 - 3 * k)" using assms(3,4) by simp
    then show ?thesis by (simp add: region_size_def power_add power_mult)
  qed
  have pos: "0 < region_size k" by (simp add: region_size_def)
  have x: "x div region_size l = child n i" "x div region_size k = child m j"
    using assms(1,2) by (auto simp: region_addr_def region_size_def mult.commute intro!: div_nat_eqI)
  then show ?thesis
    unfolding size by (simp add: div_mult2_eq mult.commute)
qed

lemma live_disjoint:
  assumes T: "tree_ok T" and r: "r \<in> live T" "r' \<in> live T" "r \<noteq> r'"
  shows "region_bytes r \<inter> region_bytes r' = {}"
proof -
  have main: "region_bytes (l, n, i) \<inter> region_bytes (k, m, j) = {}"
    if a: "(l, n, i) \<in> live T" and b: "(k, m, j) \<in> live T" and le: "l \<le> k" and ne: "(l, n, i) \<noteq> (k, m, j)" for l n i k m j
  proof (rule ccontr)
    assume "\<not> ?thesis"
    then obtain x where x: "x \<in> region_bytes (l, n, i)" "x \<in> region_bytes (k, m, j)" by blast
    have bounds: "k < 8" "j < 8" "i < 8" "node_ok k m" using a b by (auto simp: live_def node_ok_def)
    have anc: "child m j div 8 ^ (k - l) = child n i"
      by (rule region_overlap [OF x le bounds(1,2)])
    show False
    proof (cases "l = k")
      case True
      with anc child_inj [of j i m n] bounds ne show False by simp
    next
      case False
      with le obtain d where d: "k = Suc l + d" using less_iff_Suc_add [of l k] by auto
      then have "child m j div 8 div 8 ^ d = child n i"
        using anc by (simp add: div_mult2_eq)
      then have "m div 8 ^ d = child n i" using bounds by simp
      moreover have "T k m \<noteq> 0" using b by (auto simp: live_def)
      then have "T (Suc l) (m div 8 ^ d) \<noteq> 0"
        using ancestor_nonzero [OF T, of "Suc l" d m] bounds(4) d by simp
      ultimately show False using a d bounds(1) by (auto simp: live_def)
    qed
  qed
  obtain l n i k m j where rs: "r = (l, n, i)" "r' = (k, m, j)" by (cases r; cases r') auto
  show ?thesis
    using main [of l n i k m j] main [of k m j l n i] r rs by (cases "l \<le> k") (auto simp: Int_commute)
qed

section \<open>Marking and clearing\<close>

definition width_ok :: "nat \<Rightarrow> nat \<Rightarrow> bool" where
  "width_ok w i \<longleftrightarrow> (w = 1 \<or> w = 2 \<or> w = 4) \<and> i + w \<le> 8"

lemma bit_width_mask: "width_ok w i \<Longrightarrow> bit (push_bit i (width_mask w)) j \<longleftrightarrow> i \<le> j \<and> j < i + w"
proof -
  assume w: "width_ok w i"
  have "width_mask w = mask w"
    using w by (auto simp: width_ok_def width_mask_def mask_eq_exp_minus_1)
  with w show ?thesis by (auto simp: bit_simps width_ok_def)
qed

definition block :: "nat \<Rightarrow> nat \<Rightarrow> nat \<Rightarrow> nat \<Rightarrow> (nat \<times> nat \<times> nat) set" where
  "block l n i w = {(l, n, j) | j. i \<le> j \<and> j < i + w}"

definition parent_region :: "nat \<Rightarrow> nat \<Rightarrow> (nat \<times> nat \<times> nat) set" where
  "parent_region l n = (if l = 0 then {} else {(l - 1, n div 8, n mod 8)})"

text \<open>The part a line operation plays: the bit of the parent.\<close>

definition parent_set :: "tree \<Rightarrow> nat \<Rightarrow> nat \<Rightarrow> bool" where
  "parent_set T l n \<longleftrightarrow> l = 0 \<or> bit (T (l - 1) (n div 8)) (n mod 8)"

lemma tree_ok_set_node:
  assumes T: "tree_ok T" and n: "node_ok l n" and up: "c \<noteq> 0 \<Longrightarrow> parent_set T l n"
    and down: "\<And>i. i < 8 \<Longrightarrow> l < 7 \<Longrightarrow> \<not> bit c i \<Longrightarrow> T (Suc l) (child n i) = 0"
  shows "tree_ok (set_node T l n c)"
  unfolding tree_ok_def
proof (intro allI impI)
  fix k m assume m: "node_ok (Suc k) m" and nz: "set_node T l n c (Suc k) m \<noteq> 0"
  show "bit (set_node T l n c k (m div 8)) (m mod 8)"
  proof (cases "(Suc k, m) = (l, n)")
    case True
    with nz up have "parent_set T (Suc k) m" by auto
    then have "bit (T k (m div 8)) (m mod 8)" by (simp add: parent_set_def)
    moreover have "(k, m div 8) \<noteq> (l, n)" using True by auto
    ultimately show ?thesis by simp
  next
    case False
    with nz have nz': "T (Suc k) m \<noteq> 0" by auto
    show ?thesis
    proof (cases "(k, m div 8) = (l, n)")
      case True
      with m have "l < 7" by (auto simp: node_ok_def)
      moreover have "child n (m mod 8) = m" using True child_eq [of m] by simp
      ultimately have "bit c (m mod 8)" using down [of "m mod 8"] nz' True by auto
      with True show ?thesis by simp
    next
      case False
      with tree_okD [OF T m nz'] show ?thesis by simp
    qed
  qed
qed

lemma live_set_node:
  assumes "node_ok l n"
  shows "live (set_node T l n c) =
    {(k, m, j) \<in> live T. (k, m) \<noteq> (l, n) \<and> (k, m, j) \<notin> parent_region l n} \<union>
    (if c = 0 then {(k, m, j) \<in> parent_region l n. bit (T k m) j} else {}) \<union>
    {(l, n, j) | j. j < 8 \<and> bit c j \<and> (l = 7 \<or> T (Suc l) (child n j) = 0)}" (is "?L = ?R")
proof (rule set_eqI)
  fix r :: "nat \<times> nat \<times> nat"
  obtain k m j where r: "r = (k, m, j)" by (cases r)
  show "r \<in> ?L \<longleftrightarrow> r \<in> ?R"
  proof (cases "(k, m) = (l, n)")
    case True
    then have "r \<notin> parent_region l n" by (auto simp: r parent_region_def)
    moreover have "set_node T l n c (Suc l) (child n j) = T (Suc l) (child n j)" by simp
    ultimately show ?thesis
      using True assms by (auto simp: r live_def)
  next
    case False
    have par: "r \<in> parent_region l n \<longleftrightarrow> Suc k = l \<and> child m j = n" if "j < 8"
      using that child_eq [of n] by (auto simp: r parent_region_def)
    have same: "set_node T l n c k m = T k m" using False by simp
    have par_ok: "r \<in> parent_region l n \<Longrightarrow> node_ok k m \<and> j < 8 \<and> k \<noteq> 7"
      using assms node_ok_parent [of "l - 1" n] by (cases l) (auto simp: r parent_region_def node_ok_def)
    show ?thesis
    proof (cases "r \<in> parent_region l n")
      case True
      with par par_ok have "Suc k = l" "child m j = n" by auto
      with True False par_ok same show ?thesis by (auto simp: r live_def)
    next
      case nopar: False
      then have "j < 8 \<Longrightarrow> (Suc k, child m j) \<noteq> (l, n)" using par by auto
      then have "j < 8 \<Longrightarrow> set_node T l n c (Suc k) (child m j) = T (Suc k) (child m j)" by simp
      with nopar False same show ?thesis by (auto simp: r live_def)
    qed
  qed
qed

lemma mark_block:
  assumes T: "tree_ok T" and n: "node_ok l n" and up: "parent_set T l n" and w: "width_ok w i"
    and free: "\<forall>j. i \<le> j \<and> j < i + w \<longrightarrow> \<not> bit (T l n) j"
  defines "T' \<equiv> set_node T l n (T l n OR push_bit i (width_mask w))"
  shows "tree_ok T'" and "live T' = (live T - parent_region l n) \<union> block l n i w" and "block l n i w \<inter> live T = {}"
proof -
  let ?c = "T l n OR push_bit i (width_mask w)"
  have c: "bit ?c j \<longleftrightarrow> bit (T l n) j \<or> i \<le> j \<and> j < i + w" for j
    using bit_width_mask [OF w] by (simp add: bit_or_iff)
  have "bit ?c i" unfolding c using w by (auto simp: width_ok_def)
  then have nz: "?c \<noteq> 0" by auto
  show "tree_ok T'"
    unfolding T'_def using up by (intro tree_ok_set_node [OF T n]) (auto simp: c intro: free_child_zero [OF T n])
  have zero: "l = 7 \<or> T (Suc l) (child n j) = 0" if "i \<le> j" "j < i + w" for j
  proof (cases "l = 7")
    case False
    with n have "l < 7" by (simp add: node_ok_def)
    with that free w free_child_zero [OF T n, of j] show ?thesis by (auto simp: width_ok_def)
  qed simp
  have "{(l, n, j) | j. j < 8 \<and> bit ?c j \<and> (l = 7 \<or> T (Suc l) (child n j) = 0)} =
      {(l, n, j) | j. (l, n, j) \<in> live T} \<union> block l n i w"
    using zero w n by (auto simp: c live_def block_def width_ok_def)
  then show "live T' = (live T - parent_region l n) \<union> block l n i w"
    unfolding T'_def live_set_node [OF n] using nz by (auto simp: parent_region_def split: if_splits)
  show "block l n i w \<inter> live T = {}"
    using free by (auto simp: block_def live_def)
qed

lemma clear_block:
  assumes T: "tree_ok T" and n: "node_ok l n" and w: "width_ok w i" and blk: "block l n i w \<subseteq> live T"
  defines "c \<equiv> T l n AND NOT (push_bit i (width_mask w))"
  shows "tree_ok (set_node T l n c)"
    and "live (set_node T l n c) = (live T - block l n i w) \<union> (if c = 0 then parent_region l n else {})"
proof -
  have c: "bit c j \<longleftrightarrow> j < 8 \<and> bit (T l n) j \<and> \<not> (i \<le> j \<and> j < i + w)" for j
    using bit_width_mask [OF w, of j] by (auto simp: c_def bit_simps dest: bit_imp_le_length)
  have "(l, n, i) \<in> live T" using blk w by (auto simp: block_def width_ok_def)
  then have "T l n \<noteq> 0" by (auto simp: live_def)
  then have up: "parent_set T l n"
    using tree_okD [OF T, of "l - 1" n] n by (cases l) (auto simp: parent_set_def)
  have blk0: "T (Suc l) (child n j) = 0" if "i \<le> j" "j < i + w" "l < 7" for j
  proof -
    have "(l, n, j) \<in> live T" using blk that by (auto simp: block_def)
    with that show ?thesis by (auto simp: live_def)
  qed
  show "tree_ok (set_node T l n c)"
    using up blk0 by (intro tree_ok_set_node [OF T n]) (auto simp: c intro: free_child_zero [OF T n])
  have "{(k, m, j) \<in> parent_region l n. bit (T k m) j} = parent_region l n"
    using up by (auto simp: parent_region_def parent_set_def split: if_splits)
  moreover have "parent_region l n \<inter> live T = {}"
    using \<open>T l n \<noteq> 0\<close> n child_eq [of n] by (auto simp: parent_region_def live_def node_ok_def)
  moreover have "{(l, n, j) | j. j < 8 \<and> bit c j \<and> (l = 7 \<or> T (Suc l) (child n j) = 0)} =
      {(l, n, j) | j. (l, n, j) \<in> live T} - block l n i w"
    using n by (auto simp: c live_def block_def)
  ultimately show "live (set_node T l n c) = (live T - block l n i w) \<union> (if c = 0 then parent_region l n else {})"
    unfolding live_set_node [OF n] by (auto simp: block_def)
qed

end
