(* ===== verification/Buddy_Cache.thy ===== *)
theory Buddy_Cache
  imports Buddy_Tree
begin

unbundle bit_operations_syntax

text \<open>
  The cache in front of the DRAM is transparent: the byte of a node is the one in its cache line if
  there is one and the one in DRAM otherwise; loading and flushing a line do not change it.
\<close>

section \<open>The occupancy tree of a state\<close>

definition line_at :: "buddy \<Rightarrow> nat \<Rightarrow> nat \<Rightarrow> nat \<Rightarrow> bool" where
  "line_at b l j n \<longleftrightarrow> j < 2 \<and> bl_valid (the_line b l j) \<and> bl_tag (the_line b l j) = ntag l n"

definition meta :: "buddy \<Rightarrow> tree" where
  "meta b l n =
     (if l = 0 then bl_children (the_line b 0 0)
      else (case tag_in_cache (buddy_set b ! l) (ntag l n) of
              (True, j) \<Rightarrow> bl_children (the_line b l j)
            | (False, _) \<Rightarrow> buddy_dram b (node_addr (buddy_managed_base b) l n)))"

text \<open>The arrays have their sizes, the root line is there, and the valid lines of a level are
  distinct nodes of that level.\<close>

definition shape_ok :: "buddy \<Rightarrow> bool" where
  "shape_ok b \<longleftrightarrow> length (buddy_set b) = 8 \<and> length (buddy_free_set b) = 8 \<and>
     (\<forall>l < 8. bs_level (buddy_set b ! l) = l \<and> bs_size (buddy_set b ! l) = (if l = 0 then 1 else 2) \<and>
        length (bs_lines (buddy_set b ! l)) = 2 \<and> bs_rand_counter (buddy_set b ! l) < 2 \<and>
        bf_level (buddy_free_set b ! l) = l)"

definition lines_ok :: "buddy \<Rightarrow> bool" where
  "lines_ok b \<longleftrightarrow> bl_valid (the_line b 0 0) \<and> bl_tag (the_line b 0 0) = 0 \<and>
     (\<forall>l j. 0 < l \<longrightarrow> l < 8 \<longrightarrow> j < 2 \<longrightarrow> bl_valid (the_line b l j) \<longrightarrow> (\<exists>n < 8 ^ l. bl_tag (the_line b l j) = ntag l n)) \<and>
     (\<forall>l n. 0 < l \<longrightarrow> l < 8 \<longrightarrow> \<not> (line_at b l 0 n \<and> line_at b l 1 n))"

definition cache_ok :: "buddy \<Rightarrow> bool" where
  "cache_ok b \<longleftrightarrow> shape_ok b \<and> lines_ok b"

lemma shape_okD:
  assumes "shape_ok b" and "l < 8"
  shows "length (buddy_set b) = 8" "length (buddy_free_set b) = 8" "bs_level (buddy_set b ! l) = l"
    "bs_size (buddy_set b ! l) = (if l = 0 then 1 else 2)" "length (bs_lines (buddy_set b ! l)) = 2"
    "bs_rand_counter (buddy_set b ! l) < 2" "bf_level (buddy_free_set b ! l) = l"
  using assms by (auto simp: shape_ok_def)

lemma valid_line:
  "cache_ok b \<Longrightarrow> 0 < l \<Longrightarrow> l < 8 \<Longrightarrow> j < 2 \<Longrightarrow> bl_valid (the_line b l j) \<Longrightarrow> \<exists>n < 8 ^ l. line_at b l j n"
  unfolding cache_ok_def lines_ok_def line_at_def by blast

lemma less_2_cases': "j < (2 :: nat) \<longleftrightarrow> j = 0 \<or> j = 1"
  by auto

lemma for_break_2: "for_break p 0 2 = (if p 0 then 0 else if p 1 then 1 else 2)"
  by (rule for_break_eqI) (auto simp: less_2_cases' split: if_splits)

lemma lookup_line:
  assumes "cache_ok b" and "0 < l" "l < 8" and "line_at b l j n"
  shows "tag_in_cache (buddy_set b ! l) (ntag l n) = (True, j)"
proof -
  have "\<not> (line_at b l 0 n \<and> line_at b l 1 n)" "bs_size (buddy_set b ! l) = 2"
    using assms(1,2,3) shape_okD [of b l] by (auto simp: cache_ok_def lines_ok_def)
  with assms(4) show ?thesis
    by (auto simp: tag_in_cache_def for_break_2 line_at_def the_line_def less_2_cases')
qed

lemma lookup_none:
  assumes "cache_ok b" and "0 < l" "l < 8" and "\<And>j. \<not> line_at b l j n"
  shows "fst (tag_in_cache (buddy_set b ! l) (ntag l n)) = False"
  using assms(1,2,3) assms(4) [of 0] assms(4) [of 1] shape_okD(4) [of b l]
  by (auto simp: tag_in_cache_def for_break_2 line_at_def the_line_def cache_ok_def)

lemma meta_line: "cache_ok b \<Longrightarrow> 0 < l \<Longrightarrow> l < 8 \<Longrightarrow> line_at b l j n \<Longrightarrow> meta b l n = bl_children (the_line b l j)"
  by (simp add: meta_def lookup_line)

lemma meta_dram:
  "cache_ok b \<Longrightarrow> 0 < l \<Longrightarrow> l < 8 \<Longrightarrow> (\<And>j. \<not> line_at b l j n) \<Longrightarrow> meta b l n = buddy_dram b (node_addr (buddy_managed_base b) l n)"
  using lookup_none [of b l n] by (auto simp: meta_def split: prod.split bool.split)

lemma meta_cases:
  assumes "cache_ok b" and "0 < l" "l < 8"
  obtains j where "line_at b l j n" "meta b l n = bl_children (the_line b l j)"
  | "\<And>j. \<not> line_at b l j n" "meta b l n = buddy_dram b (node_addr (buddy_managed_base b) l n)"
  using meta_line [OF assms] meta_dram [OF assms] by metis

section \<open>Rewriting a line\<close>

lemma the_line_put [simp]:
  assumes "shape_ok b" and "l < 8" and "j < 2"
  shows "the_line (put_line b l j x) k i = (if k = l \<and> i = j then x else the_line b k i)"
  using shape_okD [OF assms(1,2)] assms(2,3) by (auto simp: the_line_def put_line_def nth_list_update)

lemma put_line_frame [simp]:
  "buddy_managed_base (put_line b l j x) = buddy_managed_base b" "buddy_dram (put_line b l j x) = buddy_dram b"
  "buddy_free_set (put_line b l j x) = buddy_free_set b" "buddy_initialized (put_line b l j x) = buddy_initialized b"
  by (simp_all add: put_line_def)

lemma shape_put [simp]: "shape_ok b \<Longrightarrow> shape_ok (put_line b l j x)"
proof -
  assume b: "shape_ok b"
  have "buddy_set (put_line b l j x) ! k =
      (if k = l then (buddy_set b ! l)\<lparr>bs_lines := (bs_lines (buddy_set b ! l))[j := x]\<rparr> else buddy_set b ! k)" if "k < 8" for k
    using b that by (simp add: put_line_def shape_ok_def)
  with b show ?thesis by (simp add: shape_ok_def) (simp add: put_line_def)
qed

text \<open>A valid line may be replaced by one for a node that the other line of the level does not hold.\<close>

lemma lines_put:
  assumes ok: "cache_ok b" and l: "0 < l" "l < 8" and j: "j < 2"
    and x: "bl_valid x \<Longrightarrow> n < 8 ^ l \<and> bl_tag x = ntag l n \<and> \<not> line_at b l (1 - j) n"
  shows "cache_ok (put_line b l j x)"
proof -
  have shape: "shape_ok b" using ok by (simp add: cache_ok_def)
  note line = the_line_put [OF shape l(2) j, of x]
  have at: "line_at (put_line b l j x) k i m \<longleftrightarrow>
      (if k = l \<and> i = j then bl_valid x \<and> bl_tag x = ntag l m else line_at b k i m)" for k i m
    using j by (auto simp: line_at_def line)
  have "\<not> (line_at (put_line b l j x) k 0 m \<and> line_at (put_line b l j x) k 1 m)" if "0 < k" "k < 8" for k m
  proof (cases "k = l")
    case False
    with that ok show ?thesis by (auto simp: at cache_ok_def lines_ok_def)
  next
    case True
    show ?thesis
    proof
      assume "line_at (put_line b l j x) k 0 m \<and> line_at (put_line b l j x) k 1 m"
      then have "bl_valid x" "bl_tag x = ntag l m" and other: "line_at b l (1 - j) m"
        using True j by (auto simp: at less_2_cases')
      with x have "n < 8 ^ l" "ntag l n = ntag l m" "\<not> line_at b l (1 - j) n" by auto
      moreover have "line_at b l (1 - j) m \<longleftrightarrow> line_at b l (1 - j) n"
        using \<open>ntag l n = ntag l m\<close> by (simp add: line_at_def)
      ultimately show False using other by blast
    qed
  qed
  moreover have "bl_valid (the_line (put_line b l j x) k i) \<Longrightarrow> \<exists>m < 8 ^ k. bl_tag (the_line (put_line b l j x) k i) = ntag k m"
    if "0 < k" "k < 8" "i < 2" for k i
    using that ok x by (auto simp: line cache_ok_def lines_ok_def)
  ultimately show ?thesis
    using ok l by (auto simp: cache_ok_def lines_ok_def line)
qed

text \<open>Changing the children of a cached node changes just that node.\<close>

lemma put_children:
  fixes c :: "8 word"
  assumes ok: "cache_ok b" and l: "l < 8" and at: "if l = 0 then j = 0 \<and> n = 0 else line_at b l j n" and n: "n < 8 ^ l"
  defines "b' \<equiv> put_line b l j ((the_line b l j)\<lparr>bl_children := c\<rparr>)"
  shows "cache_ok b'" and "\<forall>k m. node_ok k m \<longrightarrow> meta b' k m = set_node (meta b) l n c k m"
    and "line_at b' k i m = line_at b k i m"
proof -
  have j: "j < 2" using at by (auto simp: line_at_def split: if_splits)
  have shape: "shape_ok b" using ok by (simp add: cache_ok_def)
  note line = the_line_put [OF shape l j, of "(the_line b l j)\<lparr>bl_children := c\<rparr>", folded b'_def]
  show same: "line_at b' k i m = line_at b k i m" for k i m
    by (auto simp: line_at_def line)
  show ok': "cache_ok b'"
    using ok shape l by (auto simp: cache_ok_def lines_ok_def same line b'_def [symmetric]) (auto simp: b'_def)
  show "\<forall>k m. node_ok k m \<longrightarrow> meta b' k m = set_node (meta b) l n c k m"
  proof (intro allI impI)
    fix k m assume km: "node_ok k m"
    show "meta b' k m = set_node (meta b) l n c k m"
    proof (cases "k = 0")
      case True
      with km have "m = 0" by (simp add: node_ok_def)
      with True at n show ?thesis by (auto simp: meta_def line set_node_def)
    next
      case False
      with km have k: "0 < k" "k < 8" by (auto simp: node_ok_def)
      have only: "line_at b l j m \<Longrightarrow> k = l \<Longrightarrow> m = n"
        using at km n ntag_inj [of m l n] l False by (auto simp: line_at_def node_ok_def split: if_splits)
      show ?thesis
      proof (cases rule: meta_cases [OF ok k, of m])
        case (1 i)
        have "meta b' k m = bl_children (the_line b' k i)"
          using 1 by (intro meta_line [OF ok' k]) (simp add: same)
        moreover have "k = l \<and> i = j \<longleftrightarrow> k = l \<and> m = n"
          using 1(1) only at lookup_line [OF ok k 1(1)] lookup_line [OF ok k, of j n] False by auto
        ultimately show ?thesis using 1 by (auto simp: line set_node_def)
      next
        case 2
        have "\<not> (k = l \<and> m = n)" using 2(1) [of j] at False by auto
        moreover have "meta b' k m = meta b k m"
          using meta_dram [OF ok' k, of m] 2 by (simp add: same) (simp add: b'_def)
        ultimately show ?thesis by (auto simp: set_node_def)
      qed
    qed
  qed
qed

section \<open>DRAM writes, flush and load\<close>

definition same_tree :: "buddy \<Rightarrow> buddy \<Rightarrow> bool" where
  "same_tree b b' \<longleftrightarrow> (\<forall>l n. node_ok l n \<longrightarrow> meta b' l n = meta b l n)"

lemma dram_write_simps [simp]:
  "the_line (dram_write b a c) l j = the_line b l j" "line_at (dram_write b a c) l j n = line_at b l j n"
  "cache_ok (dram_write b a c) = cache_ok b" "buddy_managed_base (dram_write b a c) = buddy_managed_base b"
  "shape_ok (dram_write b a c) = shape_ok b" "buddy_free_set (dram_write b a c) = buddy_free_set b"
  "buddy_set (dram_write b a c) = buddy_set b" "buddy_dram (dram_write b a c) = (buddy_dram b)(a := c)"
  by (auto simp: dram_write_def the_line_def line_at_def cache_ok_def shape_ok_def lines_ok_def)

lemma meta_dram_write:
  assumes ok: "cache_ok b" and l: "0 < l" "l < 8" and n: "n < 8 ^ l" and km: "node_ok k m"
  shows "meta (dram_write b (node_addr (buddy_managed_base b) l n) c) k m =
    (if (k, m) = (l, n) \<and> (\<forall>j. \<not> line_at b l j n) then c else meta b k m)"
proof (cases "k = 0")
  case True
  with l show ?thesis by (simp add: meta_def)
next
  case False
  let ?b = "dram_write b (node_addr (buddy_managed_base b) l n) c"
  from False km have k: "0 < k" "k < 8" by (auto simp: node_ok_def)
  have ok': "cache_ok ?b" using ok by simp
  show ?thesis
  proof (cases rule: meta_cases [OF ok k, of m])
    case (1 j)
    with meta_line [OF ok' k, of j m] show ?thesis by auto
  next
    case 2
    have "node_addr (buddy_managed_base b) k m = node_addr (buddy_managed_base b) l n \<longleftrightarrow> (k, m) = (l, n)"
      using node_addr_inj [of k m l n] km l n by (auto simp: node_ok_def)
    with meta_dram [OF ok' k, of m] 2 show ?thesis by auto
  qed
qed

lemma flush_line_ok:
  assumes ok: "cache_ok b" and l: "0 < l" "l < 8" and at: "line_at b l j n" and n: "n < 8 ^ l"
  shows "\<exists>b'. flush_line b l j = Inr b' \<and> cache_ok b' \<and> same_tree b b' \<and>
    (\<forall>k i. the_line b' k i = (if k = l \<and> i = j then empty_line else the_line b k i)) \<and>
    buddy_managed_base b' = buddy_managed_base b \<and> buddy_free_set b' = buddy_free_set b"
proof -
  let ?c = "bl_children (the_line b l j)" and ?a = "node_addr (buddy_managed_base b) l n"
  let ?d = "dram_write b ?a ?c" and ?x = "\<lparr>bl_valid = False, bl_tag = 0, bl_children = 0\<rparr>"
  let ?b = "put_line ?d l j ?x"
  have j: "j < 2" using at by (simp add: line_at_def)
  have shape: "shape_ok ?d" using ok by (simp add: cache_ok_def)
  have "flush_line b l j = Inr ?b"
    using at l n shape_okD(3) [of b l] ok drambuddy_ntag [of l n "buddy_managed_base b"]
    by (simp add: flush_line_def line_at_def cache_ok_def Let_def)
  moreover have ok': "cache_ok ?b"
    using ok l j by (intro lines_put) auto
  moreover have line: "the_line ?b k i = (if k = l \<and> i = j then empty_line else the_line b k i)" for k i
    using the_line_put [OF shape l(2) j, of ?x k i] by (simp add: empty_line_def)
  moreover have "same_tree b ?b"
    unfolding same_tree_def
  proof (intro allI impI)
    fix k m assume km: "node_ok k m"
    show "meta ?b k m = meta b k m"
    proof (cases "k = 0")
      case True
      with l line show ?thesis by (simp add: meta_def)
    next
      case False
      with km have k: "0 < k" "k < 8" by (auto simp: node_ok_def)
      have lat: "line_at ?b k i m \<longleftrightarrow> line_at b k i m \<and> \<not> (k = l \<and> i = j)" for i
        by (auto simp: line_at_def line empty_line_def)
      have uniq: "m = n" if "k = l" "line_at b k j m"
        using that at km n l ntag_inj [of m l n] by (auto simp: line_at_def node_ok_def)
      show ?thesis
      proof (cases rule: meta_cases [OF ok k, of m])
        case (1 i)
        show ?thesis
        proof (cases "k = l \<and> i = j")
          case True
          with 1 uniq have mn: "m = n" by simp
          have "\<not> line_at ?b k i' m" for i'
            using lookup_line [OF ok k 1(1)] lookup_line [OF ok k, of i' m] True lat by auto
          with meta_dram [OF ok' k, of m] have "meta ?b k m = ?c" using True mn by simp
          with 1 True show ?thesis by simp
        next
          case False
          with 1 meta_line [OF ok' k, of i m] lat line show ?thesis by auto
        qed
      next
        case 2
        then have "(k, m) \<noteq> (l, n)" using at by auto
        then have "node_addr (buddy_managed_base b) k m \<noteq> ?a"
          using node_addr_inj [of k m l n] km l n by (auto simp: node_ok_def)
        with meta_dram [OF ok' k, of m] 2 lat show ?thesis by simp
      qed
    qed
  qed
  ultimately show ?thesis by (intro exI [of _ ?b]) simp
qed

lemma load_line_ok:
  assumes ok: "cache_ok b" and l: "0 < l" "l < 8" and j: "j < 2" and inv: "\<not> bl_valid (the_line b l j)"
    and n: "n < 8 ^ l" and none: "\<And>i. \<not> line_at b l i n"
  defines "b' \<equiv> put_line b l j \<lparr>bl_valid = True, bl_tag = ntag l n, bl_children = dram_read b (node_addr (buddy_managed_base b) l n)\<rparr>"
  shows "cache_ok b'" and "same_tree b b'" and "line_at b' l j n" and "the_line b' k i = (if k = l \<and> i = j then
      \<lparr>bl_valid = True, bl_tag = ntag l n, bl_children = meta b l n\<rparr> else the_line b k i)"
proof -
  let ?x = "\<lparr>bl_valid = True, bl_tag = ntag l n, bl_children = dram_read b (node_addr (buddy_managed_base b) l n)\<rparr>"
  have shape: "shape_ok b" using ok by (simp add: cache_ok_def)
  have x: "?x = \<lparr>bl_valid = True, bl_tag = ntag l n, bl_children = meta b l n\<rparr>"
    using meta_dram [OF ok l none] by (simp add: dram_read_def)
  show line: "the_line b' k i = (if k = l \<and> i = j then \<lparr>bl_valid = True, bl_tag = ntag l n, bl_children = meta b l n\<rparr> else the_line b k i)" for k i
    unfolding b'_def x by (rule the_line_put [OF shape l(2) j])
  show ok': "cache_ok b'"
    unfolding b'_def using n none by (intro lines_put [OF ok l j, of _ n]) auto
  show at: "line_at b' l j n" using j by (simp add: line_at_def line)
  have lat: "line_at b' k i m \<longleftrightarrow> (if k = l \<and> i = j then ntag l n = ntag l m else line_at b k i m)" for k i m
    using j by (auto simp: line_at_def line)
  show "same_tree b b'"
    unfolding same_tree_def
  proof (intro allI impI)
    fix k m assume km: "node_ok k m"
    show "meta b' k m = meta b k m"
    proof (cases "k = 0")
      case True
      with l show ?thesis by (simp add: meta_def line)
    next
      case False
      with km have k: "0 < k" "k < 8" by (auto simp: node_ok_def)
      show ?thesis
      proof (cases "(k, m) = (l, n)")
        case True
        with meta_line [OF ok' l at] line show ?thesis by simp
      next
        case other: False
        then have lat': "line_at b' k i m \<longleftrightarrow> line_at b k i m \<and> \<not> (k = l \<and> i = j)" for i
          using lat inv km n l ntag_inj [of m l n] by (auto simp: line_at_def node_ok_def)
        show ?thesis
        proof (cases rule: meta_cases [OF ok k, of m])
          case (1 i)
          then have "\<not> (k = l \<and> i = j)" using inv by (auto simp: line_at_def)
          with 1 meta_line [OF ok' k, of i m] lat' line show ?thesis by auto
        next
          case 2
          with meta_dram [OF ok' k, of m] lat' show ?thesis by (simp add: b'_def)
        qed
      qed
    qed
  qed
qed

section \<open>Loading the line of a node\<close>

definition lines_used :: "buddy \<Rightarrow> bool" where
  "lines_used b \<longleftrightarrow> (\<forall>l j. 0 < l \<longrightarrow> l < 8 \<longrightarrow> j < 2 \<longrightarrow> bl_valid (the_line b l j) \<longrightarrow> bl_children (the_line b l j) \<noteq> 0)"

definition set_rand :: "buddy \<Rightarrow> nat \<Rightarrow> nat \<Rightarrow> buddy" where
  "set_rand b l r = b\<lparr>buddy_set := (buddy_set b)[l := (buddy_set b ! l)\<lparr>bs_rand_counter := r\<rparr>]\<rparr>"

lemma set_rand_ok:
  assumes "cache_ok b" and "l < 8" and "r < 2"
  shows "the_line (set_rand b l r) k i = the_line b k i" and "cache_ok (set_rand b l r)" and "same_tree b (set_rand b l r)"
    and "buddy_managed_base (set_rand b l r) = buddy_managed_base b" and "buddy_free_set (set_rand b l r) = buddy_free_set b"
proof -
  have len: "length (buddy_set b) = 8" using assms(1) by (simp add: cache_ok_def shape_ok_def)
  have set: "buddy_set (set_rand b l r) ! k = (if k = l then (buddy_set b ! l)\<lparr>bs_rand_counter := r\<rparr> else buddy_set b ! k)" for k
    using len assms(2) by (simp add: set_rand_def nth_list_update)
  show line: "the_line (set_rand b l r) k i = the_line b k i" for k i
    by (simp add: the_line_def set)
  have "length (buddy_set (set_rand b l r)) = 8" "buddy_free_set (set_rand b l r) = buddy_free_set b"
    using len by (simp_all add: set_rand_def)
  then have "shape_ok (set_rand b l r)"
    using assms unfolding cache_ok_def shape_ok_def by (simp add: set)
  then show "cache_ok (set_rand b l r)"
    using assms(1) by (simp add: cache_ok_def lines_ok_def line_at_def line)
  have "tag_in_cache (buddy_set (set_rand b l r) ! k) t = tag_in_cache (buddy_set b ! k) t" for k t
    by (simp add: tag_in_cache_def set)
  moreover have "buddy_dram (set_rand b l r) = buddy_dram b" "buddy_managed_base (set_rand b l r) = buddy_managed_base b"
    by (simp_all add: set_rand_def)
  ultimately show "same_tree b (set_rand b l r)"
    by (simp add: same_tree_def meta_def line split: prod.split bool.split)
qed (simp_all add: set_rand_def)

lemma same_tree_trans: "same_tree a b \<Longrightarrow> same_tree b c \<Longrightarrow> same_tree a c"
  by (simp add: same_tree_def)

lemma choose_line_cases:
  assumes "cache_ok b" and "0 < l" "l < 8"
  obtains (empty) j where "choose_line (buddy_set b ! l) = (True, j, buddy_set b ! l)" "j < 2" "\<not> bl_valid (the_line b l j)"
  | (evict) j r where "choose_line (buddy_set b ! l) = (False, j, (buddy_set b ! l)\<lparr>bs_rand_counter := r\<rparr>)" "j < 2" "r < 2"
      "bl_valid (the_line b l j)"
proof -
  have size: "bs_size (buddy_set b ! l) = 2" and rand: "bs_rand_counter (buddy_set b ! l) < 2"
    using assms shape_okD(4,6) [of b l] by (auto simp: cache_ok_def)
  show ?thesis
  proof (cases "bl_valid (the_line b l 0) \<and> bl_valid (the_line b l 1)")
    case True
    then have "choose_line (buddy_set b ! l) = (False, bs_rand_counter (buddy_set b ! l),
        (buddy_set b ! l)\<lparr>bs_rand_counter := if bs_rand_counter (buddy_set b ! l) = 0 then 1 else 0\<rparr>)"
      using size rand by (auto simp: choose_line_def for_break_2 the_line_def count_def Let_def less_2_cases')
    moreover have "bl_valid (the_line b l (bs_rand_counter (buddy_set b ! l)))"
      using True rand by (auto simp: less_2_cases')
    ultimately show ?thesis
      using rand by (intro evict [of "bs_rand_counter (buddy_set b ! l)" "if bs_rand_counter (buddy_set b ! l) = 0 then 1 else 0"]) auto
  next
    case False
    then show ?thesis
      using size by (intro empty [of "if bl_valid (the_line b l 0) then 1 else 0"])
        (auto simp: choose_line_def for_break_2 the_line_def Let_def)
  qed
qed

lemma cache_load_ok:
  assumes ok: "cache_ok b" and used: "lines_used b" and l: "0 < l" "l < 8" and n: "n < 8 ^ l" and none: "\<And>i. \<not> line_at b l i n"
  shows "\<exists>b' j. cache_load b l (ntag l n) = Inr (b', j) \<and> cache_ok b' \<and> same_tree b b' \<and> line_at b' l j n \<and> j < 2 \<and>
    bl_children (the_line b' l j) = meta b l n \<and> buddy_managed_base b' = buddy_managed_base b \<and>
    (\<forall>k i. 0 < k \<longrightarrow> k < 8 \<longrightarrow> i < 2 \<longrightarrow> (k, i) \<noteq> (l, j) \<longrightarrow> bl_valid (the_line b' k i) \<longrightarrow> bl_children (the_line b' k i) \<noteq> 0)"
proof -
  obtain b1 j where b1: "(let (no_flush, nr_asso, set') = choose_line (buddy_set b ! l); b = b\<lparr>buddy_set := (buddy_set b)[l := set']\<rparr>
        in (if no_flush then Inr b else flush_line b l nr_asso)) = Inr b1" "fst (snd (choose_line (buddy_set b ! l))) = j"
      and j: "j < 2" and ok1: "cache_ok b1" and same1: "same_tree b b1" and inv1: "\<not> bl_valid (the_line b1 l j)"
      and base1: "buddy_managed_base b1 = buddy_managed_base b"
      and lines1: "\<And>k i. bl_valid (the_line b1 k i) \<Longrightarrow> the_line b1 k i = the_line b k i"
  proof (cases rule: choose_line_cases [OF ok l])
    case (1 j)
    with ok show thesis by (intro that [of b j]) (auto simp: same_tree_def)
  next
    case (2 j r)
    note r = set_rand_ok [OF ok l(2) 2(3)]
    obtain m where "m < 8 ^ l" "line_at b l j m"
      using valid_line [OF ok l 2(2,4)] by blast
    then have "m < 8 ^ l" "line_at (set_rand b l r) l j m"
      using r(1) by (simp_all add: line_at_def)
    from flush_line_ok [OF r(2) l this(2,1)] obtain b1 where "flush_line (set_rand b l r) l j = Inr b1" "cache_ok b1"
        "same_tree (set_rand b l r) b1" "buddy_managed_base b1 = buddy_managed_base b"
        "\<forall>k i. the_line b1 k i = (if k = l \<and> i = j then empty_line else the_line (set_rand b l r) k i)"
      using r by auto
    with 2 r show thesis
      by (intro that [of b1 j]) (auto simp: set_rand_def empty_line_def intro: same_tree_trans split: if_splits)
  qed
  have none1: "\<not> line_at b1 l i n" for i
    using none [of i] lines1 [of l i] by (metis line_at_def)
  let ?x = "\<lparr>bl_valid = True, bl_tag = ntag l n, bl_children = dram_read b1 (node_addr (buddy_managed_base b1) l n)\<rparr>"
  note load = load_line_ok [OF ok1 l j inv1 n none1]
  have "cache_load b l (ntag l n) = Inr (put_line b1 l j ?x, j)"
    using b1 drambuddy_ntag [of l n "buddy_managed_base b1"] l n
    by (auto simp: cache_load_def Let_def split: prod.splits sum.splits)
  moreover have "meta b1 l n = meta b l n" using same1 l n by (simp add: same_tree_def node_ok_def)
  moreover have "bl_children (the_line (put_line b1 l j ?x) k i) \<noteq> 0"
    if "0 < k" "k < 8" "i < 2" "(k, i) \<noteq> (l, j)" "bl_valid (the_line (put_line b1 l j ?x) k i)" for k i
  proof -
    have eq: "the_line (put_line b1 l j ?x) k i = the_line b1 k i" using load(4) [of k i] that(4) by auto
    with lines1 [of k i] that used show ?thesis by (simp add: lines_used_def)
  qed
  moreover have "same_tree b (put_line b1 l j ?x)" by (rule same_tree_trans [OF same1 load(2)])
  moreover have "bl_children (the_line (put_line b1 l j ?x) l j) = meta b1 l n" using load(4) [of l j] by simp
  moreover have "buddy_managed_base (put_line b1 l j ?x) = buddy_managed_base b" using base1 by simp
  ultimately show ?thesis
    using load(1,3) j by (intro exI [of _ "put_line b1 l j ?x"] exI [of _ j] conjI allI impI) auto
qed

end
