(* ===== verification/Buddy_Alloc.thy ===== *)
theory Buddy_Alloc
  imports Buddy_Cache
begin

unbundle bit_operations_syntax

text \<open>
  What the buddy allocator promises: \<open>alloc\<close> hands out blocks of the requested size, aligned, inside
  the managed space, and disjoint from every block still handed out; \<open>free\<close> gives a block back.
\<close>

definition buddy_inv :: "buddy \<Rightarrow> bool" where
  "buddy_inv b \<longleftrightarrow> cache_ok b \<and> lines_used b \<and> tree_ok (meta b)"

lemma tree_cong:
  assumes "\<forall>l n. node_ok l n \<longrightarrow> T l n = T' l n"
  shows "tree_ok T = tree_ok T'" and "live T = live T'"
proof -
  show "tree_ok T = tree_ok T'"
    unfolding tree_ok_def using assms node_ok_parent by metis
  have "(l, n, i) \<in> live T \<longleftrightarrow> (l, n, i) \<in> live T'" for l n i
  proof (cases "node_ok l n \<and> i < 8")
    case True
    then have "l \<noteq> 7 \<Longrightarrow> node_ok (Suc l) (child n i)" by (intro node_ok_child) (auto simp: node_ok_def)
    then have "l \<noteq> 7 \<Longrightarrow> T (Suc l) (child n i) = T' (Suc l) (child n i)" using assms by blast
    with True assms show ?thesis by (cases "l = 7") (auto simp: live_def)
  next
    case False
    then show ?thesis by (auto simp: live_def)
  qed
  then show "live T = live T'" by auto
qed

lemma same_tree_cong: "same_tree b b' \<Longrightarrow> tree_ok (meta b') = tree_ok (meta b)" "same_tree b b' \<Longrightarrow> live (meta b') = live (meta b)"
  by (auto simp: same_tree_def intro!: tree_cong)

section \<open>Searching a line\<close>

lemma and_mask_zero:
  "width_ok w i \<Longrightarrow> push_bit i (width_mask w) AND c = 0 \<longleftrightarrow> (\<forall>j. i \<le> j \<and> j < i + w \<longrightarrow> \<not> bit c j)"
proof -
  assume w: "width_ok w i"
  have "x = 0 \<longleftrightarrow> (\<forall>j. \<not> bit x j)" for x :: "8 word" by (auto intro: bit_word_eqI)
  with bit_width_mask [OF w] show ?thesis by (auto simp: bit_and_iff)
qed

lemma free_line_True:
  assumes "get_valid_free_line line w idx = (True, i)"
  shows "width_ok w i" and "w dvd i" and "bl_valid line" and "\<forall>j. i \<le> j \<and> j < i + w \<longrightarrow> \<not> bit (bl_children line) j"
proof -
  show w: "width_ok w i" and "w dvd i" and "bl_valid line"
    using assms by (auto simp: get_valid_free_line_def Let_def width_ok_def get_free_1bit_def get_free_2bit_def
        get_free_4bit_def dvd_def split: if_splits)
  from assms have "push_bit i (width_mask w) AND bl_children line = 0"
    by (auto simp: get_valid_free_line_def Let_def split: if_splits)
  with and_mask_zero [OF w] show "\<forall>j. i \<le> j \<and> j < i + w \<longrightarrow> \<not> bit (bl_children line) j" by simp
qed

lemma free_line_empty:
  "bl_valid line \<Longrightarrow> bl_children line = 0 \<Longrightarrow> w = 1 \<or> w = 2 \<or> w = 4 \<Longrightarrow> get_valid_free_line line w idx = (True, 0)"
  by (auto simp: get_valid_free_line_def get_free_1bit_def get_free_2bit_def get_free_4bit_def)

lemma free_lines_True:
  "get_valid_free_lines lines w nr idx = (True, nr', i) \<Longrightarrow>
   nr \<le> nr' \<and> nr' < nr + length lines \<and> (\<exists>idx. get_valid_free_line (lines ! (nr' - nr)) w idx = (True, i))"
proof (induction lines arbitrary: nr idx)
  case (Cons line lines)
  show ?case
  proof (cases "fst (get_valid_free_line line w idx)")
    case True
    with Cons.prems show ?thesis by (auto split: prod.splits)
  next
    case False
    then obtain idx' where "get_valid_free_lines lines w (Suc nr) idx' = (True, nr', i)"
      using Cons.prems by (auto split: prod.splits)
    from Cons.IH [OF this] show ?thesis by (auto simp: Suc_diff_le nth_Cons' Suc_le_eq)
  qed
qed simp

lemma free_set_True:
  assumes "shape_ok b" and "l < 8" and "get_valid_free_set (buddy_set b ! l) w idx = (True, j, i)"
  shows "j < (if l = 0 then 1 else 2) \<and> (\<exists>idx. get_valid_free_line (the_line b l j) w idx = (True, i))"
  using free_lines_True [OF assms(3) [unfolded get_valid_free_set_def]] shape_okD(4,5) [OF assms(1,2)]
  by (auto simp: the_line_def)

lemma look_up_found:
  assumes "shape_ok b" and "l < 8" and "alloc_look_up b r w idx (of_nat l) = Inr (s, j, i)"
  shows "s \<le> l \<and> j < (if s = 0 then 1 else 2) \<and> (\<exists>idx. get_valid_free_line (the_line b s j) (if s = r then w else 1) idx = (True, i))"
  using assms(2,3)
proof (induction l arbitrary: idx)
  case 0
  then show ?case using free_set_True [OF assms(1), of 0] look_up_level [of 0 b r w idx] by (auto split: prod.splits if_splits)
next
  case (Suc l)
  note step = look_up_level [of "Suc l" b r w idx]
  obtain a j' i' where g: "get_valid_free_set (buddy_set b ! Suc l) (if Suc l = r then w else 1) idx = (a, j', i')"
    by (metis prod_cases3)
  show ?case
  proof (cases a)
    case True
    with g step Suc.prems free_set_True [OF assms(1), of "Suc l"] show ?thesis by auto
  next
    case False
    with g step Suc show ?thesis by fastforce
  qed
qed

section \<open>Taking a child of a cached line\<close>

definition at_node :: "buddy \<Rightarrow> nat \<Rightarrow> nat \<Rightarrow> nat \<Rightarrow> bool" where
  "at_node b l j n \<longleftrightarrow> (if l = 0 then j = 0 \<and> n = 0 else line_at b l j n)"

definition others_used :: "buddy \<Rightarrow> nat \<Rightarrow> nat \<Rightarrow> bool" where
  "others_used b l j \<longleftrightarrow> (\<forall>k i. 0 < k \<longrightarrow> k < 8 \<longrightarrow> i < 2 \<longrightarrow> (k, i) \<noteq> (l, j) \<longrightarrow> bl_valid (the_line b k i) \<longrightarrow>
     bl_children (the_line b k i) \<noteq> 0)"

lemma meta_at: "cache_ok b \<Longrightarrow> l < 8 \<Longrightarrow> at_node b l j n \<Longrightarrow> meta b l n = bl_children (the_line b l j)"
  using meta_line [of b l j n] by (auto simp: at_node_def meta_def split: if_splits)

lemma tag_at: "cache_ok b \<Longrightarrow> at_node b l j n \<Longrightarrow> bl_tag (the_line b l j) = ntag l n"
  by (auto simp: at_node_def line_at_def cache_ok_def lines_ok_def ntag_def split: if_splits)

lemma alloc_take_ok:
  assumes ok: "cache_ok b" and T: "tree_ok (meta b)" and others: "others_used b l j" and n: "node_ok l n"
    and at: "at_node b l j n" and up: "parent_set (meta b) l n" and w: "width_ok w i"
    and free: "\<forall>q. i \<le> q \<and> q < i + w \<longrightarrow> \<not> bit (meta b l n) q"
  shows "case alloc_take b l j w i of
      Inl f \<Rightarrow> l = 0 \<and> f = Assert_failed
    | Inr (b', t) \<Rightarrow> t = parenttag_idx_to_tag (ntag l n) l i \<and> buddy_inv b' \<and>
        live (meta b') = (live (meta b) - parent_region l n) \<union> block l n i w \<and> block l n i w \<inter> live (meta b) = {}"
proof -
  let ?c = "bl_children (the_line b l j) OR push_bit i (width_mask w)"
  let ?b = "put_line b l j ((the_line b l j)\<lparr>bl_children := ?c\<rparr>)"
  have l: "l < 8" and n8: "n < 8 ^ l" using n by (auto simp: node_ok_def)
  have m: "meta b l n = bl_children (the_line b l j)" by (rule meta_at [OF ok l at])
  note put = put_children [OF ok l at [unfolded at_node_def] n8, of ?c]
  note mark = mark_block [OF T n up w free, unfolded m]
  have tree: "tree_ok (meta ?b)" "live (meta ?b) = (live (meta b) - parent_region l n) \<union> block l n i w"
    using mark(1,2) tree_cong [of "meta ?b" "set_node (meta b) l n ?c"] put(2) by simp_all
  have j: "j < 2" using at by (auto simp: at_node_def line_at_def split: if_splits)
  have line: "the_line ?b k q = (if k = l \<and> q = j then (the_line b l j)\<lparr>bl_children := ?c\<rparr> else the_line b k q)" for k q
    using ok l j by (intro the_line_put) (simp_all add: cache_ok_def)
  have "bit ?c i" using bit_width_mask [OF w, of i] w by (auto simp: bit_or_iff width_ok_def)
  then have "?c \<noteq> 0" by auto
  then have used: "lines_used ?b"
    using others by (auto simp: lines_used_def others_used_def line)
  have tag: "bl_tag (the_line ?b l j) = ntag l n" using tag_at [OF ok at] by (simp add: line)
  have take: "alloc_take b l j w i = (case flush_if_full ?b l j of Inl f \<Rightarrow> Inl f | Inr b \<Rightarrow> Inr (b, parenttag_idx_to_tag (ntag l n) l i))"
    unfolding alloc_take_def set_clear_bits_def Let_def if_True tag ..
  show ?thesis
  proof (cases "?c = 0xFF")
    case False
    then have "flush_if_full ?b l j = Inr ?b" unfolding flush_if_full_def line by simp
    with take put(1) used tree mark(3) show ?thesis by (simp add: buddy_inv_def)
  next
    case full: True
    have ff: "flush_if_full ?b l j = flush_line ?b l j" unfolding flush_if_full_def line using full by simp
    show ?thesis
    proof (cases "l = 0")
      case True
      have "bs_level (buddy_set ?b ! 0) = 0"
        using put(1) shape_okD(3) [of ?b 0] by (simp add: cache_ok_def)
      with True ff take show ?thesis
        by (simp add: flush_line_def tag_level_to_drambuddy_def Let_def)
    next
      case False
      then have "line_at ?b l j n" using at put(3) by (simp add: at_node_def)
      from flush_line_ok [OF put(1) _ l this n8] False obtain b' where b': "flush_line ?b l j = Inr b'" "cache_ok b'" "same_tree ?b b'"
          "\<forall>k i. the_line b' k i = (if k = l \<and> i = j then empty_line else the_line ?b k i)" by auto
      have "lines_used b'" using used b'(4) by (auto simp: lines_used_def empty_line_def)
      with b' same_tree_cong [OF b'(3)] take ff tree mark(3) show ?thesis by (simp add: buddy_inv_def)
    qed
  qed
qed

section \<open>Going down the tree\<close>

definition pending :: "nat \<Rightarrow> nat \<Rightarrow> nat \<times> nat \<times> nat" where
  "pending l n = (l - 1, n div 8, n mod 8)"

lemma parent_region_pending: "0 < l \<Longrightarrow> parent_region l n = {pending l n}"
  by (simp add: parent_region_def pending_def)

text \<open>A region that was just taken at the level above: its node is empty and not cached.\<close>

lemma pending_free:
  assumes inv: "buddy_inv b" and n: "node_ok l n" and l: "0 < l" and p: "pending l n \<in> live (meta b)"
  shows "meta b l n = 0" and "parent_set (meta b) l n" and "\<not> line_at b l j n"
proof -
  have "l - 1 \<noteq> 7" "Suc (l - 1) = l" using n l by (auto simp: node_ok_def)
  then show zero: "meta b l n = 0" and "parent_set (meta b) l n"
    using p l child_eq [of n] by (auto simp: live_def pending_def parent_set_def)
  show "\<not> line_at b l j n"
    using zero meta_line [of b l j n] inv n l by (auto simp: buddy_inv_def lines_used_def node_ok_def line_at_def)
qed

lemma load_level_ok:
  assumes inv: "buddy_inv b" and n: "node_ok l n" and l: "0 < l" and p: "pending l n \<in> live (meta b)"
    and w: "w = 1 \<or> w = 2 \<or> w = 4"
  shows "\<exists>b'. load_level b l w (ntag l n) idx = Inr (b', parenttag_idx_to_tag (ntag l n) l 0, 0) \<and> buddy_inv b' \<and>
    live (meta b') = (live (meta b) - {pending l n}) \<union> block l n 0 w \<and> block l n 0 w \<inter> live (meta b) = {}"
proof -
  note free = pending_free [OF inv n l p]
  have l8: "l < 8" and n8: "n < 8 ^ l" using n by (auto simp: node_ok_def)
  have inv': "cache_ok b" "lines_used b" "tree_ok (meta b)" using inv by (auto simp: buddy_inv_def)
  from cache_load_ok [OF inv'(1,2) l l8 n8 free(3)] obtain b1 j where
    load: "cache_load b l (ntag l n) = Inr (b1, j)" and ok1: "cache_ok b1" and same: "same_tree b b1" and at: "line_at b1 l j n"
    and j: "j < 2" and ch: "bl_children (the_line b1 l j) = meta b l n" and others: "others_used b1 l j"
    unfolding others_used_def by metis
  have at': "at_node b1 l j n" using at l by (simp add: at_node_def)
  have meta1: "meta b1 l n = 0" using same n free(1) by (simp add: same_tree_def)
  have "node_ok (l - 1) (n div 8)" using node_ok_parent [of "l - 1" n] n l by simp
  then have up1: "parent_set (meta b1) l n" using free(2) same by (simp add: parent_set_def same_tree_def)
  have wok: "width_ok w 0" using w by (auto simp: width_ok_def)
  have "bl_valid (the_line b1 l j)" using at by (simp add: line_at_def)
  then have idx: "get_valid_free_line (the_line b1 l j) w idx = (True, 0)"
    using ch free(1) w by (intro free_line_empty) auto
  note take = alloc_take_ok [OF ok1 _ others n at' up1 wok, unfolded same_tree_cong [OF same], OF inv'(3)]
  obtain b2 where b2: "alloc_take b1 l j w 0 = Inr (b2, parenttag_idx_to_tag (ntag l n) l 0)" "buddy_inv b2"
      "live (meta b2) = (live (meta b) - parent_region l n) \<union> block l n 0 w" "block l n 0 w \<inter> live (meta b) = {}"
    using take meta1 l by (cases "alloc_take b1 l j w 0") auto
  then show ?thesis
    using load idx parent_region_pending [OF l, of n] by (simp add: load_level_def)
qed

lemma block_1: "block l n i 1 = {(l, n, i)}"
  by (auto simp: block_def)

lemma pending_child: "i < 8 \<Longrightarrow> pending (Suc l) (child n i) = (l, n, i)"
  by (simp add: pending_def)

lemma alloc_load_ok:
  assumes "buddy_inv b" and "node_ok l n" and "0 < l" and "pending l n \<in> live (meta b)" and "l + d \<le> 7"
    and w: "w = 1 \<or> w = 2 \<or> w = 4"
  shows "\<exists>b' m. alloc_load b (l + d) w [l..<Suc (l + d)] (ntag l n) idx = Inr (b', parenttag_idx_to_tag (ntag (l + d) m) (l + d) 0) \<and>
    node_ok (l + d) m \<and> buddy_inv b' \<and> live (meta b') = (live (meta b) - {pending l n}) \<union> block (l + d) m 0 w \<and>
    block (l + d) m 0 w \<inter> live (meta b) = {}"
  using assms(1-5)
proof (induction d arbitrary: b l n idx)
  case 0
  from load_level_ok [OF 0(1-4) w, of idx] show ?case using 0 by auto
next
  case (Suc d)
  have one: "(1 :: nat) = 1 \<or> (1 :: nat) = 2 \<or> (1 :: nat) = 4" by simp
  from load_level_ok [OF Suc.prems(1-4) one, of idx] obtain b1 where
    b1: "load_level b l 1 (ntag l n) idx = Inr (b1, parenttag_idx_to_tag (ntag l n) l 0, 0)" "buddy_inv b1"
      "live (meta b1) = (live (meta b) - {pending l n}) \<union> {(l, n, 0)}" "(l, n, 0) \<notin> live (meta b)"
    unfolding block_1 by auto
  have l: "l \<le> 6" "n < 8 ^ l" using Suc.prems by (auto simp: node_ok_def)
  have tag: "parenttag_idx_to_tag (ntag l n) l 0 = ntag (Suc l) (child n 0)"
    using parenttag_ntag [OF l, of 0] by simp
  have child: "node_ok (Suc l) (child n 0)" "pending (Suc l) (child n 0) = (l, n, 0)"
    using node_ok_child [OF Suc.prems(2), of 0] l by (simp_all add: pending_child)
  have "pending (Suc l) (child n 0) \<in> live (meta b1)" using child b1(3) by simp
  from Suc.IH [OF b1(2) child(1) _ this, of 0] Suc.prems obtain b2 m where
    b2: "alloc_load b1 (l + Suc d) w [Suc l..<Suc (l + Suc d)] (ntag (Suc l) (child n 0)) 0 =
        Inr (b2, parenttag_idx_to_tag (ntag (l + Suc d) m) (l + Suc d) 0)"
      "node_ok (l + Suc d) m" "buddy_inv b2" "live (meta b2) = (live (meta b1) - {(l, n, 0)}) \<union> block (l + Suc d) m 0 w"
      "block (l + Suc d) m 0 w \<inter> live (meta b1) = {}"
    using child(2) by auto
  have "[l..<Suc (l + Suc d)] = l # [Suc l..<Suc (l + Suc d)]" by (simp add: upt_rec)
  then have "alloc_load b (l + Suc d) w [l..<Suc (l + Suc d)] (ntag l n) idx =
      Inr (b2, parenttag_idx_to_tag (ntag (l + Suc d) m) (l + Suc d) 0)"
    using b1(1) b2(1) tag by simp
  moreover have "live (meta b2) = (live (meta b) - {pending l n}) \<union> block (l + Suc d) m 0 w"
    unfolding b2(4) b1(3) using b1(4) by auto
  moreover have "pending l n \<notin> block (l + Suc d) m 0 w" using Suc.prems(3) by (auto simp: pending_def block_def)
  then have "block (l + Suc d) m 0 w \<inter> live (meta b) = {}"
    using b2(5) b1(3) by auto
  ultimately show ?case using b2(2,3) by blast
qed

section \<open>Allocation\<close>

lemma order_level: "unat order < 21 \<Longrightarrow> order_to_level order \<le> 7 \<and>
    (order_to_width order = 1 \<or> order_to_width order = 2 \<or> order_to_width order = 4) \<and>
    (order_to_level order = 7 \<longrightarrow> order_to_width order = 4)"
proof -
  assume o: "unat order < 21"
  define k where "k = 21 - unat order"
  have k: "k \<le> 21" "k mod 3 < 3" "k = 3 * (k div 3) + k mod 3" by (simp_all add: k_def)
  then have "k div 3 \<le> 7" "k mod 3 = 0 \<or> k mod 3 = 1 \<or> k mod 3 = 2" "k div 3 = 7 \<Longrightarrow> k mod 3 = 0"
    by linarith+
  then show ?thesis
    unfolding order_to_level_def order_to_width_def by (auto simp: k_def [symmetric])
qed

text \<open>The size of the block: \<open>width\<close> regions of the level are \<open>2 ^ (order + 8)\<close> bytes.\<close>

lemma order_size: "unat order < 21 \<Longrightarrow> order_to_width order * region_size (order_to_level order) = 2 ^ (unat order + 8)"
proof -
  assume o: "unat order < 21"
  let ?k = "21 - unat order"
  have "27 - 3 * (?k div 3) + (2 - ?k mod 3) = unat order + 8"
    using o div_mult_mod_eq [of ?k 3] mod_less_divisor [of 3 ?k] by linarith
  then show ?thesis
    by (simp add: order_to_width_def order_to_level_def region_size_def flip: power_add)
qed

lemma found_node:
  assumes inv: "buddy_inv b" and s: "s < 8" and j: "j < (if s = 0 then 1 else 2)" and valid: "bl_valid (the_line b s j)"
  obtains n where "node_ok s n" "at_node b s j n" "parent_set (meta b) s n" "parent_region s n \<inter> live (meta b) = {}"
proof (cases "s = 0")
  case True
  with j show ?thesis by (intro that [of 0]) (auto simp: node_ok_def at_node_def parent_set_def parent_region_def)
next
  case False
  then obtain n where n: "n < 8 ^ s" "line_at b s j n"
    using valid_line [of b s j] inv s j valid by (auto simp: buddy_inv_def)
  have "meta b s n \<noteq> 0"
    using meta_line [of b s j n] inv s n False by (auto simp: buddy_inv_def lines_used_def line_at_def)
  then show ?thesis
    using n s False tree_okD [of "meta b" "s - 1" n] inv child_eq [of n]
    by (intro that [of n]) (auto simp: node_ok_def at_node_def parent_set_def parent_region_def buddy_inv_def live_def)
qed

definition granted :: "buddy \<Rightarrow> buddy \<Rightarrow> 22 word \<Rightarrow> 32 word \<Rightarrow> bool" where
  "granted b b' order addr \<longleftrightarrow>
     (\<exists>n i. node_ok (order_to_level order) n \<and> width_ok (order_to_width order) i \<and> order_to_width order dvd i \<and>
        unat addr = region_addr (order_to_level order) n i \<and>
        live (meta b') = live (meta b) \<union> block (order_to_level order) n i (order_to_width order) \<and>
        block (order_to_level order) n i (order_to_width order) \<inter> live (meta b) = {})"

lemma alloc_ok:
  assumes inv: "buddy_inv b" and order: "unat order < 21" and alloc: "alloc b order = Inr (b', stat, addr)"
  shows "stat = 0" and "buddy_inv b'" and "granted b b' order addr"
proof -
  let ?l = "order_to_level order" and ?w = "order_to_width order"
  note lw = order_level [OF order]
  have w: "?w = 1 \<or> ?w = 2 \<or> ?w = 4" and l: "?l < 8" using lw by auto
  obtain s j i b1 t where look: "alloc_look_up b ?l ?w 0 (of_nat ?l) = Inr (s, j, i)"
      and take: "alloc_take b s j (if s = ?l then ?w else 1) i = Inr (b1, t)"
      and rest: "\<exists>t'. alloc_load b1 ?l ?w [Suc s..<Suc ?l] t i = Inr (b', t') \<and> stat = 0 \<and> addr = tag_to_addr t'"
    using alloc order by (auto simp: alloc_def Let_def split: sum.splits prod.splits)
  have shape: "shape_ok b" using inv by (simp add: buddy_inv_def cache_ok_def)
  let ?v = "if s = ?l then ?w else 1"
  from look_up_found [OF shape l look] obtain idx0 where s: "s \<le> ?l" and j: "j < (if s = 0 then 1 else 2)"
      and free: "get_valid_free_line (the_line b s j) ?v idx0 = (True, i)" by blast
  note fl = free_line_True [OF free]
  have s8: "s < 8" using s l by simp
  from found_node [OF inv s8 j fl(3)] obtain n where n: "node_ok s n" "at_node b s j n" "parent_set (meta b) s n"
      "parent_region s n \<inter> live (meta b) = {}" by blast
  have cache: "cache_ok b" "tree_ok (meta b)" "others_used b s j"
    using inv by (auto simp: buddy_inv_def lines_used_def others_used_def)
  have bits: "\<forall>q. i \<le> q \<and> q < i + ?v \<longrightarrow> \<not> bit (meta b s n) q"
    using fl(4) meta_at [OF cache(1) s8 n(2)] by simp
  from alloc_take_ok [OF cache(1,2,3) n(1,2,3) fl(1) bits] take
  have b1: "t = parenttag_idx_to_tag (ntag s n) s i" "buddy_inv b1" "live (meta b1) = live (meta b) \<union> block s n i ?v"
      "block s n i ?v \<inter> live (meta b) = {}"
    using n(4) by auto
  from rest obtain t' where t': "alloc_load b1 ?l ?w [Suc s..<Suc ?l] t i = Inr (b', t')" "addr = tag_to_addr t'" and st: "stat = 0" by blast
  show "stat = 0" by (rule st)
  have i8: "i < 8" using fl(1) by (auto simp: width_ok_def)
  have "buddy_inv b' \<and> granted b b' order addr"
  proof (cases "s = ?l")
    case True
    with t' have eq: "b' = b1" "t' = t" by simp_all
    have "?l = 7 \<Longrightarrow> 4 dvd i" using lw fl(2) True by simp
    then have "unat addr = region_addr ?l n i"
      using alloc_addr [of ?l n i] lw n(1) i8 t'(2) eq b1(1) True by (simp add: node_ok_def)
    with b1 eq True fl(1,2) n(1) show ?thesis unfolding granted_def by auto
  next
    case False
    with s obtain d where d: "?l = Suc s + d" using less_iff_Suc_add [of s ?l] by auto
    have s6: "s \<le> 6" "n < 8 ^ s" using d l n(1) by (auto simp: node_ok_def)
    have child: "node_ok (Suc s) (child n i)" "t = ntag (Suc s) (child n i)" "pending (Suc s) (child n i) = (s, n, i)"
      using node_ok_child [OF n(1) _ i8] parenttag_ntag [OF s6 i8] pending_child [OF i8] b1(1) s6 by simp_all
    have live1: "live (meta b1) = insert (s, n, i) (live (meta b))" "(s, n, i) \<notin> live (meta b)"
      using b1(3,4) False block_1 by auto
    have "pending (Suc s) (child n i) \<in> live (meta b1)" using child(3) live1 by simp
    from alloc_load_ok [OF b1(2) child(1) _ this, of d ?w i] w l d obtain b2 m where
      b2: "alloc_load b1 ?l ?w [Suc s..<Suc ?l] t i = Inr (b2, parenttag_idx_to_tag (ntag ?l m) ?l 0)" "node_ok ?l m" "buddy_inv b2"
        "live (meta b2) = (live (meta b1) - {(s, n, i)}) \<union> block ?l m 0 ?w" "block ?l m 0 ?w \<inter> live (meta b1) = {}"
      unfolding child(2) child(3) d by auto
    have eq: "b' = b2" "t' = parenttag_idx_to_tag (ntag ?l m) ?l 0" using t'(1) b2(1) by auto
    have "unat addr = region_addr ?l m 0"
      using alloc_addr [of ?l m 0] lw b2(2) t'(2) eq(2) by (simp add: node_ok_def)
    moreover have "live (meta b') = live (meta b) \<union> block ?l m 0 ?w"
      unfolding eq(1) b2(4) live1(1) using live1(2) by auto
    moreover have "block ?l m 0 ?w \<inter> live (meta b) = {}" using b2(5) live1 by auto
    moreover have "width_ok ?w 0" using w by (auto simp: width_ok_def)
    ultimately show ?thesis using b2(2,3) eq(1) unfolding granted_def by auto
  qed
  then show "buddy_inv b'" and "granted b b' order addr" by auto
qed

section \<open>Free: the check\<close>

lemma put_free_line_simps [simp]:
  "the_line (put_free_line b k x) l j = the_line b l j" "buddy_dram (put_free_line b k x) = buddy_dram b"
  "buddy_set (put_free_line b k x) = buddy_set b" "buddy_managed_base (put_free_line b k x) = buddy_managed_base b"
  "meta (put_free_line b k x) = meta b" "line_at (put_free_line b k x) l j n = line_at b l j n"
  "at_node (put_free_line b k x) l j n = at_node b l j n"
  by (auto simp: put_free_line_def the_line_def meta_def line_at_def at_node_def fun_eq_iff split: prod.split bool.split)

lemma put_free_line_free:
  assumes "shape_ok b" and "k < 8"
  shows "shape_ok (put_free_line b k x)" and "bf_line (buddy_free_set (put_free_line b k x) ! k) = x"
    and "l \<noteq> k \<Longrightarrow> buddy_free_set (put_free_line b k x) ! l = buddy_free_set b ! l"
proof -
  have len: "length (buddy_free_set b) = 8" using assms by (simp add: shape_ok_def)
  have nth: "buddy_free_set (put_free_line b k x) ! l =
      (if l = k then (buddy_free_set b ! k)\<lparr>bf_line := x\<rparr> else buddy_free_set b ! l)" for l
    using len assms(2) by (simp add: put_free_line_def nth_list_update)
  have "length (buddy_free_set (put_free_line b k x)) = 8" using len by (simp add: put_free_line_def)
  with assms show "shape_ok (put_free_line b k x)" by (simp add: shape_ok_def nth)
  show "bf_line (buddy_free_set (put_free_line b k x) ! k) = x" "l \<noteq> k \<Longrightarrow> buddy_free_set (put_free_line b k x) ! l = buddy_free_set b ! l"
    by (simp_all add: nth)
qed

lemma put_free_line_inv:
  assumes "k < 8"
  shows "cache_ok b \<Longrightarrow> cache_ok (put_free_line b k x)" and "buddy_inv b \<Longrightarrow> buddy_inv (put_free_line b k x)"
  using put_free_line_free(1) [of b k x] assms
  by (auto simp: cache_ok_def lines_ok_def buddy_inv_def lines_used_def)

text \<open>What the check leaves for the second loop: the cache line of the node, or its copy in the free set.\<close>

definition hit_ok :: "buddy \<Rightarrow> nat \<Rightarrow> nat \<Rightarrow> nat option \<Rightarrow> bool" where
  "hit_ok b k n h \<longleftrightarrow>
     (case h of
        Some j \<Rightarrow> at_node b k j n
      | None \<Rightarrow> 0 < k \<and> (\<forall>j. \<not> line_at b k j n) \<and>
          bf_line (buddy_free_set b ! k) = \<lparr>bl_valid = True, bl_tag = ntag k n, bl_children = meta b k n\<rparr>)"

definition same_level :: "buddy \<Rightarrow> buddy \<Rightarrow> nat \<Rightarrow> bool" where
  "same_level b b' k \<longleftrightarrow> (\<forall>j. the_line b' k j = the_line b k j) \<and> buddy_free_set b' ! k = buddy_free_set b ! k \<and>
     (\<forall>n. node_ok k n \<longrightarrow> meta b' k n = meta b k n)"

lemma hit_ok_same_level: "same_level b b' k \<Longrightarrow> node_ok k n \<Longrightarrow> hit_ok b k n h \<Longrightarrow> hit_ok b' k n h"
  by (auto simp: hit_ok_def same_level_def at_node_def line_at_def split: option.splits)

lemma free_check_level_ok:
  assumes ok: "cache_ok b" and k: "k \<le> 7"
  shows "\<exists>b' h. free_check_level b a k w = Inr (b', (meta b k (addr_node a k) AND push_bit (addr_to_idx a k) (width_mask w) \<noteq> 0), h) \<and>
    hit_ok b' k (addr_node a k) h \<and> (\<exists>x. b' = b \<or> b' = put_free_line b k x)"
proof -
  let ?n = "addr_node a k"
  have n: "node_ok k ?n" using k addr_node_less [of a k] by (simp add: node_ok_def)
  have tag: "addr_to_tag a k = ntag k ?n" by (rule addr_to_tag_node [OF k])
  have k8: "k < 8" using k by simp
  have shape: "shape_ok b" using ok by (simp add: cache_ok_def)
  consider j where "tag_in_cache (buddy_set b ! k) (ntag k ?n) = (True, j)" "at_node b k j ?n"
    | j where "tag_in_cache (buddy_set b ! k) (ntag k ?n) = (False, j)" "0 < k" "\<forall>j. \<not> line_at b k j ?n"
  proof (cases "k = 0")
    case True
    then have "?n = 0" using n by (simp add: node_ok_def)
    moreover have "bl_valid (the_line b 0 0)" "bl_tag (the_line b 0 0) = 0" "bs_size (buddy_set b ! 0) = 1"
      using ok shape_okD(4) [OF shape, of 0] by (auto simp: cache_ok_def lines_ok_def)
    moreover from this have "tag_in_cache (buddy_set b ! 0) 0 = (True, 0)"
      using for_break_eqI [of 0 0 1 "\<lambda>i. bl_valid (bs_lines (buddy_set b ! 0) ! i) \<and> bl_tag (bs_lines (buddy_set b ! 0) ! i) = 0"]
      by (simp add: tag_in_cache_def the_line_def)
    ultimately show ?thesis using True that(1) [of 0] by (simp add: at_node_def ntag_def)
  next
    case False
    then have k0: "0 < k" by simp
    show ?thesis
    proof (cases "\<exists>j. line_at b k j ?n")
      case True
      then obtain j where "line_at b k j ?n" by blast
      with lookup_line [OF ok k0 k8] False that(1) show ?thesis by (simp add: at_node_def)
    next
      case none: False
      then have "fst (tag_in_cache (buddy_set b ! k) (ntag k ?n)) = False" using lookup_none [OF ok k0 k8] by blast
      with none k0 that(2) show ?thesis by (metis prod.collapse)
    qed
  qed
  then show ?thesis
  proof cases
    case (1 j)
    then have "bl_valid (the_line b k j)"
      using ok by (auto simp: at_node_def line_at_def cache_ok_def lines_ok_def split: if_splits)
    with 1 meta_at [OF ok k8 1(2)] tag show ?thesis
      by (auto simp: free_check_level_def test_valid_bits_def hit_ok_def)
  next
    case (2 j)
    let ?x = "\<lparr>bl_valid = True, bl_tag = ntag k ?n, bl_children = meta b k ?n\<rparr>"
    have m: "meta b k ?n = dram_read b (node_addr (buddy_managed_base b) k ?n)"
      using meta_dram [OF ok 2(2) k8] 2(3) by (simp add: dram_read_def)
    have "free_check_level b a k w = Inr (put_free_line b k ?x, test_valid_bits ?x w (addr_to_idx a k), None)"
      using 2 tag drambuddy_ntag [of k ?n "buddy_managed_base b"] k n m
      by (simp add: free_check_level_def Let_def node_ok_def)
    moreover have "hit_ok (put_free_line b k ?x) k ?n None"
      using 2 put_free_line_free(2) [OF shape k8] by (simp add: hit_ok_def)
    ultimately show ?thesis by (auto simp: test_valid_bits_def)
  qed
qed

lemma free_check_ok:
  assumes "cache_ok b" and "k \<le> 7"
    and "\<forall>m \<le> k. meta b m (addr_node a m) AND push_bit (addr_to_idx a m) (width_mask (if m = r then w else 1)) \<noteq> 0"
  shows "\<exists>b' hs'. free_check b a r w (rev [0..<Suc k]) hs = Inr (b', True, hs') \<and> (\<forall>m \<le> k. hit_ok b' m (addr_node a m) (hs' m)) \<and>
    (\<forall>m > k. hs' m = hs m \<and> buddy_free_set b' ! m = buddy_free_set b ! m) \<and> cache_ok b' \<and> meta b' = meta b \<and>
    (\<forall>l j. the_line b' l j = the_line b l j)"
  using assms
proof (induction k arbitrary: b hs)
  case 0
  from free_check_level_ok [OF 0(1), of 0 a "if 0 = r then w else 1"] obtain b1 h x where
    b1: "free_check_level b a 0 (if 0 = r then w else 1) = Inr (b1, True, h)" "hit_ok b1 0 (addr_node a 0) h" "b1 = b \<or> b1 = put_free_line b 0 x"
    using 0(3) by auto
  from 0(1) have "shape_ok b" by (simp add: cache_ok_def)
  then have "m > 0 \<Longrightarrow> buddy_free_set b1 ! m = buddy_free_set b ! m" for m using b1(3) put_free_line_free(3) [of b 0 m x] by auto
  moreover have "cache_ok b1" "meta b1 = meta b" "\<forall>l j. the_line b1 l j = the_line b l j"
    using b1(3) 0(1) put_free_line_inv(1) [of 0 b x] by auto
  ultimately show ?case using b1 by (intro exI [of _ b1] exI [of _ "hs(0 := h)"]) (simp add: fun_upd_def)
next
  case (Suc k)
  from free_check_level_ok [OF Suc.prems(1,2), of a "if Suc k = r then w else 1"] obtain b1 h x where
    b1: "free_check_level b a (Suc k) (if Suc k = r then w else 1) = Inr (b1, True, h)" "hit_ok b1 (Suc k) (addr_node a (Suc k)) h"
      "b1 = b \<or> b1 = put_free_line b (Suc k) x"
    using Suc.prems(3) by fastforce
  have k: "Suc k < 8" and shape: "shape_ok b" using Suc.prems(1,2) by (auto simp: cache_ok_def)
  have fs: "m > Suc k \<Longrightarrow> buddy_free_set b1 ! m = buddy_free_set b ! m" for m
    using b1(3) put_free_line_free(3) [OF shape k, of m x] by auto
  have same: "cache_ok b1" "meta b1 = meta b" "\<forall>l j. the_line b1 l j = the_line b l j"
    using b1(3) Suc.prems(1) put_free_line_inv(1) [OF k, of b x] by auto
  obtain b2 hs2 where b2: "free_check b1 a r w (rev [0..<Suc k]) (hs(Suc k := h)) = Inr (b2, True, hs2)"
      "\<forall>m \<le> k. hit_ok b2 m (addr_node a m) (hs2 m)" "\<forall>m > k. hs2 m = (hs(Suc k := h)) m \<and> buddy_free_set b2 ! m = buddy_free_set b1 ! m"
      "cache_ok b2" "meta b2 = meta b1" "\<forall>l j. the_line b2 l j = the_line b1 l j"
    using Suc.IH [OF same(1), of "hs(Suc k := h)"] Suc.prems(2,3) same(2) by fastforce
  have "same_level b1 b2 (Suc k)" using b2(3,5,6) by (simp add: same_level_def)
  moreover have "node_ok (Suc k) (addr_node a (Suc k))" using k addr_node_less [of a "Suc k"] by (simp add: node_ok_def)
  ultimately have "hit_ok b2 (Suc k) (addr_node a (Suc k)) (hs2 (Suc k))"
    using hit_ok_same_level b1(2) b2(3) by simp
  then have "\<forall>m \<le> Suc k. hit_ok b2 m (addr_node a m) (hs2 m)" using b2(2) le_Suc_eq by auto
  moreover have "rev [0..<Suc (Suc k)] = Suc k # rev [0..<Suc k]" by simp
  ultimately show ?case
    using b1(1) b2 fs same by (intro exI [of _ b2] exI [of _ hs2]) simp
qed

section \<open>Free: clearing the bits\<close>

lemma free_clear_level_ok:
  assumes inv: "buddy_inv b" and k: "k \<le> 7" and hit: "hit_ok b k (addr_node a k) h" and w: "width_ok w (addr_to_idx a k)"
    and blk: "block k (addr_node a k) (addr_to_idx a k) w \<subseteq> live (meta b)"
  shows "\<exists>b'. free_clear_level b a k w h = Inr (b', meta b' k (addr_node a k) = 0) \<and> buddy_inv b' \<and>
    live (meta b') = (live (meta b) - block k (addr_node a k) (addr_to_idx a k) w) \<union>
      (if meta b' k (addr_node a k) = 0 then parent_region k (addr_node a k) else {}) \<and>
    (\<forall>m. m \<noteq> k \<longrightarrow> m < 8 \<longrightarrow> same_level b b' m)"
proof -
  let ?n = "addr_node a k" and ?i = "addr_to_idx a k"
  let ?c = "meta b k ?n AND NOT (push_bit ?i (width_mask w))"
  have k8: "k < 8" and n: "node_ok k ?n" and n8: "?n < 8 ^ k" using k addr_node_less [of a k] by (simp_all add: node_ok_def)
  have ok: "cache_ok b" and used: "lines_used b" and T: "tree_ok (meta b)" using inv by (auto simp: buddy_inv_def)
  have shape: "shape_ok b" using ok by (simp add: cache_ok_def)
  note clear = clear_block [OF T n w blk]
  text \<open>It suffices to find the state with the new tree.\<close>
  have suff: ?thesis if fc: "free_clear_level b a k w h = Inr (b', ?c = 0)" and c: "cache_ok b'" and u: "lines_used b'"
    and m: "\<forall>l m. node_ok l m \<longrightarrow> meta b' l m = set_node (meta b) k ?n ?c l m"
    and s: "\<forall>m j. m \<noteq> k \<longrightarrow> the_line b' m j = the_line b m j" "\<forall>m. m \<noteq> k \<longrightarrow> buddy_free_set b' ! m = buddy_free_set b ! m" for b'
  proof -
    have mk: "meta b' k ?n = ?c" using m n by simp
    have "same_level b b' m" if "m \<noteq> k" "m < 8" for m
      using m s that by (auto simp: same_level_def)
    moreover have "tree_ok (meta b')" "live (meta b') = live (set_node (meta b) k ?n ?c)"
      using tree_cong [of "meta b'" "set_node (meta b) k ?n ?c"] m clear(1) by auto
    ultimately show ?thesis
      using fc c u clear(2) mk by (intro exI [of _ b']) (simp add: buddy_inv_def)
  qed
  show ?thesis
  proof (cases h)
    case (Some j)
    then have at: "at_node b k j ?n" using hit by (simp add: hit_ok_def)
    have ch: "bl_children (the_line b k j) = meta b k ?n" using meta_at [OF ok k8 at] by simp
    let ?x = "(the_line b k j)\<lparr>bl_children := ?c\<rparr>"
    let ?b1 = "put_line b k j ?x"
    have j: "j < 2" using at by (auto simp: at_node_def line_at_def split: if_splits)
    note put = put_children [OF ok k8 at [unfolded at_node_def] n8, of ?c]
    have line: "the_line ?b1 l q = (if l = k \<and> q = j then ?x else the_line b l q)" for l q
      by (rule the_line_put [OF shape k8 j])
    have lev: "bs_level (buddy_set ?b1 ! k) = k"
      using put(1) shape_okD(3) [of ?b1 k] k8 by (simp add: cache_ok_def)
    have sc: "set_clear_bits (the_line b k j) w ?i False = ?x"
      by (simp add: set_clear_bits_def Let_def ch)
    show ?thesis
    proof (cases "?c = 0 \<and> k > 0")
      case False
      have "free_clear_level b a k w h = Inr (?b1, ?c = 0)"
        using False lev unfolding free_clear_level_def Some option.case Let_def sc by auto
      moreover have "lines_used ?b1" using used False by (auto simp: lines_used_def line)
      ultimately show ?thesis using put(1,2) line by (intro suff [of ?b1]) auto
    next
      case True
      have at1: "line_at ?b1 k j ?n" using at True put(3) by (simp add: at_node_def)
      from flush_line_ok [OF put(1) _ k8 at1 n8] True obtain b2 where b2: "flush_line ?b1 k j = Inr b2" "cache_ok b2" "same_tree ?b1 b2"
          "\<forall>l i. the_line b2 l i = (if l = k \<and> i = j then empty_line else the_line ?b1 l i)" "buddy_free_set b2 = buddy_free_set ?b1"
        by auto
      have "free_clear_level b a k w h = Inr (b2, ?c = 0)"
      proof -
        have tag: "bl_tag ?x = ntag k ?n" using tag_at [OF ok at] by simp
        have dr: "tag_level_to_drambuddy (buddy_managed_base ?b1) (bl_tag ?x) k = Inr (node_addr (buddy_managed_base b) k ?n)"
          using drambuddy_ntag [of k ?n "buddy_managed_base b"] True k n8 tag by simp
        have x0: "?x\<lparr>bl_valid := False, bl_tag := 0\<rparr> = \<lparr>bl_valid = False, bl_tag = 0, bl_children = 0\<rparr>" using True by simp
        have "b2 = put_line (dram_write ?b1 (node_addr (buddy_managed_base b) k ?n) ?c) k j \<lparr>bl_valid = False, bl_tag = 0, bl_children = 0\<rparr>"
          using b2(1) dr lev by (simp add: flush_line_def line Let_def)
        moreover have "free_clear_level b a k w h =
            Inr (put_line (dram_write ?b1 (node_addr (buddy_managed_base b) k ?n) ?c) k j (?x\<lparr>bl_valid := False, bl_tag := 0\<rparr>), ?c = 0)"
          using True lev dr unfolding free_clear_level_def Some option.case Let_def sc by simp
        ultimately show ?thesis unfolding x0 by simp
      qed
      moreover have "lines_used b2" using used b2(4) line by (auto simp: lines_used_def empty_line_def)
      ultimately show ?thesis
        using b2(2,3,4,5) put(2) line by (intro suff [of b2]) (auto simp: same_tree_def)
    qed
  next
    case None
    then have k0: "0 < k" and none: "\<forall>j. \<not> line_at b k j ?n"
      and fl: "bf_line (buddy_free_set b ! k) = \<lparr>bl_valid = True, bl_tag = ntag k ?n, bl_children = meta b k ?n\<rparr>"
      using hit by (auto simp: hit_ok_def)
    let ?x = "\<lparr>bl_valid = True, bl_tag = ntag k ?n, bl_children = ?c\<rparr>"
    let ?b1 = "put_free_line b k ?x"
    let ?b2 = "dram_write ?b1 (node_addr (buddy_managed_base b) k ?n) ?c"
    let ?b3 = "put_free_line ?b2 k (?x\<lparr>bl_valid := False\<rparr>)"
    have sc: "set_clear_bits (bf_line (buddy_free_set b ! k)) w ?i False = ?x"
      by (simp add: set_clear_bits_def Let_def fl)
    have b1: "shape_ok ?b1" "cache_ok ?b1" using put_free_line_free(1) [OF shape k8] put_free_line_inv(1) [OF k8 ok] by simp_all
    have lev: "bf_level (buddy_free_set ?b1 ! k) = k" using shape_okD(7) [OF b1(1) k8] .
    have "free_clear_level b a k w h = Inr (?b3, ?c = 0)"
      using None lev drambuddy_ntag [of k ?n "buddy_managed_base b"] k0 k n8
      unfolding free_clear_level_def None option.case Let_def sc by simp
    moreover have ok3: "cache_ok ?b3" using put_free_line_inv(1) [OF k8, of ?b2] b1(2) by simp
    moreover have "meta ?b2 l m = set_node (meta b) k ?n ?c l m" if "node_ok l m" for l m
      using meta_dram_write [OF b1(2) k0 k8 n8 that, of ?c] none by (auto simp: set_node_def)
    then have "\<forall>l m. node_ok l m \<longrightarrow> meta ?b3 l m = set_node (meta b) k ?n ?c l m"
      using put_free_line_simps(5) [of ?b2 k "?x\<lparr>bl_valid := False\<rparr>"] by simp
    moreover have "lines_used ?b3" using used by (simp add: lines_used_def)
    moreover have "buddy_free_set ?b3 ! m = buddy_free_set b ! m" if "m \<noteq> k" for m
      using that put_free_line_free(3) [OF shape k8, of m ?x] put_free_line_free(3) [of ?b2 k m "?x\<lparr>bl_valid := False\<rparr>"] b1 k8 by simp
    ultimately show ?thesis by (intro suff [of ?b3]) simp_all
  qed
qed

lemma free_clear_ok:
  assumes "buddy_inv b" and "k \<le> 7" and "k \<le> r" and "\<forall>m \<le> k. hit_ok b m (addr_node a m) (hs m)"
    and "width_ok (if k = r then w else 1) (addr_to_idx a k)"
    and "block k (addr_node a k) (addr_to_idx a k) (if k = r then w else 1) \<subseteq> live (meta b)"
  shows "\<exists>b'. free_clear b a r w (rev [0..<Suc k]) hs = Inr b' \<and> buddy_inv b' \<and>
    live (meta b') = live (meta b) - block k (addr_node a k) (addr_to_idx a k) (if k = r then w else 1)"
  using assms
proof (induction k arbitrary: b)
  case 0
  from free_clear_level_ok [OF 0(1,2) _ 0(5,6), of "hs 0"] 0(4) obtain b1 where
    "free_clear_level b a 0 (if 0 = r then w else 1) (hs 0) = Inr (b1, meta b1 0 (addr_node a 0) = 0)" "buddy_inv b1"
    "live (meta b1) = live (meta b) - block 0 (addr_node a 0) (addr_to_idx a 0) (if 0 = r then w else 1)"
    by (auto simp: parent_region_def)
  then show ?case by auto
next
  case (Suc k)
  let ?n = "addr_node a (Suc k)" and ?w = "if Suc k = r then w else 1"
  let ?blk = "block (Suc k) ?n (addr_to_idx a (Suc k)) ?w"
  have hit: "hit_ok b (Suc k) ?n (hs (Suc k))" using Suc.prems(4) by blast
  from free_clear_level_ok [OF Suc.prems(1,2) hit Suc.prems(5,6)] obtain b1 where
    b1: "free_clear_level b a (Suc k) ?w (hs (Suc k)) = Inr (b1, meta b1 (Suc k) ?n = 0)" "buddy_inv b1"
      "live (meta b1) = (live (meta b) - ?blk) \<union> (if meta b1 (Suc k) ?n = 0 then parent_region (Suc k) ?n else {})"
      "\<forall>m. m \<noteq> Suc k \<longrightarrow> m < 8 \<longrightarrow> same_level b b1 m" by blast
  have levels: "rev [0..<Suc (Suc k)] = Suc k # rev [0..<Suc k]" by simp
  show ?case
  proof (cases "meta b1 (Suc k) ?n = 0")
    case False
    with b1 show ?thesis unfolding levels by auto
  next
    case True
    have k: "k \<le> 7" "k \<noteq> r" "k \<le> r" using Suc.prems(2,3) by auto
    have par: "parent_region (Suc k) ?n = block k (addr_node a k) (addr_to_idx a k) 1"
      using addr_node_Suc [OF k(1), of a] addr_to_idx_less [of a k] unfolding block_1 by (simp add: parent_region_def)
    have hits: "\<forall>m \<le> k. hit_ok b1 m (addr_node a m) (hs m)"
    proof (intro allI impI)
      fix m assume m: "m \<le> k"
      then have "same_level b b1 m" "node_ok m (addr_node a m)"
        using b1(4) Suc.prems(2) addr_node_less [of a m] by (auto simp: node_ok_def)
      then show "hit_ok b1 m (addr_node a m) (hs m)"
        using Suc.prems(4) m hit_ok_same_level by auto
    qed
    have wok: "width_ok (if k = r then w else 1) (addr_to_idx a k)"
      using k addr_to_idx_less [of a k] by (simp add: width_ok_def)
    have blk: "block k (addr_node a k) (addr_to_idx a k) (if k = r then w else 1) \<subseteq> live (meta b1)"
      using k b1(3) True par by simp
    from Suc.IH [OF b1(2) k(1,3) hits wok blk] obtain b2 where
      b2: "free_clear b1 a r w (rev [0..<Suc k]) hs = Inr b2" "buddy_inv b2" "live (meta b2) = live (meta b1) - parent_region (Suc k) ?n"
      using k par by auto
    have "?blk \<noteq> {}" using Suc.prems(5) by (auto simp: block_def width_ok_def)
    then have "meta b (Suc k) ?n \<noteq> 0" using Suc.prems(6) by (auto simp: block_def live_def)
    then have "parent_region (Suc k) ?n \<inter> live (meta b) = {}"
      using Suc.prems(2) child_eq [of ?n] by (auto simp: parent_region_def live_def)
    with b2 b1 True show ?thesis unfolding levels by auto
  qed
qed

text \<open>The path of a live block: every ancestor has its bit set, so the check succeeds.\<close>

lemma live_path:
  assumes T: "tree_ok T" and l: "l \<le> 7" and blk: "(l, addr_node a l, addr_to_idx a l) \<in> live T" and m: "m \<le> l"
  shows "bit (T m (addr_node a m)) (addr_to_idx a m)"
  using m
proof (induction rule: inc_induct)
  case base
  then show ?case using blk by (simp add: live_def)
next
  case (step m)
  then have "T (Suc m) (addr_node a (Suc m)) \<noteq> 0" by auto
  moreover have "node_ok (Suc m) (addr_node a (Suc m))"
    using step.hyps l addr_node_less [of a "Suc m"] by (simp add: node_ok_def)
  ultimately have "bit (T m (addr_node a (Suc m) div 8)) (addr_node a (Suc m) mod 8)"
    using tree_okD [OF T] by blast
  then show ?case
    using addr_node_Suc [of m a] addr_to_idx_less [of a m] step.hyps l by simp
qed

lemma addr_node_region:
  assumes "l \<le> 7" and "n < 8 ^ l" and "i < 8" and "unat a = region_addr l n i"
  shows "addr_node a l = n" and "addr_to_idx a l = i"
proof -
  have "30 - 3 * Suc l = 27 - 3 * l" by simp
  then have "addr_node a (Suc l) = child n i mod 8 ^ Suc l"
    using assms(4) by (simp add: addr_node_def region_addr_def)
  then have "child (addr_node a l) (addr_to_idx a l) = child n i"
    using addr_node_Suc [OF assms(1), of a] child_less [OF assms(2,3)] by simp
  with child_inj [of "addr_to_idx a l" i] addr_to_idx_less [of a l] assms(3)
  show "addr_node a l = n" and "addr_to_idx a l = i" by auto
qed

lemma free_ok:
  fixes order :: "22 word"
  assumes inv: "buddy_inv b" and order: "unat order < 21" and n: "node_ok (order_to_level order) n"
    and w: "width_ok (order_to_width order) i" and a: "unat a = region_addr (order_to_level order) n i"
    and blk: "block (order_to_level order) n i (order_to_width order) \<subseteq> live (meta b)"
  shows "\<exists>b'. free b order a = Inr (b', 0) \<and> buddy_inv b' \<and>
    live (meta b') = live (meta b) - block (order_to_level order) n i (order_to_width order)"
proof -
  let ?l = "order_to_level order" and ?w = "order_to_width order"
  have l: "?l \<le> 7" using order_level [OF order] by simp
  have i8: "i < 8" using w by (auto simp: width_ok_def)
  have ni: "addr_node a ?l = n" "addr_to_idx a ?l = i"
    using addr_node_region [OF l _ i8 a] n by (simp_all add: node_ok_def)
  have T: "tree_ok (meta b)" using inv by (simp add: buddy_inv_def)
  have "(?l, n, i) \<in> live (meta b)" using blk w by (auto simp: block_def width_ok_def)
  then have path: "bit (meta b m (addr_node a m)) (addr_to_idx a m)" if "m \<le> ?l" for m
    using live_path [OF T l _ that, of a] ni by simp
  have "meta b m (addr_node a m) AND push_bit (addr_to_idx a m) (width_mask (if m = ?l then ?w else 1)) \<noteq> 0" if m: "m \<le> ?l" for m
  proof -
    have "width_ok (if m = ?l then ?w else 1) (addr_to_idx a m)"
      using w ni addr_to_idx_less [of a m] by (auto simp: width_ok_def)
    then have "bit (push_bit (addr_to_idx a m) (width_mask (if m = ?l then ?w else 1))) (addr_to_idx a m)"
      using bit_width_mask by (auto simp: width_ok_def)
    with path [OF m] have "bit (meta b m (addr_node a m) AND push_bit (addr_to_idx a m) (width_mask (if m = ?l then ?w else 1))) (addr_to_idx a m)"
      by (simp add: bit_and_iff)
    then show ?thesis by force
  qed
  moreover have "cache_ok b" using inv by (simp add: buddy_inv_def)
  ultimately obtain b1 hs where b1: "free_check b a ?l ?w (rev [0..<Suc ?l]) (\<lambda>_. None) = Inr (b1, True, hs)"
      "\<forall>m \<le> ?l. hit_ok b1 m (addr_node a m) (hs m)" "cache_ok b1" "meta b1 = meta b" "\<forall>l j. the_line b1 l j = the_line b l j"
    using free_check_ok [of b ?l a ?l ?w "\<lambda>_. None"] l by blast
  have inv1: "buddy_inv b1" using inv b1(3,4,5) by (simp add: buddy_inv_def lines_used_def)
  have "\<exists>b2. free_clear b1 a ?l ?w (rev [0..<Suc ?l]) hs = Inr b2 \<and> buddy_inv b2 \<and>
      live (meta b2) = live (meta b1) - block ?l (addr_node a ?l) (addr_to_idx a ?l) (if ?l = ?l then ?w else 1)"
    using w ni blk b1(4) by (intro free_clear_ok [OF inv1 l order_refl b1(2)]) simp_all
  then obtain b2 where
    "free_clear b1 a ?l ?w (rev [0..<Suc ?l]) hs = Inr b2" "buddy_inv b2" "live (meta b2) = live (meta b) - block ?l n i ?w"
    unfolding ni b1(4) by auto
  with b1(1) order show ?thesis by (simp add: free_def Let_def)
qed

end
