(* ===== verification/Buddy_Props.thy ===== *)
theory Buddy_Props
  imports Buddy_Alloc
begin

unbundle bit_operations_syntax

text \<open>
  The contract of a block allocator as an interface, what a client may conclude from it, and the
  buddy allocator as its implementation.
\<close>

section \<open>Byte ranges\<close>

definition blk_range :: "22 word \<Rightarrow> nat \<Rightarrow> nat set" where
  "blk_range order a = {a..<a + 2 ^ (unat order + 8)}"

text \<open>The client holds the block at \<open>a\<close>: its regions are live.\<close>

definition holds :: "buddy \<Rightarrow> 22 word \<Rightarrow> nat \<Rightarrow> bool" where
  "holds b order a \<longleftrightarrow> unat order < 21 \<and>
     (\<exists>n i. node_ok (order_to_level order) n \<and> width_ok (order_to_width order) i \<and> order_to_width order dvd i \<and>
        a = region_addr (order_to_level order) n i \<and> block (order_to_level order) n i (order_to_width order) \<subseteq> live (meta b))"

lemma block_bytes: "(\<Union>r \<in> block l n i w. region_bytes r) = {region_addr l n i..<region_addr l n i + w * region_size l}"
proof (induction w)
  case 0
  then show ?case by (simp add: block_def)
next
  case (Suc w)
  have "block l n i (Suc w) = insert (l, n, i + w) (block l n i w)"
    by (auto simp: block_def)
  moreover have "region_addr l n (i + w) = region_addr l n i + w * region_size l"
    by (simp add: region_addr_def region_size_def child_def algebra_simps)
  moreover have "{a..<a + w * z} \<union> {a + w * z..<a + w * z + z} = {a..<a + Suc w * z}" for a z :: nat
    by auto
  ultimately show ?case using Suc.IH by (simp add: Un_commute)
qed

lemma block_range:
  "unat order < 21 \<Longrightarrow> (\<Union>r \<in> block (order_to_level order) n i (order_to_width order). region_bytes r) =
     blk_range order (region_addr (order_to_level order) n i)"
  by (simp add: block_bytes blk_range_def order_size)

lemma region_bytes_nonempty: "region_bytes r \<noteq> {}"
  by (cases r) (simp add: region_size_def)

lemma granted_holds: "unat order < 21 \<Longrightarrow> granted b b' order addr \<Longrightarrow> holds b' order (unat addr)"
  unfolding granted_def holds_def by blast

lemma holds_mono: "live (meta b) \<subseteq> live (meta b') \<Longrightarrow> holds b order a \<Longrightarrow> holds b' order a"
  unfolding holds_def by blast

text \<open>A block just granted does not touch a block held before.\<close>

lemma granted_disjoint:
  assumes inv: "tree_ok (meta b')" and o: "unat order < 21" and new: "granted b b' order addr" and old: "holds b order' a'"
  shows "blk_range order' a' \<inter> blk_range order (unat addr) = {}"
proof -
  from new obtain n i where addr: "unat addr = region_addr (order_to_level order) n i"
    and live: "live (meta b') = live (meta b) \<union> block (order_to_level order) n i (order_to_width order)"
    and fresh: "block (order_to_level order) n i (order_to_width order) \<inter> live (meta b) = {}"
    by (auto simp: granted_def)
  from old obtain m j where o': "unat order' < 21" and a': "a' = region_addr (order_to_level order') m j"
    and sub: "block (order_to_level order') m j (order_to_width order') \<subseteq> live (meta b)"
    by (auto simp: holds_def)
  have "region_bytes r \<inter> region_bytes r' = {}"
    if "r \<in> block (order_to_level order') m j (order_to_width order')" "r' \<in> block (order_to_level order) n i (order_to_width order)" for r r'
    using that sub live fresh by (intro live_disjoint [OF inv]) auto
  then show ?thesis
    unfolding addr a' block_range [OF o, symmetric] block_range [OF o', symmetric] by blast
qed

section \<open>The interface\<close>

locale block_allocator =
  fixes alloc_op :: "'s \<Rightarrow> 'q \<Rightarrow> ('s \<times> nat) option" and free_op :: "'s \<Rightarrow> 'q \<Rightarrow> nat \<Rightarrow> 's option"
    and inv :: "'s \<Rightarrow> bool" and held :: "'s \<Rightarrow> 'q \<Rightarrow> nat \<Rightarrow> bool" and range_of :: "'q \<Rightarrow> nat \<Rightarrow> nat set"
  assumes alloc_law: "inv s \<Longrightarrow> alloc_op s q = Some (s', a) \<Longrightarrow> inv s' \<and> held s' q a"
    and alloc_keeps: "inv s \<Longrightarrow> alloc_op s q = Some (s', a) \<Longrightarrow> held s q' a' \<Longrightarrow> held s' q' a' \<and> range_of q' a' \<inter> range_of q a = {}"
    and free_law: "inv s \<Longrightarrow> held s q a \<Longrightarrow> \<exists>s'. free_op s q a = Some s' \<and> inv s'"
    and free_keeps: "inv s \<Longrightarrow> held s q a \<Longrightarrow> free_op s q a = Some s' \<Longrightarrow> held s q' a' \<Longrightarrow> range_of q' a' \<inter> range_of q a = {} \<Longrightarrow> held s' q' a'"

text \<open>A client that allocates, and releases blocks it holds; \<open>None\<close> is an allocation that failed or a
  release that the allocator refused.\<close>

datatype 'q client_op = Acquire 'q | Release nat

fun client_step ::
  "('s \<Rightarrow> 'q \<Rightarrow> ('s \<times> nat) option) \<Rightarrow> ('s \<Rightarrow> 'q \<Rightarrow> nat \<Rightarrow> 's option) \<Rightarrow> 'q client_op \<Rightarrow> 's \<times> ('q \<times> nat) list \<Rightarrow> ('s \<times> ('q \<times> nat) list) option" where
  "client_step alloc_op free_op (Acquire q) (s, hs) = map_option (\<lambda>(s', a). (s', hs @ [(q, a)])) (alloc_op s q)"
| "client_step alloc_op free_op (Release k) (s, hs) =
     (if k < length hs
      then map_option (\<lambda>s'. (s', take k hs @ drop (Suc k) hs)) (free_op s (fst (hs ! k)) (snd (hs ! k)))
      else Some (s, hs))"

fun client_run ::
  "('s \<Rightarrow> 'q \<Rightarrow> ('s \<times> nat) option) \<Rightarrow> ('s \<Rightarrow> 'q \<Rightarrow> nat \<Rightarrow> 's option) \<Rightarrow> 'q client_op list \<Rightarrow> 's \<times> ('q \<times> nat) list \<Rightarrow> ('s \<times> ('q \<times> nat) list) option" where
  "client_run alloc_op free_op [] y = Some y"
| "client_run alloc_op free_op (x # xs) y =
     (case client_step alloc_op free_op x y of None \<Rightarrow> None | Some y' \<Rightarrow> client_run alloc_op free_op xs y')"

text \<open>The blocks a client holds do not overlap.\<close>

definition disjoint_blocks :: "('q \<Rightarrow> nat \<Rightarrow> nat set) \<Rightarrow> ('q \<times> nat) list \<Rightarrow> bool" where
  "disjoint_blocks range_of hs \<longleftrightarrow>
     (\<forall>i < length hs. \<forall>j < length hs. i \<noteq> j \<longrightarrow> range_of (fst (hs ! i)) (snd (hs ! i)) \<inter> range_of (fst (hs ! j)) (snd (hs ! j)) = {})"

lemma disjoint_blocks_pairwise:
  "disjoint_blocks range_of hs \<longleftrightarrow> sorted_wrt (\<lambda>x y. range_of (fst x) (snd x) \<inter> range_of (fst y) (snd y) = {}) hs"
proof
  show "disjoint_blocks range_of hs \<Longrightarrow> sorted_wrt (\<lambda>x y. range_of (fst x) (snd x) \<inter> range_of (fst y) (snd y) = {}) hs"
    by (auto simp: disjoint_blocks_def sorted_wrt_iff_nth_less)
  assume s: "sorted_wrt (\<lambda>x y. range_of (fst x) (snd x) \<inter> range_of (fst y) (snd y) = {}) hs"
  show "disjoint_blocks range_of hs"
    unfolding disjoint_blocks_def
  proof (intro allI impI)
    fix i j assume "i < length hs" "j < length hs" "i \<noteq> j"
    then show "range_of (fst (hs ! i)) (snd (hs ! i)) \<inter> range_of (fst (hs ! j)) (snd (hs ! j)) = {}"
      using s by (cases i j rule: linorder_cases) (auto simp: sorted_wrt_iff_nth_less Int_commute)
  qed
qed

context block_allocator
begin

definition client_ok :: "'s \<times> ('q \<times> nat) list \<Rightarrow> bool" where
  "client_ok y \<longleftrightarrow> inv (fst y) \<and> (\<forall>(q, a) \<in> set (snd y). held (fst y) q a) \<and> disjoint_blocks range_of (snd y)"

lemma client_step_ok:
  assumes "client_ok y"
  shows "client_step alloc_op free_op x y = Some y' \<Longrightarrow> client_ok y'" and "client_step alloc_op free_op (Release k) y \<noteq> None"
proof -
  obtain s hs where y: "y = (s, hs)" by fastforce
  have inv: "inv s" and held: "\<And>q a. (q, a) \<in> set hs \<Longrightarrow> held s q a"
    and disj: "sorted_wrt (\<lambda>x y. range_of (fst x) (snd x) \<inter> range_of (fst y) (snd y) = {}) hs"
    using assms by (auto simp: client_ok_def y disjoint_blocks_pairwise)
  show "client_step alloc_op free_op (Release k) y \<noteq> None"
    using free_law [OF inv held] by (auto simp: y) (metis nth_mem option.distinct(1) prod.collapse)
  assume step: "client_step alloc_op free_op x y = Some y'"
  show "client_ok y'"
  proof (cases x)
    case (Acquire q)
    then obtain s' a where al: "alloc_op s q = Some (s', a)" and y': "y' = (s', hs @ [(q, a)])"
      using step by (auto simp: y)
    note keeps = alloc_keeps [OF inv al held]
    from alloc_law [OF inv al] keeps disj show ?thesis
      by (auto simp: client_ok_def y' disjoint_blocks_pairwise sorted_wrt_append)
  next
    case (Release k)
    show ?thesis
    proof (cases "k < length hs")
      case False
      with step Release assms show ?thesis by (simp add: y)
    next
      case True
      let ?q = "fst (hs ! k)" and ?a = "snd (hs ! k)"
      have k: "held s ?q ?a" using held [of ?q ?a] True by simp
      from step Release True obtain s' where fr: "free_op s ?q ?a = Some s'" and y': "y' = (s', take k hs @ drop (Suc k) hs)"
        by (auto simp: y)
      have split: "hs = take k hs @ hs ! k # drop (Suc k) hs" using id_take_nth_drop [OF True] .
      have rest: "held s' q a" if "(q, a) \<in> set (take k hs @ drop (Suc k) hs)" for q a
      proof -
        have "(q, a) \<in> set hs" using that by (auto dest: in_set_takeD in_set_dropD)
        moreover have "\<forall>x \<in> set (take k hs @ drop (Suc k) hs). range_of (fst x) (snd x) \<inter> range_of ?q ?a = {}"
          using disj by (subst (asm) split) (auto simp: sorted_wrt_append Int_commute)
        then have "range_of q a \<inter> range_of ?q ?a = {}" using that by fastforce
        ultimately show ?thesis using free_keeps [OF inv k fr held] by blast
      qed
      moreover have "sorted_wrt (\<lambda>x y. range_of (fst x) (snd x) \<inter> range_of (fst y) (snd y) = {}) (take k hs @ drop (Suc k) hs)"
        using disj by (subst (asm) split) (auto simp: sorted_wrt_append)
      moreover have "inv s'" using free_law [OF inv k] fr by auto
      ultimately show ?thesis by (auto simp: client_ok_def y' disjoint_blocks_pairwise)
    qed
  qed
qed

lemma client_run_ok: "client_ok y \<Longrightarrow> client_run alloc_op free_op xs y = Some y' \<Longrightarrow> client_ok y'"
proof (induction xs arbitrary: y)
  case (Cons x xs)
  then show ?case using client_step_ok(1) [of y x] by (auto split: option.splits)
qed simp

end

section \<open>The buddy allocator implements it\<close>

definition buddy_alloc_op :: "buddy \<Rightarrow> 22 word \<Rightarrow> (buddy \<times> nat) option" where
  "buddy_alloc_op b order =
     (case alloc b order of Inl f \<Rightarrow> None | Inr (b', stat, addr) \<Rightarrow> if stat = 0 then Some (b', unat addr) else None)"

definition buddy_free_op :: "buddy \<Rightarrow> 22 word \<Rightarrow> nat \<Rightarrow> buddy option" where
  "buddy_free_op b order a =
     (case free b order (of_nat a) of Inl f \<Rightarrow> None | Inr (b', stat) \<Rightarrow> if stat = 0 then Some b' else None)"

lemma buddy_alloc_opD:
  assumes "buddy_inv b" and "buddy_alloc_op b order = Some (b', a)"
  shows "unat order < 21 \<and> (\<exists>addr. a = unat addr \<and> buddy_inv b' \<and> granted b b' order addr)"
proof -
  from assms(2) obtain addr where al: "alloc b order = Inr (b', 0, addr)" "a = unat addr"
    by (auto simp: buddy_alloc_op_def split: sum.splits prod.splits if_splits)
  moreover from al have "unat order < 21" by (auto simp: alloc_def split: if_splits)
  ultimately show ?thesis using alloc_ok [OF assms(1)] by blast
qed

lemma region_addr_less: "node_ok l n \<Longrightarrow> i < 8 \<Longrightarrow> region_addr l n i < 2 ^ 30"
proof -
  assume n: "node_ok l n" and i: "i < 8"
  have "child n i < 8 ^ Suc l" using n i child_less by (auto simp: node_ok_def)
  then have "region_addr l n i < 8 ^ Suc l * 2 ^ (27 - 3 * l)" unfolding region_addr_def by simp
  also have "(8 :: nat) ^ Suc l * 2 ^ (27 - 3 * l) = 2 ^ (3 * Suc l + (27 - 3 * l))" by (simp add: power_add power_mult)
  also have "3 * Suc l + (27 - 3 * l) = 30" using n by (simp add: node_ok_def)
  finally show ?thesis .
qed

lemma holds_free:
  assumes inv: "buddy_inv b" and h: "holds b order a"
  shows "\<exists>b' n i. buddy_free_op b order a = Some b' \<and> buddy_inv b' \<and> a = region_addr (order_to_level order) n i \<and>
    live (meta b') = live (meta b) - block (order_to_level order) n i (order_to_width order)"
proof -
  from h obtain n i where o: "unat order < 21" and n: "node_ok (order_to_level order) n" and w: "width_ok (order_to_width order) i"
    and a: "a = region_addr (order_to_level order) n i" and blk: "block (order_to_level order) n i (order_to_width order) \<subseteq> live (meta b)"
    unfolding holds_def by blast
  have "a < 2 ^ 32" using region_addr_less [OF n, of i] w a by (auto simp: width_ok_def)
  then have "unat (of_nat a :: 32 word) = region_addr (order_to_level order) n i"
    unfolding a by (simp add: unat_of_nat take_bit_nat_eq_self)
  from free_ok [OF inv o n w this blk] obtain b' where "buddy_free_op b order a = Some b'" "buddy_inv b'"
      "live (meta b') = live (meta b) - block (order_to_level order) n i (order_to_width order)"
    by (auto simp: buddy_free_op_def)
  with a show ?thesis by blast
qed

interpretation buddy_ba: block_allocator buddy_alloc_op buddy_free_op buddy_inv holds blk_range
proof
  fix b q b' a assume inv: "buddy_inv b" and al: "buddy_alloc_op b q = Some (b', a)"
  from buddy_alloc_opD [OF inv al] obtain addr where o: "unat q < 21" and a: "a = unat addr" and inv': "buddy_inv b'" and g: "granted b b' q addr"
    by blast
  show "buddy_inv b' \<and> holds b' q a" using inv' granted_holds [OF o g] a by simp
  fix q' a' assume h: "holds b q' a'"
  have "live (meta b) \<subseteq> live (meta b')" using g by (auto simp: granted_def)
  then show "holds b' q' a' \<and> blk_range q' a' \<inter> blk_range q a = {}"
    using holds_mono h granted_disjoint [OF _ o g h] inv' a by (simp add: buddy_inv_def)
next
  fix b q a assume "buddy_inv b" "holds b q a"
  from holds_free [OF this] show "\<exists>b'. buddy_free_op b q a = Some b' \<and> buddy_inv b'" by blast
next
  fix b q a b' q' a'
  assume inv: "buddy_inv b" and h: "holds b q a" and fr: "buddy_free_op b q a = Some b'" and h': "holds b q' a'"
    and dis: "blk_range q' a' \<inter> blk_range q a = {}"
  from holds_free [OF inv h] fr obtain n i where a: "a = region_addr (order_to_level q) n i"
    and live: "live (meta b') = live (meta b) - block (order_to_level q) n i (order_to_width q)" by auto
  have o: "unat q < 21" using h by (simp add: holds_def)
  from h' obtain m j where o': "unat q' < 21" and m: "node_ok (order_to_level q') m" "width_ok (order_to_width q') j" "order_to_width q' dvd j"
    and a': "a' = region_addr (order_to_level q') m j" and blk: "block (order_to_level q') m j (order_to_width q') \<subseteq> live (meta b)"
    unfolding holds_def by blast
  have "block (order_to_level q') m j (order_to_width q') \<inter> block (order_to_level q) n i (order_to_width q) = {}"
    using dis region_bytes_nonempty unfolding a a' block_range [OF o, symmetric] block_range [OF o', symmetric] by blast
  with blk live have "block (order_to_level q') m j (order_to_width q') \<subseteq> live (meta b')" by auto
  with o' m a' show "holds b' q' a'" unfolding holds_def by blast
qed

section \<open>The start-up state\<close>

definition zeroed :: "64 word \<Rightarrow> (64 word \<Rightarrow> 8 word) \<Rightarrow> bool" where
  "zeroed base dram \<longleftrightarrow> (\<forall>k < BUDDY_META_SIZE. dram (base + of_nat k) = 0)"

lemma metadata_order_14: "metadata_order = 14"
proof -
  let ?r = "unat (log2 (9361 :: 32 word))"
  have b: "2 ^ ?r \<le> (9361 :: nat)" "(9361 :: nat) < 2 ^ Suc ?r"
    using log2_bounds(1,2) [where m = 4 and w = "9361 :: 32 word"] by simp_all
  have "\<not> 14 \<le> ?r" using b(1) power_increasing [of 14 ?r "2 :: nat"] by auto
  moreover have "\<not> ?r \<le> 12" using b(2) power_increasing [of "Suc ?r" 13 "2 :: nat"] by auto
  ultimately have "?r = unat (13 :: 32 word)" by simp
  then have "log2 (9361 :: 32 word) = 13" unfolding word_unat_eq_iff .
  moreover have "drop_bit 8 (of_nat 2396745 :: 32 word) = 9362" by (simp add: drop_bit_eq_div)
  ultimately show ?thesis by (simp add: metadata_order_def order_base_2_def)
qed

lemma init_line_simps: "init_line 0 = \<lparr>bl_valid = True, bl_tag = 0, bl_children = 1\<rparr>"
  "init_line (Suc 0) = \<lparr>bl_valid = True, bl_tag = 0, bl_children = 1\<rparr>" "init_line 2 = \<lparr>bl_valid = True, bl_tag = 0, bl_children = 3\<rparr>"
  "2 < l \<Longrightarrow> init_line l = empty_line"
proof -
  have "order_to_level (ucast metadata_order) = 2" "order_to_width (ucast metadata_order) = 2"
    unfolding metadata_order_14 by (simp_all add: order_to_level_def order_to_width_def)
  then show "init_line 0 = \<lparr>bl_valid = True, bl_tag = 0, bl_children = 1\<rparr>"
    "init_line (Suc 0) = \<lparr>bl_valid = True, bl_tag = 0, bl_children = 1\<rparr>" "init_line 2 = \<lparr>bl_valid = True, bl_tag = 0, bl_children = 3\<rparr>"
    "2 < l \<Longrightarrow> init_line l = empty_line"
    by (simp_all add: init_line_def set_clear_bits_def empty_line_def width_mask_def)
qed

lemma init_the_line:
  "l < 8 \<Longrightarrow> j < 2 \<Longrightarrow> the_line (Buddy_init base dram) l j = (if j = 0 then init_line l else empty_line)"
  by (auto simp: the_line_def Buddy_init_def init_set_def less_2_cases' nth_Cons')

lemma init_shape: "shape_ok (Buddy_init base dram)"
proof -
  have "min (2 ^ (3 * l)) 2 = (if l = 0 then 1 else (2 :: nat))" for l
  proof (cases l)
    case (Suc k)
    have "2 \<le> (2 :: nat) ^ (3 * Suc k)" using power_increasing [of 1 "3 * Suc k" "2 :: nat"] by simp
    then show ?thesis using Suc by (simp add: min_def)
  qed simp
  then show ?thesis by (simp add: shape_ok_def Buddy_init_def init_set_def)
qed

lemma init_cases: "l < 8 \<Longrightarrow> l = 0 \<or> l = 1 \<or> l = 2 \<or> 2 < l" for l :: nat
  by linarith

lemma init_line_at:
  assumes "0 < l" "l < 8" "n < 8 ^ l"
  shows "line_at (Buddy_init base dram) l j n \<longleftrightarrow> j = 0 \<and> l \<le> 2 \<and> n = 0"
proof -
  have "ntag l n = 0 \<longleftrightarrow> n = 0"
    using ntag_inj [of n l 0] assms by (auto simp: ntag_def)
  then show ?thesis
    using assms init_cases [OF assms(2)] init_the_line [OF assms(2), of j base dram] init_line_simps(4) [of l]
    by (cases "j < 2") (auto simp: line_at_def init_line_simps empty_line_def less_2_cases')
qed

lemma init_cache_ok: "cache_ok (Buddy_init base dram)"
proof -
  have "\<exists>n < 8 ^ l. bl_tag (the_line (Buddy_init base dram) l j) = ntag l n"
    if "0 < l" "l < 8" "j < 2" "bl_valid (the_line (Buddy_init base dram) l j)" for l j
    using that init_cases [OF that(2)] init_the_line [OF that(2,3), of base dram] init_line_simps(4) [of l]
    by (intro exI [of _ 0]) (auto simp: init_line_simps empty_line_def ntag_def split: if_splits)
  moreover have "\<not> line_at (Buddy_init base dram) l 1 n" if "l < 8" for l n
    using init_the_line [OF that, of 1 base dram] by (simp add: line_at_def empty_line_def)
  ultimately show ?thesis
    using init_shape init_the_line [of 0 0 base dram] by (simp add: cache_ok_def lines_ok_def init_line_simps)
qed

lemma init_meta:
  assumes z: "zeroed base dram" and n: "node_ok l n"
  shows "meta (Buddy_init base dram) l n = (if n = 0 then (if l \<le> 1 then 1 else if l = 2 then 3 else 0) else 0)"
proof (cases "l = 0")
  case True
  with n show ?thesis by (simp add: meta_def init_the_line init_line_simps node_ok_def)
next
  case False
  then have l: "0 < l" "l < 8" and n8: "n < 8 ^ l" using n by (auto simp: node_ok_def)
  note at = init_line_at [OF l n8, of base dram]
  show ?thesis
  proof (cases "l \<le> 2 \<and> n = 0")
    case True
    then have "line_at (Buddy_init base dram) l 0 n" using at by simp
    from meta_line [OF init_cache_ok l this] show ?thesis
      using True l init_cases [OF l(2)] init_the_line [OF l(2), of 0 base dram] by (auto simp: init_line_simps)
  next
    case no: False
    have "dram (node_addr base l n) = 0"
      using z node_off_less [of l n] l n8 by (simp add: zeroed_def node_addr_def)
    with meta_dram [OF init_cache_ok [of base dram] l, of n] at no show ?thesis
      by (auto simp: Buddy_init_def)
  qed
qed

lemma bit_1_3: "bit (1 :: 8 word) i \<longleftrightarrow> i = 0" "bit (3 :: 8 word) i \<longleftrightarrow> i < 2"
proof -
  have "bit (mask 2 :: 8 word) i \<longleftrightarrow> i < 2" by (auto simp: bit_simps)
  moreover have "mask 2 = (3 :: 8 word)" by (simp add: mask_eq_exp_minus_1)
  ultimately show "bit (3 :: 8 word) i \<longleftrightarrow> i < 2" by simp
qed (auto simp: bit_simps)

lemma init_inv:
  assumes z: "zeroed base dram"
  shows "buddy_inv (Buddy_init base dram)" and "live (meta (Buddy_init base dram)) = block 2 0 0 2"
    and "holds (Buddy_init base dram) 14 0"
proof -
  let ?b = "Buddy_init base dram"
  note m = init_meta [OF z]
  have "tree_ok (meta ?b)"
    unfolding tree_ok_def
  proof (intro allI impI)
    fix l n assume n: "node_ok (Suc l) n" and nz: "meta ?b (Suc l) n \<noteq> 0"
    then have "n = 0" "l < 2" using m [OF n] by (auto split: if_splits)
    then show "bit (meta ?b l (n div 8)) (n mod 8)"
      using m [of l 0] by (auto simp: node_ok_def bit_1_3)
  qed
  moreover have "bl_children (the_line ?b l j) \<noteq> 0" if "l < 8" "j < 2" "bl_valid (the_line ?b l j)" for l j
    using that init_the_line [OF that(1,2), of base dram] init_cases [OF that(1)] init_line_simps(4) [of l]
    by (auto simp: init_line_simps empty_line_def split: if_splits)
  then have "lines_used ?b" by (simp add: lines_used_def)
  ultimately show "buddy_inv ?b" using init_cache_ok by (simp add: buddy_inv_def)
  show live: "live (meta ?b) = block 2 0 0 2"
  proof (rule set_eqI)
    fix r :: "nat \<times> nat \<times> nat"
    obtain l n i where r: "r = (l, n, i)" by (cases r)
    show "r \<in> live (meta ?b) \<longleftrightarrow> r \<in> block 2 0 0 2"
    proof (cases "node_ok l n \<and> i < 8")
      case True
      have "l \<noteq> 7 \<Longrightarrow> node_ok (Suc l) (child n i)" using True node_ok_child [of l n i] by (auto simp: node_ok_def)
      then have "l \<noteq> 7 \<Longrightarrow> meta ?b (Suc l) (child n i) = (if child n i = 0 then (if l = 0 then 1 else if l = 1 then 3 else 0) else 0)"
        using m [of "Suc l" "child n i"] by auto
      then show ?thesis
        using True m [of l n] bit_1_3 [of i] by (auto simp: r live_def block_def child_def split: if_splits)
    next
      case False
      then show ?thesis by (auto simp: r live_def block_def node_ok_def)
    qed
  qed
  have "order_to_level 14 = 2" "order_to_width 14 = 2" by (simp_all add: order_to_level_def order_to_width_def)
  then show "holds ?b 14 0"
    unfolding holds_def live by (auto simp: node_ok_def width_ok_def region_addr_def child_def intro!: exI [of _ 0])
qed

section \<open>A first allocation, evaluated\<close>

lemma init_set_0: "buddy_set (Buddy_init base d) ! 0 = \<lparr>bs_level = 0, bs_size = 1, bs_lines = [\<lparr>bl_valid = True, bl_tag = 0, bl_children = 1\<rparr>, empty_line], bs_rand_counter = 0\<rparr>"
  "buddy_set (Buddy_init base d) \<noteq> []"
  by (simp_all add: Buddy_init_def init_set_def init_line_simps)

lemma alloc_20_init: "alloc (Buddy_init base d) 20 = Inr (put_line (Buddy_init base d) 0 0 \<lparr>bl_valid = True, bl_tag = 0, bl_children = 0xD\<rparr>, 0, 0x10000000)"
  using look_up_level [of 0 "Buddy_init base d" 0 2 0]
  by (simp add: alloc_def order_to_level_def order_to_width_def get_valid_free_set_def init_set_0 get_valid_free_line_def
    get_free_2bit_def width_mask_def alloc_take_def the_line_def put_line_def set_clear_bits_def flush_if_full_def parenttag_idx_to_tag_def tag_to_addr_def)

lemma order_dvd:
  assumes o: "unat order < 21" and d: "order_to_width order dvd i"
  shows "2 ^ (unat order + 8) dvd region_addr (order_to_level order) n i"
proof -
  have "order_to_width order dvd 8" using order_level [OF o] by auto
  then have "order_to_width order dvd child n i" using d by (simp add: child_def)
  then have "order_to_width order * region_size (order_to_level order) dvd child n i * region_size (order_to_level order)"
    by (rule mult_dvd_mono) simp
  then show ?thesis unfolding order_size [OF o] by (simp add: region_addr_def region_size_def)
qed

lemma look_up_none:
  assumes "\<forall>s \<le> l. \<forall>idx. \<not> fst (get_valid_free_set (buddy_set b ! s) (if s = r then w else 1) idx)" and "l < 8"
  shows "alloc_look_up b r w idx (of_nat l) = Inl Out_of_bounds"
  using assms
proof (induction l arbitrary: idx)
  case 0
  then have "\<not> fst (get_valid_free_set (buddy_set b ! 0) (if 0 = r then w else 1) idx)" by blast
  then show ?case using look_up_level [of 0 b r w idx] by (simp add: case_prod_unfold del: if_split)
next
  case (Suc l)
  then have "\<not> fst (get_valid_free_set (buddy_set b ! Suc l) (if Suc l = r then w else 1) idx)" by blast
  then show ?case using Suc look_up_level [of "Suc l" b r w idx] by (simp add: case_prod_unfold del: if_split)
qed

section \<open>Properties\<close>

text \<open>C1: Whatever a client allocates and frees, the blocks it holds never overlap each other, nor
  the 4 MB at the bottom where the allocator keeps its metadata (the block of order 14 at offset 0),
  as long as no allocation fails; every block is inside the managed space.\<close>

theorem buddy_blocks_disjoint:
  assumes "zeroed base dram"
    and "client_run buddy_alloc_op buddy_free_op xs (Buddy_init base dram, [(14, 0)]) = Some (b, hs)"
  shows "disjoint_blocks blk_range hs \<and> (\<forall>(order, a) \<in> set hs. holds b order a)"
proof -
  have "buddy_ba.client_ok (Buddy_init base dram, [(14, 0)])"
    using init_inv [OF assms(1)] by (simp add: buddy_ba.client_ok_def disjoint_blocks_def)
  from buddy_ba.client_run_ok [OF this assms(2)] show ?thesis
    by (simp add: buddy_ba.client_ok_def)
qed

theorem buddy_blocks_disjoint_witness:
  "disjoint_blocks blk_range [(14, 0), (20, 0x10000000)]"
proof -
  have z: "zeroed 0 (\<lambda>_. 0)" by (simp add: zeroed_def)
  have "buddy_alloc_op (Buddy_init 0 (\<lambda>_. 0)) 20 = Some (put_line (Buddy_init 0 (\<lambda>_. 0)) 0 0 \<lparr>bl_valid = True, bl_tag = 0, bl_children = 0xD\<rparr>, 0x10000000)"
    by (simp add: buddy_alloc_op_def alloc_20_init)
  then have "client_run buddy_alloc_op buddy_free_op [Acquire 20] (Buddy_init 0 (\<lambda>_. 0), [(14, 0)])
    = Some (put_line (Buddy_init 0 (\<lambda>_. 0)) 0 0 \<lparr>bl_valid = True, bl_tag = 0, bl_children = 0xD\<rparr>, [(14, 0), (20, 0x10000000)])"
    by simp
  from buddy_blocks_disjoint [OF z this] show ?thesis by blast
qed

text \<open>C7: A successful allocation reports status 0, is aligned to its size, and its bytes are disjoint from every
  block that was live before, all of which stay live; the allocator's invariant is kept.\<close>

theorem buddy_alloc_fresh:
  assumes "buddy_inv b" and "unat order < 21" and "alloc b order = Inr (b', stat, addr)"
  shows "stat = 0 \<and> buddy_inv b' \<and> holds b' order (unat addr) \<and> 2 ^ (unat order + 8) dvd unat addr \<and>
    (\<forall>order' a'. holds b order' a' \<longrightarrow> holds b' order' a' \<and> blk_range order' a' \<inter> blk_range order (unat addr) = {})"
proof -
  note ok = alloc_ok [OF assms]
  have T: "tree_ok (meta b')" using ok(2) by (simp add: buddy_inv_def)
  have "2 ^ (unat order + 8) dvd unat addr"
    using ok(3) order_dvd [OF assms(2)] by (auto simp: granted_def)
  moreover have "live (meta b) \<subseteq> live (meta b')" using ok(3) by (auto simp: granted_def)
  ultimately show ?thesis
    using ok granted_holds [OF assms(2) ok(3)] granted_disjoint [OF T assms(2) ok(3)] holds_mono by blast
qed

theorem buddy_alloc_fresh_witness: "blk_range 14 0 \<inter> blk_range 20 0x10000000 = {}"
proof -
  note i = init_inv [of 0 "\<lambda>_. 0"]
  have z: "zeroed 0 (\<lambda>_. 0)" by (simp add: zeroed_def)
  have "unat (20 :: 22 word) < 21" by simp
  from buddy_alloc_fresh [OF i(1) [OF z] this alloc_20_init] i(3) [OF z] show ?thesis by auto
qed

text \<open>C21: Freeing the address an allocation returned succeeds with status 0 and gives back exactly the set of live
  regions from before the allocation.\<close>

theorem buddy_alloc_free_roundtrip:
  assumes "buddy_inv b" and "unat order < 21" and "alloc b order = Inr (b', stat, addr)"
  shows "\<exists>b''. free b' order addr = Inr (b'', 0) \<and> buddy_inv b'' \<and> live (meta b'') = live (meta b)"
proof -
  note ok = alloc_ok [OF assms]
  from ok(3) obtain n i where n: "node_ok (order_to_level order) n" and w: "width_ok (order_to_width order) i"
    and a: "unat addr = region_addr (order_to_level order) n i"
    and l: "live (meta b') = live (meta b) \<union> block (order_to_level order) n i (order_to_width order)"
    and d: "block (order_to_level order) n i (order_to_width order) \<inter> live (meta b) = {}"
    unfolding granted_def by blast
  from l have "block (order_to_level order) n i (order_to_width order) \<subseteq> live (meta b')" by simp
  from free_ok [OF ok(2) assms(2) n w a this] show ?thesis using l d by auto
qed

theorem buddy_alloc_free_roundtrip_witness:
  "\<exists>b''. free (put_line (Buddy_init 0 (\<lambda>_. 0)) 0 0 \<lparr>bl_valid = True, bl_tag = 0, bl_children = 0xD\<rparr>) 20 0x10000000 = Inr (b'', 0)
     \<and> live (meta b'') = block 2 0 0 2"
proof -
  note i = init_inv [of 0 "\<lambda>_. 0"]
  have z: "zeroed 0 (\<lambda>_. 0)" by (simp add: zeroed_def)
  have "unat (20 :: 22 word) < 21" by simp
  from buddy_alloc_free_roundtrip [OF i(1) [OF z] this alloc_20_init] i(2) [OF z] show ?thesis by auto
qed

text \<open>C36: When no cached line from the level of the request up to the root has room, the allocator does not report
  an error to the client: the loop that should end there decrements its 8-bit level from 0 to 255, finds the condition
  \<open>start_level >= 0\<close> still true and indexes \<open>buddy_set\<close>, an array of 8 sets, at 255.\<close>

theorem buddy_full_out_of_bounds:
  assumes "unat order < 21" and "\<forall>l \<le> order_to_level order. \<forall>idx.
      \<not> fst (get_valid_free_set (buddy_set b ! l) (if l = order_to_level order then order_to_width order else 1) idx)"
  shows "alloc b order = Inl Out_of_bounds"
proof -
  have "order_to_level order < 8" by (simp add: order_to_level_def)
  from look_up_none [OF assms(2) this, of 0] assms(1) show ?thesis by (simp add: alloc_def Let_def)
qed

theorem buddy_full_out_of_bounds_witness:
  "alloc (put_line (Buddy_init 0 (\<lambda>_. 0)) 0 0 \<lparr>bl_valid = True, bl_tag = 0, bl_children = 0xFD\<rparr>) 20 = Inl Out_of_bounds"
  by (rule buddy_full_out_of_bounds) (simp_all add: order_to_level_def order_to_width_def get_valid_free_set_def put_line_def init_set_0 get_valid_free_line_def
    get_free_2bit_def width_mask_def)

end
