(* ===== verification/Rdm.thy ===== *)
theory Rdm
  imports Channels
begin

unbundle bit_operations_syntax

text \<open>
  The remote direct memory applications (\<^verbatim>\<open>app/rdma/rdm_mapping/top.cpp\<close> and
  \<^verbatim>\<open>app/rdma/rdm_segment/top.cpp\<close>): a pipeline that parses request packets, allocates, translates,
  accesses DRAM and replies. The two IPs differ in the translation stage only; this theory has the
  stages they share, over a state that each IP extends with the ports of its own translation.

  \<open>char\<close> and \<open>unsigned long\<close> are 8 and 64 bit words, \<open>int\<close> a 32 bit word (read with its sign where it
  is compared with an \<open>unsigned long\<close>). The static variables of each stage are fields of the state,
  prefixed by the stage's name.
\<close>

section \<open>Headers\<close>

definition NR_BYTES_AXIS_512 :: "64 word" where "NR_BYTES_AXIS_512 = 64"
definition APP_RDMA_OPCODE_READ :: "8 word" where "APP_RDMA_OPCODE_READ = 0"
definition APP_RDMA_OPCODE_WRITE :: "8 word" where "APP_RDMA_OPCODE_WRITE = 1"
definition APP_RDMA_OPCODE_WRITE_PERSISTENT :: "8 word" where "APP_RDMA_OPCODE_WRITE_PERSISTENT = 2"
definition APP_RDMA_OPCODE_ALLOC :: "8 word" where "APP_RDMA_OPCODE_ALLOC = 3"
definition APP_RDMA_OPCODE_REPLY_WRITE :: "8 word" where "APP_RDMA_OPCODE_REPLY_WRITE = 4"
definition APP_RDMA_OPCODE_REPLY_ALLOC :: "8 word" where "APP_RDMA_OPCODE_REPLY_ALLOC = 5"
definition APP_RDMA_OPCODE_REPLY_ALLOC_ERROR :: "8 word" where "APP_RDMA_OPCODE_REPLY_ALLOC_ERROR = 6"
definition APP_RDMA_OPCODE_REPLY_READ :: "8 word" where "APP_RDMA_OPCODE_REPLY_READ = 7"
definition APP_RDMA_OPCODE_REPLY_READ_ERROR :: "8 word" where "APP_RDMA_OPCODE_REPLY_READ_ERROR = 8"

lemmas opcode_defs = APP_RDMA_OPCODE_READ_def APP_RDMA_OPCODE_WRITE_def APP_RDMA_OPCODE_WRITE_PERSISTENT_def
  APP_RDMA_OPCODE_ALLOC_def APP_RDMA_OPCODE_REPLY_WRITE_def APP_RDMA_OPCODE_REPLY_ALLOC_def
  APP_RDMA_OPCODE_REPLY_ALLOC_ERROR_def APP_RDMA_OPCODE_REPLY_READ_def APP_RDMA_OPCODE_REPLY_READ_ERROR_def

definition set_hdr_opcode :: "net_axis_512 \<Rightarrow> 8 word \<Rightarrow> net_axis_512" where
  "set_hdr_opcode hdr op = hdr\<lparr>na_data := range_set (na_data hdr) 7 0 op\<rparr>"

definition set_hdr_address :: "net_axis_512 \<Rightarrow> 64 word \<Rightarrow> net_axis_512" where
  "set_hdr_address hdr address = hdr\<lparr>na_data := range_set (na_data hdr) 71 8 address\<rparr>"

definition set_hdr_length :: "net_axis_512 \<Rightarrow> 64 word \<Rightarrow> net_axis_512" where
  "set_hdr_length hdr len = hdr\<lparr>na_data := range_set (na_data hdr) 135 72 len\<rparr>"

definition get_hdr_opcode :: "net_axis_512 \<Rightarrow> 8 word" where
  "get_hdr_opcode hdr = range_get (na_data hdr) 7 0"

definition get_hdr_address :: "net_axis_512 \<Rightarrow> 64 word" where
  "get_hdr_address hdr = range_get (na_data hdr) 71 8"

definition get_hdr_length :: "net_axis_512 \<Rightarrow> 64 word" where
  "get_hdr_length hdr = range_get (na_data hdr) 135 72"

text \<open>Bits 199 to 136 of the header unit: the number of the packet, for the host.\<close>

definition set_hdr_packet :: "net_axis_512 \<Rightarrow> 64 word \<Rightarrow> net_axis_512" where
  "set_hdr_packet hdr n = hdr\<lparr>na_data := range_set (na_data hdr) 199 136 n\<rparr>"

definition get_hdr_packet :: "net_axis_512 \<Rightarrow> 64 word" where
  "get_hdr_packet hdr = range_get (na_data hdr) 199 136"

lemmas hdr_defs = set_hdr_opcode_def set_hdr_address_def set_hdr_length_def set_hdr_packet_def
  get_hdr_opcode_def get_hdr_address_def get_hdr_length_def get_hdr_packet_def

lemma hdr_get_set [simp]:
  "get_hdr_opcode (set_hdr_opcode h op) = op" "get_hdr_address (set_hdr_opcode h op) = get_hdr_address h"
  "get_hdr_length (set_hdr_opcode h op) = get_hdr_length h" "get_hdr_packet (set_hdr_opcode h op) = get_hdr_packet h"
  "get_hdr_opcode (set_hdr_address h a) = get_hdr_opcode h" "get_hdr_address (set_hdr_address h a) = a"
  "get_hdr_length (set_hdr_address h a) = get_hdr_length h" "get_hdr_packet (set_hdr_address h a) = get_hdr_packet h"
  "get_hdr_opcode (set_hdr_length h a) = get_hdr_opcode h" "get_hdr_address (set_hdr_length h a) = get_hdr_address h"
  "get_hdr_length (set_hdr_length h a) = a" "get_hdr_packet (set_hdr_length h a) = get_hdr_packet h"
  "get_hdr_opcode (set_hdr_packet h a) = get_hdr_opcode h" "get_hdr_address (set_hdr_packet h a) = get_hdr_address h"
  "get_hdr_length (set_hdr_packet h a) = get_hdr_length h" "get_hdr_packet (set_hdr_packet h a) = a"
  by (simp_all add: hdr_defs ap_simps)

lemma hdr_flags [simp]:
  "na_last (set_hdr_opcode h op) = na_last h" "na_last (set_hdr_address h a) = na_last h"
  "na_last (set_hdr_length h a) = na_last h" "na_last (set_hdr_packet h a) = na_last h"
  "get_hdr_opcode (h\<lparr>na_last := l\<rparr>) = get_hdr_opcode h" "get_hdr_address (h\<lparr>na_last := l\<rparr>) = get_hdr_address h"
  "get_hdr_length (h\<lparr>na_last := l\<rparr>) = get_hdr_length h" "get_hdr_packet (h\<lparr>na_last := l\<rparr>) = get_hdr_packet h"
  by (simp_all add: hdr_defs)

definition round_up :: "64 word \<Rightarrow> 64 word \<Rightarrow> 64 word" where
  "round_up x y = ((x - 1) OR (y - 1)) + 1"

section \<open>State\<close>

definition PI_ALLOC_SUCCEED :: "1 word" where "PI_ALLOC_SUCCEED = 0"
definition PI_ALLOC_FAIL :: "1 word" where "PI_ALLOC_FAIL = 1"
definition PI_MAP_SUCCEED :: "1 word" where "PI_MAP_SUCCEED = 0"
definition PI_MAP_FAIL :: "1 word" where "PI_MAP_FAIL = 1"

record pipeline_info =
  pi_opcode :: "8 word"
  pi_va :: "64 word"
  pi_length :: "64 word"
  pi_nr_units :: "64 word"
  pi_pa :: "64 word"
  pi_pa_index :: "64 word"
  pi_map_status :: "1 word"
  pi_alloc_status :: "1 word"
  pi_alloc_pa :: "64 word"
  pi_alloc_va :: "64 word"
  pi_nr_packet :: "64 word"
  pi_eth_header :: net_axis_512
  pi_app_header :: net_axis_512

definition pi_zero :: pipeline_info where
  "pi_zero = \<lparr>pi_opcode = 0, pi_va = 0, pi_length = 0, pi_nr_units = 0, pi_pa = 0, pi_pa_index = 0, pi_map_status = 0,
     pi_alloc_status = 0, pi_alloc_pa = 0, pi_alloc_va = 0, pi_nr_packet = 0, pi_eth_header = net_axis_512_zero,
     pi_app_header = net_axis_512_zero\<rparr>"

record mem_cmd =
  mc_address :: "64 word"
  mc_length :: "64 word"
  mc_nr_units :: "32 word"

datatype PARSER_STATE = PARSER_ETH_HEADER | PARSER_APP_HEADER | PARSER_STREAM
datatype ALLOC_STATE = ALLOC_IDLE | ALLOC_WRITE_STREAM | ALLOC_WAIT_ALLOC
datatype MAP_STATE = MAP_IDLE | MAP_WAIT_MAP | MAP_STREAM
datatype ACCESS_STATE = ACCESS_IDLE | ACCESS_OUT_APP | ACCESS_READ
datatype DRAM_WR_PIPE_STATE = DRAM_DM_IDLE | DRAM_DM_STRAM | DRAM_DM_STATUS

record rdm_st =
  parser_state :: PARSER_STATE
  parser_pi :: pipeline_info
  parser_offset :: "32 word"
  nr_rdm_packet :: "64 word"
  alloc_state :: ALLOC_STATE
  alloc_pi :: pipeline_info
  alloc_va_next :: "64 word"
  map_state :: MAP_STATE
  map_pi :: pipeline_info
  access_state :: ACCESS_STATE
  access_pi :: pipeline_info
  access_offset :: "32 word"
  wr_state :: DRAM_WR_PIPE_STATE
  wr_nr_written :: "32 word"
  wr_nr_units :: "32 word"
  PI_parser_to_alloc :: "pipeline_info stream"
  PI_alloc_to_map :: "pipeline_info stream"
  PI_map_to_access :: "pipeline_info stream"
  PI_access_to_reply :: "pipeline_info stream"
  D_buffer_to_parser :: "net_axis_512 stream"
  D_parser_to_alloc :: "net_axis_512 stream"
  D_alloc_to_map :: "net_axis_512 stream"
  D_access_to_reply :: "net_axis_512 stream"
  fifo_DRAM_rd_cmd :: "mem_cmd stream"
  fifo_DRAM_wr_cmd :: "mem_cmd stream"
  fifo_DRAM_rd_data :: "512 word stream"
  fifo_DRAM_wr_data :: "512 word stream"
  from_net :: "net_axis_512 stream"
  to_net :: "net_axis_512 stream"
  alloc_req :: "buddy_alloc_if stream"
  alloc_ret :: "buddy_alloc_ret_if stream"
  DRAM_rd_cmd :: "dm_cmd stream"
  DRAM_wr_cmd :: "dm_cmd stream"
  DRAM_rd_data :: "axis_mem stream"
  DRAM_wr_data :: "axis_mem stream"
  DRAM_rd_status :: "8 word stream"
  DRAM_wr_status :: "8 word stream"

section \<open>Buffering and parsing\<close>

definition buffering :: "'a rdm_st_scheme \<Rightarrow> 'a rdm_st_scheme" where
  "buffering s =
     (case from_net s of [] \<Rightarrow> s | d # rest \<Rightarrow> s\<lparr>from_net := rest, D_buffer_to_parser := swrite (D_buffer_to_parser s) d\<rparr>)"

definition parse_app_header :: "pipeline_info \<Rightarrow> net_axis_512 \<Rightarrow> pipeline_info" where
  "parse_app_header pi d =
     (let len = round_up (get_hdr_length d) NR_BYTES_AXIS_512
      in pi\<lparr>pi_app_header := d, pi_opcode := get_hdr_opcode d, pi_va := get_hdr_address d, pi_length := len,
           pi_nr_units := round_up len NR_BYTES_AXIS_512 div NR_BYTES_AXIS_512\<rparr>)"

definition parser :: "'a rdm_st_scheme \<Rightarrow> 'a rdm_st_scheme" where
  "parser s =
     (case D_buffer_to_parser s of
        [] \<Rightarrow> s
      | d # rest \<Rightarrow>
          (case parser_state s of
             PARSER_ETH_HEADER \<Rightarrow>
               s\<lparr>D_buffer_to_parser := rest,
                 parser_pi := (parser_pi s)\<lparr>pi_nr_packet := nr_rdm_packet s, pi_eth_header := d\<rparr>,
                 parser_offset := 0, nr_rdm_packet := nr_rdm_packet s + 1, parser_state := PARSER_APP_HEADER\<rparr>
           | PARSER_APP_HEADER \<Rightarrow>
               (let pi = parse_app_header (parser_pi s) d
                in s\<lparr>D_buffer_to_parser := rest, parser_pi := pi,
                     parser_state := if pi_opcode pi = APP_RDMA_OPCODE_WRITE then PARSER_STREAM else PARSER_ETH_HEADER,
                     PI_parser_to_alloc := swrite (PI_parser_to_alloc s) pi\<rparr>)
           | PARSER_STREAM \<Rightarrow>
               if na_last d = 1
               then s\<lparr>D_buffer_to_parser := rest, parser_state := PARSER_ETH_HEADER,
                      D_parser_to_alloc := swrite (D_parser_to_alloc s) d\<rparr>
               else if scast (parser_offset s) = pi_nr_units (parser_pi s) - 1
               then s\<lparr>D_buffer_to_parser := rest, parser_state := PARSER_ETH_HEADER,
                      D_parser_to_alloc := swrite (D_parser_to_alloc s) (d\<lparr>na_last := 1\<rparr>)\<rparr>
               else s\<lparr>D_buffer_to_parser := rest, parser_offset := parser_offset s + 1,
                      D_parser_to_alloc := swrite (D_parser_to_alloc s) d\<rparr>))"

section \<open>Allocation\<close>

definition RDM_VA_PAGE_SIZE :: "64 word" where "RDM_VA_PAGE_SIZE = 0x1000"

text \<open>The address returned and the new value of \<open>__alloc_va\<close>.\<close>

definition rdm_alloc_va :: "64 word \<Rightarrow> 64 word \<Rightarrow> 64 word \<times> 64 word" where
  "rdm_alloc_va next len = (next, next + round_up len RDM_VA_PAGE_SIZE)"

definition alloc_request :: buddy_alloc_if where
  "alloc_request = \<lparr>ba_opcode = BUDDY_ALLOC, ba_addr = 0, ba_order = 1\<rparr>"

definition alloc_idle :: "'a rdm_st_scheme \<Rightarrow> 'a rdm_st_scheme" where
  "alloc_idle s =
     (case PI_parser_to_alloc s of
        [] \<Rightarrow> s
      | pi # rest \<Rightarrow>
          (let s = s\<lparr>PI_parser_to_alloc := rest, alloc_pi := pi\<rparr>
           in if pi_opcode pi = APP_RDMA_OPCODE_ALLOC
              then s\<lparr>alloc_req := swrite (alloc_req s) alloc_request, alloc_state := ALLOC_WAIT_ALLOC\<rparr>
              else if pi_opcode pi = APP_RDMA_OPCODE_READ
              then s\<lparr>PI_alloc_to_map := swrite (PI_alloc_to_map s) pi, alloc_state := ALLOC_IDLE\<rparr>
              else if pi_opcode pi = APP_RDMA_OPCODE_WRITE
              then s\<lparr>PI_alloc_to_map := swrite (PI_alloc_to_map s) pi, alloc_state := ALLOC_WRITE_STREAM\<rparr>
              else s))"

definition alloc_stream :: "'a rdm_st_scheme \<Rightarrow> 'a rdm_st_scheme" where
  "alloc_stream s =
     (case D_parser_to_alloc s of
        [] \<Rightarrow> s
      | d # rest \<Rightarrow>
          s\<lparr>D_parser_to_alloc := rest, D_alloc_to_map := swrite (D_alloc_to_map s) d,
            alloc_state := if na_last d = 1 then ALLOC_IDLE else ALLOC_WRITE_STREAM\<rparr>)"

definition alloc_wait :: "'a rdm_st_scheme \<Rightarrow> 'a rdm_st_scheme" where
  "alloc_wait s =
     (case alloc_ret s of
        [] \<Rightarrow> s
      | ret # rest \<Rightarrow>
          (let (va, next) = rdm_alloc_va (alloc_va_next s) (pi_length (alloc_pi s));
               (pi, next) =
                 if br_stat ret = 0
                 then ((alloc_pi s)\<lparr>pi_alloc_status := PI_ALLOC_SUCCEED, pi_alloc_pa := ucast (br_addr ret), pi_alloc_va := va\<rparr>, next)
                 else ((alloc_pi s)\<lparr>pi_alloc_status := PI_ALLOC_FAIL, pi_alloc_pa := 0, pi_alloc_va := 0\<rparr>, alloc_va_next s)
           in s\<lparr>alloc_ret := rest, alloc_pi := pi, alloc_va_next := next,
                PI_alloc_to_map := swrite (PI_alloc_to_map s) pi, alloc_state := ALLOC_IDLE\<rparr>))"

definition alloc_address :: "'a rdm_st_scheme \<Rightarrow> 'a rdm_st_scheme" where
  "alloc_address s =
     (case alloc_state s of ALLOC_IDLE \<Rightarrow> alloc_idle s | ALLOC_WRITE_STREAM \<Rightarrow> alloc_stream s | ALLOC_WAIT_ALLOC \<Rightarrow> alloc_wait s)"

section \<open>Translation, the part both IPs have\<close>

text \<open>The translation succeeded with \<open>pa\<close>: the DRAM command of the request.\<close>

definition map_found :: "64 word \<Rightarrow> 'a rdm_st_scheme \<Rightarrow> 'a rdm_st_scheme" where
  "map_found pa s =
     (let pi = (map_pi s)\<lparr>pi_map_status := PI_MAP_SUCCEED, pi_pa := pa, pi_pa_index := pa div NR_BYTES_AXIS_512\<rparr>;
          cmd = \<lparr>mc_address = pa, mc_length = pi_length pi, mc_nr_units = ucast (pi_nr_units pi)\<rparr>;
          s = s\<lparr>map_pi := pi\<rparr>
      in if pi_opcode pi = APP_RDMA_OPCODE_READ then s\<lparr>fifo_DRAM_rd_cmd := swrite (fifo_DRAM_rd_cmd s) cmd\<rparr>
         else if pi_opcode pi = APP_RDMA_OPCODE_WRITE then s\<lparr>fifo_DRAM_wr_cmd := swrite (fifo_DRAM_wr_cmd s) cmd\<rparr>
         else s)"

definition map_failed :: "'a rdm_st_scheme \<Rightarrow> 'a rdm_st_scheme" where
  "map_failed s = s\<lparr>map_pi := (map_pi s)\<lparr>pi_map_status := PI_MAP_FAIL\<rparr>\<rparr>"

definition map_forward :: "'a rdm_st_scheme \<Rightarrow> 'a rdm_st_scheme" where
  "map_forward s =
     s\<lparr>map_state := if pi_opcode (map_pi s) = APP_RDMA_OPCODE_WRITE then MAP_STREAM else MAP_IDLE,
       PI_map_to_access := swrite (PI_map_to_access s) (map_pi s)\<rparr>"

definition map_stream :: "'a rdm_st_scheme \<Rightarrow> 'a rdm_st_scheme" where
  "map_stream s =
     (case D_alloc_to_map s of
        [] \<Rightarrow> s
      | d # rest \<Rightarrow>
          s\<lparr>D_alloc_to_map := rest, fifo_DRAM_wr_data := swrite (fifo_DRAM_wr_data s) (na_data d),
            map_state := if na_last d = 1 then MAP_IDLE else MAP_STREAM\<rparr>)"

section \<open>Access and reply\<close>

text \<open>The header unit of the reply, and where the stage goes after it. A request with another opcode
  has its header echoed, and the stage stays where it is.\<close>

definition reply_header :: "pipeline_info \<Rightarrow> net_axis_512 \<times> ACCESS_STATE" where
  "reply_header pi =
     (let h = set_hdr_packet (pi_app_header pi) (pi_nr_packet pi)
      in if pi_opcode pi = APP_RDMA_OPCODE_ALLOC
         then (if pi_alloc_status pi = PI_ALLOC_SUCCEED
               then ((set_hdr_length (set_hdr_address (set_hdr_opcode h APP_RDMA_OPCODE_REPLY_ALLOC) (pi_alloc_va pi)) (pi_alloc_pa pi))\<lparr>na_last := 1\<rparr>, ACCESS_IDLE)
               else ((set_hdr_length (set_hdr_address (set_hdr_opcode h APP_RDMA_OPCODE_REPLY_ALLOC_ERROR) 0) 0)\<lparr>na_last := 1\<rparr>, ACCESS_IDLE))
         else if pi_opcode pi = APP_RDMA_OPCODE_READ
         then (if pi_map_status pi = PI_MAP_SUCCEED
               then ((set_hdr_opcode h APP_RDMA_OPCODE_REPLY_READ)\<lparr>na_last := 0\<rparr>, ACCESS_READ)
               else ((set_hdr_opcode h APP_RDMA_OPCODE_REPLY_READ_ERROR)\<lparr>na_last := 1\<rparr>, ACCESS_IDLE))
         else if pi_opcode pi = APP_RDMA_OPCODE_WRITE
         then ((set_hdr_opcode h APP_RDMA_OPCODE_REPLY_WRITE)\<lparr>na_last := 1\<rparr>, ACCESS_IDLE)
         else (h, ACCESS_OUT_APP))"

definition access_idle :: "'a rdm_st_scheme \<Rightarrow> 'a rdm_st_scheme" where
  "access_idle s =
     (case PI_map_to_access s of
        [] \<Rightarrow> s
      | pi # rest \<Rightarrow>
          s\<lparr>PI_map_to_access := rest, access_pi := pi, access_offset := 0,
            D_access_to_reply := swrite (D_access_to_reply s) (pi_eth_header pi), access_state := ACCESS_OUT_APP\<rparr>)"

definition access_out_app :: "'a rdm_st_scheme \<Rightarrow> 'a rdm_st_scheme" where
  "access_out_app s =
     (let (h, state) = reply_header (access_pi s)
      in s\<lparr>access_pi := (access_pi s)\<lparr>pi_app_header := h\<rparr>, access_state := state,
           D_access_to_reply := swrite (D_access_to_reply s) h\<rparr>)"

definition read_unit :: "512 word \<Rightarrow> bool \<Rightarrow> net_axis_512" where
  "read_unit w end_unit = \<lparr>na_data = w, na_last = if end_unit then 1 else 0, na_keep = 0xFFFFFFFFFFFFFFFF, na_user = 0\<rparr>"

definition access_read :: "'a rdm_st_scheme \<Rightarrow> 'a rdm_st_scheme" where
  "access_read s =
     (case fifo_DRAM_rd_data s of
        [] \<Rightarrow> s
      | w # rest \<Rightarrow>
          (let offset = access_offset s + 1; done = scast offset = pi_nr_units (access_pi s)
           in s\<lparr>fifo_DRAM_rd_data := rest, access_offset := offset,
                access_state := if done then ACCESS_IDLE else ACCESS_READ,
                D_access_to_reply := swrite (D_access_to_reply s) (read_unit w done)\<rparr>))"

definition access_stage :: "'a rdm_st_scheme \<Rightarrow> 'a rdm_st_scheme" where
  "access_stage s =
     (case access_state s of ACCESS_IDLE \<Rightarrow> access_idle s | ACCESS_OUT_APP \<Rightarrow> access_out_app s | ACCESS_READ \<Rightarrow> access_read s)"

definition reply :: "'a rdm_st_scheme \<Rightarrow> 'a rdm_st_scheme" where
  "reply s =
     (let (d, n) = transfer (\<lambda>d. d) False (D_access_to_reply s) (to_net s)
      in s\<lparr>D_access_to_reply := d, to_net := n, PI_access_to_reply := tl (PI_access_to_reply s)\<rparr>)"

section \<open>Datamover pipes\<close>

definition dm_word :: "mem_cmd \<Rightarrow> dm_cmd" where
  "dm_word c = \<lparr>dm_btt = range_get (mc_length c) 22 0, dm_type = DM_CMD_TYPE_INCR, dm_dsa = 0, dm_eof = 1, dm_drr = 0,
     dm_start_address = range_get (mc_address c) 31 0, dm_rsvd = 0\<rparr>"

text \<open>Which output ports are full in a cycle.\<close>

record port_full =
  full_rd_cmd :: bool
  full_wr_cmd :: bool
  full_wr_data :: bool

definition DRAM_rd_pipe :: "port_full \<Rightarrow> 'a rdm_st_scheme \<Rightarrow> 'a rdm_st_scheme" where
  "DRAM_rd_pipe f s =
     (let (c, dc) = transfer dm_word (full_rd_cmd f) (fifo_DRAM_rd_cmd s) (DRAM_rd_cmd s);
          (dd, d) = transfer am_data (length (fifo_DRAM_rd_data s) \<ge> 256) (DRAM_rd_data s) (fifo_DRAM_rd_data s)
      in s\<lparr>fifo_DRAM_rd_cmd := c, DRAM_rd_cmd := dc, DRAM_rd_data := dd, fifo_DRAM_rd_data := d, DRAM_rd_status := tl (DRAM_rd_status s)\<rparr>)"

definition DRAM_wr_pipe :: "port_full \<Rightarrow> 'a rdm_st_scheme \<Rightarrow> 'a rdm_st_scheme" where
  "DRAM_wr_pipe f s =
     (case wr_state s of
        DRAM_DM_IDLE \<Rightarrow>
          (let s = (case fifo_DRAM_wr_cmd s of
                      [] \<Rightarrow> s
                    | c # rest \<Rightarrow>
                        if full_wr_cmd f then s
                        else s\<lparr>fifo_DRAM_wr_cmd := rest, wr_nr_written := 0, wr_nr_units := mc_nr_units c,
                               DRAM_wr_cmd := swrite (DRAM_wr_cmd s) (dm_word c), wr_state := DRAM_DM_STRAM\<rparr>)
           in s\<lparr>DRAM_wr_status := tl (DRAM_wr_status s)\<rparr>)
      | DRAM_DM_STRAM \<Rightarrow>
          (case fifo_DRAM_wr_data s of
             [] \<Rightarrow> s
           | w # rest \<Rightarrow>
               if full_wr_data f then s
               else (let written = wr_nr_written s + 1; done = written = wr_nr_units s
                     in s\<lparr>fifo_DRAM_wr_data := rest, wr_nr_written := written,
                          wr_state := if done then DRAM_DM_IDLE else DRAM_DM_STRAM,
                          DRAM_wr_data := swrite (DRAM_wr_data s) \<lparr>am_data = w, am_keep = 0xFFFFFFFFFFFFFFFF, am_last = if done then 1 else 0\<rparr>\<rparr>))
      | DRAM_DM_STATUS \<Rightarrow> s)"

end
