(* ===== verification/Rdm_Parser.thy ===== *)
theory Rdm_Parser
  imports Rdm
begin

unbundle bit_operations_syntax

text \<open>
  The parser of the remote memory applications as a decoder: a stream of well-formed packets is split
  into the requests and the write data it was built from.
\<close>

section \<open>Rounding\<close>

text \<open>\<open>round_up\<close> to a power of two: the least multiple at or above the argument, unless it wraps.\<close>

lemma or_mask_eq: "unat (x OR mask k) = unat x div 2 ^ k * 2 ^ k + (2 ^ k - 1)"
  if "k < LENGTH('a)" for x :: "'a::len word"
proof -
  have "unat (x OR mask k) = (unat x OR mask k)"
    using that by (intro bit_eqI) (auto simp: bit_simps dest: bit_imp_le_length)
  also have "\<dots> = push_bit k (drop_bit k (unat x)) + mask k"
  proof -
    have "unat x OR mask k = push_bit k (drop_bit k (unat x)) OR mask k"
      by (rule bit_eqI) (auto simp: bit_simps)
    also have "\<dots> = push_bit k (drop_bit k (unat x)) + mask k"
      by (rule disjunctive_add [symmetric]) (auto simp: bit_simps)
    finally show ?thesis .
  qed
  finally show ?thesis
    by (simp add: push_bit_eq_mult drop_bit_eq_div mask_eq_exp_minus_1)
qed

lemma unat_round_up:
  assumes "k < 64" and "0 < unat x" and "unat x \<le> 2 ^ 64 - 2 ^ k"
  shows "unat (round_up x (2 ^ k)) = ((unat x - 1) div 2 ^ k + 1) * 2 ^ k"
proof -
  have y: "(2 :: 64 word) ^ k - 1 = mask k" by (simp add: mask_eq_exp_minus_1)
  have x: "unat (x - 1) = unat x - 1" using assms(2) by (simp add: unat_sub word_le_nat_alt)
  let ?q = "(unat x - 1) div 2 ^ k"
  have v: "unat ((x - 1) OR mask k) = ?q * 2 ^ k + (2 ^ k - 1)"
    using or_mask_eq [of k "x - 1"] assms(1) x by simp
  have "?q * 2 ^ k \<le> unat x - 1" by simp
  then have "?q * 2 ^ k < 2 ^ 64 - 2 ^ k" using assms(2,3) by linarith
  moreover have "(2 :: nat) ^ 64 - 2 ^ k = (2 ^ (64 - k) - 1) * 2 ^ k"
    using assms(1) by (simp add: diff_mult_distrib flip: power_add)
  ultimately have "?q < 2 ^ (64 - k) - 1" by (metis mult_less_cancel2)
  then have "?q + 1 < 2 ^ (64 - k)" by simp
  then have "(?q + 1) * 2 ^ k < 2 ^ (64 - k) * 2 ^ k" by (rule mult_strict_right_mono) simp
  also have "(2 :: nat) ^ (64 - k) * 2 ^ k = 2 ^ 64" using assms(1) by (simp flip: power_add)
  finally have "?q * 2 ^ k + (2 ^ k - 1) + 1 < 2 ^ 64" by simp
  then show ?thesis
    unfolding round_up_def y by (simp add: unat_word_ariths(1) v)
qed

lemma round_up_bounds:
  assumes "k < 64" and "0 < unat x" and "unat x \<le> 2 ^ 64 - 2 ^ k"
  shows "2 ^ k dvd unat (round_up x (2 ^ k))" and "unat x \<le> unat (round_up x (2 ^ k))"
    and "unat (round_up x (2 ^ k)) < unat x + 2 ^ k"
proof -
  note r = unat_round_up [OF assms]
  show "2 ^ k dvd unat (round_up x (2 ^ k))" unfolding r by simp
  have "(unat x - 1) div 2 ^ k * 2 ^ k + (unat x - 1) mod 2 ^ k = unat x - 1" by (rule div_mult_mod_eq)
  moreover have "(unat x - 1) mod 2 ^ k < 2 ^ k" by simp
  ultimately have "unat x - 1 < ((unat x - 1) div 2 ^ k + 1) * 2 ^ k" "(unat x - 1) div 2 ^ k * 2 ^ k \<le> unat x - 1"
    by (auto simp only: add_mult_distrib mult_1)
  with assms(2) show "unat x \<le> unat (round_up x (2 ^ k))" "unat (round_up x (2 ^ k)) < unat x + 2 ^ k"
    unfolding r by (simp_all only: add_mult_distrib mult_1)
qed

section \<open>Packets\<close>

record packet =
  pk_eth :: net_axis_512
  pk_app :: net_axis_512
  pk_data :: "net_axis_512 list"

definition packet_units :: "packet \<Rightarrow> net_axis_512 list" where
  "packet_units p = pk_eth p # pk_app p # pk_data p"

text \<open>Only a write carries data: the number of units its length field announces, fewer than an \<open>int\<close>
  counts, with no end mark before the last of them.\<close>

definition packet_ok :: "packet \<Rightarrow> bool" where
  "packet_ok p \<longleftrightarrow>
     (if get_hdr_opcode (pk_app p) = APP_RDMA_OPCODE_WRITE
      then pk_data p \<noteq> [] \<and> length (pk_data p) \<le> 2 ^ 31 \<and>
        pi_nr_units (parse_app_header pi_zero (pk_app p)) = of_nat (length (pk_data p)) \<and>
        (\<forall>d \<in> set (butlast (pk_data p)). na_last d \<noteq> 1)
      else pk_data p = [])"

definition mark_last :: "net_axis_512 list \<Rightarrow> net_axis_512 list" where
  "mark_last ds = (if ds = [] then [] else butlast ds @ [(last ds)\<lparr>na_last := 1\<rparr>])"

definition packet_pi :: "pipeline_info \<Rightarrow> 64 word \<Rightarrow> packet \<Rightarrow> pipeline_info" where
  "packet_pi base n p = parse_app_header (base\<lparr>pi_nr_packet := n, pi_eth_header := pk_eth p\<rparr>) (pk_app p)"

fun packet_pis :: "pipeline_info \<Rightarrow> 64 word \<Rightarrow> packet list \<Rightarrow> pipeline_info list" where
  "packet_pis base n [] = []"
| "packet_pis base n (p # ps) = packet_pi base n p # packet_pis base (n + 1) ps"

lemma packet_pi_packet_pi [simp]: "packet_pi (packet_pi base n p) n' p' = packet_pi base n' p'"
  by (simp add: packet_pi_def parse_app_header_def Let_def)

lemma packet_pis_base [simp]: "packet_pis (packet_pi base n p) n' ps = packet_pis base n' ps"
  by (induction ps arbitrary: n') simp_all

lemma parse_nr_units: "pi_nr_units (parse_app_header pi d) = pi_nr_units (parse_app_header pi_zero d)"
  and parse_opcode [simp]: "pi_opcode (parse_app_header pi d) = get_hdr_opcode d"
  by (simp_all add: parse_app_header_def Let_def)

section \<open>Runs of the parser\<close>

lemma scast_of_nat_less:
  assumes "k < 2 ^ 31"
  shows "scast (of_nat k :: 32 word) = (of_nat k :: 64 word)"
proof -
  have "sint (of_nat k :: 32 word) = int k"
    using assms by (simp add: signed_of_nat signed_take_bit_int_eq_self)
  then show ?thesis unfolding scast_eq by simp
qed

lemma parser_stream:
  assumes "parser_state s = PARSER_STREAM" and "D_buffer_to_parser s = ds @ rest" and "ds \<noteq> []"
    and "parser_offset s = of_nat k" and "pi_nr_units (parser_pi s) = of_nat (k + length ds)" and "k + length ds \<le> 2 ^ 31"
    and "\<forall>d \<in> set (butlast ds). na_last d \<noteq> 1"
  shows "\<exists>off. (parser ^^ length ds) s = s\<lparr>D_buffer_to_parser := rest, parser_state := PARSER_ETH_HEADER, parser_offset := off,
    D_parser_to_alloc := D_parser_to_alloc s @ mark_last ds\<rparr>"
  using assms
proof (induction ds arbitrary: s k)
  case (Cons d ds)
  have k: "scast (parser_offset s) = (of_nat k :: 64 word)" using Cons.prems by (simp add: scast_of_nat_less)
  have nr: "pi_nr_units (parser_pi s) - 1 = of_nat (k + length ds)" using Cons.prems(5) by simp
  show ?case
  proof (cases "ds = []")
    case True
    have "scast (parser_offset s) = pi_nr_units (parser_pi s) - 1" using k nr True by simp
    then show ?thesis
      using Cons.prems(1,2) True
      by (cases "na_last d = 1") (auto simp: parser_def mark_last_def swrite_def intro: exI [of _ "parser_offset s"])
  next
    case False
    have "k + length ds < 2 ^ 64" "k < 2 ^ 64" using Cons.prems(6) by simp_all
    then have "(of_nat k :: 64 word) \<noteq> of_nat (k + length ds)"
      using False by (auto simp: word_of_nat_eq_0_iff dest: dvd_imp_le)
    then have ne: "scast (parser_offset s) \<noteq> pi_nr_units (parser_pi s) - 1" using k nr by simp
    have "na_last d \<noteq> 1" using Cons.prems(7) False by simp
    with ne have step: "parser s = s\<lparr>D_buffer_to_parser := ds @ rest, parser_offset := of_nat (Suc k),
        D_parser_to_alloc := D_parser_to_alloc s @ [d]\<rparr>"
      using Cons.prems(1,2,4) by (simp add: parser_def swrite_def add.commute)
    have "\<exists>off. (parser ^^ length ds) (parser s) = (parser s)\<lparr>D_buffer_to_parser := rest, parser_state := PARSER_ETH_HEADER,
        parser_offset := off, D_parser_to_alloc := D_parser_to_alloc (parser s) @ mark_last ds\<rparr>"
      by (rule Cons.IH [of _ "Suc k"]) (use Cons.prems False in \<open>simp_all add: step\<close>)
    then show ?thesis
      using False by (auto simp: step mark_last_def funpow_swap1 simp flip: funpow_Suc_right)
  qed
qed simp


lemma parser_packet:
  assumes "parser_state s = PARSER_ETH_HEADER" and "D_buffer_to_parser s = packet_units p @ rest" and "packet_ok p"
  shows "\<exists>off. (parser ^^ length (packet_units p)) s = s\<lparr>D_buffer_to_parser := rest, parser_offset := off,
    parser_state := PARSER_ETH_HEADER, parser_pi := packet_pi (parser_pi s) (nr_rdm_packet s) p, nr_rdm_packet := nr_rdm_packet s + 1,
    PI_parser_to_alloc := PI_parser_to_alloc s @ [packet_pi (parser_pi s) (nr_rdm_packet s) p],
    D_parser_to_alloc := D_parser_to_alloc s @ mark_last (pk_data p)\<rparr>"
proof -
  let ?pi = "packet_pi (parser_pi s) (nr_rdm_packet s) p"
  let ?w = "get_hdr_opcode (pk_app p) = APP_RDMA_OPCODE_WRITE"
  let ?s2 = "s\<lparr>D_buffer_to_parser := pk_data p @ rest, parser_pi := ?pi, parser_offset := 0, nr_rdm_packet := nr_rdm_packet s + 1,
    parser_state := if ?w then PARSER_STREAM else PARSER_ETH_HEADER, PI_parser_to_alloc := PI_parser_to_alloc s @ [?pi]\<rparr>"
  have two: "parser (parser s) = ?s2"
    using assms(1,2) by (simp add: parser_def packet_units_def packet_pi_def Let_def swrite_def)
  have "(parser ^^ length (packet_units p)) s = (parser ^^ length (pk_data p)) ?s2"
    by (simp add: packet_units_def funpow_swap1 two)
  also have "\<exists>off. \<dots> = s\<lparr>D_buffer_to_parser := rest, parser_offset := off, parser_state := PARSER_ETH_HEADER, parser_pi := ?pi, nr_rdm_packet := nr_rdm_packet s + 1,
    PI_parser_to_alloc := PI_parser_to_alloc s @ [?pi], D_parser_to_alloc := D_parser_to_alloc s @ mark_last (pk_data p)\<rparr>"
  proof (cases ?w)
    case False
    with assms(1,3) show ?thesis by (cases s) (auto simp: packet_ok_def mark_last_def intro!: exI [of _ 0])
  next
    case True
    with assms(3) have ok: "pk_data p \<noteq> []" "length (pk_data p) \<le> 2 ^ 31" "\<forall>d \<in> set (butlast (pk_data p)). na_last d \<noteq> 1"
      "pi_nr_units ?pi = of_nat (length (pk_data p))"
      by (auto simp: packet_ok_def packet_pi_def parse_nr_units [of "parser_pi s\<lparr>pi_nr_packet := _, pi_eth_header := _\<rparr>"])
    have "\<exists>off. (parser ^^ length (pk_data p)) ?s2 = ?s2\<lparr>D_buffer_to_parser := rest, parser_state := PARSER_ETH_HEADER, parser_offset := off,
        D_parser_to_alloc := D_parser_to_alloc ?s2 @ mark_last (pk_data p)\<rparr>"
      by (rule parser_stream [where k = 0]) (use ok True in simp_all)
    then obtain off where "(parser ^^ length (pk_data p)) ?s2 = ?s2\<lparr>D_buffer_to_parser := rest, parser_state := PARSER_ETH_HEADER, parser_offset := off,
        D_parser_to_alloc := D_parser_to_alloc ?s2 @ mark_last (pk_data p)\<rparr>" ..
    then show ?thesis by (intro exI [of _ off]) simp
  qed
  finally show ?thesis .
qed

text \<open>The state of the shared stages at power-up.\<close>

definition rdm_init :: rdm_st where
  "rdm_init = \<lparr>parser_state = PARSER_ETH_HEADER, parser_pi = pi_zero, parser_offset = 0, nr_rdm_packet = 1,
     alloc_state = ALLOC_IDLE, alloc_pi = pi_zero, alloc_va_next = 0x1000, map_state = MAP_IDLE, map_pi = pi_zero,
     access_state = ACCESS_IDLE, access_pi = pi_zero, access_offset = 0, wr_state = DRAM_DM_IDLE, wr_nr_written = 0, wr_nr_units = 0,
     PI_parser_to_alloc = [], PI_alloc_to_map = [], PI_map_to_access = [], PI_access_to_reply = [],
     D_buffer_to_parser = [], D_parser_to_alloc = [], D_alloc_to_map = [], D_access_to_reply = [],
     fifo_DRAM_rd_cmd = [], fifo_DRAM_wr_cmd = [], fifo_DRAM_rd_data = [], fifo_DRAM_wr_data = [],
     from_net = [], to_net = [], alloc_req = [], alloc_ret = [], DRAM_rd_cmd = [], DRAM_wr_cmd = [], DRAM_rd_data = [],
     DRAM_wr_data = [], DRAM_rd_status = [], DRAM_wr_status = []\<rparr>"

text \<open>A write of 100 bytes to address \<open>0x1000\<close>, which takes two units, and a read.\<close>

definition example_write :: packet where
  "example_write = \<lparr>pk_eth = net_axis_512_zero,
     pk_app = set_hdr_length (set_hdr_address (set_hdr_opcode net_axis_512_zero APP_RDMA_OPCODE_WRITE) 0x1000) 100,
     pk_data = [net_axis_512_zero\<lparr>na_data := 7\<rparr>, net_axis_512_zero\<lparr>na_data := 8\<rparr>]\<rparr>"

definition example_read :: packet where
  "example_read = \<lparr>pk_eth = net_axis_512_zero,
     pk_app = set_hdr_length (set_hdr_address (set_hdr_opcode net_axis_512_zero APP_RDMA_OPCODE_READ) 0x1000) 64, pk_data = []\<rparr>"

lemma example_packets_ok: "packet_ok example_write" "packet_ok example_read"
proof -
  have "round_up (round_up 100 64) 64 div 64 = 2" by (simp add: round_up_def)
  then show "packet_ok example_write"
    by (simp add: packet_ok_def example_write_def parse_app_header_def Let_def NR_BYTES_AXIS_512_def opcode_defs net_axis_512_zero_def)
  show "packet_ok example_read" by (simp add: packet_ok_def example_read_def opcode_defs)
qed

text \<open>C8: The parser inverts packet framing: from a stream of well-formed packets it recovers, in order and numbered
  consecutively, one request per packet with the packet's opcode, address and rounded length, and exactly the data units of
  the writes, the final one of each marked as last; it ends ready for the next packet.\<close>

theorem parser_roundtrip:
  assumes "parser_state s = PARSER_ETH_HEADER" and "D_buffer_to_parser s = concat (map packet_units ps) @ rest"
    and "\<forall>p \<in> set ps. packet_ok p"
  shows "\<exists>s'. (parser ^^ length (concat (map packet_units ps))) s = s' \<and> parser_state s' = PARSER_ETH_HEADER \<and>
    D_buffer_to_parser s' = rest \<and> PI_parser_to_alloc s' = PI_parser_to_alloc s @ packet_pis (parser_pi s) (nr_rdm_packet s) ps \<and>
    D_parser_to_alloc s' = D_parser_to_alloc s @ concat (map (mark_last \<circ> pk_data) ps)"
  using assms
proof (induction ps arbitrary: s)
  case (Cons p ps)
  let ?rest = "concat (map packet_units ps) @ rest"
  obtain s1 where s1: "(parser ^^ length (packet_units p)) s = s1" "parser_state s1 = PARSER_ETH_HEADER" "D_buffer_to_parser s1 = ?rest"
      "parser_pi s1 = packet_pi (parser_pi s) (nr_rdm_packet s) p" "nr_rdm_packet s1 = nr_rdm_packet s + 1"
      "PI_parser_to_alloc s1 = PI_parser_to_alloc s @ [packet_pi (parser_pi s) (nr_rdm_packet s) p]"
      "D_parser_to_alloc s1 = D_parser_to_alloc s @ mark_last (pk_data p)"
    using parser_packet [of s p ?rest] Cons.prems by auto
  have "(parser ^^ length (concat (map packet_units (p # ps)))) s = (parser ^^ length (concat (map packet_units ps))) s1"
    by (simp add: add.commute [of "length (packet_units p)"] funpow_add s1(1))
  with Cons.IH [of s1] s1 Cons.prems(3) show ?case by auto
qed simp


theorem parser_roundtrip_witness:
  "\<exists>s'. (parser ^^ 6) (rdm_init\<lparr>D_buffer_to_parser := packet_units example_write @ packet_units example_read\<rparr>) = s' \<and>
     parser_state s' = PARSER_ETH_HEADER \<and> PI_parser_to_alloc s' = [packet_pi pi_zero 1 example_write, packet_pi pi_zero 2 example_read] \<and>
     D_parser_to_alloc s' = [net_axis_512_zero\<lparr>na_data := 7\<rparr>, net_axis_512_zero\<lparr>na_data := 8, na_last := 1\<rparr>]"
proof -
  let ?ps = "[example_write, example_read]"
  let ?s = "rdm_init\<lparr>D_buffer_to_parser := packet_units example_write @ packet_units example_read\<rparr>"
  have s: "parser_state ?s = PARSER_ETH_HEADER" "parser_pi ?s = pi_zero" "nr_rdm_packet ?s = 1" "PI_parser_to_alloc ?s = []" "D_parser_to_alloc ?s = []"
    by (simp_all add: rdm_init_def)
  have n: "length (concat (map packet_units ?ps)) = 6"
    by (simp add: packet_units_def example_write_def example_read_def)
  have d: "concat (map (mark_last \<circ> pk_data) ?ps) = [net_axis_512_zero\<lparr>na_data := 7\<rparr>, net_axis_512_zero\<lparr>na_data := 8, na_last := 1\<rparr>]"
    by (simp add: mark_last_def example_write_def example_read_def)
  have "D_buffer_to_parser ?s = concat (map packet_units ?ps) @ []" by simp
  from parser_roundtrip [OF s(1) this] example_packets_ok show ?thesis unfolding n d s by simp
qed

end
