(* ===== verification/Rdm_Reply.thy ===== *)
theory Rdm_Reply
  imports Rdm_Parser
begin

unbundle bit_operations_syntax

text \<open>
  What the access stage sends back, what the write pipe sends to the datamover, and the virtual
  addresses the application hands out.
\<close>

section \<open>Replies\<close>

definition read_units :: "512 word list \<Rightarrow> net_axis_512 list" where
  "read_units ws = (if ws = [] then [] else map (\<lambda>w. read_unit w False) (butlast ws) @ [read_unit (last ws) True])"

lemma read_units_Cons: "ws \<noteq> [] \<Longrightarrow> read_units (w # ws) = read_unit w False # read_units ws"
  by (simp add: read_units_def)

lemma of_nat_neq_0: "0 < n \<Longrightarrow> n < 2 ^ LENGTH('a) \<Longrightarrow> of_nat n \<noteq> (0 :: 'a::len word)"
  by (auto simp: word_of_nat_eq_0_iff dest: dvd_imp_le)

lemma of_nat_add_neq: "0 < n \<Longrightarrow> n < 2 ^ LENGTH('a) \<Longrightarrow> of_nat k \<noteq> (of_nat (k + n) :: 'a::len word)"
  using of_nat_neq_0 [of n] by simp

lemma access_read_units:
  assumes "access_state s = ACCESS_READ" and "fifo_DRAM_rd_data s = ws @ tail" and "ws \<noteq> []"
    and "access_offset s = of_nat k" and "pi_nr_units (access_pi s) = of_nat (k + length ws)" and "k + length ws < 2 ^ 31"
  shows "\<exists>off. (access_stage ^^ length ws) s = s\<lparr>fifo_DRAM_rd_data := tail, access_offset := off, access_state := ACCESS_IDLE,
    D_access_to_reply := D_access_to_reply s @ read_units ws\<rparr>"
  using assms
proof (induction ws arbitrary: s k)
  case (Cons w ws)
  have "scast (of_nat (Suc k) :: 32 word) = (of_nat (Suc k) :: 64 word)"
    using Cons.prems(6) by (intro scast_of_nat_less) simp
  then have off: "scast (access_offset s + 1) = (of_nat (Suc k) :: 64 word)" using Cons.prems(4) by (simp add: add.commute)
  show ?case
  proof (cases "ws = []")
    case True
    then have "scast (access_offset s + 1) = pi_nr_units (access_pi s)" using off Cons.prems(5) by simp
    then show ?thesis
      using Cons.prems(1,2) True by (auto simp: access_stage_def access_read_def Let_def swrite_def read_units_def)
  next
    case False
    have "(of_nat (Suc k) :: 64 word) \<noteq> of_nat (Suc k + length ws)"
      using False Cons.prems(6) by (intro of_nat_add_neq) auto
    then have "scast (access_offset s + 1) \<noteq> pi_nr_units (access_pi s)" unfolding off Cons.prems(5) by simp
    then have step: "access_stage s = s\<lparr>fifo_DRAM_rd_data := ws @ tail, access_offset := of_nat (Suc k), access_state := ACCESS_READ,
        D_access_to_reply := D_access_to_reply s @ [read_unit w False]\<rparr>"
      using Cons.prems(1,2,4) by (simp add: access_stage_def access_read_def Let_def swrite_def add.commute)
    have "\<exists>off. (access_stage ^^ length ws) (access_stage s) = (access_stage s)\<lparr>fifo_DRAM_rd_data := tail, access_offset := off, access_state := ACCESS_IDLE, D_access_to_reply := D_access_to_reply (access_stage s) @ read_units ws\<rparr>"
      by (rule Cons.IH [of _ "Suc k"]) (use Cons.prems False in \<open>simp_all add: step\<close>)
    then show ?thesis
      using False by (auto simp: step read_units_Cons funpow_swap1)
  qed
qed simp

text \<open>The reply to a request: its Ethernet header, its rewritten header unit and the data of a read.\<close>

definition reply_units :: "pipeline_info \<Rightarrow> 512 word list \<Rightarrow> net_axis_512 list" where
  "reply_units pi ws = pi_eth_header pi # fst (reply_header pi) # read_units ws"

definition read_granted :: "pipeline_info \<Rightarrow> bool" where
  "read_granted pi \<longleftrightarrow> pi_opcode pi = APP_RDMA_OPCODE_READ \<and> pi_map_status pi = PI_MAP_SUCCEED"

definition request_ok :: "pipeline_info \<Rightarrow> 512 word list \<Rightarrow> bool" where
  "request_ok pi ws \<longleftrightarrow>
     pi_opcode pi \<in> {APP_RDMA_OPCODE_READ, APP_RDMA_OPCODE_WRITE, APP_RDMA_OPCODE_ALLOC} \<and>
     (if read_granted pi then ws \<noteq> [] \<and> length ws < 2 ^ 31 \<and> pi_nr_units pi = of_nat (length ws) else ws = [])"

lemma reply_header_state:
  "request_ok pi ws \<Longrightarrow> snd (reply_header pi) = (if read_granted pi then ACCESS_READ else ACCESS_IDLE)"
  by (auto simp: request_ok_def read_granted_def reply_header_def Let_def opcode_defs)

lemma reply_header_fields:
  assumes "request_ok pi ws"
  shows "get_hdr_packet (fst (reply_header pi)) = pi_nr_packet pi"
    and "na_last (fst (reply_header pi)) = (if read_granted pi then 0 else 1)"
  using assms by (auto simp: request_ok_def read_granted_def reply_header_def Let_def opcode_defs)

lemma access_request:
  assumes "access_state s = ACCESS_IDLE" and "PI_map_to_access s = pi # rest" and "request_ok pi ws"
    and "fifo_DRAM_rd_data s = ws @ tail"
  shows "\<exists>s'. (access_stage ^^ length (reply_units pi ws)) s = s' \<and> access_state s' = ACCESS_IDLE \<and> PI_map_to_access s' = rest \<and>
    fifo_DRAM_rd_data s' = tail \<and> D_access_to_reply s' = D_access_to_reply s @ reply_units pi ws"
proof -
  let ?h = "fst (reply_header pi)"
  let ?s2 = "s\<lparr>PI_map_to_access := rest, access_pi := pi\<lparr>pi_app_header := ?h\<rparr>, access_offset := 0,
    D_access_to_reply := D_access_to_reply s @ [pi_eth_header pi, ?h], access_state := snd (reply_header pi)\<rparr>"
  have two: "access_stage (access_stage s) = ?s2"
    using assms(1,2) by (simp add: access_stage_def access_idle_def access_out_app_def swrite_def split: prod.split)
  have "(access_stage ^^ length (reply_units pi ws)) s = (access_stage ^^ length ws) ?s2"
    by (auto simp: reply_units_def read_units_def funpow_swap1 two)
  also have "\<exists>s'. \<dots> = s' \<and> access_state s' = ACCESS_IDLE \<and> PI_map_to_access s' = rest \<and>
    fifo_DRAM_rd_data s' = tail \<and> D_access_to_reply s' = D_access_to_reply s @ reply_units pi ws"
  proof (cases "read_granted pi")
    case False
    then show ?thesis using assms(3,4) reply_header_state [OF assms(3)] by (simp add: request_ok_def reply_units_def read_units_def)
  next
    case True
    have "\<exists>off. (access_stage ^^ length ws) ?s2 = ?s2\<lparr>fifo_DRAM_rd_data := tail, access_offset := off, access_state := ACCESS_IDLE,
        D_access_to_reply := D_access_to_reply ?s2 @ read_units ws\<rparr>"
      by (rule access_read_units [where k = 0]) (use True assms(3,4) reply_header_state [OF assms(3)] in \<open>simp_all add: request_ok_def\<close>)
    then show ?thesis by (auto simp: reply_units_def)
  qed
  finally show ?thesis .
qed

text \<open>C20: A read, write or allocation request that the access stage takes is answered by exactly one packet: the request's
  Ethernet header, a header unit and, for a translated read, the words read from DRAM in their order. The header unit carries the
  number of the request, and only the final unit of the packet is marked as last. The opcode says whether an allocation succeeded
  and whether a read could be translated; a write is answered with the one reply opcode for writes, translated or not. Requests
  with another opcode do not come this far, and a translated read has at least one unit and fewer than \<open>2^31\<close>: the reply
  to a translated read without units does not end, as \<open>read_zero_length_endless\<close> shows below.\<close>

theorem access_reply_framing:
  assumes "access_state s = ACCESS_IDLE" and "PI_map_to_access s = pi # rest" and "request_ok pi ws"
    and "fifo_DRAM_rd_data s = ws @ tail"
  shows "\<exists>s' h. (access_stage ^^ length (reply_units pi ws)) s = s' \<and> access_state s' = ACCESS_IDLE \<and> PI_map_to_access s' = rest \<and>
    fifo_DRAM_rd_data s' = tail \<and> D_access_to_reply s' = D_access_to_reply s @ pi_eth_header pi # h # read_units ws \<and>
    get_hdr_packet h = pi_nr_packet pi \<and>
    get_hdr_opcode h =
      (if pi_opcode pi = APP_RDMA_OPCODE_ALLOC
       then (if pi_alloc_status pi = PI_ALLOC_SUCCEED then APP_RDMA_OPCODE_REPLY_ALLOC else APP_RDMA_OPCODE_REPLY_ALLOC_ERROR)
       else if pi_opcode pi = APP_RDMA_OPCODE_WRITE then APP_RDMA_OPCODE_REPLY_WRITE
       else if pi_map_status pi = PI_MAP_SUCCEED then APP_RDMA_OPCODE_REPLY_READ else APP_RDMA_OPCODE_REPLY_READ_ERROR) \<and>
    filter (\<lambda>d. na_last d = 1) (h # read_units ws) = [last (h # read_units ws)]"
proof -
  let ?h = "fst (reply_header pi)"
  have op: "get_hdr_opcode ?h =
      (if pi_opcode pi = APP_RDMA_OPCODE_ALLOC
       then (if pi_alloc_status pi = PI_ALLOC_SUCCEED then APP_RDMA_OPCODE_REPLY_ALLOC else APP_RDMA_OPCODE_REPLY_ALLOC_ERROR)
       else if pi_opcode pi = APP_RDMA_OPCODE_WRITE then APP_RDMA_OPCODE_REPLY_WRITE
       else if pi_map_status pi = PI_MAP_SUCCEED then APP_RDMA_OPCODE_REPLY_READ else APP_RDMA_OPCODE_REPLY_READ_ERROR)"
    using assms(3) by (auto simp: request_ok_def reply_header_def Let_def opcode_defs)
  have fl: "filter (\<lambda>d. na_last d = 1) (read_units ws) = (if ws = [] then [] else [last (read_units ws)])"
    by (auto simp: read_units_def read_unit_def filter_empty_conv)
  have "filter (\<lambda>d. na_last d = 1) (?h # read_units ws) = [last (?h # read_units ws)]"
    using reply_header_fields(2) [OF assms(3)] assms(3) fl by (auto simp: request_ok_def read_units_def split: if_splits)
  with access_request [OF assms] op reply_header_fields(1) [OF assms(3)] show ?thesis
    unfolding reply_units_def by blast
qed


theorem access_reply_framing_witness:
  "\<exists>s' h. (access_stage ^^ 3) (rdm_init\<lparr>PI_map_to_access := [pi_zero\<lparr>pi_nr_units := 1, pi_nr_packet := 5\<rparr>], fifo_DRAM_rd_data := [9]\<rparr>) = s' \<and>
     D_access_to_reply s' = [net_axis_512_zero, h, read_unit 9 True] \<and> get_hdr_packet h = 5 \<and> get_hdr_opcode h = APP_RDMA_OPCODE_REPLY_READ"
proof -
  let ?pi = "pi_zero\<lparr>pi_nr_units := 1, pi_nr_packet := 5\<rparr>"
  let ?s = "rdm_init\<lparr>PI_map_to_access := [?pi], fifo_DRAM_rd_data := [9]\<rparr>"
  have s: "access_state ?s = ACCESS_IDLE" "PI_map_to_access ?s = [?pi]" "fifo_DRAM_rd_data ?s = [9] @ []" "D_access_to_reply ?s = []"
    by (simp_all add: rdm_init_def)
  have ok: "request_ok ?pi [9]" by (simp add: request_ok_def read_granted_def pi_zero_def opcode_defs PI_MAP_SUCCEED_def)
  have n: "length (reply_units ?pi [9]) = 3" by (simp add: reply_units_def read_units_def)
  have u: "read_units [9] = [read_unit 9 True]" by (simp add: read_units_def)
  have pi: "pi_eth_header ?pi = net_axis_512_zero" "pi_nr_packet ?pi = 5" "pi_opcode ?pi = APP_RDMA_OPCODE_READ" "pi_map_status ?pi = PI_MAP_SUCCEED"
    by (simp_all add: pi_zero_def opcode_defs PI_MAP_SUCCEED_def)
  from access_reply_framing [OF s(1,2) ok s(3)] show ?thesis
    unfolding n u s pi by (simp add: opcode_defs) blast
qed

section \<open>Reads of length zero\<close>

lemma nr_units_zero: "get_hdr_length d = 0 \<Longrightarrow> pi_nr_units (parse_app_header pi d) = 0"
  by (simp add: parse_app_header_def Let_def round_up_def NR_BYTES_AXIS_512_def)

lemma scast_32_eq_0: "scast x = (0 :: 64 word) \<longleftrightarrow> x = 0" for x :: "32 word"
proof
  assume z: "scast x = (0 :: 64 word)"
  have "bit x n = bit (0 :: 32 word) n" if "n < 32" for n
    using arg_cong [where f = "\<lambda>w. bit w n", OF z] that
    by (cases "n = 31") (auto simp: bit_simps min_def split: if_splits)
  then show "x = 0" by (intro bit_word_eqI) simp
qed simp

lemma access_read_endless:
  assumes "access_state s = ACCESS_READ" and "fifo_DRAM_rd_data s = ws @ tail" and "access_offset s = of_nat k"
    and "pi_nr_units (access_pi s) = 0" and "k + length ws < 2 ^ 32"
  shows "(access_stage ^^ length ws) s = s\<lparr>fifo_DRAM_rd_data := tail, access_offset := of_nat (k + length ws), access_state := ACCESS_READ,
    D_access_to_reply := D_access_to_reply s @ map (\<lambda>w. read_unit w False) ws\<rparr>"
  using assms
proof (induction ws arbitrary: s k)
  case Nil
  then show ?case by (cases s) simp
next
  case (Cons w ws)
  have "(of_nat (Suc k) :: 32 word) \<noteq> 0" using Cons.prems(5) by (intro of_nat_neq_0) auto
  then have "scast (of_nat (Suc k) :: 32 word) \<noteq> (0 :: 64 word)"
    by (simp only: scast_32_eq_0 not_False_eq_True)
  then have step: "access_stage s = s\<lparr>fifo_DRAM_rd_data := ws @ tail, access_offset := of_nat (Suc k), access_state := ACCESS_READ,
      D_access_to_reply := D_access_to_reply s @ [read_unit w False]\<rparr>"
    using Cons.prems(1-4) by (simp add: access_stage_def access_read_def Let_def swrite_def add.commute)
  have "(access_stage ^^ length ws) (access_stage s) = (access_stage s)\<lparr>fifo_DRAM_rd_data := tail, access_offset := of_nat (Suc k + length ws),
      access_state := ACCESS_READ, D_access_to_reply := D_access_to_reply (access_stage s) @ map (\<lambda>w. read_unit w False) ws\<rparr>"
    by (rule Cons.IH) (use Cons.prems in \<open>simp_all add: step\<close>)
  then show ?case by (simp add: step funpow_swap1)
qed


text \<open>A read whose header asks for zero bytes has zero units, and its reply does not end: whatever data DRAM delivers, for up to
  \<open>2^32 - 1\<close> words (the data of later reads included) the stage forwards it without ever marking a unit as last.\<close>

theorem read_zero_length_endless:
  assumes "access_state s = ACCESS_READ" and "access_pi s = (parse_app_header pi d)\<lparr>pi_app_header := h\<rparr>" and "get_hdr_length d = 0"
    and "access_offset s = 0" and "fifo_DRAM_rd_data s = ws @ tail" and "length ws < 2 ^ 32"
  shows "access_state ((access_stage ^^ length ws) s) = ACCESS_READ \<and>
    D_access_to_reply ((access_stage ^^ length ws) s) = D_access_to_reply s @ map (\<lambda>w. read_unit w False) ws"
  using access_read_endless [of s ws tail 0] assms nr_units_zero [OF assms(3), of pi] by simp

theorem read_zero_length_endless_witness:
  "D_access_to_reply ((access_stage ^^ 2) (rdm_init\<lparr>access_state := ACCESS_READ,
     access_pi := (parse_app_header pi_zero net_axis_512_zero)\<lparr>pi_app_header := net_axis_512_zero\<rparr>, fifo_DRAM_rd_data := [7, 8]\<rparr>)) =
   [read_unit 7 False, read_unit 8 False]"
proof -
  let ?s = "rdm_init\<lparr>access_state := ACCESS_READ,
     access_pi := (parse_app_header pi_zero net_axis_512_zero)\<lparr>pi_app_header := net_axis_512_zero\<rparr>, fifo_DRAM_rd_data := [7, 8]\<rparr>"
  have "access_state ?s = ACCESS_READ" "access_pi ?s = (parse_app_header pi_zero net_axis_512_zero)\<lparr>pi_app_header := net_axis_512_zero\<rparr>"
    "get_hdr_length net_axis_512_zero = 0" "access_offset ?s = 0" "fifo_DRAM_rd_data ?s = [7, 8] @ []" "length [7 :: 512 word, 8] < 2 ^ 32"
    by (simp_all add: rdm_init_def get_hdr_length_def net_axis_512_zero_def)
  from read_zero_length_endless [OF this] show ?thesis by (simp add: rdm_init_def numeral_2_eq_2)
qed

section \<open>Bursts to DRAM\<close>

definition burst :: "512 word list \<Rightarrow> axis_mem list" where
  "burst ws = (if ws = [] then []
     else map (\<lambda>w. \<lparr>am_data = w, am_keep = 0xFFFFFFFFFFFFFFFF, am_last = 0\<rparr>) (butlast ws) @
       [\<lparr>am_data = last ws, am_keep = 0xFFFFFFFFFFFFFFFF, am_last = 1\<rparr>])"

definition open_ports :: port_full where
  "open_ports = \<lparr>full_rd_cmd = False, full_wr_cmd = False, full_wr_data = False\<rparr>"

lemma wr_pipe_stream:
  assumes "wr_state s = DRAM_DM_STRAM" and "fifo_DRAM_wr_data s = ws @ tail" and "ws \<noteq> []" and "wr_nr_written s = of_nat k"
    and "wr_nr_units s = of_nat (k + length ws)" and "length ws < 2 ^ 32"
  shows "\<exists>n. (DRAM_wr_pipe open_ports ^^ length ws) s = s\<lparr>fifo_DRAM_wr_data := tail, wr_nr_written := n, wr_state := DRAM_DM_IDLE,
    DRAM_wr_data := DRAM_wr_data s @ burst ws\<rparr>"
  using assms
proof (induction ws arbitrary: s k)
  case (Cons w ws)
  have k: "wr_nr_written s + 1 = of_nat (Suc k)" using Cons.prems(4) by (simp add: add.commute)
  show ?case
  proof (cases "ws = []")
    case True
    then have "wr_nr_written s + 1 = wr_nr_units s" using k Cons.prems(5) by simp
    then show ?thesis
      using Cons.prems(1,2) True by (auto simp: DRAM_wr_pipe_def Let_def swrite_def burst_def open_ports_def)
  next
    case False
    have "(of_nat (Suc k) :: 32 word) \<noteq> of_nat (Suc k + length ws)"
      using False Cons.prems(6) by (intro of_nat_add_neq) auto
    then have "wr_nr_written s + 1 \<noteq> wr_nr_units s" unfolding k Cons.prems(5) by simp
    then have step: "DRAM_wr_pipe open_ports s = s\<lparr>fifo_DRAM_wr_data := ws @ tail, wr_nr_written := of_nat (Suc k), wr_state := DRAM_DM_STRAM,
        DRAM_wr_data := DRAM_wr_data s @ [\<lparr>am_data = w, am_keep = 0xFFFFFFFFFFFFFFFF, am_last = 0\<rparr>]\<rparr>"
      using Cons.prems(1,2) k by (simp add: DRAM_wr_pipe_def Let_def swrite_def open_ports_def del: of_nat_Suc)
    have "\<exists>n. (DRAM_wr_pipe open_ports ^^ length ws) (DRAM_wr_pipe open_ports s) = (DRAM_wr_pipe open_ports s)\<lparr>fifo_DRAM_wr_data := tail,
        wr_nr_written := n, wr_state := DRAM_DM_IDLE, DRAM_wr_data := DRAM_wr_data (DRAM_wr_pipe open_ports s) @ burst ws\<rparr>"
      by (rule Cons.IH [of _ "Suc k"]) (use Cons.prems False in \<open>simp_all add: step\<close>)
    then show ?thesis using False by (auto simp: step burst_def funpow_swap1)
  qed
qed simp

text \<open>C29: For each write command the write pipe sends the datamover one command word and then exactly as many data beats as the command
  has units, in order, with the end mark on the final beat only, and is then ready for the next command.\<close>

theorem write_pipe_burst:
  assumes "wr_state s = DRAM_DM_IDLE" and "fifo_DRAM_wr_cmd s = c # cs" and "fifo_DRAM_wr_data s = ws @ tail"
    and "ws \<noteq> []" and "mc_nr_units c = of_nat (length ws)" and "length ws < 2 ^ 32"
  shows "\<exists>s'. (DRAM_wr_pipe open_ports ^^ Suc (length ws)) s = s' \<and> wr_state s' = DRAM_DM_IDLE \<and> fifo_DRAM_wr_cmd s' = cs \<and>
    fifo_DRAM_wr_data s' = tail \<and> DRAM_wr_cmd s' = DRAM_wr_cmd s @ [dm_word c] \<and> DRAM_wr_data s' = DRAM_wr_data s @ burst ws"
proof -
  let ?s = "s\<lparr>fifo_DRAM_wr_cmd := cs, wr_nr_written := 0, wr_nr_units := mc_nr_units c, DRAM_wr_cmd := swrite (DRAM_wr_cmd s) (dm_word c),
    wr_state := DRAM_DM_STRAM, DRAM_wr_status := tl (DRAM_wr_status s)\<rparr>"
  have one: "DRAM_wr_pipe open_ports s = ?s" using assms(1,2) by (simp add: DRAM_wr_pipe_def open_ports_def)
  have "\<exists>n. (DRAM_wr_pipe open_ports ^^ length ws) ?s = ?s\<lparr>fifo_DRAM_wr_data := tail, wr_nr_written := n, wr_state := DRAM_DM_IDLE,
      DRAM_wr_data := DRAM_wr_data ?s @ burst ws\<rparr>"
    by (rule wr_pipe_stream [where k = 0]) (use assms in simp_all)
  then obtain n where "(DRAM_wr_pipe open_ports ^^ length ws) (DRAM_wr_pipe open_ports s) = ?s\<lparr>fifo_DRAM_wr_data := tail, wr_nr_written := n,
      wr_state := DRAM_DM_IDLE, DRAM_wr_data := DRAM_wr_data ?s @ burst ws\<rparr>" unfolding one ..
  then show ?thesis by (simp add: funpow_swap1 swrite_def)
qed

theorem write_pipe_burst_witness:
  "\<exists>s'. (DRAM_wr_pipe open_ports ^^ 3) (rdm_init\<lparr>fifo_DRAM_wr_cmd := [\<lparr>mc_address = 0x1000, mc_length = 128, mc_nr_units = 2\<rparr>],
     fifo_DRAM_wr_data := [7, 8]\<rparr>) = s' \<and> wr_state s' = DRAM_DM_IDLE \<and> map am_data (DRAM_wr_data s') = [7, 8] \<and> map am_last (DRAM_wr_data s') = [0, 1]"
proof -
  let ?c = "\<lparr>mc_address = 0x1000, mc_length = 128, mc_nr_units = 2\<rparr>"
  let ?s = "rdm_init\<lparr>fifo_DRAM_wr_cmd := [?c], fifo_DRAM_wr_data := [7, 8]\<rparr>"
  have "wr_state ?s = DRAM_DM_IDLE" "fifo_DRAM_wr_cmd ?s = [?c]" "fifo_DRAM_wr_data ?s = [7, 8] @ []" "[7 :: 512 word, 8] \<noteq> []"
    "mc_nr_units ?c = of_nat (length [7 :: 512 word, 8])" "length [7 :: 512 word, 8] < 2 ^ 32" by (simp_all add: rdm_init_def)
  from write_pipe_burst [OF this] have "\<exists>s'. (DRAM_wr_pipe open_ports ^^ 3) ?s = s' \<and> wr_state s' = DRAM_DM_IDLE \<and> DRAM_wr_data s' = burst [7, 8]"
    by (auto simp: numeral_3_eq_3 rdm_init_def)
  then show ?thesis by (auto simp: burst_def)
qed


section \<open>Virtual addresses\<close>

text \<open>The addresses handed out for a list of lengths.\<close>

fun va_blocks :: "64 word \<Rightarrow> 64 word list \<Rightarrow> (64 word \<times> 64 word) list" where
  "va_blocks next [] = []"
| "va_blocks next (len # lens) = (let (va, next) = rdm_alloc_va next len in (va, len) # va_blocks next lens)"

lemma page_round:
  assumes "0 < unat len" and "unat len + 4096 \<le> 2 ^ 64"
  shows "4096 dvd unat (round_up len RDM_VA_PAGE_SIZE)" and "unat len \<le> unat (round_up len RDM_VA_PAGE_SIZE)"
    and "unat (round_up len RDM_VA_PAGE_SIZE) < unat len + 4096"
  using round_up_bounds [of 12 len] assms by (simp_all add: RDM_VA_PAGE_SIZE_def)

lemma va_blocks_ok:
  assumes "4096 dvd unat next" and "\<forall>len \<in> set lens. 0 < unat len" and "unat next + (\<Sum>len \<leftarrow> lens. unat len + 4096) < 2 ^ 64"
  shows "sorted_wrt (\<lambda>(a, la) (b, lb). unat a + unat la \<le> unat b) (va_blocks next lens) \<and>
    (\<forall>(a, la) \<in> set (va_blocks next lens). 4096 dvd unat a \<and> unat next \<le> unat a)"
  using assms
proof (induction lens arbitrary: "next")
  case (Cons len lens)
  let ?next = "next + round_up len RDM_VA_PAGE_SIZE"
  have b: "4096 dvd unat (round_up len RDM_VA_PAGE_SIZE)" "unat len \<le> unat (round_up len RDM_VA_PAGE_SIZE)"
      "unat (round_up len RDM_VA_PAGE_SIZE) < unat len + 4096"
    using page_round [of len] Cons.prems by simp_all
  have n: "unat ?next = unat next + unat (round_up len RDM_VA_PAGE_SIZE)"
    using b(3) Cons.prems(3) by (simp add: unat_word_ariths(1))
  have "4096 dvd unat ?next" "unat ?next + (\<Sum>len \<leftarrow> lens. unat len + 4096) < 2 ^ 64"
    using b Cons.prems by (simp_all add: n)
  with Cons.IH [of ?next] Cons.prems(2)
  have "sorted_wrt (\<lambda>(a, la) (b, lb). unat a + unat la \<le> unat b) (va_blocks ?next lens)"
    "\<forall>(a, la) \<in> set (va_blocks ?next lens). 4096 dvd unat a \<and> unat ?next \<le> unat a" by simp_all
  then show ?case using Cons.prems(1) b(2) n by (fastforce simp: rdm_alloc_va_def)
qed simp

text \<open>C27: The virtual ranges the application hands out are page aligned and pairwise disjoint, whatever lengths are asked for, as long as
  they fit in the 64-bit address space.\<close>

theorem alloc_va_disjoint:
  assumes "\<forall>len \<in> set lens. 0 < unat len" and "0x1000 + (\<Sum>len \<leftarrow> lens. unat len + 4096) < 2 ^ 64"
  shows "sorted_wrt (\<lambda>(a, la) (b, lb). unat a + unat la \<le> unat b) (va_blocks 0x1000 lens) \<and>
    (\<forall>(a, la) \<in> set (va_blocks 0x1000 lens). 4096 dvd unat a)"
  using va_blocks_ok [of "0x1000" lens] assms by auto

theorem alloc_va_disjoint_witness:
  "va_blocks 0x1000 [64, 5000] = [(0x1000, 64), (0x2000, 5000)] \<and>
   sorted_wrt (\<lambda>(a, la) (b, lb). unat a + unat la \<le> unat b) (va_blocks 0x1000 [64, 5000])"
  using alloc_va_disjoint [of "[64, 5000]"] by (simp add: rdm_alloc_va_def round_up_def RDM_VA_PAGE_SIZE_def)

end
