(* ===== verification/Rdm_Mapping.thy ===== *)
theory Rdm_Mapping
  imports Rdm
begin

text \<open>
  \<open>rdm_mapping\<close>: the remote memory application whose translation stage asks the paging unit.
\<close>

record rdm_mapping_st = rdm_st +
  map_req :: "mapping_request stream"
  map_ret :: "mapping_reply stream"

text \<open>The request to the paging unit: SET for an allocation, GET for the others; \<open>None\<close> when the
  allocation failed.\<close>

definition map_request :: "pipeline_info \<Rightarrow> mapping_request option" where
  "map_request pi =
     (if pi_opcode pi = APP_RDMA_OPCODE_ALLOC
      then (if pi_alloc_status pi = PI_ALLOC_SUCCEED
            then Some \<lparr>mr_address = ucast (pi_alloc_va pi), mr_length = ucast (pi_alloc_pa pi), mr_opcode = MAPPING_SET\<rparr>
            else None)
      else Some \<lparr>mr_address = ucast (pi_va pi), mr_length = 0, mr_opcode = MAPPING_REQUEST_READ\<rparr>)"

definition map_idle :: "rdm_mapping_st \<Rightarrow> rdm_mapping_st" where
  "map_idle s =
     (case PI_alloc_to_map s of
        [] \<Rightarrow> s
      | pi # rest \<Rightarrow>
          (let s = s\<lparr>PI_alloc_to_map := rest, map_pi := pi\<rparr>
           in case map_request pi of
                None \<Rightarrow> s\<lparr>PI_map_to_access := swrite (PI_map_to_access s) pi\<rparr>
              | Some req \<Rightarrow> s\<lparr>map_req := swrite (map_req s) req, map_state := MAP_WAIT_MAP\<rparr>))"

definition map_wait :: "rdm_mapping_st \<Rightarrow> rdm_mapping_st" where
  "map_wait s =
     (case map_ret s of
        [] \<Rightarrow> s
      | ret # rest \<Rightarrow>
          (let s = s\<lparr>map_ret := rest\<rparr>
           in map_forward (if mp_status ret = 0 then map_found (ucast (mp_address ret)) s else map_failed s)))"

definition map_stage :: "rdm_mapping_st \<Rightarrow> rdm_mapping_st" where
  "map_stage s = (case map_state s of MAP_IDLE \<Rightarrow> map_idle s | MAP_WAIT_MAP \<Rightarrow> map_wait s | MAP_STREAM \<Rightarrow> map_stream s)"

definition rdm_mapping :: "port_full \<Rightarrow> rdm_mapping_st \<Rightarrow> rdm_mapping_st" where
  "rdm_mapping f s =
     DRAM_wr_pipe f (DRAM_rd_pipe f (reply (access_stage (map_stage (alloc_address (parser (buffering s)))))))"

end
