(* ===== verification/Rdm_Order.thy ===== *)
theory Rdm_Order
  imports Rdm_Reply Rdm_Mapping "HOL-Library.Sublist"
begin

text \<open>
  The pipeline as a whole: with any behaviour of the network, the allocator, the paging unit and DRAM,
  requests stay in order, and none is handled twice.
\<close>

section \<open>Steps\<close>


definition rdm_mapping_init :: rdm_mapping_st where
  "rdm_mapping_init = rdm_st.extend rdm_init \<lparr>map_req = [], map_ret = []\<rparr>"


section \<open>Requests in flight\<close>










lemma subseq_Cons_same [simp]: "subseq ys (y # ys)"
  by (simp add: list_emb_Cons)











section \<open>Order\<close>











section \<open>Writes\<close>

lemma rdm_mapping_init_fifos: "fifo_DRAM_wr_cmd rdm_mapping_init = []" "fifo_DRAM_wr_data rdm_mapping_init = []"
  by (simp_all add: rdm_mapping_init_def rdm_init_def rdm_st.defs)

lemma map_stream_run:
  assumes "map_state s = MAP_STREAM" and "D_alloc_to_map s = ds @ tail" and "one_packet ds"
  shows "(map_stage ^^ length ds) s = s\<lparr>D_alloc_to_map := tail, fifo_DRAM_wr_data := fifo_DRAM_wr_data s @ map na_data ds, map_state := MAP_IDLE\<rparr>"
  using assms
proof (induction ds arbitrary: s)
  case (Cons d ds)
  show ?case
  proof (cases "ds = []")
    case True
    with Cons.prems show ?thesis by (simp add: map_stage_def map_stream_def one_packet_def swrite_def)
  next
    case False
    then have "na_last d \<noteq> 1" "one_packet ds" using Cons.prems(3) by (simp_all add: one_packet_def)
    then have step: "map_stage s = s\<lparr>D_alloc_to_map := ds @ tail, fifo_DRAM_wr_data := fifo_DRAM_wr_data s @ [na_data d], map_state := MAP_STREAM\<rparr>"
      using Cons.prems(1,2) by (simp add: map_stage_def map_stream_def swrite_def)
    have "(map_stage ^^ length ds) (map_stage s) = (map_stage s)\<lparr>D_alloc_to_map := tail,
        fifo_DRAM_wr_data := fifo_DRAM_wr_data (map_stage s) @ map na_data ds, map_state := MAP_IDLE\<rparr>"
      by (rule Cons.IH) (simp_all add: step \<open>one_packet ds\<close>)
    then show ?thesis by (simp add: step funpow_swap1)
  qed
qed (simp add: one_packet_def)

text \<open>C26: A translated write sends one DRAM command with the translated address and the write's length, and all its data words, in order,
  behind it.\<close>

theorem write_translated:
  assumes "map_state s = MAP_WAIT_MAP" and "pi_opcode (map_pi s) = APP_RDMA_OPCODE_WRITE" and "map_ret s = ret # rets" and "mp_status ret = 0"
    and "D_alloc_to_map s = ds @ tail" and "one_packet ds"
  shows "\<exists>s'. (map_stage ^^ Suc (length ds)) s = s' \<and> map_state s' = MAP_IDLE \<and> D_alloc_to_map s' = tail \<and>
    fifo_DRAM_wr_cmd s' = fifo_DRAM_wr_cmd s @
      [\<lparr>mc_address = ucast (mp_address ret), mc_length = pi_length (map_pi s), mc_nr_units = ucast (pi_nr_units (map_pi s))\<rparr>] \<and>
    fifo_DRAM_wr_data s' = fifo_DRAM_wr_data s @ map na_data ds \<and>
    (\<exists>pi. PI_map_to_access s' = PI_map_to_access s @ [pi] \<and> pi_map_status pi = PI_MAP_SUCCEED)"
proof -
  have one: "map_stage s = map_forward (map_found (ucast (mp_address ret)) (s\<lparr>map_ret := rets\<rparr>))"
    using assms(1,3,4) by (simp add: map_stage_def map_wait_def)
  have "map_state (map_stage s) = MAP_STREAM" "D_alloc_to_map (map_stage s) = ds @ tail"
    using assms(2,5) by (simp_all add: one map_forward_def map_found_def Let_def opcode_defs)
  from map_stream_run [OF this assms(6)] show ?thesis
    unfolding funpow_Suc_right o_apply
    using assms(2) by (simp add: one map_forward_def map_found_def Let_def opcode_defs swrite_def)
qed

theorem write_translated_witness:
  "\<exists>s'. (map_stage ^^ 2) (rdm_mapping_init\<lparr>map_state := MAP_WAIT_MAP, map_pi := pi_zero\<lparr>pi_opcode := 1, pi_length := 64, pi_nr_units := 1\<rparr>,
      map_ret := [\<lparr>mp_status = 0, mp_address = 0x2000, mp_internal_status = 0\<rparr>], D_alloc_to_map := [net_axis_512_zero\<lparr>na_data := 7, na_last := 1\<rparr>]\<rparr>) = s' \<and>
     fifo_DRAM_wr_cmd s' = [\<lparr>mc_address = 0x2000, mc_length = 64, mc_nr_units = 1\<rparr>] \<and> fifo_DRAM_wr_data s' = [7]"
proof -
  let ?d = "net_axis_512_zero\<lparr>na_data := 7, na_last := 1\<rparr>" and ?r = "\<lparr>mp_status = 0, mp_address = 0x2000, mp_internal_status = 0\<rparr>"
  let ?s = "rdm_mapping_init\<lparr>map_state := MAP_WAIT_MAP, map_pi := pi_zero\<lparr>pi_opcode := 1, pi_length := 64, pi_nr_units := 1\<rparr>,
      map_ret := [?r], D_alloc_to_map := [?d]\<rparr>"
  have "map_state ?s = MAP_WAIT_MAP" "pi_opcode (map_pi ?s) = APP_RDMA_OPCODE_WRITE" "map_ret ?s = [?r]" "mp_status ?r = 0"
    "D_alloc_to_map ?s = [?d] @ []" "one_packet [?d]"
    by (simp_all add: opcode_defs one_packet_def)
  note run = write_translated [OF this]
  have "Suc (length [?d]) = 2" by simp
  from run [unfolded this] show ?thesis by (simp add: rdm_mapping_init_fifos del: funpow.simps)
qed

text \<open>A write whose translation fails sends no DRAM command, yet its data words are queued for DRAM all the same (the next write will send
  them as its own), and the client is told \<open>REPLY_WRITE\<close>, as after a write that succeeded.\<close>

theorem write_untranslated_leaves_data:
  assumes "map_state s = MAP_WAIT_MAP" and "pi_opcode (map_pi s) = APP_RDMA_OPCODE_WRITE" and "map_ret s = ret # rets" and "mp_status ret \<noteq> 0"
    and "D_alloc_to_map s = ds @ tail" and "one_packet ds"
  shows "\<exists>s'. (map_stage ^^ Suc (length ds)) s = s' \<and> map_state s' = MAP_IDLE \<and> fifo_DRAM_wr_cmd s' = fifo_DRAM_wr_cmd s \<and>
    fifo_DRAM_wr_data s' = fifo_DRAM_wr_data s @ map na_data ds \<and>
    (\<exists>pi. PI_map_to_access s' = PI_map_to_access s @ [pi] \<and> pi_map_status pi = PI_MAP_FAIL \<and>
      get_hdr_opcode (fst (reply_header pi)) = APP_RDMA_OPCODE_REPLY_WRITE)"
proof -
  have one: "map_stage s = map_forward (map_failed (s\<lparr>map_ret := rets\<rparr>))"
    using assms(1,3,4) by (simp add: map_stage_def map_wait_def)
  have "map_state (map_stage s) = MAP_STREAM" "D_alloc_to_map (map_stage s) = ds @ tail"
    using assms(2,5) by (simp_all add: one map_forward_def map_failed_def)
  from map_stream_run [OF this assms(6)] show ?thesis
    unfolding funpow_Suc_right o_apply
    using assms(2) by (simp add: one map_forward_def map_failed_def swrite_def reply_header_def Let_def opcode_defs)
qed

theorem write_untranslated_leaves_data_witness:
  "\<exists>s'. (map_stage ^^ 2) (rdm_mapping_init\<lparr>map_state := MAP_WAIT_MAP, map_pi := pi_zero\<lparr>pi_opcode := 1\<rparr>,
      map_ret := [\<lparr>mp_status = 1, mp_address = 0, mp_internal_status = 0\<rparr>], D_alloc_to_map := [net_axis_512_zero\<lparr>na_data := 7, na_last := 1\<rparr>]\<rparr>) = s' \<and>
     fifo_DRAM_wr_cmd s' = [] \<and> fifo_DRAM_wr_data s' = [7]"
proof -
  let ?d = "net_axis_512_zero\<lparr>na_data := 7, na_last := 1\<rparr>" and ?r = "\<lparr>mp_status = 1, mp_address = 0, mp_internal_status = 0\<rparr>"
  let ?s = "rdm_mapping_init\<lparr>map_state := MAP_WAIT_MAP, map_pi := pi_zero\<lparr>pi_opcode := 1\<rparr>, map_ret := [?r], D_alloc_to_map := [?d]\<rparr>"
  have "map_state ?s = MAP_WAIT_MAP" "pi_opcode (map_pi ?s) = APP_RDMA_OPCODE_WRITE" "map_ret ?s = [?r]" "mp_status ?r \<noteq> 0"
    "D_alloc_to_map ?s = [?d] @ []" "one_packet [?d]"
    by (simp_all add: opcode_defs one_packet_def)
  note run = write_untranslated_leaves_data [OF this]
  have "Suc (length [?d]) = 2" by simp
  from run [unfolded this] show ?thesis by (simp add: rdm_mapping_init_fifos del: funpow.simps)
qed

end
