(* ===== verification/Rdm_Segment.thy ===== *)
theory Rdm_Segment
  imports Rdm_Reply
begin

text \<open>
  \<open>rdm_segment\<close>: the remote memory application whose translation stage looks the address up in a table
  of 64 segments. Nothing in the IP writes the table. The index variable of the search is not
  initialised; its value when the search finds nothing, \<open>junk\<close>, is an input of the cycle (a 32 bit
  \<open>int\<close>), and reading the table outside its bounds is a fault.
\<close>

definition NR_SEGMENT_ENTRIES :: nat where "NR_SEGMENT_ENTRIES = 64"

record segment_entry =
  va_base :: "64 word"
  va_limit :: "64 word"
  pa_base :: "64 word"

record rdm_segment_st = rdm_st +
  seg_table :: "segment_entry list"

definition seg_hit :: "segment_entry list \<Rightarrow> 64 word \<Rightarrow> nat \<Rightarrow> bool" where
  "seg_hit table va i \<longleftrightarrow> va \<ge> va_base (table ! i) \<and> va < va_limit (table ! i)"

definition seg_search :: "segment_entry list \<Rightarrow> 64 word \<Rightarrow> int \<Rightarrow> int" where
  "seg_search table va junk =
     (let i = for_break (seg_hit table va) 0 NR_SEGMENT_ENTRIES in if i < NR_SEGMENT_ENTRIES then int i else junk)"

definition map_idle :: "rdm_segment_st \<Rightarrow> rdm_segment_st" where
  "map_idle s =
     (case PI_alloc_to_map s of [] \<Rightarrow> s | pi # rest \<Rightarrow> s\<lparr>PI_alloc_to_map := rest, map_pi := pi, map_state := MAP_WAIT_MAP\<rparr>)"

text \<open>\<open>None\<close>: the table is read outside its bounds.\<close>

definition map_wait :: "int \<Rightarrow> rdm_segment_st \<Rightarrow> rdm_segment_st option" where
  "map_wait junk s =
     (let i = seg_search (seg_table s) (pi_va (map_pi s)) junk
      in if i = int NR_SEGMENT_ENTRIES then Some (map_forward (map_failed s))
         else if 0 \<le> i \<and> i < int NR_SEGMENT_ENTRIES
         then (let e = seg_table s ! nat i
               in Some (map_forward (map_found (pi_va (map_pi s) - va_base e + pa_base e) s)))
         else None)"

definition map_stage :: "int \<Rightarrow> rdm_segment_st \<Rightarrow> rdm_segment_st option" where
  "map_stage junk s =
     (case map_state s of MAP_IDLE \<Rightarrow> Some (map_idle s) | MAP_WAIT_MAP \<Rightarrow> map_wait junk s | MAP_STREAM \<Rightarrow> Some (map_stream s))"

definition rdm_segment :: "port_full \<Rightarrow> int \<Rightarrow> rdm_segment_st \<Rightarrow> rdm_segment_st option" where
  "rdm_segment f junk s =
     map_option (\<lambda>s. DRAM_wr_pipe f (DRAM_rd_pipe f (reply (access_stage s)))) (map_stage junk (alloc_address (parser (buffering s))))"


section \<open>Lookup\<close>

lemma seg_search_hit:
  assumes "i < NR_SEGMENT_ENTRIES" and "seg_hit table va i" and "\<forall>j < i. \<not> seg_hit table va j"
  shows "seg_search table va junk = int i"
proof -
  have "for_break (seg_hit table va) 0 NR_SEGMENT_ENTRIES = i"
    using assms by (intro for_break_eqI) auto
  with assms(1) show ?thesis by (simp add: seg_search_def)
qed

lemma seg_search_miss: "\<forall>j < NR_SEGMENT_ENTRIES. \<not> seg_hit table va j \<Longrightarrow> seg_search table va junk = junk"
  using for_break_none [of 0 NR_SEGMENT_ENTRIES "seg_hit table va"] by (simp add: seg_search_def)

lemma map_answer_fields:
  "PI_map_to_access (map_forward (map_found pa s)) =
     PI_map_to_access s @ [(map_pi s)\<lparr>pi_map_status := PI_MAP_SUCCEED, pi_pa := pa, pi_pa_index := pa div NR_BYTES_AXIS_512\<rparr>]"
  "PI_map_to_access (map_forward (map_failed s)) = PI_map_to_access s @ [(map_pi s)\<lparr>pi_map_status := PI_MAP_FAIL\<rparr>]"
  by (simp_all add: map_forward_def map_found_def map_failed_def Let_def swrite_def)

text \<open>C25: A virtual address inside a segment is translated by the first segment that contains it, to the same offset from the physical base,
  an offset below the size of the segment, whatever the value of the uninitialised index was.\<close>

theorem segment_translation:
  assumes "map_state s = MAP_WAIT_MAP" and "i < NR_SEGMENT_ENTRIES" and "seg_hit (seg_table s) (pi_va (map_pi s)) i"
    and "\<forall>j < i. \<not> seg_hit (seg_table s) (pi_va (map_pi s)) j"
  shows "\<exists>s' pi. map_stage junk s = Some s' \<and> PI_map_to_access s' = PI_map_to_access s @ [pi] \<and> pi_map_status pi = PI_MAP_SUCCEED \<and>
    pi_pa pi = pa_base (seg_table s ! i) + (pi_va (map_pi s) - va_base (seg_table s ! i)) \<and>
    unat (pi_va (map_pi s) - va_base (seg_table s ! i)) < unat (va_limit (seg_table s ! i)) - unat (va_base (seg_table s ! i))"
proof -
  let ?e = "seg_table s ! i" and ?va = "pi_va (map_pi s)"
  have r: "va_base ?e \<le> ?va" "?va < va_limit ?e" using assms(3) by (simp_all add: seg_hit_def)
  then have "unat (?va - va_base ?e) < unat (va_limit ?e) - unat (va_base ?e)"
    by (simp add: unat_sub word_le_nat_alt word_less_nat_alt)
  moreover have "map_stage junk s = Some (map_forward (map_found (?va - va_base ?e + pa_base ?e) s))"
    using assms(1,2) seg_search_hit [OF assms(2-4), of junk] by (simp add: map_stage_def map_wait_def Let_def)
  ultimately show ?thesis by (simp add: map_answer_fields add.commute)
qed

definition rdm_segment_init :: "segment_entry list \<Rightarrow> rdm_segment_st" where
  "rdm_segment_init table = rdm_st.extend rdm_init \<lparr>seg_table = table\<rparr>"

lemma rdm_segment_init_fields [simp]: "seg_table (rdm_segment_init table) = table" "PI_map_to_access (rdm_segment_init table) = []"
  by (simp_all add: rdm_segment_init_def rdm_init_def rdm_st.defs)

definition example_table :: "segment_entry list" where
  "example_table = \<lparr>va_base = 0x1000, va_limit = 0x2000, pa_base = 0x80000\<rparr> # replicate 63 \<lparr>va_base = 0, va_limit = 0, pa_base = 0\<rparr>"

theorem segment_translation_witness:
  "\<exists>s' pi. map_stage 0 ((rdm_segment_init example_table)\<lparr>map_state := MAP_WAIT_MAP, map_pi := pi_zero\<lparr>pi_va := 0x1040\<rparr>\<rparr>) = Some s' \<and>
     PI_map_to_access s' = [pi] \<and> pi_pa pi = 0x80040"
proof -
  let ?s = "(rdm_segment_init example_table)\<lparr>map_state := MAP_WAIT_MAP, map_pi := pi_zero\<lparr>pi_va := 0x1040\<rparr>\<rparr>"
  have "map_state ?s = MAP_WAIT_MAP" "0 < NR_SEGMENT_ENTRIES" "seg_hit (seg_table ?s) (pi_va (map_pi ?s)) 0"
    "\<forall>j < 0. \<not> seg_hit (seg_table ?s) (pi_va (map_pi ?s)) j"
    by (simp_all add: seg_hit_def example_table_def NR_SEGMENT_ENTRIES_def)
  from segment_translation [OF this, of 0] show ?thesis by (auto simp: example_table_def)
qed

text \<open>An address in no segment is not reported as a failure: the stage uses the uninitialised index. For every entry there is a value of it
  with which the request succeeds and accesses memory relative to that entry; only the value 64 gives the failure the code means, and every
  value outside \<open>0..64\<close> reads the table out of bounds.\<close>

theorem segment_miss_uninitialised:
  assumes "map_state s = MAP_WAIT_MAP" and "\<forall>j < NR_SEGMENT_ENTRIES. \<not> seg_hit (seg_table s) (pi_va (map_pi s)) j"
  shows "\<forall>junk. (if junk = 64 then \<exists>s' pi. map_stage junk s = Some s' \<and> PI_map_to_access s' = PI_map_to_access s @ [pi] \<and> pi_map_status pi = PI_MAP_FAIL
      else if 0 \<le> junk \<and> junk < 64
      then \<exists>s' pi. map_stage junk s = Some s' \<and> PI_map_to_access s' = PI_map_to_access s @ [pi] \<and> pi_map_status pi = PI_MAP_SUCCEED \<and>
        pi_pa pi = pi_va (map_pi s) - va_base (seg_table s ! nat junk) + pa_base (seg_table s ! nat junk)
      else map_stage junk s = None)"
  using assms(1) seg_search_miss [OF assms(2)]
  by (simp add: map_stage_def map_wait_def Let_def NR_SEGMENT_ENTRIES_def map_answer_fields)

theorem segment_miss_uninitialised_witness:
  "\<exists>s' pi. map_stage 0 ((rdm_segment_init example_table)\<lparr>map_state := MAP_WAIT_MAP, map_pi := pi_zero\<rparr>) = Some s' \<and>
     PI_map_to_access s' = [pi] \<and> pi_map_status pi = PI_MAP_SUCCEED \<and> pi_pa pi = 0x7F000"
proof -
  let ?s = "(rdm_segment_init example_table)\<lparr>map_state := MAP_WAIT_MAP, map_pi := pi_zero\<rparr>"
  have "map_state ?s = MAP_WAIT_MAP" "\<forall>j < NR_SEGMENT_ENTRIES. \<not> seg_hit (seg_table ?s) (pi_va (map_pi ?s)) j"
    by (simp_all add: seg_hit_def example_table_def pi_zero_def NR_SEGMENT_ENTRIES_def nth_Cons split: nat.split)
  from segment_miss_uninitialised [OF this, rule_format, of 0] show ?thesis by (auto simp: example_table_def pi_zero_def)
qed

end
