(* ===== verification/App_Rdma.thy ===== *)
theory App_Rdma
  imports Rdm_Reply
begin

unbundle bit_operations_syntax

text \<open>
  The first remote memory application, \<open>app_rdma\<close> (\<^verbatim>\<open>app/rdma/fpga/top.cpp\<close>): a parser that splits
  packets into read requests, write requests and write data, a reader and a writer on DRAM, and a
  merger. Physical addresses are used as they are. Both memory ports of the IP reach the same DRAM,
  an array of 64-byte words indexed by \<open>unsigned int\<close>.

  The unit a read sends is a local variable whose \<open>user\<close> field is never set; its value is an input of
  the cycle.
\<close>

section \<open>State\<close>

record app_rdma_stats =
  nr_read :: "64 word"
  nr_write :: "64 word"
  nr_read_units :: "64 word"
  nr_write_units :: "64 word"

record request =
  rq_address :: "64 word"
  rq_length :: "64 word"
  rq_eth_header :: net_axis_512
  rq_app_header :: net_axis_512

datatype APP_RDMA_STATE = APP_RDMA_ETH_HEADER | APP_RDMA_APP_HEADER | APP_RDMA_INVALID_READ | APP_RDMA_APP_DATA
datatype handle_read_state = READ_IDLE | READ_HDR_ETH | READ_HDR_APP | READ_DATAFLOW
datatype handle_write_state = WRITE_IDLE | WRITE_DATAFLOW

record app_rdma_st =
  app_state :: APP_RDMA_STATE
  parser_req :: request
  eth_header :: net_axis_512
  app_header :: net_axis_512
  parser_opcode :: "8 word"
  write_req_pushed :: bool
  read_state :: handle_read_state
  read_offset :: "32 word"
  read_start_index :: "32 word"
  read_address :: "64 word"
  read_length :: "64 word"
  read_req :: request
  write_state :: handle_write_state
  write_start_index :: "32 word"
  write_offset :: "32 word"
  write_address :: "64 word"
  write_length :: "64 word"
  nr_max_units :: "64 word"
  cached_stats :: app_rdma_stats
  stats :: app_rdma_stats
  s_req_read :: "request stream"
  s_req_write :: "request stream"
  s_data_write :: "net_axis_512 stream"
  s_data_read :: "net_axis_512 stream"
  app_from_net :: "net_axis_512 stream"
  app_to_net :: "net_axis_512 stream"
  dram :: "32 word \<Rightarrow> 512 word"

definition inc_nr_read :: "app_rdma_st \<Rightarrow> app_rdma_st" where
  "inc_nr_read s = (let n = nr_read (cached_stats s) + 1
     in s\<lparr>cached_stats := (cached_stats s)\<lparr>nr_read := n\<rparr>, stats := (stats s)\<lparr>nr_read := n\<rparr>\<rparr>)"

definition inc_nr_write :: "app_rdma_st \<Rightarrow> app_rdma_st" where
  "inc_nr_write s = (let n = nr_write (cached_stats s) + 1
     in s\<lparr>cached_stats := (cached_stats s)\<lparr>nr_write := n\<rparr>, stats := (stats s)\<lparr>nr_write := n\<rparr>\<rparr>)"

definition inc_nr_read_units :: "app_rdma_st \<Rightarrow> app_rdma_st" where
  "inc_nr_read_units s = (let n = nr_read_units (cached_stats s) + 1
     in s\<lparr>cached_stats := (cached_stats s)\<lparr>nr_read_units := n\<rparr>, stats := (stats s)\<lparr>nr_read_units := n\<rparr>\<rparr>)"

definition inc_nr_write_units :: "app_rdma_st \<Rightarrow> app_rdma_st" where
  "inc_nr_write_units s = (let n = nr_write_units (cached_stats s) + 1
     in s\<lparr>cached_stats := (cached_stats s)\<lparr>nr_write_units := n\<rparr>, stats := (stats s)\<lparr>nr_write_units := n\<rparr>\<rparr>)"

lemmas inc_defs = inc_nr_read_def inc_nr_write_def inc_nr_read_units_def inc_nr_write_units_def

section \<open>Reading\<close>

definition RDM_FPGA_TEST_APP_ID :: int where "RDM_FPGA_TEST_APP_ID = 1"

definition read_invalid :: "64 word \<Rightarrow> 64 word \<Rightarrow> bool" where
  "read_invalid address len \<longleftrightarrow> len = 0 \<or> address mod NR_BYTES_AXIS_512 \<noteq> 0 \<or> len mod NR_BYTES_AXIS_512 \<noteq> 0"

definition handle_read :: "64 word \<Rightarrow> app_rdma_st \<Rightarrow> app_rdma_st" where
  "handle_read user s =
     (case read_state s of
        READ_IDLE \<Rightarrow>
          (case s_req_read s of
             [] \<Rightarrow> s
           | req # rest \<Rightarrow>
               (inc_nr_read s)\<lparr>s_req_read := rest, read_req := req, read_length := rq_length req, read_address := rq_address req,
                 read_start_index := ucast (rq_address req div NR_BYTES_AXIS_512), read_offset := 0, read_state := READ_HDR_ETH\<rparr>)
      | READ_HDR_ETH \<Rightarrow>
          (let h = set_app_id (rq_eth_header (read_req s)) RDM_FPGA_TEST_APP_ID
           in s\<lparr>read_req := (read_req s)\<lparr>rq_eth_header := h\<rparr>, s_data_read := swrite (s_data_read s) h, read_state := READ_HDR_APP\<rparr>)
      | READ_HDR_APP \<Rightarrow>
          (let bad = read_invalid (read_address s) (read_length s);
               h = (set_hdr_opcode (rq_app_header (read_req s)) (if bad then APP_RDMA_OPCODE_REPLY_READ_ERROR else APP_RDMA_OPCODE_REPLY_READ))
                     \<lparr>na_last := if bad then 1 else 0\<rparr>
           in s\<lparr>read_req := (read_req s)\<lparr>rq_app_header := h\<rparr>, s_data_read := swrite (s_data_read s) h,
                read_state := if bad then READ_IDLE else READ_DATAFLOW\<rparr>)
      | READ_DATAFLOW \<Rightarrow>
          (let end_unit = read_length s = NR_BYTES_AXIS_512;
               tmp = \<lparr>na_data = dram s (read_start_index s + read_offset s), na_last = if end_unit then 1 else 0,
                      na_keep = 0xFFFFFFFFFFFFFFFF, na_user = user\<rparr>
           in (inc_nr_read_units s)\<lparr>read_offset := read_offset s + 1,
                read_length := if end_unit then read_length s else read_length s - NR_BYTES_AXIS_512,
                s_data_read := swrite (s_data_read s) tmp, read_state := if end_unit then READ_IDLE else READ_DATAFLOW\<rparr>))"

section \<open>Writing\<close>

text \<open>A helper of the source that nothing calls; \<open>None\<close> stands for a range with a negative bound.\<close>

definition narrow_memcpy_to_axi_512 :: "512 word \<Rightarrow> 512 word \<Rightarrow> nat \<Rightarrow> 512 word option" where
  "narrow_memcpy_to_axi_512 to from n =
     (if n = 0 then None else Some (range_set to (n * 8 - 1) 0 (range_get from (n * 8 - 1) 0 :: 512 word)))"

definition handle_write :: "app_rdma_st \<Rightarrow> app_rdma_st" where
  "handle_write s =
     (case write_state s of
        WRITE_IDLE \<Rightarrow>
          (case s_req_write s of
             [] \<Rightarrow> s
           | req # rest \<Rightarrow>
               (inc_nr_write s)\<lparr>s_req_write := rest, write_length := rq_length req,
                 nr_max_units := (rq_length req + NR_BYTES_AXIS_512 - 1) div NR_BYTES_AXIS_512, write_address := rq_address req,
                 write_start_index := ucast (rq_address req div NR_BYTES_AXIS_512), write_offset := 0,
                 write_state := if rq_address req mod NR_BYTES_AXIS_512 = 0 then WRITE_DATAFLOW else WRITE_IDLE\<rparr>)
      | WRITE_DATAFLOW \<Rightarrow>
          (case s_data_write s of
             [] \<Rightarrow> s
           | d # rest \<Rightarrow>
               (inc_nr_write_units s)\<lparr>s_data_write := rest,
                 dram := if ucast (write_offset s) < nr_max_units s then (dram s)(write_start_index s + write_offset s := na_data d) else dram s,
                 write_offset := write_offset s + 1, write_state := if na_last d = 1 then WRITE_IDLE else WRITE_DATAFLOW\<rparr>))"

section \<open>Parsing and the top function\<close>

definition parser :: "app_rdma_st \<Rightarrow> app_rdma_st" where
  "parser s =
     (case app_from_net s of
        [] \<Rightarrow> s
      | d # rest \<Rightarrow>
          (let s = s\<lparr>app_from_net := rest\<rparr>
           in case app_state s of
                APP_RDMA_ETH_HEADER \<Rightarrow> s\<lparr>eth_header := d, app_state := APP_RDMA_APP_HEADER\<rparr>
              | APP_RDMA_APP_HEADER \<Rightarrow>
                  (let req = \<lparr>rq_address = get_hdr_address d, rq_length = get_hdr_length d, rq_eth_header = eth_header s, rq_app_header = d\<rparr>;
                       s = s\<lparr>app_header := d, parser_opcode := get_hdr_opcode d, parser_req := req\<rparr>
                   in if get_hdr_opcode d = APP_RDMA_OPCODE_READ
                      then (if na_last d = 1 then s\<lparr>s_req_read := swrite (s_req_read s) req, app_state := APP_RDMA_ETH_HEADER\<rparr>
                            else s\<lparr>app_state := APP_RDMA_INVALID_READ\<rparr>)
                      else s\<lparr>app_state := APP_RDMA_APP_DATA\<rparr>)
              | APP_RDMA_INVALID_READ \<Rightarrow> if na_last d = 1 then s\<lparr>app_state := APP_RDMA_ETH_HEADER\<rparr> else s
              | APP_RDMA_APP_DATA \<Rightarrow>
                  (let s = (if parser_opcode s = APP_RDMA_OPCODE_WRITE
                            then (let s = (if write_req_pushed s then s
                                           else s\<lparr>s_req_write := swrite (s_req_write s) (parser_req s), write_req_pushed := True\<rparr>)
                                  in s\<lparr>s_data_write := swrite (s_data_write s) d\<rparr>)
                            else s\<lparr>app_state := APP_RDMA_ETH_HEADER\<rparr>)
                   in if na_last d = 1 then s\<lparr>write_req_pushed := False, app_state := APP_RDMA_ETH_HEADER\<rparr> else s)))"

definition merger :: "app_rdma_st \<Rightarrow> app_rdma_st" where
  "merger s = (case s_data_read s of [] \<Rightarrow> s | d # rest \<Rightarrow> s\<lparr>s_data_read := rest, app_to_net := swrite (app_to_net s) d\<rparr>)"

definition app_rdma :: "64 word \<Rightarrow> app_rdma_st \<Rightarrow> app_rdma_st" where
  "app_rdma user s = merger (handle_write (handle_read user (parser s)))"

definition app_rdma_init :: "(32 word \<Rightarrow> 512 word) \<Rightarrow> app_rdma_st" where
  "app_rdma_init mem =
     (let z = net_axis_512_zero; r = \<lparr>rq_address = 0, rq_length = 0, rq_eth_header = z, rq_app_header = z\<rparr>;
          c = \<lparr>nr_read = 0, nr_write = 0, nr_read_units = 0, nr_write_units = 0\<rparr>
      in \<lparr>app_state = APP_RDMA_ETH_HEADER, parser_req = r, eth_header = z, app_header = z, parser_opcode = 0, write_req_pushed = False,
          read_state = READ_IDLE, read_offset = 0, read_start_index = 0, read_address = 0, read_length = 0, read_req = r,
          write_state = WRITE_IDLE, write_start_index = 0, write_offset = 0, write_address = 0, write_length = 0, nr_max_units = 0,
          cached_stats = c, stats = c, s_req_read = [], s_req_write = [], s_data_write = [], s_data_read = [],
          app_from_net = [], app_to_net = [], dram = mem\<rparr>)"

end
