(* ===== verification/App_Rdma_Props.thy ===== *)
theory App_Rdma_Props
  imports App_Rdma
begin

unbundle bit_operations_syntax

text \<open>
  The reader, the writer and the parser of \<open>app_rdma\<close>: what each does with one request, and that a read
  after a write returns what was written.
\<close>

section \<open>Memory\<close>

fun write_words :: "(32 word \<Rightarrow> 512 word) \<Rightarrow> 32 word \<Rightarrow> 512 word list \<Rightarrow> 32 word \<Rightarrow> 512 word" where
  "write_words mem i [] = mem"
| "write_words mem i (w # ws) = write_words (mem(i := w)) (i + 1) ws"

definition read_words :: "(32 word \<Rightarrow> 512 word) \<Rightarrow> 32 word \<Rightarrow> nat \<Rightarrow> 512 word list" where
  "read_words mem i n = map (\<lambda>k. mem (i + of_nat k)) [0..<n]"

lemma read_words_Suc: "read_words mem i (Suc n) = mem i # read_words mem (i + 1) n"
  unfolding read_words_def upt_conv_Cons [OF zero_less_Suc] by (simp add: map_Suc_upt [symmetric] add.assoc del: upt_Suc)

lemma of_nat_less_neq: "0 < k \<Longrightarrow> k < 2 ^ LENGTH('a) \<Longrightarrow> i + of_nat k \<noteq> (i :: 'a::len word)"
  using of_nat_neq_0 [of k] by simp

lemma write_words_before: "length ws + k \<le> 2 ^ 32 \<Longrightarrow> 0 < k \<Longrightarrow> write_words mem (i + of_nat k) ws i = mem i"
proof (induction ws arbitrary: mem k)
  case (Cons w ws)
  then have "write_words (mem(i + of_nat k := w)) (i + of_nat (Suc k)) ws i = (mem(i + of_nat k := w)) i"
    by (intro Cons.IH) simp_all
  moreover have "i + of_nat k \<noteq> i" using Cons.prems by (intro of_nat_less_neq) simp_all
  ultimately show ?case by (simp add: add.commute add.left_commute)
qed simp

lemma read_write_words: "length ws \<le> 2 ^ 32 \<Longrightarrow> read_words (write_words mem i ws) i (length ws) = ws"
proof (induction ws arbitrary: mem i)
  case (Cons w ws)
  have "write_words (mem(i := w)) (i + of_nat 1) ws i = (mem(i := w)) i"
    using Cons.prems by (intro write_words_before) simp_all
  with Cons show ?case by (simp add: read_words_Suc)
qed (simp add: read_words_def)

section \<open>The writer\<close>

lemma write_stream:
  assumes "write_state s = WRITE_DATAFLOW" and "s_data_write s = ds @ tail" and "one_packet ds" and "write_offset s = of_nat k"
    and "k + length ds \<le> 2 ^ 32" and "k + length ds \<le> unat (nr_max_units s)"
  shows "\<exists>s'. (handle_write ^^ length ds) s = s' \<and> write_state s' = WRITE_IDLE \<and> s_data_write s' = tail \<and> s_req_write s' = s_req_write s \<and>
    dram s' = write_words (dram s) (write_start_index s + of_nat k) (map na_data ds)"
  using assms
proof (induction ds arbitrary: s k)
  case (Cons d ds)
  have "k < 2 ^ 32" using Cons.prems(5) by simp
  then have "unat (ucast (of_nat k :: 32 word) :: 64 word) = k"
    by (simp add: unsigned_ucast_eq unsigned_of_nat take_bit_nat_eq_self)
  then have inside: "ucast (write_offset s) < nr_max_units s" using Cons.prems(4,6) by (simp add: word_less_nat_alt)
  let ?t = "handle_write s"
  have t: "s_data_write ?t = ds @ tail" "write_offset ?t = of_nat (Suc k)" "nr_max_units ?t = nr_max_units s" "s_req_write ?t = s_req_write s"
      "write_start_index ?t = write_start_index s" "dram ?t = (dram s)(write_start_index s + of_nat k := na_data d)"
      "write_state ?t = (if na_last d = 1 then WRITE_IDLE else WRITE_DATAFLOW)"
    using Cons.prems(1,2,4) inside by (simp_all add: handle_write_def inc_defs Let_def add.commute)
  show ?case
  proof (cases "ds = []")
    case True
    then show ?thesis using Cons.prems(3) t by (simp add: one_packet_Cons fun_upd_def)
  next
    case False
    then have "na_last d \<noteq> 1" "one_packet ds" using Cons.prems(3) by (simp_all add: one_packet_Cons)
    with Cons.IH [of ?t "Suc k"] Cons.prems(5,6) t
    have "\<exists>s'. (handle_write ^^ length ds) ?t = s' \<and> write_state s' = WRITE_IDLE \<and> s_data_write s' = tail \<and> s_req_write s' = s_req_write s \<and>
        dram s' = write_words (dram ?t) (write_start_index s + of_nat (Suc k)) (map na_data ds)" by (simp add: fun_upd_def)
    then show ?thesis unfolding t(6) by (simp add: funpow_swap1 add.commute add.left_commute fun_upd_def)
  qed
qed (simp add: one_packet_def)


lemma write_request:
  assumes "write_state s = WRITE_IDLE" and "s_req_write s = req # reqs" and "s_data_write s = ds @ tail" and "one_packet ds"
    and "rq_address req mod NR_BYTES_AXIS_512 = 0" and "length ds \<le> 2 ^ 32"
    and "length ds \<le> unat ((rq_length req + NR_BYTES_AXIS_512 - 1) div NR_BYTES_AXIS_512)"
  shows "\<exists>s'. (handle_write ^^ Suc (length ds)) s = s' \<and> write_state s' = WRITE_IDLE \<and> s_data_write s' = tail \<and> s_req_write s' = reqs \<and>
    dram s' = write_words (dram s) (ucast (rq_address req div NR_BYTES_AXIS_512)) (map na_data ds)"
proof -
  let ?t = "handle_write s"
  have t: "write_state ?t = WRITE_DATAFLOW" "s_data_write ?t = ds @ tail" "write_offset ?t = of_nat 0" "s_req_write ?t = reqs" "dram ?t = dram s"
      "write_start_index ?t = ucast (rq_address req div NR_BYTES_AXIS_512)"
      "nr_max_units ?t = (rq_length req + NR_BYTES_AXIS_512 - 1) div NR_BYTES_AXIS_512"
    using assms(1-3,5) by (simp_all add: handle_write_def inc_defs Let_def)
  have "0 + length ds \<le> 2 ^ 32" "0 + length ds \<le> unat (nr_max_units ?t)" using assms(6,7) t(7) by simp_all
  from write_stream [OF t(1,2) assms(4) t(3) this] show ?thesis
    unfolding funpow_Suc_right o_apply t(4-6) by simp
qed

text \<open>The writer leaves the reader's state alone.\<close>

lemma handle_write_frame [simp]:
  "read_state (handle_write s) = read_state s" "s_req_read (handle_write s) = s_req_read s" "s_data_read (handle_write s) = s_data_read s"
  by (simp_all add: handle_write_def inc_defs Let_def split: handle_write_state.split list.split)

lemma handle_write_run_frame [simp]:
  "read_state ((handle_write ^^ n) s) = read_state s" "s_req_read ((handle_write ^^ n) s) = s_req_read s"
  "s_data_read ((handle_write ^^ n) s) = s_data_read s"
  by (induction n) simp_all

section \<open>The reader\<close>

definition data_unit :: "64 word \<Rightarrow> 512 word \<Rightarrow> bool \<Rightarrow> net_axis_512" where
  "data_unit user w end_unit = \<lparr>na_data = w, na_last = if end_unit then 1 else 0, na_keep = 0xFFFFFFFFFFFFFFFF, na_user = user\<rparr>"

definition data_units :: "64 word \<Rightarrow> 512 word list \<Rightarrow> net_axis_512 list" where
  "data_units user ws = (if ws = [] then [] else map (\<lambda>w. data_unit user w False) (butlast ws) @ [data_unit user (last ws) True])"

lemma data_units_Cons: "data_units user (w # ws) = data_unit user w (ws = []) # data_units user ws"
  by (simp add: data_units_def)

lemma data_units_words [simp]: "map na_data (data_units user ws) = ws"
  by (simp add: data_units_def data_unit_def comp_def)

lemma one_packet_data_units: "ws \<noteq> [] \<Longrightarrow> one_packet (data_units user ws)"
  by (auto simp: one_packet_def data_units_def data_unit_def)

lemma read_dataflow:
  assumes "read_state s = READ_DATAFLOW" and "unat (read_length s) = 64 * Suc n"
  shows "\<exists>s'. (handle_read user ^^ Suc n) s = s' \<and> read_state s' = READ_IDLE \<and> s_req_read s' = s_req_read s \<and>
    s_data_read s' = s_data_read s @ data_units user (read_words (dram s) (read_start_index s + read_offset s) (Suc n))"
  using assms
proof (induction n arbitrary: s)
  case 0
  then have "read_length s = NR_BYTES_AXIS_512" by (simp add: NR_BYTES_AXIS_512_def word_unat_eq_iff)
  then show ?case
    using 0 by (simp add: handle_read_def inc_defs Let_def swrite_def data_units_def data_unit_def read_words_def)
next
  case (Suc n)
  have ne: "read_length s \<noteq> NR_BYTES_AXIS_512" using Suc.prems(2) by (auto simp: NR_BYTES_AXIS_512_def)
  have "unat (read_length s - 64) = 64 * Suc n" using Suc.prems(2) by (simp add: unat_sub word_le_nat_alt)
  let ?t = "handle_read user s"
  have t: "read_state ?t = READ_DATAFLOW" "unat (read_length ?t) = 64 * Suc n" "read_start_index ?t = read_start_index s" "read_offset ?t = read_offset s + 1"
      "dram ?t = dram s" "s_req_read ?t = s_req_read s"
      "s_data_read ?t = s_data_read s @ [data_unit user (dram s (read_start_index s + read_offset s)) False]"
    using Suc.prems(1) ne \<open>unat (read_length s - 64) = 64 * Suc n\<close>
    by (simp_all add: handle_read_def inc_defs Let_def swrite_def data_unit_def NR_BYTES_AXIS_512_def)
  from Suc.IH [OF t(1,2)] show ?case
    unfolding funpow_Suc_right [of "Suc n"] o_apply t(3-7) read_words_Suc [of _ _ "Suc n"]
    by (simp add: data_units_Cons read_words_Suc [of _ _ n] add.assoc)
qed

lemma read_start:
  assumes "read_state s = READ_IDLE" and "s_req_read s = req # reqs"
  shows "\<exists>t. (handle_read user ^^ 3) s = t \<and> s_req_read t = reqs \<and> dram t = dram s \<and>
    s_data_read t = s_data_read s @ [set_app_id (rq_eth_header req) RDM_FPGA_TEST_APP_ID,
      (set_hdr_opcode (rq_app_header req) (if read_invalid (rq_address req) (rq_length req) then APP_RDMA_OPCODE_REPLY_READ_ERROR
         else APP_RDMA_OPCODE_REPLY_READ))\<lparr>na_last := if read_invalid (rq_address req) (rq_length req) then 1 else 0\<rparr>] \<and>
    read_state t = (if read_invalid (rq_address req) (rq_length req) then READ_IDLE else READ_DATAFLOW) \<and>
    read_length t = rq_length req \<and> read_start_index t + read_offset t = ucast (rq_address req div NR_BYTES_AXIS_512)"
  using assms by (simp add: handle_read_def inc_defs Let_def swrite_def numeral_3_eq_3)


lemma read_request:
  assumes "read_state s = READ_IDLE" and "s_req_read s = req # reqs" and "rq_address req mod NR_BYTES_AXIS_512 = 0"
    and "unat (rq_length req) = 64 * n" and "0 < n"
  shows "\<exists>s'. (handle_read user ^^ (n + 3)) s = s' \<and> read_state s' = READ_IDLE \<and> s_req_read s' = reqs \<and>
    s_data_read s' = s_data_read s @ set_app_id (rq_eth_header req) RDM_FPGA_TEST_APP_ID #
      (set_hdr_opcode (rq_app_header req) APP_RDMA_OPCODE_REPLY_READ)\<lparr>na_last := 0\<rparr> #
      data_units user (read_words (dram s) (ucast (rq_address req div NR_BYTES_AXIS_512)) n)"
proof -
  have "unat (rq_length req mod 64) = 0" using assms(4) by (simp add: unat_mod)
  then have ok: "\<not> read_invalid (rq_address req) (rq_length req)"
    using assms(3-5) by (auto simp: read_invalid_def NR_BYTES_AXIS_512_def unat_eq_0)
  from assms(5) obtain m where m: "n = Suc m" by (cases n) auto
  from read_start [OF assms(1,2), of user] obtain t where t: "(handle_read user ^^ 3) s = t" "s_req_read t = reqs" "dram t = dram s"
    "s_data_read t = s_data_read s @ [set_app_id (rq_eth_header req) RDM_FPGA_TEST_APP_ID,
      (set_hdr_opcode (rq_app_header req) APP_RDMA_OPCODE_REPLY_READ)\<lparr>na_last := 0\<rparr>]"
    "read_state t = READ_DATAFLOW" "read_length t = rq_length req" "read_start_index t + read_offset t = ucast (rq_address req div NR_BYTES_AXIS_512)"
    using ok by auto
  have "unat (read_length t) = 64 * Suc m" using t(6) assms(4) m by simp
  from read_dataflow [OF t(5) this, of user] show ?thesis
    unfolding funpow_add o_apply t(1) m t(2,3,4,7) by simp
qed

section \<open>Properties of reads and writes\<close>

text \<open>C10: A read of a memory range that was written before returns the words that were written, in order, framed as one reply packet that
  ends with its last data unit.\<close>

theorem rdma_read_after_write:
  assumes "write_state s = WRITE_IDLE" and "s_req_write s = [wreq]" and "s_data_write s = ds" and "one_packet ds"
    and "read_state s = READ_IDLE" and "s_req_read s = [rreq]" and "s_data_read s = []"
    and "rq_address wreq mod NR_BYTES_AXIS_512 = 0" and "rq_address rreq = rq_address wreq" and "rq_length rreq = rq_length wreq"
    and "unat (rq_length wreq) = 64 * length ds" and "length ds \<le> 2 ^ 32"
  shows "\<exists>s' h1 h2 us. (handle_read user ^^ (length ds + 3)) ((handle_write ^^ Suc (length ds)) s) = s' \<and> s_data_read s' = h1 # h2 # us \<and>
    get_hdr_opcode h2 = APP_RDMA_OPCODE_REPLY_READ \<and> map na_data us = map na_data ds \<and> one_packet us"
proof -
  let ?i = "ucast (rq_address wreq div NR_BYTES_AXIS_512) :: 32 word"
  have len: "0 < length ds" using assms(4) by (simp add: one_packet_def)
  have "unat (rq_length wreq + 63) = 64 * length ds + 63"
    using assms(11,12) by (simp add: unat_word_ariths(1))
  then have "length ds \<le> unat ((rq_length wreq + NR_BYTES_AXIS_512 - 1) div NR_BYTES_AXIS_512)"
    by (simp add: NR_BYTES_AXIS_512_def unat_div add.commute [of 63])
  from write_request [of s wreq "[]" ds "[]", OF assms(1,2) _ assms(4,8,12) this] assms(3)
  obtain t where t: "(handle_write ^^ Suc (length ds)) s = t" "dram t = write_words (dram s) ?i (map na_data ds)" by auto
  have r: "read_state t = READ_IDLE" "s_req_read t = [rreq]" "s_data_read t = []"
    using assms(5-7) handle_write_run_frame [of "Suc (length ds)" s] unfolding t(1) by simp_all
  have "read_words (dram t) ?i (length ds) = map na_data ds"
    unfolding t(2) using read_write_words [of "map na_data ds"] assms(12) by simp
  with read_request [OF r(1,2) _ _ len, of user] assms(8-11) r(3)
  have run: "s_data_read ((handle_read user ^^ (length ds + 3)) t) = set_app_id (rq_eth_header rreq) RDM_FPGA_TEST_APP_ID #
      (set_hdr_opcode (rq_app_header rreq) APP_RDMA_OPCODE_REPLY_READ)\<lparr>na_last := 0\<rparr> # data_units user (map na_data ds)" by simp
  moreover have "one_packet (data_units user (map na_data ds))" using one_packet_data_units len by simp
  ultimately show ?thesis unfolding t(1) by simp
qed

theorem rdma_read_after_write_witness:
  "\<exists>s' h1 h2 us. (handle_read 0 ^^ 4) ((handle_write ^^ 2) ((app_rdma_init (\<lambda>_. 0))\<lparr>
      s_req_write := [\<lparr>rq_address = 0x100, rq_length = 64, rq_eth_header = net_axis_512_zero, rq_app_header = net_axis_512_zero\<rparr>],
      s_req_read := [\<lparr>rq_address = 0x100, rq_length = 64, rq_eth_header = net_axis_512_zero, rq_app_header = net_axis_512_zero\<rparr>],
      s_data_write := [net_axis_512_zero\<lparr>na_data := 7, na_last := 1\<rparr>]\<rparr>)) = s' \<and> s_data_read s' = h1 # h2 # us \<and> map na_data us = [7]"
proof -
  let ?r = "\<lparr>rq_address = 0x100, rq_length = 64, rq_eth_header = net_axis_512_zero, rq_app_header = net_axis_512_zero\<rparr>"
  let ?ds = "[net_axis_512_zero\<lparr>na_data := 7, na_last := 1\<rparr>]"
  let ?s = "(app_rdma_init (\<lambda>_. 0))\<lparr>s_req_write := [?r], s_req_read := [?r], s_data_write := ?ds\<rparr>"
  have n: "Suc (length ?ds) = 2" "length ?ds + 3 = 4" by simp_all
  have "write_state ?s = WRITE_IDLE" "s_req_write ?s = [?r]" "s_data_write ?s = ?ds" "one_packet ?ds" "read_state ?s = READ_IDLE"
    "s_req_read ?s = [?r]" "s_data_read ?s = []" "rq_address ?r mod NR_BYTES_AXIS_512 = 0" "rq_address ?r = rq_address ?r"
    "rq_length ?r = rq_length ?r" "unat (rq_length ?r) = 64 * length ?ds" "length ?ds \<le> 2 ^ 32"
    by (simp_all add: app_rdma_init_def Let_def one_packet_def NR_BYTES_AXIS_512_def)
  from rdma_read_after_write [OF this, of 0] show ?thesis unfolding n by auto
qed

text \<open>A read with a zero length, or an address or length that is not a multiple of 64, is answered by two units, the second with the error
  opcode and the end mark, and DRAM is not read.\<close>

theorem rdma_read_error:
  assumes "read_state s = READ_IDLE" and "s_req_read s = req # reqs" and "read_invalid (rq_address req) (rq_length req)"
  shows "\<exists>s' h1 h2. (handle_read user ^^ 3) s = s' \<and> read_state s' = READ_IDLE \<and> s_req_read s' = reqs \<and>
    s_data_read s' = s_data_read s @ [h1, h2] \<and> get_hdr_opcode h2 = APP_RDMA_OPCODE_REPLY_READ_ERROR \<and> na_last h2 = 1"
  using read_start [OF assms(1,2), of user] assms(3) by auto

theorem rdma_read_error_witness:
  "\<exists>s' h1 h2. (handle_read 0 ^^ 3) ((app_rdma_init (\<lambda>_. 0))\<lparr>s_req_read := [\<lparr>rq_address = 0x101, rq_length = 64,
      rq_eth_header = net_axis_512_zero, rq_app_header = net_axis_512_zero\<rparr>]\<rparr>) = s' \<and> s_data_read s' = [h1, h2] \<and>
     get_hdr_opcode h2 = APP_RDMA_OPCODE_REPLY_READ_ERROR"
proof -
  let ?r = "\<lparr>rq_address = 0x101, rq_length = 64, rq_eth_header = net_axis_512_zero, rq_app_header = net_axis_512_zero\<rparr>"
  let ?s = "(app_rdma_init (\<lambda>_. 0))\<lparr>s_req_read := [?r]\<rparr>"
  have "read_state ?s = READ_IDLE" "s_req_read ?s = [?r]" "read_invalid (rq_address ?r) (rq_length ?r)" "s_data_read ?s = []"
    by (simp_all add: app_rdma_init_def Let_def read_invalid_def NR_BYTES_AXIS_512_def)
  from rdma_read_error [OF this(1-3), of 0] this(4) show ?thesis by auto
qed

text \<open>A write whose address is not a multiple of 64 is dropped, but its data stays queued: the next write, wherever it goes, writes the
  dropped write's words in place of its own.\<close>

theorem unaligned_write_misdirected:
  assumes "write_state s = WRITE_IDLE" and "s_req_write s = [bad, good]" and "s_data_write s = ds @ ds'" and "one_packet ds"
    and "rq_address bad mod NR_BYTES_AXIS_512 \<noteq> 0" and "rq_address good mod NR_BYTES_AXIS_512 = 0" and "length ds \<le> 2 ^ 32"
    and "length ds \<le> unat ((rq_length good + NR_BYTES_AXIS_512 - 1) div NR_BYTES_AXIS_512)"
  shows "\<exists>s'. (handle_write ^^ (length ds + 2)) s = s' \<and> s_data_write s' = ds' \<and> s_req_write s' = [] \<and>
    dram s' = write_words (dram s) (ucast (rq_address good div NR_BYTES_AXIS_512)) (map na_data ds)"
proof -
  let ?t = "handle_write s"
  have t: "write_state ?t = WRITE_IDLE" "s_req_write ?t = [good]" "s_data_write ?t = ds @ ds'" "dram ?t = dram s"
    using assms(1-3,5) by (simp_all add: handle_write_def inc_defs Let_def)
  have "(handle_write ^^ (length ds + 2)) s = (handle_write ^^ Suc (length ds)) ?t"
    by (metis add_2_eq_Suc' comp_apply funpow_Suc_right)
  with write_request [OF t(1-3) assms(4,6-8)] t(4) show ?thesis by metis
qed

theorem unaligned_write_misdirected_witness:
  "\<exists>s'. (handle_write ^^ 3) ((app_rdma_init (\<lambda>_. 0))\<lparr>
      s_req_write := [\<lparr>rq_address = 0x101, rq_length = 64, rq_eth_header = net_axis_512_zero, rq_app_header = net_axis_512_zero\<rparr>,
        \<lparr>rq_address = 0x200, rq_length = 64, rq_eth_header = net_axis_512_zero, rq_app_header = net_axis_512_zero\<rparr>],
      s_data_write := [net_axis_512_zero\<lparr>na_data := 7, na_last := 1\<rparr>, net_axis_512_zero\<lparr>na_data := 8, na_last := 1\<rparr>]\<rparr>) = s' \<and>
     dram s' 8 = 7 \<and> s_data_write s' = [net_axis_512_zero\<lparr>na_data := 8, na_last := 1\<rparr>]"
proof -
  let ?b = "\<lparr>rq_address = 0x101, rq_length = 64, rq_eth_header = net_axis_512_zero, rq_app_header = net_axis_512_zero\<rparr>"
  let ?g = "\<lparr>rq_address = 0x200, rq_length = 64, rq_eth_header = net_axis_512_zero, rq_app_header = net_axis_512_zero\<rparr>"
  let ?d = "net_axis_512_zero\<lparr>na_data := 7, na_last := 1\<rparr>" and ?e = "net_axis_512_zero\<lparr>na_data := 8, na_last := 1\<rparr>"
  let ?s = "(app_rdma_init (\<lambda>_. 0))\<lparr>s_req_write := [?b, ?g], s_data_write := [?d, ?e]\<rparr>"
  have n: "length [?d] + 2 = 3" by simp
  have "write_state ?s = WRITE_IDLE" "s_req_write ?s = [?b, ?g]" "s_data_write ?s = [?d] @ [?e]" "one_packet [?d]"
    "rq_address ?b mod NR_BYTES_AXIS_512 \<noteq> 0" "rq_address ?g mod NR_BYTES_AXIS_512 = 0" "length [?d] \<le> 2 ^ 32"
    "length [?d] \<le> unat ((rq_length ?g + NR_BYTES_AXIS_512 - 1) div NR_BYTES_AXIS_512)"
    by (simp_all add: app_rdma_init_def Let_def one_packet_def NR_BYTES_AXIS_512_def)
  from unaligned_write_misdirected [OF this] show ?thesis
    unfolding n by (auto simp: NR_BYTES_AXIS_512_def)
qed


section \<open>The parser\<close>

definition rdma_packet_ok :: "packet \<Rightarrow> bool" where
  "rdma_packet_ok p \<longleftrightarrow>
     (if get_hdr_opcode (pk_app p) = APP_RDMA_OPCODE_READ then na_last (pk_app p) = 1 \<and> pk_data p = []
      else get_hdr_opcode (pk_app p) = APP_RDMA_OPCODE_WRITE \<and> one_packet (pk_data p))"

definition is_read :: "packet \<Rightarrow> bool" where
  "is_read p \<longleftrightarrow> get_hdr_opcode (pk_app p) = APP_RDMA_OPCODE_READ"

definition request_of :: "packet \<Rightarrow> request" where
  "request_of p = \<lparr>rq_address = get_hdr_address (pk_app p), rq_length = get_hdr_length (pk_app p),
     rq_eth_header = pk_eth p, rq_app_header = pk_app p\<rparr>"

text \<open>The parser is between two packets, with the given queues.\<close>

definition between_packets :: "app_rdma_st \<Rightarrow> net_axis_512 list \<Rightarrow> request list \<Rightarrow> request list \<Rightarrow> net_axis_512 list \<Rightarrow> bool" where
  "between_packets s net reads writes ds \<longleftrightarrow> app_state s = APP_RDMA_ETH_HEADER \<and> \<not> write_req_pushed s \<and> app_from_net s = net \<and>
     s_req_read s = reads \<and> s_req_write s = writes \<and> s_data_write s = ds"

lemma parser_write_data:
  assumes "app_state s = APP_RDMA_APP_DATA" and "parser_opcode s = APP_RDMA_OPCODE_WRITE" and "app_from_net s = ds @ net" and "one_packet ds"
  shows "between_packets ((parser ^^ length ds) s) net (s_req_read s)
    (if write_req_pushed s then s_req_write s else s_req_write s @ [parser_req s]) (s_data_write s @ ds)"
  using assms
proof (induction ds arbitrary: s)
  case (Cons d ds)
  let ?t = "parser s"
  have t: "app_from_net ?t = ds @ net" "parser_opcode ?t = APP_RDMA_OPCODE_WRITE" "s_req_read ?t = s_req_read s"
      "s_req_write ?t = (if write_req_pushed s then s_req_write s else s_req_write s @ [parser_req s])" "s_data_write ?t = s_data_write s @ [d]"
      "app_state ?t = (if na_last d = 1 then APP_RDMA_ETH_HEADER else APP_RDMA_APP_DATA)" "write_req_pushed ?t = (na_last d \<noteq> 1)"
    using Cons.prems(1-3) by (simp_all add: parser_def Let_def swrite_def)
  show ?case
  proof (cases "ds = []")
    case True
    then show ?thesis using Cons.prems(4) t by (simp add: one_packet_Cons between_packets_def)
  next
    case False
    then have d: "na_last d \<noteq> 1" "one_packet ds" using Cons.prems(4) by (simp_all add: one_packet_Cons)
    have "between_packets ((parser ^^ length ds) ?t) net (s_req_read ?t) (s_req_write ?t) (s_data_write ?t @ ds)"
      using Cons.IH [of ?t] t d by simp
    then show ?thesis by (simp add: t funpow_swap1)
  qed
qed (simp add: one_packet_def)

lemma parser_one_packet:
  assumes "between_packets s (packet_units p @ net) reads writes ds" and "rdma_packet_ok p"
  shows "between_packets ((parser ^^ length (packet_units p)) s) net (reads @ (if is_read p then [request_of p] else []))
    (writes @ (if is_read p then [] else [request_of p])) (ds @ pk_data p)"
proof -
  let ?t = "parser (parser s)"
  have run: "(parser ^^ length (packet_units p)) s = (parser ^^ length (pk_data p)) ?t"
    by (simp add: packet_units_def funpow_swap1)
  show ?thesis
  proof (cases "is_read p")
    case True
    then have "between_packets ?t net (reads @ [request_of p]) writes ds" "pk_data p = []"
      using assms by (simp_all add: between_packets_def packet_units_def parser_def Let_def swrite_def is_read_def request_of_def rdma_packet_ok_def)
    then show ?thesis unfolding run using True by simp
  next
    case False
    then have w: "get_hdr_opcode (pk_app p) = APP_RDMA_OPCODE_WRITE" "one_packet (pk_data p)"
      using assms(2) by (simp_all add: rdma_packet_ok_def is_read_def)
    have t: "app_state ?t = APP_RDMA_APP_DATA" "parser_opcode ?t = APP_RDMA_OPCODE_WRITE" "app_from_net ?t = pk_data p @ net" "\<not> write_req_pushed ?t"
        "s_req_read ?t = reads" "s_req_write ?t = writes" "s_data_write ?t = ds" "parser_req ?t = request_of p"
      using assms(1) w(1) by (simp_all add: between_packets_def packet_units_def parser_def Let_def request_of_def opcode_defs)
    from parser_write_data [OF t(1-3) w(2)] show ?thesis unfolding run using False t by simp
  qed
qed

lemma parser_packets:
  assumes "between_packets s (concat (map packet_units ps) @ net) reads writes ds" and "\<forall>p \<in> set ps. rdma_packet_ok p"
  shows "between_packets ((parser ^^ length (concat (map packet_units ps))) s) net
    (reads @ map request_of (filter is_read ps)) (writes @ map request_of (filter (\<lambda>p. \<not> is_read p) ps)) (ds @ concat (map pk_data ps))"
  using assms
proof (induction ps arbitrary: s reads writes ds)
  case (Cons p ps)
  have one: "between_packets s (packet_units p @ concat (map packet_units ps) @ net) reads writes ds" using Cons.prems(1) by simp
  have "rdma_packet_ok p" using Cons.prems(2) by simp
  from Cons.IH [OF parser_one_packet [OF one this]] Cons.prems(2) show ?case
    by (cases "is_read p") (simp_all add: add.commute [of "length (packet_units p)"] funpow_add)
qed simp

text \<open>C28: The parser splits any sequence of well-formed packets into the read requests, the write requests and the write data, each in the
  order of the packets, with address, length and headers taken from the packet, and ends between packets.\<close>

theorem app_parser_splits:
  assumes "between_packets s (concat (map packet_units ps) @ net) reads writes ds" and "\<forall>p \<in> set ps. rdma_packet_ok p"
  shows "between_packets ((parser ^^ length (concat (map packet_units ps))) s) net
    (reads @ map request_of (filter is_read ps)) (writes @ map request_of (filter (\<lambda>p. \<not> is_read p) ps)) (ds @ concat (map pk_data ps))"
  using parser_packets [OF assms] .

theorem app_parser_splits_witness:
  "between_packets ((parser ^^ 4) ((app_rdma_init (\<lambda>_. 0))\<lparr>app_from_net :=
      [net_axis_512_zero, net_axis_512_zero\<lparr>na_data := 1\<rparr>, net_axis_512_zero\<lparr>na_data := 7\<rparr>, net_axis_512_zero\<lparr>na_data := 8, na_last := 1\<rparr>]\<rparr>))
    [] [] [\<lparr>rq_address = 0, rq_length = 0, rq_eth_header = net_axis_512_zero, rq_app_header = net_axis_512_zero\<lparr>na_data := 1\<rparr>\<rparr>]
    [net_axis_512_zero\<lparr>na_data := 7\<rparr>, net_axis_512_zero\<lparr>na_data := 8, na_last := 1\<rparr>]"
proof -
  let ?p = "\<lparr>pk_eth = net_axis_512_zero, pk_app = net_axis_512_zero\<lparr>na_data := 1\<rparr>,
    pk_data = [net_axis_512_zero\<lparr>na_data := 7\<rparr>, net_axis_512_zero\<lparr>na_data := 8, na_last := 1\<rparr>]\<rparr>"
  let ?s = "(app_rdma_init (\<lambda>_. 0))\<lparr>app_from_net := packet_units ?p\<rparr>"
  have h: "get_hdr_opcode (pk_app ?p) = 1" "get_hdr_address (pk_app ?p) = 0" "get_hdr_length (pk_app ?p) = 0"
    by (simp_all add: get_hdr_opcode_def get_hdr_address_def get_hdr_length_def range_get_def)
  have ok: "\<forall>p \<in> set [?p]. rdma_packet_ok p"
    using h(1) by (simp add: rdma_packet_ok_def opcode_defs one_packet_def net_axis_512_zero_def)
  have f: "filter is_read [?p] = []" "filter (\<lambda>p. \<not> is_read p) [?p] = [?p]" using h(1) by (simp_all add: is_read_def opcode_defs)
  have n: "length (concat (map packet_units [?p])) = 4" by (simp add: packet_units_def)
  have "between_packets ?s (concat (map packet_units [?p]) @ []) [] [] []"
    by (simp add: between_packets_def app_rdma_init_def Let_def)
  from app_parser_splits [OF this ok] show ?thesis
    unfolding n f using h by (simp add: packet_units_def request_of_def)
qed

end
