(* ===== verification/Sysnet.thy ===== *)
theory Sysnet
  imports Channels
begin

unbundle bit_operations_syntax

text \<open>
  The network subsystem: the receive side that hands each frame to the application named in its header
  (\<^verbatim>\<open>net/sysnet/hls_rx\<close>, \<^verbatim>\<open>hls_rx_256\<close>), the transmit side that merges the applications' frames
  (\<^verbatim>\<open>net/sysnet/hls_tx\<close>), and the receive side of the library network that acknowledges frames
  (\<^verbatim>\<open>net/libnet\<close>). \<open>char\<close> is signed: a byte is read as an integer between -128 and 127 where its value is used.
  Local variables that are read before they are set are inputs of the cycle, called \<open>junk\<close>.
\<close>

section \<open>Receive, 512 bits\<close>

datatype SYSNET_RX_STATE = SYSNET_RX_IDLE | SYSNET_RX_STREAM

record rx_512_st =
  rx_state :: SYSNET_RX_STATE
  rx_APP_ID :: "8 word"
  rx_input :: "net_axis_512 stream"
  output_0 :: "net_axis_512 stream"
  output_1 :: "net_axis_512 stream"

definition RX_DISPATCH :: "net_axis_512 \<Rightarrow> 8 word \<Rightarrow> rx_512_st \<Rightarrow> rx_512_st" where
  "RX_DISPATCH current APP_ID s =
     (if APP_ID = 0 then s\<lparr>output_0 := swrite (output_0 s) current\<rparr>
      else if APP_ID = 1 then s\<lparr>output_1 := swrite (output_1 s) current\<rparr>
      else s\<lparr>output_0 := swrite (output_0 s) current\<rparr>)"

definition sysnet_rx_512 :: "rx_512_st \<Rightarrow> rx_512_st" where
  "sysnet_rx_512 s =
     (case rx_input s of
        [] \<Rightarrow> s
      | current # rest \<Rightarrow>
          (let s = s\<lparr>rx_input := rest\<rparr>
           in case rx_state s of
                SYSNET_RX_IDLE \<Rightarrow>
                  (let APP_ID = range_get (na_data current) 343 336
                   in (RX_DISPATCH current APP_ID s)\<lparr>rx_APP_ID := APP_ID, rx_state := SYSNET_RX_STREAM\<rparr>)
              | SYSNET_RX_STREAM \<Rightarrow>
                  (let t = RX_DISPATCH current (rx_APP_ID s) s
                   in if na_last current = 1 then t\<lparr>rx_state := SYSNET_RX_IDLE, rx_APP_ID := 0\<rparr> else t)))"

section \<open>Receive, 256 bits\<close>

record rx_256_st =
  rx256_state :: SYSNET_RX_STATE
  rx256_APP_ID :: int
  rx256_input :: "net_axis_256 stream"
  rx256_output :: "net_axis_256 stream list"

definition NR_OUTPUTS :: nat where "NR_OUTPUTS = 2"

text \<open>The remainder of C has the sign of the
  dividend; \<open>None\<close> stands for a write outside the array.\<close>

definition c_rem :: "int \<Rightarrow> int \<Rightarrow> int" where
  "c_rem a b = sgn a * (\<bar>a\<bar> mod \<bar>b\<bar>)"

definition rx_256_write :: "net_axis_256 \<Rightarrow> int \<Rightarrow> rx_256_st \<Rightarrow> rx_256_st option" where
  "rx_256_write current APP_ID s =
     (if 0 \<le> APP_ID \<and> APP_ID < int NR_OUTPUTS
      then Some (s\<lparr>rx256_output := (rx256_output s)[nat APP_ID := swrite (rx256_output s ! nat APP_ID) current]\<rparr>)
      else None)"

definition sysnet_rx_256 :: "rx_256_st \<Rightarrow> rx_256_st option" where
  "sysnet_rx_256 s =
     (case rx256_input s of
        [] \<Rightarrow> Some s
      | current # rest \<Rightarrow>
          (let s = s\<lparr>rx256_input := rest\<rparr>
           in case rx256_state s of
                SYSNET_RX_IDLE \<Rightarrow>
                  (let APP_ID = c_rem (sint (range_get (n256_data current) 119 112 :: 8 word)) (int NR_OUTPUTS)
                   in map_option (\<lambda>t. t\<lparr>rx256_APP_ID := APP_ID, rx256_state := SYSNET_RX_STREAM\<rparr>) (rx_256_write current APP_ID s))
              | SYSNET_RX_STREAM \<Rightarrow>
                  map_option (\<lambda>t. if n256_last current = 1 then t\<lparr>rx256_state := SYSNET_RX_IDLE, rx256_APP_ID := 0\<rparr> else t)
                    (rx_256_write current (rx256_APP_ID s) s)))"

section \<open>Receive, 64 bits\<close>

datatype rx_64_state = PARSER_ETH0 | PARSER_ETH1 | PARSER_IP0 | PARSER_IP1 | PARSER_UDP | PARSER_LEGO | PARSER_SM_STREAM | PARSER_SM_RESIDUE

record rx_64_st =
  rx64_state :: rx_64_state
  rx64_input :: "net_axis_64 stream"
  rx64_output0 :: "net_axis_64 stream"
  rx64_output1 :: "net_axis_64 stream"

text \<open>\<open>current\<close>, \<open>prev\<close> and the header structures are local variables of the function, so what a cycle stores in them is
  gone in the next; \<open>junk\<close> is the value \<open>prev\<close>, or \<open>current\<close> in the last state, has when it is written out. The
  header fields are never read, apart from the application id, on which both branches do the same.\<close>

definition rx_64_hdr :: "rx_64_state \<Rightarrow> net_axis_64 \<Rightarrow> rx_64_st \<Rightarrow> rx_64_st" where
  "rx_64_hdr next_state w s = s\<lparr>rx64_input := tl (rx64_input s), rx64_output0 := swrite (rx64_output0 s) w, rx64_state := next_state\<rparr>"

definition sysnet_rx_64 :: "net_axis_64 \<Rightarrow> rx_64_st \<Rightarrow> rx_64_st" where
  "sysnet_rx_64 junk s =
     (case rx64_state s of
        PARSER_SM_RESIDUE \<Rightarrow> s\<lparr>rx64_output0 := swrite (rx64_output0 s) junk, rx64_state := PARSER_ETH0\<rparr>
      | _ \<Rightarrow>
          (case rx64_input s of
             [] \<Rightarrow> s
           | current # rest \<Rightarrow>
               (case rx64_state s of
                  PARSER_ETH0 \<Rightarrow> s\<lparr>rx64_input := rest, rx64_state := PARSER_ETH1\<rparr>
                | PARSER_ETH1 \<Rightarrow> rx_64_hdr PARSER_IP0 junk s
                | PARSER_IP0 \<Rightarrow> rx_64_hdr PARSER_IP1 junk s
                | PARSER_IP1 \<Rightarrow> rx_64_hdr PARSER_UDP junk s
                | PARSER_UDP \<Rightarrow> rx_64_hdr PARSER_LEGO junk s
                | PARSER_LEGO \<Rightarrow> rx_64_hdr (if n64_last current = 1 then PARSER_ETH0 else PARSER_SM_STREAM) current s
                | PARSER_SM_STREAM \<Rightarrow> rx_64_hdr (if n64_last current = 1 then PARSER_SM_RESIDUE else PARSER_SM_STREAM) current s
                | PARSER_SM_RESIDUE \<Rightarrow> s)))"

section \<open>Transmit\<close>

definition NR_SYSNET_TX_PORTS :: nat where "NR_SYSNET_TX_PORTS = 2"

datatype SYSNET_TX_STATE = SYSNET_TX_STATE_IDLE | SYSNET_TX_STATE_STREAM

record tx_512_st =
  tx_state :: SYSNET_TX_STATE
  tx_index :: nat
  tx_input :: "net_axis_512 stream list"
  tx_output :: "net_axis_512 stream"

definition tx_take :: "nat \<Rightarrow> tx_512_st \<Rightarrow> tx_512_st" where
  "tx_take i s = s\<lparr>tx_output := swrite (tx_output s) (hd (tx_input s ! i)), tx_input := (tx_input s)[i := tl (tx_input s ! i)]\<rparr>"

definition sysnet_tx_512 :: "tx_512_st \<Rightarrow> tx_512_st" where
  "sysnet_tx_512 s =
     (case tx_state s of
        SYSNET_TX_STATE_IDLE \<Rightarrow>
          (let i = for_break (\<lambda>i. tx_input s ! i \<noteq> []) 0 NR_SYSNET_TX_PORTS
           in if i < NR_SYSNET_TX_PORTS
              then (tx_take i s)\<lparr>tx_index := i, tx_state := if na_last (hd (tx_input s ! i)) = 0 then SYSNET_TX_STATE_STREAM else SYSNET_TX_STATE_IDLE\<rparr>
              else s)
      | SYSNET_TX_STATE_STREAM \<Rightarrow>
          if tx_input s ! tx_index s \<noteq> []
          then (tx_take (tx_index s) s)\<lparr>tx_state := if na_last (hd (tx_input s ! tx_index s)) = 1 then SYSNET_TX_STATE_IDLE else SYSNET_TX_STATE_STREAM\<rparr>
          else s)"

definition NUM_APPS :: "64 word" where "NUM_APPS = 2"

record tx_64_st =
  tx64_count :: "64 word"
  tx64_input0 :: "net_axis_64 stream"
  tx64_input1 :: "net_axis_64 stream"
  tx64_output :: "net_axis_64 stream"

definition tx_64_next :: "64 word \<Rightarrow> 64 word" where
  "tx_64_next count = (count + 1) mod NUM_APPS"

definition sysnet_tx_64 :: "tx_64_st \<Rightarrow> tx_64_st" where
  "sysnet_tx_64 s =
     (if tx64_count s = 0
      then (case tx64_input0 s of
              [] \<Rightarrow> s\<lparr>tx64_count := tx_64_next (tx64_count s)\<rparr>
            | current # rest \<Rightarrow>
                s\<lparr>tx64_input0 := rest, tx64_output := swrite (tx64_output s) current,
                  tx64_count := if n64_last current = 1 then tx_64_next (tx64_count s) else tx64_count s\<rparr>)
      else if tx64_count s = 1
      then (case tx64_input1 s of
              [] \<Rightarrow> s\<lparr>tx64_count := tx_64_next (tx64_count s)\<rparr>
            | current # rest \<Rightarrow>
                s\<lparr>tx64_input1 := rest, tx64_output := swrite (tx64_output s) current,
                  tx64_count := if n64_last current = 1 then tx_64_next (tx64_count s) else tx64_count s\<rparr>)
      else s)"

section \<open>Library network, receive\<close>

datatype SM = SM_IDLE | SM_STREAM

text \<open>\<open>tmp_ack\<close> is a static structure; its fields that the code does not set stay zero. \<open>i\<close> is an \<open>int\<close>.\<close>

record libnet_512_st =
  ln_state :: SM
  ln_tmp_ack :: net_axis_512
  ln_i :: "32 word"
  ln_input :: "net_axis_512 stream"
  ln_data_out :: "net_axis_512 stream"
  ln_ack_out :: "net_axis_512 stream"

definition libnet_rx_512 :: "libnet_512_st \<Rightarrow> libnet_512_st" where
  "libnet_rx_512 s =
     (case ln_input s of
        [] \<Rightarrow> s
      | current # rest \<Rightarrow>
          (let s = s\<lparr>ln_input := rest, ln_data_out := swrite (ln_data_out s) current\<rparr>
           in case ln_state s of
                SM_IDLE \<Rightarrow>
                  (let ack = (ln_tmp_ack s)\<lparr>na_data := scast (ln_i s), na_keep := 0xFFFFFFFFFFFFFFFF, na_last := 1\<rparr>
                   in s\<lparr>ln_tmp_ack := ack, ln_i := ln_i s + 1, ln_ack_out := swrite (ln_ack_out s) ack, ln_state := SM_STREAM\<rparr>)
              | SM_STREAM \<Rightarrow> if na_last current = 1 then s\<lparr>ln_state := SM_IDLE\<rparr> else s))"

record libnet_256_st =
  ln256_state :: SM
  ln256_tmp_ack :: net_axis_256
  ln256_i :: "32 word"
  ln256_input :: "net_axis_256 stream"
  ln256_data_out :: "net_axis_256 stream"
  ln256_ack_out :: "net_axis_256 stream"

definition libnet_rx_256 :: "libnet_256_st \<Rightarrow> libnet_256_st" where
  "libnet_rx_256 s =
     (case ln256_input s of
        [] \<Rightarrow> s
      | current # rest \<Rightarrow>
          (let s = s\<lparr>ln256_input := rest, ln256_data_out := swrite (ln256_data_out s) current\<rparr>
           in case ln256_state s of
                SM_IDLE \<Rightarrow>
                  (let ack = (ln256_tmp_ack s)\<lparr>n256_data := range_set (n256_data (ln256_tmp_ack s)) 31 0 (ln256_i s),
                               n256_keep := 0xFFFFFFFF, n256_last := 1\<rparr>
                   in s\<lparr>ln256_tmp_ack := ack, ln256_i := ln256_i s + 1, ln256_ack_out := swrite (ln256_ack_out s) ack, ln256_state := SM_STREAM\<rparr>)
              | SM_STREAM \<Rightarrow> if n256_last current = 1 then s\<lparr>ln256_state := SM_IDLE\<rparr> else s))"

end
