(* ===== verification/Sysnet_Props.thy ===== *)
theory Sysnet_Props
  imports Sysnet
begin

unbundle bit_operations_syntax

text \<open>
  Frames through the network subsystem: a contract of stages that look at the first unit of a frame and
  treat the others alike, its consequence for sequences of frames, the receive stages as its instances,
  and the arbiter of the transmit side.
\<close>

section \<open>Stages that forward frames\<close>

text \<open>\<open>idle\<close>: between two frames; \<open>busy p\<close>: inside a frame that goes to \<open>p\<close>. A frame has at least two units, as the
  stages assume.\<close>

definition long_frame :: "('u \<Rightarrow> bool) \<Rightarrow> 'u list \<Rightarrow> bool" where
  "long_frame is_last us \<longleftrightarrow> us \<noteq> [] \<and> frame is_last (tl us)"

locale frame_stage =
  fixes step :: "'s \<Rightarrow> 's" and inp :: "'s \<Rightarrow> 'u list" and out :: "'s \<Rightarrow> 'o" and idle :: "'s \<Rightarrow> bool" and busy :: "'s \<Rightarrow> 'p \<Rightarrow> bool"
    and is_last :: "'u \<Rightarrow> bool" and head_ok :: "'u \<Rightarrow> bool" and port :: "'u \<Rightarrow> 'p"
    and head_put :: "'p \<Rightarrow> 'u \<Rightarrow> 'o \<Rightarrow> 'o" and tail_put :: "'p \<Rightarrow> 'u \<Rightarrow> 'o \<Rightarrow> 'o"
  assumes head_law: "idle s \<Longrightarrow> inp s = u # us \<Longrightarrow> head_ok u \<Longrightarrow>
      busy (step s) (port u) \<and> inp (step s) = us \<and> out (step s) = head_put (port u) u (out s)"
    and tail_law: "busy s p \<Longrightarrow> inp s = u # us \<Longrightarrow>
      (if is_last u then idle (step s) else busy (step s) p) \<and> inp (step s) = us \<and> out (step s) = tail_put p u (out s)"
begin

definition frame_put :: "'u list \<Rightarrow> 'o \<Rightarrow> 'o" where
  "frame_put us o1 = fold (tail_put (port (hd us))) (tl us) (head_put (port (hd us)) (hd us) o1)"

lemma tail_run:
  "busy s p \<Longrightarrow> inp s = us @ rest \<Longrightarrow> frame is_last us \<Longrightarrow>
    idle ((step ^^ length us) s) \<and> inp ((step ^^ length us) s) = rest \<and> out ((step ^^ length us) s) = fold (tail_put p) us (out s)"
proof (induction us arbitrary: s)
  case (Cons u us)
  note law = tail_law [OF Cons.prems(1), of u "us @ rest"]
  show ?case
  proof (cases "us = []")
    case True
    then show ?thesis using law Cons.prems by (simp add: frame_Cons)
  next
    case False
    then have "\<not> is_last u" "frame is_last us" using Cons.prems(3) by (simp_all add: frame_Cons)
    then show ?thesis using law Cons.IH [of "step s"] Cons.prems(2) by (simp add: funpow_swap1)
  qed
qed (simp add: frame_def)

lemma frame_run:
  assumes "idle s" and "inp s = us @ rest" and "long_frame is_last us" and "head_ok (hd us)"
  shows "idle ((step ^^ length us) s) \<and> inp ((step ^^ length us) s) = rest \<and> out ((step ^^ length us) s) = frame_put us (out s)"
proof -
  obtain u vs where us: "us = u # vs" "frame is_last vs" using assms(3) by (cases us) (auto simp: long_frame_def)
  from head_law [OF assms(1), of u "vs @ rest"] assms(2,4) us
  have h: "busy (step s) (port u)" "inp (step s) = vs @ rest" "out (step s) = head_put (port u) u (out s)" by simp_all
  from tail_run [OF h(1,2) us(2)] show ?thesis by (simp add: us(1) h(3) frame_put_def funpow_swap1)
qed

theorem frames_run:
  "idle s \<Longrightarrow> inp s = concat fs @ rest \<Longrightarrow> \<forall>f \<in> set fs. long_frame is_last f \<and> head_ok (hd f) \<Longrightarrow>
    idle ((step ^^ length (concat fs)) s) \<and> inp ((step ^^ length (concat fs)) s) = rest \<and>
    out ((step ^^ length (concat fs)) s) = fold frame_put fs (out s)"
proof (induction fs arbitrary: s)
  case (Cons f fs)
  have "idle ((step ^^ length f) s) \<and> inp ((step ^^ length f) s) = concat fs @ rest \<and> out ((step ^^ length f) s) = frame_put f (out s)"
    using frame_run [OF Cons.prems(1), of f "concat fs @ rest"] Cons.prems(2,3) by simp
  with Cons.IH [of "(step ^^ length f) s"] Cons.prems(3) show ?case
    by (simp add: add.commute [of "length f"] funpow_add)
qed simp

end

section \<open>The 512-bit dispatcher\<close>

text \<open>\<open>to_second\<close>: the frame goes to the second output.\<close>

definition to_second :: "net_axis_512 \<Rightarrow> bool" where
  "to_second u \<longleftrightarrow> range_get (na_data u) 343 336 = (1 :: 8 word)"

definition rx_put :: "bool \<Rightarrow> net_axis_512 \<Rightarrow> net_axis_512 stream \<times> net_axis_512 stream \<Rightarrow> net_axis_512 stream \<times> net_axis_512 stream" where
  "rx_put second u outs = (if second then (fst outs, snd outs @ [u]) else (fst outs @ [u], snd outs))"

interpretation rx512: frame_stage sysnet_rx_512 rx_input "\<lambda>s. (output_0 s, output_1 s)" "\<lambda>s. rx_state s = SYSNET_RX_IDLE"
  "\<lambda>s p. rx_state s = SYSNET_RX_STREAM \<and> p = (rx_APP_ID s = 1)" "\<lambda>u. na_last u = 1" "\<lambda>u. True" to_second rx_put rx_put
  by unfold_locales
    (auto simp: sysnet_rx_512_def RX_DISPATCH_def rx_put_def to_second_def swrite_def Let_def)

lemma rx_put_fold: "fold (rx_put b) us outs = (if b then (fst outs, snd outs @ us) else (fst outs @ us, snd outs))"
  by (induction us arbitrary: outs) (auto simp: rx_put_def)

lemma rx512_frame_put: "f \<noteq> [] \<Longrightarrow> rx512.frame_put f outs = (if to_second (hd f) then (fst outs, snd outs @ f) else (fst outs @ f, snd outs))"
  by (cases f) (auto simp: rx512.frame_put_def rx_put_fold rx_put_def)

lemma rx512_frames_put:
  "\<forall>f \<in> set fs. f \<noteq> [] \<Longrightarrow> fold rx512.frame_put fs outs =
     (fst outs @ concat (filter (\<lambda>f. \<not> to_second (hd f)) fs), snd outs @ concat (filter (\<lambda>f. to_second (hd f)) fs))"
  by (induction fs arbitrary: outs) (auto simp: rx512_frame_put)

text \<open>C30: The 512-bit receiver delivers every frame whole and in order to the output its header names (application 1 to the second output,
  every other one to the first), and nothing else.\<close>

theorem rx_512_delivers:
  assumes "rx_state s = SYSNET_RX_IDLE" and "rx_input s = concat fs @ rest" and "\<forall>f \<in> set fs. long_frame (\<lambda>u. na_last u = 1) f"
  shows "\<exists>s'. (sysnet_rx_512 ^^ length (concat fs)) s = s' \<and> rx_state s' = SYSNET_RX_IDLE \<and> rx_input s' = rest \<and>
    output_0 s' = output_0 s @ concat (filter (\<lambda>f. \<not> to_second (hd f)) fs) \<and>
    output_1 s' = output_1 s @ concat (filter (\<lambda>f. to_second (hd f)) fs)"
proof -
  have "\<forall>f \<in> set fs. f \<noteq> []" using assms(3) by (auto simp: long_frame_def)
  with rx512.frames_run [OF assms(1,2)] assms(3) show ?thesis by (simp add: rx512_frames_put)
qed


definition rx_512_init :: "net_axis_512 stream \<Rightarrow> rx_512_st" where
  "rx_512_init us = \<lparr>rx_state = SYSNET_RX_IDLE, rx_APP_ID = 0, rx_input = us, output_0 = [], output_1 = []\<rparr>"

theorem rx_512_delivers_witness:
  "\<exists>s'. (sysnet_rx_512 ^^ 2) (rx_512_init [net_axis_512_zero\<lparr>na_data := range_set 0 343 336 (1 :: 8 word)\<rparr>, net_axis_512_zero\<lparr>na_last := 1\<rparr>]) = s' \<and>
     output_0 s' = [] \<and> output_1 s' = [net_axis_512_zero\<lparr>na_data := range_set 0 343 336 (1 :: 8 word)\<rparr>, net_axis_512_zero\<lparr>na_last := 1\<rparr>]"
proof -
  let ?f = "[net_axis_512_zero\<lparr>na_data := range_set 0 343 336 (1 :: 8 word)\<rparr>, net_axis_512_zero\<lparr>na_last := 1\<rparr>]"
  have sec: "to_second (hd ?f)"
    by (simp add: to_second_def ap_simps)
  have n: "length (concat [?f]) = 2" by simp
  have "rx_state (rx_512_init ?f) = SYSNET_RX_IDLE" "rx_input (rx_512_init ?f) = concat [?f] @ []"
    "\<forall>f \<in> set [?f]. long_frame (\<lambda>u. na_last u = 1) f"
    by (simp_all add: rx_512_init_def long_frame_def frame_def)
  from rx_512_delivers [OF this] sec show ?thesis unfolding n by (simp add: rx_512_init_def)
qed

section \<open>The 256-bit dispatcher\<close>

definition app_id_256 :: "net_axis_256 \<Rightarrow> 8 word" where
  "app_id_256 u = range_get (n256_data u) 119 112"

lemma c_rem_nonneg: "0 \<le> a \<Longrightarrow> 0 < b \<Longrightarrow> c_rem a b = a mod b"
  by (cases "a = 0") (simp_all add: c_rem_def)

lemma sint_small: "unat w < 128 \<Longrightarrow> sint w = uint w" for w :: "8 word"
proof -
  assume "unat w < 128"
  then have "int (unat w) < 128" by linarith
  then have "uint w < 2 ^ 7" by simp
  moreover have "- (2 ^ 7) \<le> uint w" by (rule order_trans [OF _ uint_nonnegative]) simp
  ultimately show ?thesis by (simp add: sint_uint signed_take_bit_int_eq_self)
qed

lemma sint_large: "128 \<le> unat w \<Longrightarrow> sint w = uint w - 256" for w :: "8 word"
proof -
  assume "128 \<le> unat w"
  then have "128 \<le> int (unat w)" by linarith
  then have b: "128 \<le> uint w" "uint w < 256" using uint_bounded [of w] by simp_all
  then have "uint w div 128 = 1" by (simp add: div_pos_geq)
  then have "bit (uint w) 7" by (simp add: bit_iff_odd)
  moreover have "take_bit 8 (uint w) = uint w" using b by (simp add: take_bit_int_eq_self)
  ultimately show ?thesis by (simp add: sint_uint signed_take_bit_eq_take_bit_minus)
qed

interpretation rx256: frame_stage "\<lambda>x. Option.bind x sysnet_rx_256" "\<lambda>x. case x of None \<Rightarrow> [] | Some s \<Rightarrow> rx256_input s"
  "\<lambda>x. case x of None \<Rightarrow> [] | Some s \<Rightarrow> rx256_output s"
  "\<lambda>x. case x of None \<Rightarrow> False | Some s \<Rightarrow> rx256_state s = SYSNET_RX_IDLE"
  "\<lambda>x p. case x of None \<Rightarrow> False | Some s \<Rightarrow> rx256_state s = SYSNET_RX_STREAM \<and> rx256_APP_ID s = int p \<and> p < NR_OUTPUTS"
  "\<lambda>u. n256_last u = 1" "\<lambda>u. unat (app_id_256 u) < 128" "\<lambda>u. unat (app_id_256 u) mod NR_OUTPUTS"
  "\<lambda>p u outs. outs[p := outs ! p @ [u]]" "\<lambda>p u outs. outs[p := outs ! p @ [u]]"
proof unfold_locales
  fix x :: "rx_256_st option" and u us
  assume idle: "case x of None \<Rightarrow> False | Some s \<Rightarrow> rx256_state s = SYSNET_RX_IDLE" and inp: "(case x of None \<Rightarrow> [] | Some s \<Rightarrow> rx256_input s) = u # us"
    and ok: "unat (app_id_256 u) < 128"
  then obtain s where x: "x = Some s" "rx256_state s = SYSNET_RX_IDLE" "rx256_input s = u # us" by (cases x) auto
  have "c_rem (sint (app_id_256 u)) (int NR_OUTPUTS) = int (unat (app_id_256 u) mod NR_OUTPUTS)"
    using ok by (simp add: sint_small c_rem_nonneg NR_OUTPUTS_def of_nat_mod)
  moreover have "unat (app_id_256 u) mod NR_OUTPUTS < NR_OUTPUTS" by (simp add: NR_OUTPUTS_def)
  ultimately show "(case Option.bind x sysnet_rx_256 of None \<Rightarrow> False | Some s \<Rightarrow> rx256_state s = SYSNET_RX_STREAM \<and>
        rx256_APP_ID s = int (unat (app_id_256 u) mod NR_OUTPUTS) \<and> unat (app_id_256 u) mod NR_OUTPUTS < NR_OUTPUTS) \<and>
      (case Option.bind x sysnet_rx_256 of None \<Rightarrow> [] | Some s \<Rightarrow> rx256_input s) = us \<and>
      (case Option.bind x sysnet_rx_256 of None \<Rightarrow> [] | Some s \<Rightarrow> rx256_output s) =
      (case x of None \<Rightarrow> [] | Some s \<Rightarrow> rx256_output s)[unat (app_id_256 u) mod NR_OUTPUTS :=
        (case x of None \<Rightarrow> [] | Some s \<Rightarrow> rx256_output s) ! (unat (app_id_256 u) mod NR_OUTPUTS) @ [u]]"
    using x by (simp add: sysnet_rx_256_def rx_256_write_def swrite_def Let_def flip: app_id_256_def)
next
  fix x :: "rx_256_st option" and p u us
  assume "case x of None \<Rightarrow> False | Some s \<Rightarrow> rx256_state s = SYSNET_RX_STREAM \<and> rx256_APP_ID s = int p \<and> p < NR_OUTPUTS"
    and "(case x of None \<Rightarrow> [] | Some s \<Rightarrow> rx256_input s) = u # us"
  then obtain s where x: "x = Some s" "rx256_state s = SYSNET_RX_STREAM" "rx256_APP_ID s = int p" "p < NR_OUTPUTS" "rx256_input s = u # us"
    by (cases x) auto
  then show "(if n256_last u = 1 then case Option.bind x sysnet_rx_256 of None \<Rightarrow> False | Some s \<Rightarrow> rx256_state s = SYSNET_RX_IDLE
      else case Option.bind x sysnet_rx_256 of None \<Rightarrow> False | Some s \<Rightarrow> rx256_state s = SYSNET_RX_STREAM \<and> rx256_APP_ID s = int p \<and> p < NR_OUTPUTS) \<and>
      (case Option.bind x sysnet_rx_256 of None \<Rightarrow> [] | Some s \<Rightarrow> rx256_input s) = us \<and>
      (case Option.bind x sysnet_rx_256 of None \<Rightarrow> [] | Some s \<Rightarrow> rx256_output s) =
      (case x of None \<Rightarrow> [] | Some s \<Rightarrow> rx256_output s)[p := (case x of None \<Rightarrow> [] | Some s \<Rightarrow> rx256_output s) ! p @ [u]]"
    by (simp add: sysnet_rx_256_def rx_256_write_def swrite_def Let_def)
qed

text \<open>The 256-bit receiver takes the remainder of a signed byte: an odd application id of 128 or more gives the index -1, and the frame
  is written outside the array of outputs.\<close>

theorem rx_256_negative_id:
  assumes "rx256_state s = SYSNET_RX_IDLE" and "rx256_input s = u # us" and "128 \<le> unat (app_id_256 u)" and "odd (unat (app_id_256 u))"
  shows "sysnet_rx_256 s = None"
proof -
  let ?a = "uint (app_id_256 u)"
  have a: "sint (app_id_256 u) = ?a - 256" "?a < 256" using sint_large [OF assms(3)] uint_bounded [of "app_id_256 u"] by simp_all
  have "even ?a = even (unat (app_id_256 u))" using even_of_nat_iff [of "unat (app_id_256 u)", where 'a = int] by simp
  then have "odd ?a" using assms(4) by blast
  then have "(256 - ?a) mod 2 = 1" by presburger
  then have "\<bar>sint (app_id_256 u)\<bar> mod 2 = 1" using a by (simp add: abs_if)
  moreover have "sgn (sint (app_id_256 u)) = - 1" using a by simp
  ultimately have "c_rem (sint (app_id_256 u)) (int NR_OUTPUTS) = - 1" by (simp add: c_rem_def NR_OUTPUTS_def)
  with assms(1,2) show ?thesis
    by (simp add: sysnet_rx_256_def rx_256_write_def Let_def flip: app_id_256_def)
qed

theorem rx_256_negative_id_witness:
  "sysnet_rx_256 \<lparr>rx256_state = SYSNET_RX_IDLE, rx256_APP_ID = 0,
     rx256_input = [\<lparr>n256_data = 0x81 * 2 ^ 112, n256_last = 0, n256_keep = 0, n256_user = 0\<rparr>], rx256_output = [[], []]\<rparr> = None"
proof -
  let ?u = "\<lparr>n256_data = 0x81 * 2 ^ 112, n256_last = 0, n256_keep = 0, n256_user = 0\<rparr>"
  have "app_id_256 ?u = 0x81" by (simp add: app_id_256_def range_get_def drop_bit_eq_div)
  then have "128 \<le> unat (app_id_256 ?u)" "odd (unat (app_id_256 ?u))" by simp_all
  then show ?thesis by (intro rx_256_negative_id [of _ ?u "[]"]) simp_all
qed


section \<open>Acknowledgements of the library network\<close>

definition ack_head :: "unit \<Rightarrow> 'u \<Rightarrow> 'u list \<times> 32 word list \<times> 32 word \<Rightarrow> 'u list \<times> 32 word list \<times> 32 word" where
  "ack_head p u outs = (case outs of (ds, acks, i) \<Rightarrow> (ds @ [u], acks @ [i], i + 1))"

definition ack_tail :: "unit \<Rightarrow> 'u \<Rightarrow> 'u list \<times> 32 word list \<times> 32 word \<Rightarrow> 'u list \<times> 32 word list \<times> 32 word" where
  "ack_tail p u outs = (case outs of (ds, acks, i) \<Rightarrow> (ds @ [u], acks, i))"

lemma ack_tail_fold: "fold (ack_tail p) us (ds, acks, i) = (ds @ us, acks, i)"
  by (induction us arbitrary: ds) (auto simp: ack_tail_def)

lemma ucast_scast_low: "ucast (scast (w :: 32 word) :: 512 word) = w"
proof (rule bit_word_eqI)
  fix n assume "n < LENGTH(32)"
  then show "bit (ucast (scast w :: 512 word) :: 32 word) n \<longleftrightarrow> bit w n"
    by (cases "n = 31") (auto simp: bit_simps min_def)
qed

text \<open>The number of an acknowledgement is in its low 32 bits.\<close>

interpretation ln512: frame_stage libnet_rx_512 ln_input "\<lambda>s. (ln_data_out s, map (\<lambda>a. ucast (na_data a)) (ln_ack_out s), ln_i s)"
  "\<lambda>s. ln_state s = SM_IDLE" "\<lambda>s p. ln_state s = SM_STREAM" "\<lambda>u. na_last u = 1" "\<lambda>u. True" "\<lambda>u. ()" ack_head ack_tail
  by unfold_locales (auto simp: libnet_rx_512_def ack_head_def ack_tail_def swrite_def Let_def ucast_scast_low)

interpretation ln256: frame_stage libnet_rx_256 ln256_input "\<lambda>s. (ln256_data_out s, map (\<lambda>a. range_get (n256_data a) 31 0) (ln256_ack_out s), ln256_i s)"
  "\<lambda>s. ln256_state s = SM_IDLE" "\<lambda>s p. ln256_state s = SM_STREAM" "\<lambda>u. n256_last u = 1" "\<lambda>u. True" "\<lambda>u. ()" ack_head ack_tail
  by unfold_locales (auto simp: libnet_rx_256_def ack_head_def ack_tail_def swrite_def Let_def ap_simps)

lemma ack_frames:
  assumes "\<And>f ds acks i. f \<noteq> [] \<Longrightarrow> fput f (ds, acks, i :: 32 word) = (ds @ f, acks @ [i], i + 1)" and "\<forall>f \<in> set fs. f \<noteq> []"
  shows "fold fput fs (ds, acks, i) = (ds @ concat fs, acks @ map (\<lambda>k. i + of_nat k) [0..<length fs], i + of_nat (length fs))"
  using assms(2)
proof (induction fs arbitrary: ds acks i)
  case (Cons f fs)
  have "map (\<lambda>k. i + of_nat k) [0..<length (f # fs)] = i # map (\<lambda>k. i + 1 + of_nat k) [0..<length fs]"
    unfolding length_Cons upt_conv_Cons [OF zero_less_Suc] by (simp add: map_Suc_upt [symmetric] add.assoc del: upt_Suc)
  then show ?case using Cons assms(1) [of f] by (simp add: add.assoc del: upt_Suc)
qed simp

text \<open>C31: The library network passes every frame on unchanged and acknowledges each with one unit; the acknowledgements are numbered
  consecutively.\<close>

theorem libnet_acks:
  assumes "ln_state s = SM_IDLE" and "ln_input s = concat fs @ rest" and "\<forall>f \<in> set fs. long_frame (\<lambda>u. na_last u = 1) f"
  shows "\<exists>s'. (libnet_rx_512 ^^ length (concat fs)) s = s' \<and> ln_state s' = SM_IDLE \<and> ln_input s' = rest \<and>
    ln_data_out s' = ln_data_out s @ concat fs \<and>
    map (\<lambda>a. ucast (na_data a)) (ln_ack_out s') = map (\<lambda>a. ucast (na_data a)) (ln_ack_out s) @ map (\<lambda>k. ln_i s + of_nat k) [0..<length fs]"
proof -
  have ne: "\<forall>f \<in> set fs. f \<noteq> []" using assms(3) by (auto simp: long_frame_def)
  have put: "f \<noteq> [] \<Longrightarrow> ln512.frame_put f (ds, acks, i) = (ds @ f, acks @ [i], i + 1)" for f ds acks i
    by (cases f) (simp_all add: ln512.frame_put_def ack_head_def ack_tail_fold)
  from ln512.frames_run [OF assms(1,2)] assms(3) show ?thesis by (simp add: ack_frames [OF put ne])
qed


theorem libnet_acks_witness:
  "\<exists>s'. (libnet_rx_512 ^^ 2) \<lparr>ln_state = SM_IDLE, ln_tmp_ack = net_axis_512_zero, ln_i = 1,
       ln_input = [net_axis_512_zero, net_axis_512_zero\<lparr>na_last := 1\<rparr>], ln_data_out = [], ln_ack_out = []\<rparr> = s' \<and>
     ln_data_out s' = [net_axis_512_zero, net_axis_512_zero\<lparr>na_last := 1\<rparr>] \<and> map (\<lambda>a. ucast (na_data a)) (ln_ack_out s') = [1 :: 32 word]"
proof -
  let ?f = "[net_axis_512_zero, net_axis_512_zero\<lparr>na_last := 1\<rparr>]"
  let ?s = "\<lparr>ln_state = SM_IDLE, ln_tmp_ack = net_axis_512_zero, ln_i = 1, ln_input = ?f, ln_data_out = [], ln_ack_out = []\<rparr>"
  have n: "length (concat [?f]) = 2" by simp
  have "ln_state ?s = SM_IDLE" "ln_input ?s = concat [?f] @ []" "\<forall>f \<in> set [?f]. long_frame (\<lambda>u. na_last u = 1) f"
    by (simp_all add: long_frame_def frame_def)
  from libnet_acks [OF this] show ?thesis unfolding n by simp
qed

section \<open>The transmit arbiter\<close>

text \<open>Units arrive at the ports at any time; \<open>sent i\<close> is everything that has arrived at port \<open>i\<close>.\<close>

definition tx_512_init :: tx_512_st where
  "tx_512_init = \<lparr>tx_state = SYSNET_TX_STATE_IDLE, tx_index = 0, tx_input = [[], []], tx_output = []\<rparr>"

inductive tx_reach :: "(nat \<Rightarrow> net_axis_512 list) \<Rightarrow> tx_512_st \<Rightarrow> bool" where
  init: "tx_reach (\<lambda>_. []) tx_512_init"
| arrive: "tx_reach sent s \<Longrightarrow> i < NR_SYSNET_TX_PORTS \<Longrightarrow>
    tx_reach (sent(i := sent i @ [u])) (s\<lparr>tx_input := (tx_input s)[i := tx_input s ! i @ [u]]\<rparr>)"
| cycle: "tx_reach sent s \<Longrightarrow> tx_reach sent (sysnet_tx_512 s)"

text \<open>The output is a sequence of whole frames, each from one port, and a part of a frame that is still being sent; what each port
  contributed, in order, and what waits there is what arrived.\<close>

definition tx_framed :: "(nat \<Rightarrow> net_axis_512 list) \<Rightarrow> tx_512_st \<Rightarrow> (nat \<times> net_axis_512 list) list \<Rightarrow> net_axis_512 list \<Rightarrow> bool" where
  "tx_framed sent s picks part \<longleftrightarrow>
     tx_output s = concat (map snd picks) @ part \<and> (\<forall>(i, f) \<in> set picks. i < NR_SYSNET_TX_PORTS \<and> one_packet f) \<and>
     (part = [] \<longleftrightarrow> tx_state s = SYSNET_TX_STATE_IDLE) \<and> (\<forall>u \<in> set part. na_last u \<noteq> 1) \<and>
     length (tx_input s) = NR_SYSNET_TX_PORTS \<and> (tx_state s = SYSNET_TX_STATE_STREAM \<longrightarrow> tx_index s < NR_SYSNET_TX_PORTS) \<and>
     (\<forall>i < NR_SYSNET_TX_PORTS. sent i = concat (map snd (filter (\<lambda>p. fst p = i) picks)) @
        (if tx_state s = SYSNET_TX_STATE_STREAM \<and> tx_index s = i then part else []) @ tx_input s ! i)"

lemma one_packet_snoc: "\<forall>u \<in> set us. na_last u \<noteq> 1 \<Longrightarrow> na_last u = 1 \<Longrightarrow> one_packet (us @ [u])"
  by (simp add: one_packet_def)

lemma bit_word_cases: "(b :: 1 word) = 0 \<or> b = 1"
  using unsigned_less [of b, where 'a = nat] by (auto simp: word_unat_eq_iff less_2_cases_iff)

text \<open>One unit is taken from port \<open>j\<close>, the port of the frame being sent if there is one.\<close>

lemma tx_take_framed:
  assumes fr: "tx_framed sent s picks part" and j: "j < NR_SYSNET_TX_PORTS" and u: "tx_input s ! j = u # us"
    and same: "tx_state s = SYSNET_TX_STATE_STREAM \<Longrightarrow> tx_index s = j"
    and s': "s' = (tx_take j s)\<lparr>tx_index := j, tx_state := if na_last u = 1 then SYSNET_TX_STATE_IDLE else SYSNET_TX_STATE_STREAM\<rparr>"
  shows "tx_framed sent s' (if na_last u = 1 then picks @ [(j, part @ [u])] else picks) (if na_last u = 1 then [] else part @ [u])"
proof -
  have len: "length (tx_input s) = NR_SYSNET_TX_PORTS" using fr by (simp add: tx_framed_def)
  have idle: "tx_state s = SYSNET_TX_STATE_IDLE \<Longrightarrow> part = []" and nl: "\<forall>u \<in> set part. na_last u \<noteq> 1" using fr by (simp_all add: tx_framed_def)
  have sent: "sent i = concat (map snd (filter (\<lambda>p. fst p = i) picks)) @ (if i = j then part else []) @ tx_input s ! i"
    if "i < NR_SYSNET_TX_PORTS" for i
    using fr that same idle by (cases "tx_state s") (auto simp: tx_framed_def)
  have inp: "tx_input s' ! i = (if i = j then us else tx_input s ! i)" if "i < NR_SYSNET_TX_PORTS" for i
    using that len j u by (simp add: s' tx_take_def)
  have out: "tx_output s' = tx_output s @ [u]" "length (tx_input s') = NR_SYSNET_TX_PORTS" "tx_index s' = j"
    "tx_state s' = (if na_last u = 1 then SYSNET_TX_STATE_IDLE else SYSNET_TX_STATE_STREAM)"
    using len u by (simp_all add: s' tx_take_def swrite_def)
  show ?thesis
  proof (cases "na_last u = 1")
    case True
    have "one_packet (part @ [u])" using one_packet_snoc [OF nl True] .
    moreover have "\<forall>i < NR_SYSNET_TX_PORTS. sent i = concat (map snd (filter (\<lambda>p. fst p = i) (picks @ [(j, part @ [u])]))) @ tx_input s' ! i"
      using sent inp u by auto
    ultimately show ?thesis using fr True j out by (auto simp: tx_framed_def)
  next
    case False
    have "\<forall>i < NR_SYSNET_TX_PORTS. sent i = concat (map snd (filter (\<lambda>p. fst p = i) picks)) @ (if j = i then part @ [u] else []) @ tx_input s' ! i"
      using sent inp u by auto
    then show ?thesis using fr False j out nl by (auto simp: tx_framed_def)
  qed
qed

lemma tx_cycle_framed:
  assumes fr: "tx_framed sent s picks part"
  shows "\<exists>picks part. tx_framed sent (sysnet_tx_512 s) picks part"
proof (cases "tx_state s")
  case SYSNET_TX_STATE_IDLE
  let ?i = "for_break (\<lambda>i. tx_input s ! i \<noteq> []) 0 NR_SYSNET_TX_PORTS"
  show ?thesis
  proof (cases "?i < NR_SYSNET_TX_PORTS")
    case True
    with for_break_hit obtain u us where u: "tx_input s ! ?i = u # us" by (metis (mono_tags, lifting) neq_Nil_conv)
    have "sysnet_tx_512 s = (tx_take ?i s)\<lparr>tx_index := ?i, tx_state := if na_last u = 1 then SYSNET_TX_STATE_IDLE else SYSNET_TX_STATE_STREAM\<rparr>"
      using True u SYSNET_TX_STATE_IDLE bit_word_cases [of "na_last u"] by (auto simp: sysnet_tx_512_def Let_def)
    from tx_take_framed [OF fr True u _ this] SYSNET_TX_STATE_IDLE show ?thesis by auto
  qed (use fr SYSNET_TX_STATE_IDLE in \<open>auto simp: sysnet_tx_512_def Let_def\<close>)
next
  case SYSNET_TX_STATE_STREAM
  show ?thesis
  proof (cases "tx_input s ! tx_index s")
    case (Cons u us)
    have j: "tx_index s < NR_SYSNET_TX_PORTS" using fr SYSNET_TX_STATE_STREAM by (simp add: tx_framed_def)
    have "sysnet_tx_512 s = (tx_take (tx_index s) s)\<lparr>tx_index := tx_index s, tx_state := if na_last u = 1 then SYSNET_TX_STATE_IDLE else SYSNET_TX_STATE_STREAM\<rparr>"
      using Cons SYSNET_TX_STATE_STREAM by (simp add: sysnet_tx_512_def tx_take_def)
    from tx_take_framed [OF fr j Cons _ this] show ?thesis by blast
  qed (use fr SYSNET_TX_STATE_STREAM in \<open>auto simp: sysnet_tx_512_def\<close>)
qed

text \<open>C9: Whatever arrives at the ports and when, the 512-bit transmitter never mixes frames: its output is a sequence of whole frames, each
  taken from one port, followed by a part of the frame it is sending, and the frames of each port come out in the order they arrived,
  without loss or duplication.\<close>

theorem tx_512_whole_frames:
  assumes "tx_reach sent s"
  shows "\<exists>picks part. tx_output s = concat (map snd picks) @ part \<and> (\<forall>(i, f) \<in> set picks. i < NR_SYSNET_TX_PORTS \<and> one_packet f) \<and>
    (\<forall>u \<in> set part. na_last u \<noteq> 1) \<and>
    (\<forall>i < NR_SYSNET_TX_PORTS. sent i = concat (map snd (filter (\<lambda>p. fst p = i) picks)) @
       (if tx_state s = SYSNET_TX_STATE_STREAM \<and> tx_index s = i then part else []) @ tx_input s ! i)"
proof -
  have "\<exists>picks part. tx_framed sent s picks part"
    using assms
  proof (induction rule: tx_reach.induct)
    case init
    show ?case
      by (rule exI [of _ "[]"], rule exI [of _ "[]"])
        (auto simp: tx_framed_def tx_512_init_def NR_SYSNET_TX_PORTS_def nth_Cons split: nat.split)
  next
    case (arrive sent s i u)
    then obtain picks part where "tx_framed sent s picks part" by blast
    then have "tx_framed (sent(i := sent i @ [u])) (s\<lparr>tx_input := (tx_input s)[i := tx_input s ! i @ [u]]\<rparr>) picks part"
      using arrive.hyps(2) by (auto simp: tx_framed_def nth_list_update)
    then show ?case by blast
  next
    case (cycle sent s)
    then show ?case using tx_cycle_framed by blast
  qed
  then show ?thesis unfolding tx_framed_def by blast
qed

theorem tx_512_whole_frames_witness:
  "\<exists>(picks :: (nat \<times> net_axis_512 list) list) part. tx_output (sysnet_tx_512 (tx_512_init\<lparr>tx_input := [[], [net_axis_512_zero]]\<rparr>)) = concat (map snd picks) @ part \<and>
     list_all (\<lambda>u. na_last u \<noteq> 1) part"
proof -
  have one: "1 < NR_SYSNET_TX_PORTS" by (simp add: NR_SYSNET_TX_PORTS_def)
  have "(tx_input tx_512_init)[1 := tx_input tx_512_init ! 1 @ [net_axis_512_zero]] = [[], [net_axis_512_zero]]" by (simp add: tx_512_init_def)
  from tx_512_whole_frames [OF tx_reach.cycle [OF tx_reach.arrive [OF tx_reach.init one, of net_axis_512_zero, unfolded this]]]
  show ?thesis by (simp add: list_all_iff) fast
qed

text \<open>The 64-bit transmitter does mix frames. When a port runs dry inside a frame it moves on to the other port: with a frame of two units
  whose second unit arrives a little later, a frame of the other port is sent between the two.\<close>

theorem tx_64_interleaves:
  "\<exists>a1 a2 b. frame (\<lambda>u. n64_last u = 1) [a1, a2] \<and> frame (\<lambda>u. n64_last u = 1) [b] \<and>
     (let s0 = \<lparr>tx64_count = 0, tx64_input0 = [a1], tx64_input1 = [b], tx64_output = []\<rparr>;
          s1 = (sysnet_tx_64 ^^ 2) s0;
          s2 = (sysnet_tx_64 ^^ 2) (s1\<lparr>tx64_input0 := tx64_input0 s1 @ [a2]\<rparr>)
      in tx64_output s2 = [a1, b, a2])"
proof -
  let ?u = "\<lambda>d l. \<lparr>n64_data = d, n64_last = l, n64_keep = 0, n64_user = 0\<rparr>"
  show ?thesis
    by (rule exI [of _ "?u 1 0"], rule exI [of _ "?u 2 1"], rule exI [of _ "?u 3 1"])
      (simp add: frame_def Let_def numeral_2_eq_2 sysnet_tx_64_def tx_64_next_def NUM_APPS_def)
qed

section \<open>The 64-bit receiver\<close>

lemma rx_64_stream:
  "rx64_state s = PARSER_SM_STREAM \<Longrightarrow> rx64_input s = us @ rest \<Longrightarrow> frame (\<lambda>u. n64_last u = 1) us \<Longrightarrow>
    (sysnet_rx_64 junk ^^ length us) s = s\<lparr>rx64_input := rest, rx64_output0 := rx64_output0 s @ us, rx64_state := PARSER_SM_RESIDUE\<rparr>"
proof (induction us arbitrary: s)
  case (Cons u us)
  show ?case
  proof (cases "us = []")
    case True
    then show ?thesis using Cons.prems by (simp add: frame_Cons sysnet_rx_64_def rx_64_hdr_def swrite_def)
  next
    case False
    then have "n64_last u \<noteq> 1" "frame (\<lambda>u. n64_last u = 1) us" using Cons.prems(3) by (simp_all add: frame_Cons)
    then have step: "sysnet_rx_64 junk s = s\<lparr>rx64_input := us @ rest, rx64_output0 := rx64_output0 s @ [u], rx64_state := PARSER_SM_STREAM\<rparr>"
      using Cons.prems(1,2) by (simp add: sysnet_rx_64_def rx_64_hdr_def swrite_def)
    from Cons.IH [of "sysnet_rx_64 junk s"] \<open>frame (\<lambda>u. n64_last u = 1) us\<close> show ?thesis by (simp add: step funpow_swap1)
  qed
qed (simp add: frame_def)

text \<open>The 64-bit receiver does not pass its headers on: of a frame with more than six words the application gets the words from the sixth
  on, preceded by four and followed by one unit whose content is an uninitialised variable, always on the first output.\<close>

theorem rx_64_loses_headers:
  assumes "rx64_state s = PARSER_ETH0" and "rx64_input s = w0 # w1 # w2 # w3 # w4 # w5 # us @ rest" and "n64_last w5 = 0"
    and "frame (\<lambda>u. n64_last u = 1) us"
  shows "\<exists>s'. (sysnet_rx_64 junk ^^ (length us + 7)) s = s' \<and> rx64_state s' = PARSER_ETH0 \<and> rx64_input s' = rest \<and>
    rx64_output0 s' = rx64_output0 s @ [junk, junk, junk, junk, w5] @ us @ [junk] \<and> rx64_output1 s' = rx64_output1 s"
proof -
  let ?s6 = "s\<lparr>rx64_input := us @ rest, rx64_output0 := rx64_output0 s @ [junk, junk, junk, junk, w5], rx64_state := PARSER_SM_STREAM\<rparr>"
  have six: "(sysnet_rx_64 junk ^^ 6) s = ?s6"
    using assms(1-3) by (simp add: eval_nat_numeral sysnet_rx_64_def rx_64_hdr_def swrite_def)
  have "(sysnet_rx_64 junk ^^ (length us + 7)) s = sysnet_rx_64 junk ((sysnet_rx_64 junk ^^ (length us + 6)) s)"
    by (simp add: eval_nat_numeral)
  also have "\<dots> = sysnet_rx_64 junk ((sysnet_rx_64 junk ^^ length us) ?s6)"
    unfolding funpow_add o_apply six ..
  also have "(sysnet_rx_64 junk ^^ length us) ?s6 = ?s6\<lparr>rx64_input := rest, rx64_output0 := rx64_output0 ?s6 @ us, rx64_state := PARSER_SM_RESIDUE\<rparr>"
    by (rule rx_64_stream) (simp_all add: assms(4))
  also have "sysnet_rx_64 junk \<dots> = s\<lparr>rx64_input := rest, rx64_output0 := rx64_output0 s @ [junk, junk, junk, junk, w5] @ us @ [junk],
      rx64_state := PARSER_ETH0\<rparr>"
    by (simp add: sysnet_rx_64_def swrite_def)
  finally show ?thesis by simp
qed

theorem rx_64_loses_headers_witness:
  "let u = (\<lambda>d l. \<lparr>n64_data = d, n64_last = l, n64_keep = 0, n64_user = 0\<rparr>)
   in \<exists>s'. (sysnet_rx_64 (u 0 0) ^^ 8) \<lparr>rx64_state = PARSER_ETH0, rx64_input = [u 1 0, u 2 0, u 3 0, u 4 0, u 5 0, u 6 0, u 7 1],
         rx64_output0 = [], rx64_output1 = []\<rparr> = s' \<and> rx64_output0 s' = [u 0 0, u 0 0, u 0 0, u 0 0, u 6 0, u 7 1, u 0 0]"
proof -
  let ?u = "\<lambda>d l. \<lparr>n64_data = d, n64_last = l, n64_keep = 0, n64_user = 0\<rparr>"
  let ?s = "\<lparr>rx64_state = PARSER_ETH0, rx64_input = [?u 1 0, ?u 2 0, ?u 3 0, ?u 4 0, ?u 5 0, ?u 6 0, ?u 7 1], rx64_output0 = [], rx64_output1 = []\<rparr>"
  have n: "length [?u 7 1] + 7 = 8" by simp
  have "rx64_state ?s = PARSER_ETH0" "rx64_input ?s = ?u 1 0 # ?u 2 0 # ?u 3 0 # ?u 4 0 # ?u 5 0 # ?u 6 0 # [?u 7 1] @ []" "n64_last (?u 6 0) = 0"
    "frame (\<lambda>u. n64_last u = 1) [?u 7 1]" by (simp_all add: frame_def)
  from rx_64_loses_headers [OF this, of "?u 0 0"] show ?thesis unfolding n by simp
qed

end
