(* ===== verification/Chunk.thy ===== *)
theory Chunk
  imports HLS_Prelude
begin

unbundle bit_operations_syntax

text \<open>
  The fixed-size chunk allocator (\<^verbatim>\<open>alloc/chunk/chunk_alloc.cpp\<close>, \<^verbatim>\<open>core.cpp\<close>) and the segment protection unit it
  controls (\<^verbatim>\<open>mm/legacy/hls_segment/sysmmu.cpp\<close>, \<^verbatim>\<open>core.cpp\<close>): eight chunks of 512 MB, a bitmap on one side and a
  table of owners and permissions on the other, kept in step by requests and replies on two channels.

  The allocator waits inside a call for the unit's reply; where it waits is part of its state here, so that the unit
  can run in between.
\<close>

section \<open>Channel words\<close>

definition CHUNK_SHIFT :: nat where "CHUNK_SHIFT = 29"
definition TABLE_SIZE :: nat where "TABLE_SIZE = 8"

definition CHUNK_ALLOC :: "1 word" where "CHUNK_ALLOC = 0"
definition CHUNK_FREE :: "1 word" where "CHUNK_FREE = 1"

record sysmmu_entry =
  se_valid :: "1 word"
  se_rw :: "1 word"
  se_pid :: "8 word"

record sysmmu_indata =
  sd_in_addr :: "32 word"
  sd_pid :: "8 word"
  sd_in_len :: "8 word"
  sd_in_size :: "3 word"

record sysmmu_outdata =
  sd_out_addr :: "32 word"
  sd_drop :: "1 word"

record sysmmu_alloc_if =
  sa_opcode :: "1 word"
  sa_pid :: "8 word"
  sa_rw :: "1 word"
  sa_addr :: "32 word"

record sysmmu_alloc_ret_if =
  sr_addr :: "32 word"
  sr_stat :: "1 word"

record sysmmu_ctrl_if =
  sc_opcode :: "1 word"
  sc_rw :: "1 word"
  sc_pid :: "8 word"
  sc_idx :: "4 word"

definition CHUNK_IDX :: "int \<Rightarrow> 4 word" where
  "CHUNK_IDX addr = word_of_int (addr div 2 ^ CHUNK_SHIFT)"

section \<open>The allocator\<close>

record chunk_st =
  chunk_bitmap :: "8 word"
  chunk_wait :: "(sysmmu_alloc_if \<times> nat) option"
  ch_alloc :: "sysmmu_alloc_if stream"
  ch_alloc_ret :: "sysmmu_alloc_ret_if stream"
  ch_ctrl :: "sysmmu_ctrl_if stream"
  ch_ctrl_ret :: "1 word stream"

definition ctrl_request :: "sysmmu_alloc_if \<Rightarrow> nat \<Rightarrow> sysmmu_ctrl_if" where
  "ctrl_request req i = \<lparr>sc_opcode = sa_opcode req, sc_rw = sa_rw req, sc_pid = sa_pid req, sc_idx = of_nat i\<rparr>"

definition malloc_begin :: "sysmmu_alloc_if \<Rightarrow> chunk_st \<Rightarrow> chunk_st" where
  "malloc_begin req s =
     (let i = for_break (\<lambda>i. \<not> bit (chunk_bitmap s) i) 0 TABLE_SIZE
      in if i < TABLE_SIZE
         then s\<lparr>chunk_bitmap := bit_put (chunk_bitmap s) i True, ch_ctrl := swrite (ch_ctrl s) (ctrl_request req i), chunk_wait := Some (req, i)\<rparr>
         else s\<lparr>ch_alloc_ret := swrite (ch_alloc_ret s) \<lparr>sr_addr = 0, sr_stat = 1\<rparr>\<rparr>)"

definition malloc_end :: "1 word \<Rightarrow> nat \<Rightarrow> chunk_st \<Rightarrow> chunk_st" where
  "malloc_end ctrl_stat i s =
     s\<lparr>ch_alloc_ret := swrite (ch_alloc_ret s)
         (if ctrl_stat = 0 then \<lparr>sr_addr = push_bit CHUNK_SHIFT (of_nat i), sr_stat = 0\<rparr> else \<lparr>sr_addr = 0, sr_stat = 1\<rparr>)\<rparr>"

definition mfree_begin :: "sysmmu_alloc_if \<Rightarrow> chunk_st \<Rightarrow> chunk_st" where
  "mfree_begin req s =
     (let i = unat (CHUNK_IDX (uint (sa_addr req)))
      in if bit (chunk_bitmap s) i
         then s\<lparr>ch_ctrl := swrite (ch_ctrl s) (ctrl_request req i), chunk_wait := Some (req, i)\<rparr>
         else s\<lparr>ch_alloc_ret := swrite (ch_alloc_ret s) \<lparr>sr_addr = 0, sr_stat = 1\<rparr>\<rparr>)"

definition mfree_end :: "1 word \<Rightarrow> nat \<Rightarrow> chunk_st \<Rightarrow> chunk_st" where
  "mfree_end ctrl_stat i s =
     s\<lparr>chunk_bitmap := if ctrl_stat = 0 then bit_put (chunk_bitmap s) i False else chunk_bitmap s,
       ch_alloc_ret := swrite (ch_alloc_ret s) \<lparr>sr_addr = 0, sr_stat = if ctrl_stat = 0 then 0 else 1\<rparr>\<rparr>"

definition handler :: "chunk_st \<Rightarrow> chunk_st" where
  "handler s =
     (case chunk_wait s of
        Some (req, i) \<Rightarrow>
          (case ch_ctrl_ret s of
             [] \<Rightarrow> s
           | stat # rest \<Rightarrow>
               (let s = s\<lparr>ch_ctrl_ret := rest, chunk_wait := None\<rparr>
                in if sa_opcode req = CHUNK_ALLOC then malloc_end stat i s else mfree_end stat i s))
      | None \<Rightarrow>
          (case ch_alloc s of
             [] \<Rightarrow> s
           | req # rest \<Rightarrow>
               (let s = s\<lparr>ch_alloc := rest\<rparr>
                in if sa_opcode req = CHUNK_ALLOC then malloc_begin req s else mfree_begin req s)))"

definition chunk_alloc :: "chunk_st \<Rightarrow> chunk_st" where
  "chunk_alloc s = handler s"

section \<open>The protection unit\<close>

text \<open>The source defines \<open>IGNORE_PERM_CHECK\<close>.\<close>

definition IGNORE_PERM_CHECK :: bool where "IGNORE_PERM_CHECK = True"

record mmu_st =
  sysmmu_table :: "sysmmu_entry list"
  rd_in :: "sysmmu_indata stream"
  rd_out :: "sysmmu_outdata stream"
  wr_in :: "sysmmu_indata stream"
  wr_out :: "sysmmu_outdata stream"

text \<open>The status, and the table; \<open>None\<close> when the index is outside the table.\<close>

definition insert_entry :: "sysmmu_ctrl_if \<Rightarrow> sysmmu_entry list \<Rightarrow> (1 word \<times> sysmmu_entry list) option" where
  "insert_entry ctrl table =
     (let i = unat (sc_idx ctrl)
      in if \<not> i < TABLE_SIZE then None
         else if se_valid (table ! i) = 1 then Some (1, table)
         else Some (0, table[i := \<lparr>se_valid = 1, se_rw = sc_rw ctrl, se_pid = sc_pid ctrl\<rparr>]))"

definition del_entry :: "sysmmu_ctrl_if \<Rightarrow> sysmmu_entry list \<Rightarrow> (1 word \<times> sysmmu_entry list) option" where
  "del_entry ctrl table =
     (let i = unat (sc_idx ctrl)
      in if \<not> i < TABLE_SIZE then None
         else if se_valid (table ! i) \<noteq> 1 then Some (1, table)
         else Some (0, table[i := (table ! i)\<lparr>se_valid := 0\<rparr>]))"

definition sysmmu_ctrl_hanlder :: "sysmmu_ctrl_if \<Rightarrow> sysmmu_entry list \<Rightarrow> (1 word \<times> sysmmu_entry list) option" where
  "sysmmu_ctrl_hanlder ctrl table = (if sc_opcode ctrl = CHUNK_ALLOC then insert_entry ctrl table else del_entry ctrl table)"

text \<open>The chunks an access touches, from the 16-bit size of the burst; the end address is computed in a wider integer.\<close>

definition access_range :: "sysmmu_indata \<Rightarrow> nat \<times> nat" where
  "access_range d =
     (let size = push_bit (unat (sd_in_size d)) (ucast (sd_in_len d) :: 16 word)
      in (unat (CHUNK_IDX (uint (sd_in_addr d))), unat (CHUNK_IDX (uint (sd_in_addr d) + uint size - 1))))"

definition violation :: "bool \<Rightarrow> sysmmu_entry list \<Rightarrow> sysmmu_indata \<Rightarrow> bool" where
  "violation write table d \<longleftrightarrow>
     (let (first, last) = access_range d
      in \<exists>i \<in> {0..<TABLE_SIZE}. first \<le> i \<and> i \<le> last \<and>
           (se_valid (table ! i) \<noteq> 1 \<or> se_pid (table ! i) \<noteq> sd_pid d \<or> (write \<and> se_rw (table ! i) \<noteq> 1)))"

definition check_access :: "bool \<Rightarrow> sysmmu_entry list \<Rightarrow> sysmmu_indata \<Rightarrow> sysmmu_outdata" where
  "check_access write table d =
     \<lparr>sd_out_addr = sd_in_addr d, sd_drop = if violation write table d \<and> \<not> IGNORE_PERM_CHECK then 1 else 0\<rparr>"

definition check_read :: "mmu_st \<Rightarrow> mmu_st" where
  "check_read s = (let (i, o1) = transfer (check_access False (sysmmu_table s)) False (rd_in s) (rd_out s) in s\<lparr>rd_in := i, rd_out := o1\<rparr>)"

definition check_write :: "mmu_st \<Rightarrow> mmu_st" where
  "check_write s = (let (i, o1) = transfer (check_access True (sysmmu_table s)) False (wr_in s) (wr_out s) in s\<lparr>wr_in := i, wr_out := o1\<rparr>)"

definition sysmmu_data_hanlder :: "mmu_st \<Rightarrow> mmu_st" where
  "sysmmu_data_hanlder s = check_write (check_read s)"

text \<open>One cycle of the unit, on the control channels and its own state.\<close>

definition mm_segment_top :: "sysmmu_ctrl_if stream \<Rightarrow> 1 word stream \<Rightarrow> mmu_st \<Rightarrow> (sysmmu_ctrl_if stream \<times> 1 word stream \<times> mmu_st) option" where
  "mm_segment_top ctrl ctrl_stat s =
     (case ctrl of
        [] \<Rightarrow> Some ([], ctrl_stat, sysmmu_data_hanlder s)
      | c # rest \<Rightarrow> map_option (\<lambda>(stat, table). (rest, swrite ctrl_stat stat, s\<lparr>sysmmu_table := table\<rparr>)) (sysmmu_ctrl_hanlder c (sysmmu_table s)))"

end
