(* ===== verification/Chunk_Props.thy ===== *)
theory Chunk_Props
  imports Chunk
begin

unbundle bit_operations_syntax

text \<open>
  The chunk allocator and the protection unit together: the bitmap and the table agree whenever no request is under way, so
  every chunk handed out is recorded for its owner and nobody else's.
\<close>

definition chunk_init :: chunk_st where
  "chunk_init = \<lparr>chunk_bitmap = 0, chunk_wait = None, ch_alloc = [], ch_alloc_ret = [], ch_ctrl = [], ch_ctrl_ret = []\<rparr>"

definition mmu_init :: mmu_st where
  "mmu_init = \<lparr>sysmmu_table = replicate TABLE_SIZE \<lparr>se_valid = 0, se_rw = 0, se_pid = 0\<rparr>, rd_in = [], rd_out = [], wr_in = [], wr_out = []\<rparr>"

text \<open>Clients send requests and accesses and take replies at any time; the two units take turns in any order.\<close>

inductive mm_reach :: "chunk_st \<Rightarrow> mmu_st \<Rightarrow> bool" where
  init: "mm_reach chunk_init mmu_init"
| client: "mm_reach c m \<Longrightarrow> mm_reach (c\<lparr>ch_alloc := reqs, ch_alloc_ret := rets\<rparr>) (m\<lparr>rd_in := ri, rd_out := ro, wr_in := wi, wr_out := wo\<rparr>)"
| alloc: "mm_reach c m \<Longrightarrow> mm_reach (chunk_alloc c) m"
| mmu: "mm_reach c m \<Longrightarrow> mm_segment_top (ch_ctrl c) (ch_ctrl_ret c) m = Some (ctrl, ret, m') \<Longrightarrow>
    mm_reach (c\<lparr>ch_ctrl := ctrl, ch_ctrl_ret := ret\<rparr>) m'"

abbreviation valid_at :: "mmu_st \<Rightarrow> nat \<Rightarrow> bool" where
  "valid_at m i \<equiv> se_valid (sysmmu_table m ! i) = 1"

definition agree :: "nat set \<Rightarrow> chunk_st \<Rightarrow> mmu_st \<Rightarrow> bool" where
  "agree S c m \<longleftrightarrow> length (sysmmu_table m) = TABLE_SIZE \<and> (\<forall>i < TABLE_SIZE. i \<notin> S \<longrightarrow> (bit (chunk_bitmap c) i \<longleftrightarrow> valid_at m i))"

text \<open>A request under way is either still on its way to the unit, or done there with status 0.\<close>

definition pending :: "chunk_st \<Rightarrow> mmu_st \<Rightarrow> sysmmu_alloc_if \<Rightarrow> nat \<Rightarrow> bool" where
  "pending c m req i \<longleftrightarrow>
     (ch_ctrl c = [ctrl_request req i] \<and> ch_ctrl_ret c = [] \<and> (valid_at m i \<longleftrightarrow> sa_opcode req \<noteq> CHUNK_ALLOC)) \<or>
     (ch_ctrl c = [] \<and> ch_ctrl_ret c = [0] \<and> (valid_at m i \<longleftrightarrow> sa_opcode req = CHUNK_ALLOC) \<and>
        (sa_opcode req = CHUNK_ALLOC \<longrightarrow> sysmmu_table m ! i = \<lparr>se_valid = 1, se_rw = sa_rw req, se_pid = sa_pid req\<rparr>))"

definition mm_inv :: "chunk_st \<Rightarrow> mmu_st \<Rightarrow> bool" where
  "mm_inv c m \<longleftrightarrow>
     (case chunk_wait c of
        None \<Rightarrow> ch_ctrl c = [] \<and> ch_ctrl_ret c = [] \<and> agree {} c m
      | Some (req, i) \<Rightarrow> i < TABLE_SIZE \<and> bit (chunk_bitmap c) i \<and> agree {i} c m \<and> pending c m req i)"

lemma idx_of_nat: "i < TABLE_SIZE \<Longrightarrow> unat (of_nat i :: 4 word) = i"
  by (simp add: TABLE_SIZE_def unsigned_of_nat take_bit_nat_eq_self)

lemma chunk_idx_bound: "unat (CHUNK_IDX (uint (a :: 32 word))) < TABLE_SIZE"
proof -
  have "uint a < 2 ^ 32" using uint_bounded [of a] by simp
  moreover have "0 \<le> uint a" by (rule uint_nonnegative)
  ultimately have "uint a div 2 ^ 29 < 8" "0 \<le> uint a div 2 ^ 29" by (auto intro: pos_imp_zdiv_nonneg_iff [THEN iffD2])
  then have "uint (CHUNK_IDX (uint a)) < 8"
    by (simp add: CHUNK_IDX_def CHUNK_SHIFT_def unsigned_of_int take_bit_int_eq_self)
  then have "int (unat (CHUNK_IDX (uint a))) < 8" by simp
  then show ?thesis unfolding TABLE_SIZE_def by linarith
qed

lemma alloc_inv:
  assumes "mm_inv c m"
  shows "mm_inv (chunk_alloc c) m"
proof (cases "chunk_wait c")
  case None
  then have inv: "ch_ctrl c = []" "ch_ctrl_ret c = []" "agree {} c m" using assms by (simp_all add: mm_inv_def)
  show ?thesis
  proof (cases "ch_alloc c")
    case Nil
    with None assms show ?thesis by (simp add: chunk_alloc_def handler_def)
  next
    case (Cons req rest)
    let ?f = "for_break (\<lambda>i. \<not> bit (chunk_bitmap c) i) 0 TABLE_SIZE"
    let ?i = "unat (CHUNK_IDX (uint (sa_addr req)))"
    have free: "?f < TABLE_SIZE \<Longrightarrow> \<not> bit (chunk_bitmap c) ?f" using for_break_hit by blast
    have m: "mm_inv (malloc_begin req (c\<lparr>ch_alloc := rest\<rparr>)) m" if "sa_opcode req = CHUNK_ALLOC"
    proof (cases "?f < TABLE_SIZE")
      case True
      have "valid_at m ?f \<longleftrightarrow> bit (chunk_bitmap c) ?f" using inv(3) True by (simp add: agree_def)
      with True free inv that show ?thesis
        by (auto simp: mm_inv_def malloc_begin_def agree_def pending_def swrite_def bit_simps Let_def TABLE_SIZE_def)
    next
      case False
      with inv None show ?thesis by (simp add: mm_inv_def malloc_begin_def agree_def Let_def)
    qed
    have f: "mm_inv (mfree_begin req (c\<lparr>ch_alloc := rest\<rparr>)) m" if "sa_opcode req \<noteq> CHUNK_ALLOC"
      using inv None that chunk_idx_bound [of "sa_addr req"]
      by (auto simp: mm_inv_def mfree_begin_def agree_def pending_def swrite_def Let_def)
    from m f None Cons show ?thesis by (simp add: chunk_alloc_def handler_def Let_def)
  qed
next
  case (Some w)
  obtain req i where w: "w = (req, i)" by (cases w)
  from assms Some w have i: "i < TABLE_SIZE" "bit (chunk_bitmap c) i" "agree {i} c m" and p: "pending c m req i" by (simp_all add: mm_inv_def)
  show ?thesis
  proof (cases "ch_ctrl_ret c")
    case Nil
    with Some w assms show ?thesis by (simp add: chunk_alloc_def handler_def)
  next
    case (Cons stat rest)
    with p have d: "ch_ctrl c = []" "stat = 0" "rest = []" "valid_at m i \<longleftrightarrow> sa_opcode req = CHUNK_ALLOC" by (auto simp: pending_def)
    show ?thesis
    proof (cases "sa_opcode req = CHUNK_ALLOC")
      case True
      with Some w Cons d i show ?thesis
        by (auto simp: chunk_alloc_def handler_def malloc_end_def mm_inv_def agree_def)
    next
      case False
      with Some w Cons d i show ?thesis
        by (auto simp: chunk_alloc_def handler_def mfree_end_def mm_inv_def agree_def bit_simps)
    qed
  qed
qed

lemma mmu_data_table [simp]: "sysmmu_table (sysmmu_data_hanlder m) = sysmmu_table m"
  by (simp add: sysmmu_data_hanlder_def check_write_def check_read_def Let_def split: prod.split)

lemma ctrl_pending:
  assumes "pending c m req i" and "ch_ctrl c \<noteq> []" and "i < TABLE_SIZE" and "length (sysmmu_table m) = TABLE_SIZE"
  shows "\<exists>table. sysmmu_ctrl_hanlder (ctrl_request req i) (sysmmu_table m) = Some (0, table) \<and> length table = TABLE_SIZE \<and>
    (\<forall>j. j \<noteq> i \<longrightarrow> table ! j = sysmmu_table m ! j) \<and>
    (if sa_opcode req = CHUNK_ALLOC then table ! i = \<lparr>se_valid = 1, se_rw = sa_rw req, se_pid = sa_pid req\<rparr> else se_valid (table ! i) = 0)"
  using assms by (auto simp: pending_def sysmmu_ctrl_hanlder_def insert_entry_def del_entry_def ctrl_request_def idx_of_nat Let_def)

lemma mmu_inv:
  assumes inv: "mm_inv c m"
  shows "\<exists>ctrl ret m'. mm_segment_top (ch_ctrl c) (ch_ctrl_ret c) m = Some (ctrl, ret, m') \<and> mm_inv (c\<lparr>ch_ctrl := ctrl, ch_ctrl_ret := ret\<rparr>) m'"
proof (cases "ch_ctrl c")
  case Nil
  then have "mm_inv (c\<lparr>ch_ctrl := [], ch_ctrl_ret := ch_ctrl_ret c\<rparr>) (sysmmu_data_hanlder m)"
    using inv by (simp add: mm_inv_def agree_def pending_def split: option.splits prod.splits)
  with Nil show ?thesis by (simp add: mm_segment_top_def)
next
  case (Cons r rs)
  with inv obtain req i where w: "chunk_wait c = Some (req, i)" by (cases "chunk_wait c") (auto simp: mm_inv_def)
  with inv have i: "i < TABLE_SIZE" "bit (chunk_bitmap c) i" "agree {i} c m" and p: "pending c m req i" by (simp_all add: mm_inv_def)
  from i(3) have len: "length (sysmmu_table m) = TABLE_SIZE" by (simp add: agree_def)
  from p Cons have r: "r = ctrl_request req i" "rs = []" "ch_ctrl_ret c = []" by (auto simp: pending_def)
  from ctrl_pending [OF p _ i(1) len] Cons obtain table where t: "sysmmu_ctrl_hanlder (ctrl_request req i) (sysmmu_table m) = Some (0, table)"
      "length table = TABLE_SIZE" "\<forall>j. j \<noteq> i \<longrightarrow> table ! j = sysmmu_table m ! j"
      "if sa_opcode req = CHUNK_ALLOC then table ! i = \<lparr>se_valid = 1, se_rw = sa_rw req, se_pid = sa_pid req\<rparr> else se_valid (table ! i) = 0"
    by auto
  have "mm_inv (c\<lparr>ch_ctrl := [], ch_ctrl_ret := [0]\<rparr>) (m\<lparr>sysmmu_table := table\<rparr>)"
    using w i t(2-4) by (auto simp: mm_inv_def agree_def pending_def split: if_splits)
  with Cons r t(1) show ?thesis by (simp add: mm_segment_top_def)
qed

lemma reach_inv: "mm_reach c m \<Longrightarrow> mm_inv c m"
proof (induction rule: mm_reach.induct)
  case init
  show ?case by (simp add: mm_inv_def agree_def chunk_init_def mmu_init_def TABLE_SIZE_def nth_replicate)
next
  case (client c m reqs rets ri ro wi wo)
  then show ?case by (simp add: mm_inv_def agree_def pending_def split: option.splits prod.splits)
next
  case (alloc c m)
  show ?case using alloc_inv [OF alloc.IH] .
next
  case (mmu c m ctrl ret m')
  then show ?case using mmu_inv [of c m] by auto
qed

text \<open>C22: However requests, accesses and the two units interleave, the protection unit never leaves its table, and whenever the allocator is not in the
  middle of a request its bitmap and the unit's table agree chunk by chunk. The reply to an allocation that found a free chunk is always a success, with
  the address of a chunk that the table then shows as valid, with the process and the permission of the request.\<close>

theorem chunk_table_agree:
  assumes "mm_reach c m"
  shows "mm_segment_top (ch_ctrl c) (ch_ctrl_ret c) m \<noteq> None \<and>
    (chunk_wait c = None \<longrightarrow> (\<forall>i < TABLE_SIZE. bit (chunk_bitmap c) i \<longleftrightarrow> valid_at m i)) \<and>
    (\<forall>req i. chunk_wait c = Some (req, i) \<and> sa_opcode req = CHUNK_ALLOC \<and> ch_ctrl_ret c \<noteq> [] \<longrightarrow>
       ch_alloc_ret (chunk_alloc c) = ch_alloc_ret c @ [\<lparr>sr_addr = push_bit CHUNK_SHIFT (of_nat i), sr_stat = 0\<rparr>] \<and>
       sysmmu_table m ! i = \<lparr>se_valid = 1, se_rw = sa_rw req, se_pid = sa_pid req\<rparr>)"
proof (intro conjI allI impI)
  note inv = reach_inv [OF assms]
  show "mm_segment_top (ch_ctrl c) (ch_ctrl_ret c) m \<noteq> None" using mmu_inv [OF inv] by auto
  show "bit (chunk_bitmap c) i \<longleftrightarrow> valid_at m i" if "chunk_wait c = None" "i < TABLE_SIZE" for i
    using inv that by (simp add: mm_inv_def agree_def)
  fix req i assume w: "chunk_wait c = Some (req, i) \<and> sa_opcode req = CHUNK_ALLOC \<and> ch_ctrl_ret c \<noteq> []"
  then have "pending c m req i" using inv by (simp add: mm_inv_def)
  with w have "ch_ctrl_ret c = [0]" and t: "sysmmu_table m ! i = \<lparr>se_valid = 1, se_rw = sa_rw req, se_pid = sa_pid req\<rparr>"
    by (auto simp: pending_def)
  then show "ch_alloc_ret (chunk_alloc c) = ch_alloc_ret c @ [\<lparr>sr_addr = push_bit CHUNK_SHIFT (of_nat i), sr_stat = 0\<rparr>]"
    using w by (simp add: chunk_alloc_def handler_def malloc_end_def swrite_def)
  show "sysmmu_table m ! i = \<lparr>se_valid = 1, se_rw = sa_rw req, se_pid = sa_pid req\<rparr>" by (rule t)
qed

theorem chunk_table_agree_witness: "bit (chunk_bitmap (chunk_alloc chunk_init)) 3 \<longleftrightarrow> valid_at mmu_init 3"
  using chunk_table_agree [OF mm_reach.alloc [OF mm_reach.init]] by (simp add: chunk_alloc_def handler_def chunk_init_def TABLE_SIZE_def)

text \<open>With the check disabled at compile time, the unit lets every access through.\<close>

lemma never_drops: "sd_drop (check_access write table d) = 0"
  by (simp add: check_access_def IGNORE_PERM_CHECK_def)

end
