(* ===== verification/Coordinator.thy ===== *)
theory Coordinator
  imports Buddy
begin

unbundle bit_operations_syntax

text \<open>
  The start-up sequence of the virtual memory library (\<^verbatim>\<open>mm/ip_libmm_paging/coordinator\<close>) and the
  multiplexer that lets two clients share the buddy allocator (\<^verbatim>\<open>mm/ip_libmm_paging/buddy_alloc_mux\<close>).
\<close>

section \<open>The coordinator\<close>

datatype mem_cmd_opcode = MEM_CMD_INIT | MEM_CMD_ALLOC | MEM_CMD_FREE

datatype mem_cmd_retcode = MEM_CMD_SUCCESS | MEM_CMD_FAILED

record mem_cmd_in =
  mci_opcode :: mem_cmd_opcode
  mci_addr_len :: "32 word"

record mem_cmd_out =
  mco_addr_len :: "32 word"
  mco_ret :: mem_cmd_retcode

datatype FUNCTION_STATUS = FUNC_WIP | FUNC_DOWN | FUNC_FAILED

datatype INIT_STATUS = INIT_ALLOC_SEG | INIT_ALLOC_SEG_RET | INIT_ALLOC_TABEL_RET | INIT_ALLOC_META_RET

datatype COORD_STATUS = COORD_IDLE | COORD_INIT | COORD_ALLOC | COORD_FREE

definition BUDDY_MANAGED_SIZE :: "32 word" where "BUDDY_MANAGED_SIZE = push_bit BUDDY_MAX_SHIFT 1"
definition NR_HT_BUCKET_DRAM_SHIFT :: nat where "NR_HT_BUCKET_DRAM_SHIFT = 10"
definition MEM_BUS_SHIFT :: nat where "MEM_BUS_SHIFT = 9"

text \<open>The ports, the static variables of \<open>coord_top\<close> and those of \<open>init\<close>.\<close>

record coord_st =
  ctrl_in :: "mem_cmd_in stream"
  ctrl_out :: "mem_cmd_out stream"
  seg_alloc_req :: "alloc_seg_in stream"
  seg_alloc_ret :: "alloc_seg_out stream"
  buddy_alloc_req :: "buddy_alloc_if stream"
  buddy_alloc_ret :: "buddy_alloc_ret_if stream"
  init_buddy_addr :: "64 word stream"
  init_tbl_addr :: "32 word stream"
  init_heap_addr :: "64 word stream"
  coord_state :: COORD_STATUS
  command_req :: "mem_cmd_in option"
  init_state :: INIT_STATUS
  buddy_start :: "32 word"
  table_base_addr :: "32 word"
  heap_meta_start :: "32 word"

definition coord_reset :: coord_st where
  "coord_reset = \<lparr>ctrl_in = [], ctrl_out = [], seg_alloc_req = [], seg_alloc_ret = [], buddy_alloc_req = [], buddy_alloc_ret = [],
     init_buddy_addr = [], init_tbl_addr = [], init_heap_addr = [], coord_state = COORD_IDLE, command_req = None,
     init_state = INIT_ALLOC_SEG, buddy_start = 0, table_base_addr = 0, heap_meta_start = 0\<rparr>"

text \<open>The requests to the buddy allocator leave the address field unset; it is the parameter \<open>junk\<close>.\<close>

definition table_order :: nat where
  "table_order = NR_HT_BUCKET_DRAM_SHIFT + MEM_BUS_SHIFT - 3 - BUDDY_MIN_SHIFT"

definition heap_order :: nat where
  "heap_order = 22 - BUDDY_MIN_SHIFT"

definition buddy_request :: "32 word \<Rightarrow> nat \<Rightarrow> buddy_alloc_if" where
  "buddy_request junk order = \<lparr>ba_opcode = BUDDY_ALLOC, ba_addr = junk, ba_order = of_nat order\<rparr>"

definition init_step :: "32 word \<Rightarrow> coord_st \<Rightarrow> coord_st \<times> FUNCTION_STATUS" where
  "init_step junk s =
     (case init_state s of
        INIT_ALLOC_SEG \<Rightarrow>
          (s\<lparr>seg_alloc_req := swrite (seg_alloc_req s) \<lparr>si_opcode = SEG_ALLOC, si_addr_len = BUDDY_MANAGED_SIZE\<rparr>, init_state := INIT_ALLOC_SEG_RET\<rparr>, FUNC_WIP)
      | INIT_ALLOC_SEG_RET \<Rightarrow>
          (case seg_alloc_ret s of
             [] \<Rightarrow> (s, FUNC_WIP)
           | sys_mm_ret # rest \<Rightarrow>
               (let s = s\<lparr>seg_alloc_ret := rest\<rparr>
                in if so_ret sys_mm_ret = SEG_FAILED then (s\<lparr>init_state := INIT_ALLOC_SEG\<rparr>, FUNC_FAILED)
                   else (s\<lparr>buddy_start := so_addr_len sys_mm_ret, init_buddy_addr := swrite (init_buddy_addr s) (ucast (so_addr_len sys_mm_ret)),
                           buddy_alloc_req := swrite (buddy_alloc_req s) (buddy_request junk table_order), init_state := INIT_ALLOC_TABEL_RET\<rparr>, FUNC_WIP)))
      | INIT_ALLOC_TABEL_RET \<Rightarrow>
          (case buddy_alloc_ret s of
             [] \<Rightarrow> (s, FUNC_WIP)
           | lib_mm_ret # rest \<Rightarrow>
               (let s = s\<lparr>buddy_alloc_ret := rest\<rparr>
                in if br_stat lib_mm_ret = BUDDY_FAILED then (s\<lparr>init_state := INIT_ALLOC_SEG\<rparr>, FUNC_FAILED)
                   else (s\<lparr>table_base_addr := br_addr lib_mm_ret, init_tbl_addr := swrite (init_tbl_addr s) (br_addr lib_mm_ret),
                           buddy_alloc_req := swrite (buddy_alloc_req s) (buddy_request junk heap_order), init_state := INIT_ALLOC_META_RET\<rparr>, FUNC_WIP)))
      | INIT_ALLOC_META_RET \<Rightarrow>
          (case buddy_alloc_ret s of
             [] \<Rightarrow> (s, FUNC_WIP)
           | lib_mm_ret # rest \<Rightarrow>
               (let s = s\<lparr>buddy_alloc_ret := rest\<rparr>
                in if br_stat lib_mm_ret = BUDDY_FAILED then (s\<lparr>init_state := INIT_ALLOC_SEG\<rparr>, FUNC_FAILED)
                   else (s\<lparr>heap_meta_start := br_addr lib_mm_ret, init_heap_addr := swrite (init_heap_addr s) (ucast (br_addr lib_mm_ret)),
                           init_state := INIT_ALLOC_SEG\<rparr>, FUNC_DOWN))))"

definition coord_reply :: "mem_cmd_retcode \<Rightarrow> coord_st \<Rightarrow> coord_st" where
  "coord_reply r s = s\<lparr>coord_state := COORD_IDLE, ctrl_out := swrite (ctrl_out s) \<lparr>mco_addr_len = 0, mco_ret = r\<rparr>\<rparr>"

definition coord_top :: "32 word \<Rightarrow> coord_st \<Rightarrow> coord_st" where
  "coord_top junk s =
     (case coord_state s of
        COORD_IDLE \<Rightarrow>
          (case ctrl_in s of
             [] \<Rightarrow> s
           | cmd # rest \<Rightarrow>
               s\<lparr>ctrl_in := rest, command_req := Some cmd,
                 coord_state := (case mci_opcode cmd of MEM_CMD_INIT \<Rightarrow> COORD_INIT | MEM_CMD_ALLOC \<Rightarrow> COORD_ALLOC | MEM_CMD_FREE \<Rightarrow> COORD_FREE)\<rparr>)
      | COORD_INIT \<Rightarrow>
          (case init_step junk s of
             (s, FUNC_WIP) \<Rightarrow> s
           | (s, FUNC_DOWN) \<Rightarrow> coord_reply MEM_CMD_SUCCESS s
           | (s, FUNC_FAILED) \<Rightarrow> coord_reply MEM_CMD_FAILED s)
      | COORD_ALLOC \<Rightarrow> s
      | COORD_FREE \<Rightarrow> s)"

lemmas coord_simps = coord_top_def init_step_def coord_reply_def

section \<open>The multiplexer\<close>

datatype MUX_STATUS = MUX_SEND | MUX_RET

record mux_st =
  buddy_alloc_req_1 :: "buddy_alloc_if stream"
  buddy_alloc_ret_1 :: "buddy_alloc_ret_if stream"
  buddy_alloc_req_2 :: "buddy_alloc_if stream"
  buddy_alloc_ret_2 :: "buddy_alloc_ret_if stream"
  fwd_buddy_alloc_req :: "buddy_alloc_if stream"
  fwd_buddy_alloc_ret :: "buddy_alloc_ret_if stream"
  mux_state :: MUX_STATUS
  mux_channel :: "1 word"

definition mux_reset :: mux_st where
  "mux_reset = \<lparr>buddy_alloc_req_1 = [], buddy_alloc_ret_1 = [], buddy_alloc_req_2 = [], buddy_alloc_ret_2 = [],
     fwd_buddy_alloc_req = [], fwd_buddy_alloc_ret = [], mux_state = MUX_SEND, mux_channel = 0\<rparr>"

definition buddy_alloc_mux :: "mux_st \<Rightarrow> mux_st" where
  "buddy_alloc_mux s =
     (case mux_state s of
        MUX_SEND \<Rightarrow>
          (case (buddy_alloc_req_1 s, buddy_alloc_req_2 s) of
             (alloc_req # rest, _) \<Rightarrow>
               s\<lparr>buddy_alloc_req_1 := rest, fwd_buddy_alloc_req := swrite (fwd_buddy_alloc_req s) alloc_req, mux_channel := 0, mux_state := MUX_RET\<rparr>
           | ([], alloc_req # rest) \<Rightarrow>
               s\<lparr>buddy_alloc_req_2 := rest, fwd_buddy_alloc_req := swrite (fwd_buddy_alloc_req s) alloc_req, mux_channel := 1, mux_state := MUX_RET\<rparr>
           | ([], []) \<Rightarrow> s)
      | MUX_RET \<Rightarrow>
          (case fwd_buddy_alloc_ret s of
             [] \<Rightarrow> s
           | alloc_ret # rest \<Rightarrow>
               (let s = s\<lparr>fwd_buddy_alloc_ret := rest, mux_state := MUX_SEND\<rparr>
                in if mux_channel s = 0 then s\<lparr>buddy_alloc_ret_1 := swrite (buddy_alloc_ret_1 s) alloc_ret\<rparr>
                   else s\<lparr>buddy_alloc_ret_2 := swrite (buddy_alloc_ret_2 s) alloc_ret\<rparr>)))"

section \<open>A coordinator that accepted an allocation command does nothing any more\<close>

text \<open>\<open>MEM_CMD_ALLOC\<close> and \<open>MEM_CMD_FREE\<close> have no handler: the state they lead to is never left.\<close>

lemma coord_stuck: "coord_state s = COORD_ALLOC \<or> coord_state s = COORD_FREE \<Longrightarrow> coord_top junk s = s"
  by (auto simp: coord_top_def)

lemma coord_alloc_stuck:
  "coord_state s = COORD_IDLE \<Longrightarrow> ctrl_in s = cmd # rest \<Longrightarrow> mci_opcode cmd \<noteq> MEM_CMD_INIT \<Longrightarrow>
     coord_top junk (coord_top junk s) = coord_top junk s"
  by (rule coord_stuck, cases "mci_opcode cmd") (simp_all add: coord_top_def)

section \<open>The multiplexer keeps the answers of its clients apart\<close>

text \<open>
  One behaviour of the multiplexer, two clients and an allocator: a client asks whenever it wants, the
  allocator answers the oldest request forwarded to it whenever it wants and however it wants. The record keeps what each client
  asked and what the allocator answered to which request.
\<close>

record mux_run =
  mux :: mux_st
  asked_1 :: "buddy_alloc_if list"
  asked_2 :: "buddy_alloc_if list"
  answered :: "(buddy_alloc_if \<times> buddy_alloc_ret_if) list"

definition mux_start :: mux_run where
  "mux_start = \<lparr>mux = mux_reset, asked_1 = [], asked_2 = [], answered = []\<rparr>"

inductive mux_reach :: "mux_run \<Rightarrow> bool" where
  start: "mux_reach mux_start"
| cycle: "mux_reach r \<Longrightarrow> mux_reach (r\<lparr>mux := buddy_alloc_mux (mux r)\<rparr>)"
| ask_1: "mux_reach r \<Longrightarrow> mux_reach (r\<lparr>mux := (mux r)\<lparr>buddy_alloc_req_1 := swrite (buddy_alloc_req_1 (mux r)) q\<rparr>, asked_1 := asked_1 r @ [q]\<rparr>)"
| ask_2: "mux_reach r \<Longrightarrow> mux_reach (r\<lparr>mux := (mux r)\<lparr>buddy_alloc_req_2 := swrite (buddy_alloc_req_2 (mux r)) q\<rparr>, asked_2 := asked_2 r @ [q]\<rparr>)"
| answer: "mux_reach r \<Longrightarrow> fwd_buddy_alloc_req (mux r) = q # rest \<Longrightarrow>
    mux_reach (r\<lparr>mux := (mux r)\<lparr>fwd_buddy_alloc_req := rest, fwd_buddy_alloc_ret := swrite (fwd_buddy_alloc_ret (mux r)) a\<rparr>, answered := answered r @ [(q, a)]\<rparr>)"

text \<open>
  What a client asked is what was answered to it, the request in flight if it is its own, and what still waits. The requests in
  flight and the answers not yet delivered are at most one.
\<close>

datatype flight = No_flight | Sent buddy_alloc_if | Back buddy_alloc_if buddy_alloc_ret_if

fun fl_req :: "flight \<Rightarrow> buddy_alloc_if list" where
  "fl_req No_flight = []"
| "fl_req (Sent q) = [q]"
| "fl_req (Back q a) = [q]"

definition in_flight :: "mux_st \<Rightarrow> flight \<Rightarrow> bool" where
  "in_flight m f \<longleftrightarrow>
     (case f of
        No_flight \<Rightarrow> mux_state m = MUX_SEND \<and> fwd_buddy_alloc_req m = [] \<and> fwd_buddy_alloc_ret m = []
      | Sent q \<Rightarrow> mux_state m = MUX_RET \<and> fwd_buddy_alloc_req m = [q] \<and> fwd_buddy_alloc_ret m = []
      | Back q a \<Rightarrow> mux_state m = MUX_RET \<and> fwd_buddy_alloc_req m = [] \<and> fwd_buddy_alloc_ret m = [a])"

definition mux_inv :: "mux_run \<Rightarrow> bool" where
  "mux_inv r \<longleftrightarrow>
     (\<exists>qsa qsb ds f. in_flight (mux r) f \<and>
        asked_1 r = qsa @ (if mux_channel (mux r) = 0 then fl_req f else []) @ buddy_alloc_req_1 (mux r) \<and>
        asked_2 r = qsb @ (if mux_channel (mux r) = 0 then [] else fl_req f) @ buddy_alloc_req_2 (mux r) \<and>
        length qsa = length (buddy_alloc_ret_1 (mux r)) \<and> length qsb = length (buddy_alloc_ret_2 (mux r)) \<and>
        ds \<in> shuffles (zip qsa (buddy_alloc_ret_1 (mux r))) (zip qsb (buddy_alloc_ret_2 (mux r))) \<and>
        answered r = ds @ (case f of Back q a \<Rightarrow> [(q, a)] | _ \<Rightarrow> []))"

lemma shuffles_end: "ys @ [x] \<in> shuffles [x] ys"
  by (induction ys) auto

lemma shuffles_snoc: "zs \<in> shuffles xs ys \<Longrightarrow> zs @ [x] \<in> shuffles (xs @ [x]) ys"
  by (induction xs ys arbitrary: zs rule: shuffles.induct) (auto simp: shuffles_end)

lemma shuffles_snoc2: "zs \<in> shuffles xs ys \<Longrightarrow> zs @ [y] \<in> shuffles xs (ys @ [y])"
  using shuffles_snoc [of zs ys xs y] by (simp add: shuffles_commutes)

lemma mux_invI:
  assumes "in_flight (mux r) f"
    and "asked_1 r = qsa @ (if mux_channel (mux r) = 0 then fl_req f else []) @ buddy_alloc_req_1 (mux r)"
    and "asked_2 r = qsb @ (if mux_channel (mux r) = 0 then [] else fl_req f) @ buddy_alloc_req_2 (mux r)"
    and "length qsa = length (buddy_alloc_ret_1 (mux r))" "length qsb = length (buddy_alloc_ret_2 (mux r))"
    and "ds \<in> shuffles (zip qsa (buddy_alloc_ret_1 (mux r))) (zip qsb (buddy_alloc_ret_2 (mux r)))"
    and "answered r = ds @ (case f of Back q a \<Rightarrow> [(q, a)] | _ \<Rightarrow> [])"
  shows "mux_inv r"
  using assms unfolding mux_inv_def by blast

lemma mux_inv_cycle:
  assumes "mux_inv r"
  shows "mux_inv (r\<lparr>mux := buddy_alloc_mux (mux r)\<rparr>)"
proof -
  from assms obtain qsa qsb ds f where f: "in_flight (mux r) f"
    and q: "asked_1 r = qsa @ (if mux_channel (mux r) = 0 then fl_req f else []) @ buddy_alloc_req_1 (mux r)"
      "asked_2 r = qsb @ (if mux_channel (mux r) = 0 then [] else fl_req f) @ buddy_alloc_req_2 (mux r)"
    and len: "length qsa = length (buddy_alloc_ret_1 (mux r))" "length qsb = length (buddy_alloc_ret_2 (mux r))"
    and d: "ds \<in> shuffles (zip qsa (buddy_alloc_ret_1 (mux r))) (zip qsb (buddy_alloc_ret_2 (mux r)))"
    and ans: "answered r = ds @ (case f of Back q a \<Rightarrow> [(q, a)] | _ \<Rightarrow> [])"
    unfolding mux_inv_def by blast
  show ?thesis
  proof (cases f)
    case No_flight
    note same = mux_invI [where qsa = qsa and qsb = qsb and ds = ds]
    show ?thesis
    proof (cases "buddy_alloc_req_1 (mux r) @ buddy_alloc_req_2 (mux r)")
      case Nil
      with No_flight f q len d ans show ?thesis
        by (intro same [where f = No_flight]) (auto simp: in_flight_def buddy_alloc_mux_def)
    next
      case (Cons x xs)
      with No_flight f q len d ans show ?thesis
        by (intro same [where f = "Sent x"]) (auto simp: in_flight_def buddy_alloc_mux_def Cons_eq_append_conv append_eq_Cons_conv split: list.splits)
    qed
  next
    case (Sent x)
    with f have "buddy_alloc_mux (mux r) = mux r" by (simp add: in_flight_def buddy_alloc_mux_def)
    with assms show ?thesis by simp
  next
    case (Back x a)
    show ?thesis
    proof (cases "mux_channel (mux r) = 0")
      case True
      with Back f q len d ans shuffles_snoc [OF d, of "(x, a)"] show ?thesis
        by (intro mux_invI [where qsa = "qsa @ [x]" and qsb = qsb and ds = "ds @ [(x, a)]" and f = No_flight])
          (auto simp: in_flight_def buddy_alloc_mux_def swrite_def)
    next
      case False
      with Back f q len d ans shuffles_snoc2 [OF d, of "(x, a)"] show ?thesis
        by (intro mux_invI [where qsa = qsa and qsb = "qsb @ [x]" and ds = "ds @ [(x, a)]" and f = No_flight])
          (auto simp: in_flight_def buddy_alloc_mux_def swrite_def)
    qed
  qed
qed

lemma mux_inv_answer:
  assumes "mux_inv r" and fwd: "fwd_buddy_alloc_req (mux r) = q # rest"
  shows "mux_inv (r\<lparr>mux := (mux r)\<lparr>fwd_buddy_alloc_req := rest, fwd_buddy_alloc_ret := swrite (fwd_buddy_alloc_ret (mux r)) a\<rparr>, answered := answered r @ [(q, a)]\<rparr>)"
proof -
  from assms(1) obtain qsa qsb ds f where f: "in_flight (mux r) f"
    and rest: "asked_1 r = qsa @ (if mux_channel (mux r) = 0 then fl_req f else []) @ buddy_alloc_req_1 (mux r)"
      "asked_2 r = qsb @ (if mux_channel (mux r) = 0 then [] else fl_req f) @ buddy_alloc_req_2 (mux r)"
      "length qsa = length (buddy_alloc_ret_1 (mux r))" "length qsb = length (buddy_alloc_ret_2 (mux r))"
      "ds \<in> shuffles (zip qsa (buddy_alloc_ret_1 (mux r))) (zip qsb (buddy_alloc_ret_2 (mux r)))"
      "answered r = ds @ (case f of Back q a \<Rightarrow> [(q, a)] | _ \<Rightarrow> [])"
    unfolding mux_inv_def by blast
  from f fwd have "f = Sent q" by (auto simp: in_flight_def split: flight.splits)
  with f fwd rest show ?thesis
    by (intro mux_invI [where qsa = qsa and qsb = qsb and ds = ds and f = "Back q a"]) (auto simp: in_flight_def)
qed

lemma mux_reach_inv: "mux_reach r \<Longrightarrow> mux_inv r"
proof (induction rule: mux_reach.induct)
  case start
  show ?case
    by (rule mux_invI [where qsa = "[]" and qsb = "[]" and ds = "[]" and f = No_flight])
      (simp_all add: mux_start_def mux_reset_def in_flight_def)
next
  case (ask_1 r q)
  then show ?case by (fastforce simp: mux_inv_def in_flight_def swrite_def cong: flight.case_cong)
next
  case (ask_2 r q)
  then show ?case by (fastforce simp: mux_inv_def in_flight_def swrite_def cong: flight.case_cong)
qed (simp_all add: mux_inv_cycle mux_inv_answer)

text \<open>C23: Two clients share the buddy allocator through the multiplexer. Whatever and whenever they ask and the allocator answers, pairing the answers a client
  received with its requests in the order it made them gives exactly the allocator's own pairs of request and answer, those of the two clients
  interleaved: no answer is lost, repeated or given to the other client. Only the last answer may still be on its way.\<close>

theorem mux_answers_own_client:
  assumes "mux_reach r"
  shows "\<exists>ds. ds \<in> shuffles (zip (asked_1 r) (buddy_alloc_ret_1 (mux r))) (zip (asked_2 r) (buddy_alloc_ret_2 (mux r))) \<and>
      map snd (answered r) = map snd ds @ fwd_buddy_alloc_ret (mux r) \<and> take (length ds) (answered r) = ds \<and>
      length (fwd_buddy_alloc_ret (mux r)) \<le> 1 \<and>
      length (buddy_alloc_ret_1 (mux r)) \<le> length (asked_1 r) \<and> length (buddy_alloc_ret_2 (mux r)) \<le> length (asked_2 r)"
proof -
  from mux_reach_inv [OF assms] obtain qsa qsb ds f where inv: "in_flight (mux r) f"
    "asked_1 r = qsa @ (if mux_channel (mux r) = 0 then fl_req f else []) @ buddy_alloc_req_1 (mux r)"
    "asked_2 r = qsb @ (if mux_channel (mux r) = 0 then [] else fl_req f) @ buddy_alloc_req_2 (mux r)"
    "length qsa = length (buddy_alloc_ret_1 (mux r))" "length qsb = length (buddy_alloc_ret_2 (mux r))"
    "ds \<in> shuffles (zip qsa (buddy_alloc_ret_1 (mux r))) (zip qsb (buddy_alloc_ret_2 (mux r)))"
    "answered r = ds @ (case f of Back q a \<Rightarrow> [(q, a)] | _ \<Rightarrow> [])"
    unfolding mux_inv_def by blast
  then have "zip (asked_1 r) (buddy_alloc_ret_1 (mux r)) = zip qsa (buddy_alloc_ret_1 (mux r))"
    "zip (asked_2 r) (buddy_alloc_ret_2 (mux r)) = zip qsb (buddy_alloc_ret_2 (mux r))"
    by (simp_all add: zip_append1)
  with inv show ?thesis
    by (intro exI [of _ ds]) (cases f, auto simp: in_flight_def)
qed

lemma mux_reach_example:
  "mux_reach \<lparr>mux = mux_reset\<lparr>buddy_alloc_ret_2 := [a], mux_channel := 1\<rparr>, asked_1 = [], asked_2 = [q], answered = [(q, a)]\<rparr>"
proof -
  have "mux_reach \<lparr>mux = mux_reset\<lparr>buddy_alloc_req_2 := [q]\<rparr>, asked_1 = [], asked_2 = [q], answered = []\<rparr>"
    using mux_reach.ask_2 [OF mux_reach.start, of q] by (simp add: mux_start_def mux_reset_def)
  from mux_reach.cycle [OF this]
  have "mux_reach \<lparr>mux = mux_reset\<lparr>fwd_buddy_alloc_req := [q], mux_channel := 1, mux_state := MUX_RET\<rparr>, asked_1 = [], asked_2 = [q], answered = []\<rparr>"
    by (simp add: buddy_alloc_mux_def mux_reset_def)
  from mux_reach.answer [OF this, of q "[]" a]
  have "mux_reach \<lparr>mux = mux_reset\<lparr>fwd_buddy_alloc_ret := [a], mux_channel := 1, mux_state := MUX_RET\<rparr>, asked_1 = [], asked_2 = [q], answered = [(q, a)]\<rparr>"
    by (simp add: mux_reset_def)
  from mux_reach.cycle [OF this] show ?thesis
    by (simp add: buddy_alloc_mux_def mux_reset_def)
qed

theorem mux_answers_own_client_witness:
  "\<exists>ds. ds \<in> shuffles [] [(buddy_request 0 8, \<lparr>br_stat = 0, br_addr = 0x40400000\<rparr>)] \<and> map snd ds = [\<lparr>br_stat = 0, br_addr = 0x40400000\<rparr>]"
  using mux_answers_own_client [OF mux_reach_example [of "\<lparr>br_stat = 0, br_addr = 0x40400000\<rparr>" "buddy_request 0 8"]]
  by (simp add: mux_reset_def)

end
