(* ===== verification/Sysmm.thy ===== *)
theory Sysmm
  imports Channels
begin

unbundle bit_operations_syntax

text \<open>
  The system memory manager's segment units (\<^verbatim>\<open>mm/segfix/top.cpp\<close>, \<^verbatim>\<open>mm/segvar/top.cpp\<close>): one pipeline for allocation requests and
  for the access checks of reads and writes. Both units have the same input and output stages; the middle stage answers every request with
  a success, an allocation with a fixed word (1 GB in the fixed-size unit, \<open>0x10000\<close> in the variable-size one). The segment
  tables are declared and not used. The stand-in allocator of \<^verbatim>\<open>alloc/chunkfix/top.cpp\<close> is here too.
\<close>

section \<open>Model\<close>

definition SYSMM_REQUEST_CONTROL :: "2 word" where "SYSMM_REQUEST_CONTROL = 1"
definition SYSMM_REQUEST_DATA_RD :: "2 word" where "SYSMM_REQUEST_DATA_RD = 2"
definition SYSMM_REQUEST_DATA_WR :: "2 word" where "SYSMM_REQUEST_DATA_WR = 3"

lemmas request_types = SYSMM_REQUEST_CONTROL_def SYSMM_REQUEST_DATA_RD_def SYSMM_REQUEST_DATA_WR_def

record pipeline_info =
  sp_type :: "2 word"
  sp_pid :: "8 word"
  cp_in_opcode :: "8 word"
  cp_in_addr_len :: "32 word"
  cp_ret :: "8 word"
  cp_ret_addr_len :: "32 word"
  dp_in_addr :: "32 word"
  dp_in_len :: "8 word"
  dp_in_size :: "3 word"
  dp_ret :: "1 word"
  dp_ret_addr :: "32 word"

definition pi_zero :: pipeline_info where
  "pi_zero = \<lparr>sp_type = 0, sp_pid = 0, cp_in_opcode = 0, cp_in_addr_len = 0, cp_ret = 0, cp_ret_addr_len = 0,
     dp_in_addr = 0, dp_in_len = 0, dp_in_size = 0, dp_ret = 0, dp_ret_addr = 0\<rparr>"

text \<open>The ports of the unit, and with them the queues between its stages.\<close>

record sysmm_ports =
  ctl_in :: "alloc_seg_in stream"
  ctl_out :: "alloc_seg_out stream"
  seg_rd_in :: "rab_request stream"
  seg_rd_out :: "rab_reply stream"
  seg_wr_in :: "rab_request stream"
  seg_wr_out :: "rab_reply stream"

record sysmm_st = sysmm_ports +
  PI_input_to_parser :: "pipeline_info stream"
  PI_parser_to_output :: "pipeline_info stream"

definition data_word :: "2 word \<Rightarrow> rab_request \<Rightarrow> pipeline_info" where
  "data_word type din = pi_zero\<lparr>sp_type := type, dp_in_addr := rq_in_addr din, dp_in_len := rq_in_len din, dp_in_size := rq_in_size din\<rparr>"

definition aggregate_input :: "sysmm_st \<Rightarrow> sysmm_st" where
  "aggregate_input s =
     (case ctl_in s of
        cin # rest \<Rightarrow>
          s\<lparr>ctl_in := rest, PI_input_to_parser := swrite (PI_input_to_parser s)
              (pi_zero\<lparr>sp_type := SYSMM_REQUEST_CONTROL, cp_in_opcode := si_opcode cin, cp_in_addr_len := si_addr_len cin\<rparr>)\<rparr>
      | [] \<Rightarrow>
          (case seg_rd_in s of
             din # rest \<Rightarrow> s\<lparr>seg_rd_in := rest, PI_input_to_parser := swrite (PI_input_to_parser s) (data_word SYSMM_REQUEST_DATA_RD din)\<rparr>
           | [] \<Rightarrow>
               (case seg_wr_in s of
                  din # rest \<Rightarrow> s\<lparr>seg_wr_in := rest, PI_input_to_parser := swrite (PI_input_to_parser s) (data_word SYSMM_REQUEST_DATA_WR din)\<rparr>
                | [] \<Rightarrow> s)))"

definition parse_word :: "32 word \<Rightarrow> pipeline_info \<Rightarrow> pipeline_info" where
  "parse_word addr_len pi =
     (if sp_type pi = SYSMM_REQUEST_CONTROL then pi\<lparr>cp_ret := 0, cp_ret_addr_len := addr_len\<rparr>
      else if sp_type pi = SYSMM_REQUEST_DATA_RD \<or> sp_type pi = SYSMM_REQUEST_DATA_WR then pi\<lparr>dp_ret := 0, dp_ret_addr := dp_in_addr pi\<rparr>
      else pi)"

definition parser :: "32 word \<Rightarrow> sysmm_st \<Rightarrow> sysmm_st" where
  "parser addr_len s =
     (let (i, o1) = transfer (parse_word addr_len) False (PI_input_to_parser s) (PI_parser_to_output s)
      in s\<lparr>PI_input_to_parser := i, PI_parser_to_output := o1\<rparr>)"

definition disaggregate_output :: "sysmm_st \<Rightarrow> sysmm_st" where
  "disaggregate_output s =
     (case PI_parser_to_output s of
        [] \<Rightarrow> s
      | pi # rest \<Rightarrow>
          (let s = s\<lparr>PI_parser_to_output := rest\<rparr>; reply = \<lparr>rr_out_addr = dp_ret_addr pi, rr_drop = dp_ret pi\<rparr>
           in if sp_type pi = SYSMM_REQUEST_CONTROL
              then s\<lparr>ctl_out := swrite (ctl_out s) \<lparr>so_addr_len = cp_ret_addr_len pi, so_ret = cp_ret pi\<rparr>\<rparr>
              else if sp_type pi = SYSMM_REQUEST_DATA_RD then s\<lparr>seg_rd_out := swrite (seg_rd_out s) reply\<rparr>
              else if sp_type pi = SYSMM_REQUEST_DATA_WR then s\<lparr>seg_wr_out := swrite (seg_wr_out s) reply\<rparr>
              else s))"

definition mm_segfix_hls :: "sysmm_st \<Rightarrow> sysmm_st" where
  "mm_segfix_hls s = disaggregate_output (parser (push_bit 30 1) (aggregate_input s))"

definition mm_segvar_hls :: "sysmm_st \<Rightarrow> sysmm_st" where
  "mm_segvar_hls s = disaggregate_output (parser 0x10000 (aggregate_input s))"

definition allocator_chunk_fix :: "alloc_seg_in stream \<Rightarrow> alloc_seg_out stream \<Rightarrow> alloc_seg_in stream \<times> alloc_seg_out stream" where
  "allocator_chunk_fix in1 out1 = transfer (\<lambda>din. \<lparr>so_addr_len = 0x1000, so_ret = 0\<rparr>) False in1 out1"

section \<open>Specification\<close>

text \<open>Each cycle one request is answered at once: an allocation if there is one, else a read check, else a write check.\<close>

definition pass_reply :: "rab_request \<Rightarrow> rab_reply" where
  "pass_reply din = \<lparr>rr_out_addr = rq_in_addr din, rr_drop = 0\<rparr>"

fun serve :: "32 word \<Rightarrow> sysmm_ports \<Rightarrow> sysmm_ports" where
  "serve addr_len p =
     (case (ctl_in p, seg_rd_in p, seg_wr_in p) of
        (c # cs, _, _) \<Rightarrow> p\<lparr>ctl_in := cs, ctl_out := ctl_out p @ [\<lparr>so_addr_len = addr_len, so_ret = SEG_SUCCESS\<rparr>]\<rparr>
      | ([], r # rs, _) \<Rightarrow> p\<lparr>seg_rd_in := rs, seg_rd_out := seg_rd_out p @ [pass_reply r]\<rparr>
      | ([], [], w # ws) \<Rightarrow> p\<lparr>seg_wr_in := ws, seg_wr_out := seg_wr_out p @ [pass_reply w]\<rparr>
      | ([], [], []) \<Rightarrow> p)"

text \<open>What arrives before a cycle.\<close>

type_synonym arrivals = "alloc_seg_in list \<times> rab_request list \<times> rab_request list"

fun arrive :: "arrivals \<Rightarrow> 'a sysmm_ports_scheme \<Rightarrow> 'a sysmm_ports_scheme" where
  "arrive (c, r, w) s = s\<lparr>ctl_in := ctl_in s @ c, seg_rd_in := seg_rd_in s @ r, seg_wr_in := seg_wr_in s @ w\<rparr>"

definition stages_empty :: "sysmm_st \<Rightarrow> bool" where
  "stages_empty s \<longleftrightarrow> PI_input_to_parser s = [] \<and> PI_parser_to_output s = []"

lemma stages_cycle:
  assumes "stages_empty s"
  shows "stages_empty (disaggregate_output (parser addr_len (aggregate_input s)))"
    and "sysmm_ports.truncate (disaggregate_output (parser addr_len (aggregate_input s))) = serve addr_len (sysmm_ports.truncate s)"
  using assms
  by (auto simp: stages_empty_def aggregate_input_def parser_def transfer_def parse_word_def disaggregate_output_def data_word_def pi_zero_def
      request_types pass_reply_def SEG_SUCCESS_def swrite_def Let_def sysmm_ports.defs split: list.split)

lemma stages_arrive:
  "stages_empty (arrive x s) \<longleftrightarrow> stages_empty s" "sysmm_ports.truncate (arrive x s) = arrive x (sysmm_ports.truncate s)"
  by (cases x; simp add: stages_empty_def sysmm_ports.defs)+

interpretation segfix: cycle_refinement "\<lambda>x s. mm_segfix_hls (arrive x s)" stages_empty "\<lambda>x p. serve (push_bit 30 1) (arrive x p)" sysmm_ports.truncate
  by unfold_locales (simp_all only: mm_segfix_hls_def stages_arrive stages_cycle)

interpretation segvar: cycle_refinement "\<lambda>x s. mm_segvar_hls (arrive x s)" stages_empty "\<lambda>x p. serve 0x10000 (arrive x p)" sysmm_ports.truncate
  by unfold_locales (simp_all only: mm_segvar_hls_def stages_arrive stages_cycle)

definition sysmm_init :: sysmm_st where
  "sysmm_init = \<lparr>ctl_in = [], ctl_out = [], seg_rd_in = [], seg_rd_out = [], seg_wr_in = [], seg_wr_out = [], PI_input_to_parser = [], PI_parser_to_output = []\<rparr>"

text \<open>C24: Whatever arrives and when, the three-stage pipeline of the fixed-size segment unit behaves at its ports exactly as a server that answers one request per
  cycle at once, allocations before reads before writes: no request is lost, reordered within its channel or answered on another channel.\<close>

theorem segfix_refines_server:
  "sysmm_ports.truncate (fold (\<lambda>x s. mm_segfix_hls (arrive x s)) xs sysmm_init) =
     fold (\<lambda>x p. serve (push_bit 30 1) (arrive x p)) xs (sysmm_ports.truncate sysmm_init)"
  by (rule segfix.abs_run) (simp add: stages_empty_def sysmm_init_def)

end
