(* ===== verification/Libmm.thy ===== *)
theory Libmm
  imports Coordinator Sysmm Buddy_Props
begin

unbundle bit_operations_syntax

text \<open>
  The virtual memory library's block design (\<^verbatim>\<open>mm/ip_libmm_paging/run_vivado_vcu118.tcl\<close>) up to the paging unit: the
  coordinator's segment port goes to the fixed-size segment unit, its allocation port to channel 1 of the multiplexer, the multiplexer to
  the physical buddy allocator, and the coordinator's start address to the allocator's \<open>buddy_init\<close> port. Channel 2 is the paging unit's,
  idle until it gets its table address. The theory runs the start-up sequence through these four units.
\<close>

section \<open>The block design\<close>

record libmm =
  coord :: coord_st
  segmm :: sysmm_st
  amux :: mux_st
  phys :: buddy

text \<open>One cycle: the units in the order of the data flow, and the queues between them.\<close>

definition libmm_cycle :: "32 word \<Rightarrow> libmm \<Rightarrow> fault + libmm" where
  "libmm_cycle junk s =
     (let c = coord_top junk (coord s);
          g = mm_segfix_hls ((segmm s)\<lparr>ctl_in := ctl_in (segmm s) @ seg_alloc_req c\<rparr>);
          m = buddy_alloc_mux ((amux s)\<lparr>buddy_alloc_req_1 := buddy_alloc_req_1 (amux s) @ buddy_alloc_req c\<rparr>)
      in case buddy_allocator (phys s) (fwd_buddy_alloc_req m) (fwd_buddy_alloc_ret m) (init_buddy_addr c) of
           Inl f \<Rightarrow> Inl f
         | Inr (b, reqs, rets, inits) \<Rightarrow>
             Inr \<lparr>coord = c\<lparr>seg_alloc_req := [], buddy_alloc_req := [], init_buddy_addr := inits,
                     seg_alloc_ret := seg_alloc_ret c @ ctl_out g, buddy_alloc_ret := buddy_alloc_ret c @ buddy_alloc_ret_1 m\<rparr>,
                  segmm = g\<lparr>ctl_out := []\<rparr>,
                  amux = m\<lparr>buddy_alloc_ret_1 := [], fwd_buddy_alloc_req := reqs, fwd_buddy_alloc_ret := rets\<rparr>,
                  phys = b\<rparr>)"

fun libmm_run :: "32 word \<Rightarrow> nat \<Rightarrow> libmm \<Rightarrow> fault + libmm" where
  "libmm_run junk 0 s = Inr s"
| "libmm_run junk (Suc n) s = (case libmm_cycle junk s of Inl f \<Rightarrow> Inl f | Inr s' \<Rightarrow> libmm_run junk n s')"

text \<open>After reset, with the command of \<^verbatim>\<open>coordinator/tb.cpp\<close> waiting. The base address of the allocator is whatever it was.\<close>

definition libmm_boot :: "64 word \<Rightarrow> (64 word \<Rightarrow> 8 word) \<Rightarrow> libmm" where
  "libmm_boot base dram =
     \<lparr>coord = coord_reset\<lparr>ctrl_in := [\<lparr>mci_opcode = MEM_CMD_INIT, mci_addr_len = 0\<rparr>]\<rparr>, segmm = sysmm_init, amux = mux_reset, phys = Buddy_init base dram\<rparr>"

section \<open>The two allocations, evaluated\<close>

text \<open>A level whose cache set is empty: the line is loaded from DRAM, where it is zero, and its first children are taken.\<close>

definition cset :: "nat \<Rightarrow> cache_line \<Rightarrow> cache_set" where
  "cset i line = \<lparr>bs_level = i, bs_size = (if i = 0 then 1 else 2), bs_lines = [line, empty_line], bs_rand_counter = 0\<rparr>"

lemma choose_line_empty: "choose_line (cset i empty_line) = (True, 0, cset i empty_line)"
  by (simp add: choose_line_def cset_def empty_line_def for_break.simps [of _ 0])

lemma cache_load_empty:
  assumes "buddy_set b ! i = cset i empty_line" "i < length (buddy_set b)"
    and "tag_level_to_drambuddy (buddy_managed_base b) tag i = Inr a" "buddy_dram b a = 0"
  shows "cache_load b i tag = Inr (b\<lparr>buddy_set := (buddy_set b)[i := cset i \<lparr>bl_valid = True, bl_tag = tag, bl_children = 0\<rparr>]\<rparr>, 0)"
  using assms by (simp add: cache_load_def choose_line_empty list_update_same_conv put_line_def dram_read_def) (simp add: cset_def)

lemma load_level_empty:
  assumes "buddy_set b ! i = cset i empty_line" "i < length (buddy_set b)" 
    and "tag_level_to_drambuddy (buddy_managed_base b) tag i = Inr a" "buddy_dram b a = 0" "w = 1 \<or> w = 2"
  shows "load_level b i w tag idx =
    Inr (b\<lparr>buddy_set := (buddy_set b)[i := cset i \<lparr>bl_valid = True, bl_tag = tag, bl_children = width_mask w\<rparr>]\<rparr>, parenttag_idx_to_tag tag i 0, 0)"
  using assms(2,5)
  by (auto simp: load_level_def cache_load_empty [OF assms(1-4)] alloc_take_def the_line_def put_line_def get_valid_free_line_def get_free_1bit_def get_free_2bit_def
   set_clear_bits_def flush_if_full_def width_mask_def cset_def)


definition boot_buddy :: "(64 word \<Rightarrow> 8 word) \<Rightarrow> buddy" where
  "boot_buddy dram = (Buddy_init 0x40000000 dram)\<lparr>buddy_initialized := True\<rparr>"

lemma boot_sets:
  "buddy_set (boot_buddy dram) =
     [cset 0 \<lparr>bl_valid = True, bl_tag = 0, bl_children = 1\<rparr>, cset 1 \<lparr>bl_valid = True, bl_tag = 0, bl_children = 1\<rparr>,
      cset 2 \<lparr>bl_valid = True, bl_tag = 0, bl_children = 3\<rparr>, cset 3 empty_line, cset 4 empty_line, cset 5 empty_line, cset 6 empty_line, cset 7 empty_line]"
  by (simp add: boot_buddy_def Buddy_init_def upt_rec init_set_def init_line_simps cset_def numeral_2_eq_2 [symmetric])

definition boot_table :: "(64 word \<Rightarrow> 8 word) \<Rightarrow> buddy" where
  "boot_table dram = (boot_buddy dram)\<lparr>buddy_set :=
     [cset 0 \<lparr>bl_valid = True, bl_tag = 0, bl_children = 1\<rparr>, cset 1 \<lparr>bl_valid = True, bl_tag = 0, bl_children = 1\<rparr>,
      cset 2 \<lparr>bl_valid = True, bl_tag = 0, bl_children = 7\<rparr>, cset 3 \<lparr>bl_valid = True, bl_tag = 0x4000, bl_children = 1\<rparr>,
      cset 4 \<lparr>bl_valid = True, bl_tag = 0x4000, bl_children = 3\<rparr>, cset 5 empty_line, cset 6 empty_line, cset 7 empty_line]\<rparr>"

lemmas buddy_eval = alloc_def order_to_level_def order_to_width_def get_valid_free_set_def get_valid_free_line_def cset_def empty_line_def
    get_free_2bit_def get_free_1bit_def width_mask_def alloc_take_def the_line_def put_line_def set_clear_bits_def flush_if_full_def parenttag_idx_to_tag_def tag_to_addr_def
    load_level_def cache_load_def choose_line_def for_break.simps tag_level_to_drambuddy_def tag_pad_def dram_read_def Let_def

lemma look_8_boot: "alloc_look_up (boot_buddy dram) 4 2 0 4 = Inr (2, 0, 2)"
  using look_up_level [of 4 "boot_buddy dram" 4 2 0] look_up_level [of 3 "boot_buddy dram" 4 2 0] look_up_level [of 2 "boot_buddy dram" 4 2 0]
  by (simp add: buddy_eval boot_sets)

lemma take_8_boot:
  "alloc_take (boot_buddy dram) 2 0 1 2 = Inr ((boot_buddy dram)\<lparr>buddy_set := (buddy_set (boot_buddy dram))[2 := cset 2 \<lparr>bl_valid = True, bl_tag = 0, bl_children = 7\<rparr>]\<rparr>, 0x4000)"
    by (simp add: buddy_eval boot_sets)


lemma load_8_boot:
  assumes "zeroed 0x40000000 dram"
  shows "alloc_load ((boot_buddy dram)\<lparr>buddy_set := (buddy_set (boot_buddy dram))[2 := cset 2 \<lparr>bl_valid = True, bl_tag = 0, bl_children = 7\<rparr>]\<rparr>) 4 2 [3, 4] 0x4000 2 = Inr (boot_table dram, 0x4000)"
proof -
  have z: "dram 0x4000004B = 0" "dram 0x40000259 = 0"
    using assms [unfolded zeroed_def, rule_format, of 75] assms [unfolded zeroed_def, rule_format, of 601] by simp_all
  have "tag_level_to_drambuddy 0x40000000 0x4000 3 = Inr 0x4000004B" "tag_level_to_drambuddy 0x40000000 0x4000 4 = Inr 0x40000259"
    by (simp_all add: tag_level_to_drambuddy_def tag_pad_def)
  moreover have "buddy_managed_base (boot_buddy dram) = 0x40000000" "buddy_dram (boot_buddy dram) = dram"
    by (simp_all add: boot_buddy_def Buddy_init_def)
  moreover have "parenttag_idx_to_tag t i 0 = t" for t i by (simp add: parenttag_idx_to_tag_def)
  ultimately show ?thesis
    using z by (simp add: boot_sets boot_table_def load_level_empty width_mask_def)
qed

lemma alloc_8_boot:
  assumes "zeroed 0x40000000 dram"
  shows "alloc (boot_buddy dram) 8 = Inr (boot_table dram, 0, 0x400000)"
proof -
  have u: "[Suc 2..<Suc 4] = [3, 4]" by (simp add: upt_rec)
  have "order_to_level 8 = 4" "order_to_width 8 = 2" by (simp_all add: order_to_level_def order_to_width_def)
  then show ?thesis
    by (simp add: alloc_def look_8_boot take_8_boot u load_8_boot [OF assms] tag_to_addr_def push_bit_eq_mult del: upt_Suc alloc_load.simps One_nat_def)
qed

definition boot_heap :: "(64 word \<Rightarrow> 8 word) \<Rightarrow> buddy" where
  "boot_heap dram = (boot_table dram)\<lparr>buddy_set := (buddy_set (boot_table dram))[2 := cset 2 \<lparr>bl_valid = True, bl_tag = 0, bl_children = 0x37\<rparr>]\<rparr>"

lemma alloc_14_boot: "alloc (boot_table dram) 14 = Inr (boot_heap dram, 0, 0x800000)"
proof -
  have "alloc_look_up (boot_table dram) 2 2 0 2 = Inr (2, 0, 4)"
    using look_up_level [of 2 "boot_table dram" 2 2 0] by (simp add: buddy_eval boot_table_def)
  then show ?thesis
    by (simp add: buddy_eval) (simp add: boot_table_def boot_heap_def buddy_eval)
qed

section \<open>What the sequence leaves behind\<close>

lemma boot_inv:
  assumes "zeroed 0x40000000 dram"
  shows "buddy_inv (boot_buddy dram)" and "holds (boot_buddy dram) 14 0"
proof -
  have "cache_ok (boot_buddy dram) = cache_ok (Buddy_init 0x40000000 dram)" "lines_used (boot_buddy dram) = lines_used (Buddy_init 0x40000000 dram)"
    by (simp_all add: cache_ok_def shape_ok_def lines_ok_def lines_used_def line_at_def the_line_def boot_buddy_def)
  moreover have "meta (boot_buddy dram) = meta (Buddy_init 0x40000000 dram)"
    by (intro ext) (simp add: meta_def boot_buddy_def the_line_def split: prod.split bool.split)
  ultimately show "buddy_inv (boot_buddy dram)" "holds (boot_buddy dram) 14 0"
    using init_inv [OF assms] by (simp_all add: buddy_inv_def holds_def)
qed

lemma boot_granted:
  assumes z: "zeroed 0x40000000 dram"
  shows "buddy_inv (boot_heap dram) \<and> holds (boot_heap dram) 14 0 \<and> holds (boot_heap dram) 8 0x400000 \<and> holds (boot_heap dram) 14 0x800000"
proof -
  have "buddy_alloc_op (boot_buddy dram) 8 = Some (boot_table dram, 0x400000)"
    "buddy_alloc_op (boot_table dram) 14 = Some (boot_heap dram, 0x800000)"
    by (simp_all add: buddy_alloc_op_def alloc_8_boot [OF z] alloc_14_boot)
  with boot_inv [OF z] show ?thesis
    using buddy_ba.alloc_law buddy_ba.alloc_keeps by blast
qed

lemma boot_start: "(Buddy_init base dram)\<lparr>buddy_managed_base := 0x40000000, buddy_initialized := True\<rparr> = boot_buddy dram"
  by (simp add: boot_buddy_def Buddy_init_def)

lemma boot_base: "buddy_managed_base (boot_table dram) = 0x40000000" "buddy_managed_base (boot_heap dram) = 0x40000000"
  by (simp_all add: boot_table_def boot_heap_def boot_buddy_def Buddy_init_def)

lemma boot_handler:
  assumes "zeroed 0x40000000 dram"
  shows "handler (boot_buddy dram) (buddy_request junk table_order) = Inr (boot_table dram, \<lparr>br_stat = 0, br_addr = 0x40400000\<rparr>)"
    and "handler (boot_table dram) (buddy_request junk heap_order) = Inr (boot_heap dram, \<lparr>br_stat = 0, br_addr = 0x40800000\<rparr>)"
  by (simp_all add: handler_def buddy_request_def table_order_def heap_order_def NR_HT_BUCKET_DRAM_SHIFT_def MEM_BUS_SHIFT_def
      alloc_8_boot [OF assms] alloc_14_boot boot_base)

text \<open>The state when the command has been answered. Nothing changes after that.\<close>

definition boot_done :: "(64 word \<Rightarrow> 8 word) \<Rightarrow> libmm" where
  "boot_done dram =
     \<lparr>coord = coord_reset\<lparr>ctrl_out := [\<lparr>mco_addr_len = 0, mco_ret = MEM_CMD_SUCCESS\<rparr>], init_tbl_addr := [0x40400000], init_heap_addr := [0x40800000],
        command_req := Some \<lparr>mci_opcode = MEM_CMD_INIT, mci_addr_len = 0\<rparr>,
        buddy_start := 0x40000000, table_base_addr := 0x40400000, heap_meta_start := 0x40800000\<rparr>,
      segmm = sysmm_init, amux = mux_reset, phys = boot_heap dram\<rparr>"

lemmas libmm_eval = libmm_cycle_def coord_simps mm_segfix_hls_def aggregate_input_def parser_def transfer_def parse_word_def disaggregate_output_def
  pi_zero_def request_types buddy_alloc_mux_def buddy_allocator_def init_def SEG_FAILED_def BUDDY_FAILED_def coord_reset_def mux_reset_def sysmm_init_def Let_def

lemma boot_run:
  "zeroed 0x40000000 dram \<Longrightarrow>
     libmm_run junk (Suc (Suc (Suc (Suc (Suc (Suc (Suc n))))))) (libmm_boot base dram) = libmm_run junk n (boot_done dram)"
  by (simp add: libmm_boot_def boot_done_def libmm_eval boot_start boot_handler)

lemma boot_stable: "libmm_run junk n (boot_done dram) = Inr (boot_done dram)"
  by (induction n) (simp_all add: boot_done_def libmm_eval)

section \<open>Property\<close>

text \<open>C5: Start-up through coordinator, segment unit, multiplexer and buddy allocator: given the \<open>MEM_CMD_INIT\<close> command and zeroed allocator metadata, from
  the seventh cycle on the command has been answered with success, once, and the allocator manages the gigabyte at \<open>0x40000000\<close>; the page table
  (64 KB) and the heap metadata (4 MB) have been handed on at addresses whose blocks are held in the allocator, and these two and the allocator's own
  metadata do not overlap.\<close>

theorem boot_regions:
  assumes "zeroed 0x40000000 dram" and "7 \<le> n"
  shows "\<exists>s. libmm_run junk n (libmm_boot base dram) = Inr s \<and>
      ctrl_out (coord s) = [\<lparr>mco_addr_len = 0, mco_ret = MEM_CMD_SUCCESS\<rparr>] \<and> buddy_managed_base (phys s) = 0x40000000 \<and> buddy_inv (phys s) \<and>
      (\<exists>t h. init_tbl_addr (coord s) = [of_nat (0x40000000 + t)] \<and> init_heap_addr (coord s) = [of_nat (0x40000000 + h)] \<and>
         holds (phys s) 14 0 \<and> holds (phys s) 8 t \<and> holds (phys s) 14 h \<and> disjoint_blocks blk_range [(14, 0), (8, t), (14, h)])"
proof -
  from assms(2) obtain m where n: "n = Suc (Suc (Suc (Suc (Suc (Suc (Suc m))))))"
    by (intro that [of "n - 7"]) simp
  have run: "libmm_run junk n (libmm_boot base dram) = Inr (boot_done dram)"
    unfolding n boot_run [OF assms(1)] by (rule boot_stable)
  have "disjoint_blocks blk_range [(14, 0), (8, 0x400000), (14, 0x800000)]"
    by (auto simp: disjoint_blocks_pairwise blk_range_def)
  with run boot_granted [OF assms(1)] show ?thesis
    by (intro exI [of _ "boot_done dram"] conjI exI [of _ "0x400000"] exI [of _ "0x800000"])
      (simp_all add: boot_done_def coord_reset_def boot_base)
qed

theorem boot_regions_witness:
  "\<exists>s t. libmm_run 0 9 (libmm_boot 0 (\<lambda>_. 0)) = Inr s \<and> init_tbl_addr (coord s) = [of_nat (0x40000000 + t)] \<and> holds (phys s) 8 t"
  using boot_regions [of "\<lambda>_. 0" 9 0 0] by (simp add: zeroed_def) blast

end
