(* ===== verification/Mergesort.thy ===== *)
theory Mergesort
  imports Channels "HOL-Library.Multiset"
begin

text \<open>
  The merge sort application (\<^verbatim>\<open>app/mergesort/hls/mergesort.cpp\<close>): it asks the paging unit for the physical address of an array, loads it into a
  scratch array, sorts that bottom-up and writes it back. Array accesses are checked: \<open>None\<close> is an access outside an array.
\<close>

section \<open>Arrays and loops\<close>

definition aget :: "'a list \<Rightarrow> nat \<Rightarrow> 'a option" where
  "aget xs i = (if i < length xs then Some (xs ! i) else None)"

definition aput :: "'a list \<Rightarrow> nat \<Rightarrow> 'a \<Rightarrow> 'a list option" where
  "aput xs i v = (if i < length xs then Some (xs[i := v]) else None)"

text \<open>The values of the loop variable in \<open>for (l = lo; l < n; l += d)\<close> and in \<open>for (s = lo; s < n; s *= 2)\<close>, for steps that do advance.\<close>

function for_step :: "nat \<Rightarrow> nat \<Rightarrow> nat \<Rightarrow> nat list" where
  "for_step l n d = (if l < n \<and> 0 < d then l # for_step (l + d) n d else [])"
  by pat_completeness auto
termination
  by (relation "measure (\<lambda>(l, n, d). n - l)") auto

function for_double :: "nat \<Rightarrow> nat \<Rightarrow> nat list" where
  "for_double s n = (if s < n \<and> 0 < s then s # for_double (s * 2) n else [])"
  by pat_completeness auto
termination
  by (relation "measure (\<lambda>(s, n). n - s)") auto

declare for_step.simps [simp del] for_double.simps [simp del]

text \<open>A loop body that may fail, for each value in turn.\<close>

fun for_each :: "('i \<Rightarrow> 's \<Rightarrow> 's option) \<Rightarrow> 'i list \<Rightarrow> 's \<Rightarrow> 's option" where
  "for_each body [] s = Some s"
| "for_each body (i # is) s = (case body i s of None \<Rightarrow> None | Some s' \<Rightarrow> for_each body is s')"

lemma for_each_append: "for_each body (is @ js) s = (case for_each body is s of None \<Rightarrow> None | Some s' \<Rightarrow> for_each body js s')"
  by (induction "is" arbitrary: s) (auto split: option.split)

section \<open>Merging\<close>

type_synonym u32 = "32 word"

definition SCRATCH_ARRAY_SIZE :: nat where "SCRATCH_ARRAY_SIZE = 4096"
definition va_arr_ptr :: u32 where "va_arr_ptr = 0x00002000"

record merge_st =
  scratch_arr :: "u32 list"
  left_list :: "u32 list"
  right_list :: "u32 list"

definition merge_fill :: "nat \<Rightarrow> nat \<Rightarrow> nat \<Rightarrow> merge_st \<Rightarrow> merge_st option" where
  "merge_fill l m i s =
     (case (aget (scratch_arr s) (l + i), aget (scratch_arr s) (m + 1 + i)) of
        (Some x, Some y) \<Rightarrow>
          (case (aput (left_list s) i x, aput (right_list s) i y) of
             (Some ls, Some rs) \<Rightarrow> Some (s\<lparr>left_list := ls, right_list := rs\<rparr>)
           | _ \<Rightarrow> None)
      | _ \<Rightarrow> None)"

function merge_both :: "nat \<Rightarrow> nat \<Rightarrow> u32 list \<Rightarrow> u32 list \<Rightarrow> u32 list \<Rightarrow> nat \<Rightarrow> nat \<Rightarrow> nat \<Rightarrow> (u32 list \<times> nat \<times> nat \<times> nat) option" where
  "merge_both n l left right arr l_ind r_ind arr_ind =
     (if l_ind < n \<and> r_ind < n
      then (case (aget left l_ind, aget right r_ind) of
              (Some x, Some y) \<Rightarrow>
                if x \<le> y
                then (case aput arr (l + arr_ind) x of None \<Rightarrow> None | Some arr' \<Rightarrow> merge_both n l left right arr' (Suc l_ind) r_ind (Suc arr_ind))
                else (case aput arr (l + arr_ind) y of None \<Rightarrow> None | Some arr' \<Rightarrow> merge_both n l left right arr' l_ind (Suc r_ind) (Suc arr_ind))
            | _ \<Rightarrow> None)
      else Some (arr, l_ind, r_ind, arr_ind))"
  by pat_completeness auto
termination
  by (relation "measure (\<lambda>(n, l, left, right, arr, l_ind, r_ind, arr_ind). 2 * n - (l_ind + r_ind))") auto

function merge_one :: "nat \<Rightarrow> nat \<Rightarrow> u32 list \<Rightarrow> u32 list \<Rightarrow> nat \<Rightarrow> nat \<Rightarrow> (u32 list \<times> nat) option" where
  "merge_one n l src arr ind arr_ind =
     (if ind < n
      then (case aget src ind of
              None \<Rightarrow> None
            | Some x \<Rightarrow> (case aput arr (l + arr_ind) x of None \<Rightarrow> None | Some arr' \<Rightarrow> merge_one n l src arr' (Suc ind) (Suc arr_ind)))
      else Some (arr, arr_ind))"
  by pat_completeness auto
termination
  by (relation "measure (\<lambda>(n, l, src, arr, ind, arr_ind). n - ind)") auto

declare merge_both.simps [simp del] merge_one.simps [simp del]

text \<open>\<open>merge\<close>; its argument \<open>r\<close> is not used.\<close>

definition merge :: "nat \<Rightarrow> nat \<Rightarrow> nat \<Rightarrow> merge_st \<Rightarrow> merge_st option" where
  "merge l m r s =
     (let sub_arr_size = m + 1 - l
      in case for_each (merge_fill l m) [0..<sub_arr_size] s of
           None \<Rightarrow> None
         | Some s \<Rightarrow>
             (case merge_both sub_arr_size l (left_list s) (right_list s) (scratch_arr s) 0 0 0 of
                None \<Rightarrow> None
              | Some (arr, l_ind, r_ind, arr_ind) \<Rightarrow>
                  (case merge_one sub_arr_size l (left_list s) arr l_ind arr_ind of
                     None \<Rightarrow> None
                   | Some (arr, arr_ind) \<Rightarrow>
                       (case merge_one sub_arr_size l (right_list s) arr r_ind arr_ind of
                          None \<Rightarrow> None
                        | Some (arr, arr_ind) \<Rightarrow> Some (s\<lparr>scratch_arr := arr\<rparr>)))))"

section \<open>The application\<close>

datatype APP_STATE = MAP_REQ | MAP_REPLY | LOAD_SCRATCH | MERGE_SORT | RESULT_TO_DRAM

record mergesort_st = merge_st +
  ms_state :: APP_STATE
  pa_arr_ptr :: u32
  ms_map_req :: "mapping_request stream"
  ms_map_ret :: "mapping_reply stream"
  ms_dram :: "nat \<Rightarrow> 512 word"

definition merge_pass :: "nat \<Rightarrow> merge_st \<Rightarrow> merge_st option" where
  "merge_pass subsize =
     for_each (\<lambda>l. merge l (l + subsize - 1) (l + 2 * subsize - 1)) (for_step 0 (SCRATCH_ARRAY_SIZE - 1) (2 * subsize))"

definition merge_passes :: "merge_st \<Rightarrow> merge_st option" where
  "merge_passes = for_each merge_pass (for_double 1 SCRATCH_ARRAY_SIZE)"

definition load_scratch :: "(nat \<Rightarrow> 512 word) \<Rightarrow> u32 \<Rightarrow> u32 list \<Rightarrow> u32 list option" where
  "load_scratch dram pa = for_each (\<lambda>i arr. aput arr i (ucast (dram (unat pa + i * 32)))) (for_step 0 SCRATCH_ARRAY_SIZE 2)"

definition result_to_dram :: "u32 list \<Rightarrow> u32 \<Rightarrow> (nat \<Rightarrow> 512 word) \<Rightarrow> (nat \<Rightarrow> 512 word) option" where
  "result_to_dram arr pa =
     for_each (\<lambda>i dram. case aget arr i of None \<Rightarrow> None | Some x \<Rightarrow> Some (dram(unat pa + i * 32 := ucast x))) (for_step 0 SCRATCH_ARRAY_SIZE 2)"

definition mergesort :: "mergesort_st \<Rightarrow> mergesort_st option" where
  "mergesort s =
     (case ms_state s of
        MAP_REQ \<Rightarrow>
          Some (s\<lparr>ms_map_req := swrite (ms_map_req s) \<lparr>mr_address = va_arr_ptr, mr_length = 0, mr_opcode = MAPPING_REQUEST_READ\<rparr>, ms_state := MAP_REPLY\<rparr>)
      | MAP_REPLY \<Rightarrow>
          (case ms_map_ret s of
             [] \<Rightarrow> Some s
           | ret # rest \<Rightarrow>
               (let s = s\<lparr>ms_map_ret := rest\<rparr>
                in Some (if mp_status ret = 0 then s\<lparr>pa_arr_ptr := mp_address ret, ms_state := LOAD_SCRATCH\<rparr> else s\<lparr>ms_state := MAP_REPLY\<rparr>)))
      | LOAD_SCRATCH \<Rightarrow>
          (case load_scratch (ms_dram s) (pa_arr_ptr s) (scratch_arr s) of
             None \<Rightarrow> None
           | Some arr \<Rightarrow> Some (s\<lparr>scratch_arr := arr, ms_state := MERGE_SORT\<rparr>))
      | MERGE_SORT \<Rightarrow>
          (case merge_passes (merge_st.truncate s) of
             None \<Rightarrow> None
           | Some m \<Rightarrow> Some (s\<lparr>scratch_arr := scratch_arr m, left_list := left_list m, right_list := right_list m, ms_state := RESULT_TO_DRAM\<rparr>))
      | RESULT_TO_DRAM \<Rightarrow>
          (case result_to_dram (scratch_arr s) (pa_arr_ptr s) (ms_dram s) of
             None \<Rightarrow> None
           | Some dram \<Rightarrow> Some (s\<lparr>ms_dram := dram\<rparr>)))"

section \<open>A reference for merging\<close>

fun merge_lists :: "u32 list \<Rightarrow> u32 list \<Rightarrow> u32 list" where
  "merge_lists xs [] = xs"
| "merge_lists [] (y # ys) = y # ys"
| "merge_lists (x # xs) (y # ys) = (if x \<le> y then x # merge_lists xs (y # ys) else y # merge_lists (x # xs) ys)"

lemma merge_lists_Nil [simp]: "merge_lists [] ys = ys"
  by (cases ys) auto

lemma mset_merge_lists: "mset (merge_lists xs ys) = mset xs + mset ys"
  by (induction xs ys rule: merge_lists.induct) auto

lemma length_merge_lists: "length (merge_lists xs ys) = length xs + length ys"
  by (metis mset_merge_lists size_mset size_union)

lemma sorted_merge_lists: "sorted xs \<Longrightarrow> sorted ys \<Longrightarrow> sorted (merge_lists xs ys)"
proof (induction xs ys rule: merge_lists.induct)
  case (3 x xs y ys)
  have "set (merge_lists xs (y # ys)) = set xs \<union> set (y # ys)" "set (merge_lists (x # xs) ys) = set (x # xs) \<union> set ys"
    by (metis mset_merge_lists set_mset_mset set_mset_union)+
  with 3 show ?case by (auto simp: not_le)
qed auto

section \<open>The loops of merge\<close>

text \<open>Overwriting a segment of an array.\<close>

definition overwrite :: "'a list \<Rightarrow> nat \<Rightarrow> 'a list \<Rightarrow> 'a list" where
  "overwrite arr k xs = take k arr @ xs @ drop (k + length xs) arr"

lemma overwrite_Nil [simp]: "overwrite arr k [] = arr"
  by (simp add: overwrite_def)

lemma length_overwrite [simp]: "k + length xs \<le> length arr \<Longrightarrow> length (overwrite arr k xs) = length arr"
  by (simp add: overwrite_def)

lemma overwrite_Cons:
  "k < length arr \<Longrightarrow> overwrite (arr[k := x]) (Suc k) xs = overwrite arr k (x # xs)"
  by (simp add: overwrite_def take_Suc_conv_app_nth drop_update_cancel)

lemma drop_take_Cons: "i < n \<Longrightarrow> n \<le> length xs \<Longrightarrow> drop i (take n xs) = xs ! i # drop (Suc i) (take n xs)"
  by (simp add: Cons_nth_drop_Suc [symmetric])

lemma merge_one_run:
  assumes "ind \<le> n" "n \<le> length src" "l + arr_ind + (n - ind) \<le> length arr"
  shows "merge_one n l src arr ind arr_ind = Some (overwrite arr (l + arr_ind) (drop ind (take n src)), arr_ind + (n - ind))"
  using assms
proof (induction n l src arr ind arr_ind rule: merge_one.induct)
  case (1 n l src arr ind arr_ind)
  show ?case
  proof (cases "ind < n")
    case True
    with 1 show ?thesis
      by (simp add: merge_one.simps [of n l src arr] aget_def aput_def drop_take_Cons overwrite_Cons Suc_diff_Suc)
  next
    case False
    with 1 show ?thesis by (simp add: merge_one.simps [of n l src arr])
  qed
qed

lemma merge_both_run:
  assumes "l_ind \<le> n" "r_ind \<le> n" "n \<le> length left" "n \<le> length right" "l + 2 * n \<le> length arr"
  shows "\<exists>arr' l' r'. merge_both n l left right arr l_ind r_ind (l_ind + r_ind) = Some (arr', l', r', l' + r') \<and>
    l' \<le> n \<and> r' \<le> n \<and> (l' = n \<or> r' = n) \<and> length arr' = length arr \<and>
    overwrite arr (l + (l_ind + r_ind)) (merge_lists (drop l_ind (take n left)) (drop r_ind (take n right))) =
      overwrite arr' (l + (l' + r')) (drop l' (take n left) @ drop r' (take n right))"
  using assms
proof (induction "2 * n - (l_ind + r_ind)" arbitrary: arr l_ind r_ind rule: less_induct)
  case less
  show ?case
  proof (cases "l_ind < n \<and> r_ind < n")
    case False
    with less.prems show ?thesis
      by (intro exI [of _ arr] exI [of _ l_ind] exI [of _ r_ind]) (auto simp: merge_both.simps [of n l left right arr])
  next
    case True
    let ?k = "l + (l_ind + r_ind)"
    have k: "?k < length arr" and dec: "2 * n - (Suc l_ind + r_ind) < 2 * n - (l_ind + r_ind)" using True less.prems by linarith+
    show ?thesis
    proof (cases "left ! l_ind \<le> right ! r_ind")
      case le: True
      have "merge_both n l left right arr l_ind r_ind (l_ind + r_ind) = merge_both n l left right (arr[?k := left ! l_ind]) (Suc l_ind) r_ind (Suc l_ind + r_ind)"
        using True le k less.prems by (simp add: merge_both.simps [of n l left right arr] aget_def aput_def)
      with less.hyps [of "Suc l_ind" r_ind "arr[?k := left ! l_ind]"] dec True le k less.prems show ?thesis
        by (simp add: overwrite_Cons drop_take_Cons [of l_ind n left] drop_take_Cons [of r_ind n right])
    next
      case gt: False
      have "merge_both n l left right arr l_ind r_ind (l_ind + r_ind) = merge_both n l left right (arr[?k := right ! r_ind]) l_ind (Suc r_ind) (l_ind + Suc r_ind)"
        using True gt k less.prems by (simp add: merge_both.simps [of n l left right arr] aget_def aput_def)
      with less.hyps [of l_ind "Suc r_ind" "arr[?k := right ! r_ind]"] dec True gt k less.prems show ?thesis
        by (simp add: overwrite_Cons drop_take_Cons [of l_ind n left] drop_take_Cons [of r_ind n right])
    qed
  qed
qed

lemma fill_run:
  assumes "l + 2 * n \<le> length (scratch_arr s)" "n \<le> length (left_list s)" "n \<le> length (right_list s)" "k \<le> n" "m + 1 = l + n"
  shows "for_each (merge_fill l m) [0..<k] s =
    Some (s\<lparr>left_list := take k (drop l (scratch_arr s)) @ drop k (left_list s), right_list := take k (drop (l + n) (scratch_arr s)) @ drop k (right_list s)\<rparr>)"
  using assms(4)
proof (induction k)
  case (Suc k)
  let ?L = "take k (drop l (scratch_arr s)) @ drop k (left_list s)" and ?R = "take k (drop (l + n) (scratch_arr s)) @ drop k (right_list s)"
  have m: "m + 1 + k = l + n + k" "Suc (m + k) = l + n + k" using assms(5) by simp_all
  have upd: "(xs @ drop k ys)[k := v] = (xs @ [v]) @ drop (Suc k) ys" if "length xs = k" "k < length ys" for xs ys :: "u32 list" and v
    using that by (simp add: list_update_append Cons_nth_drop_Suc [symmetric])
  have "?L[k := scratch_arr s ! (l + k)] = take (Suc k) (drop l (scratch_arr s)) @ drop (Suc k) (left_list s)"
    "?R[k := scratch_arr s ! (l + n + k)] = take (Suc k) (drop (l + n) (scratch_arr s)) @ drop (Suc k) (right_list s)"
    using Suc.prems assms(1-3)
    by (simp_all add: upd [of "take k (drop l (scratch_arr s))"] upd [of "take k (drop (l + n) (scratch_arr s))"] take_Suc_conv_app_nth)
  then have "merge_fill l m k (s\<lparr>left_list := ?L, right_list := ?R\<rparr>) =
    Some (s\<lparr>left_list := take (Suc k) (drop l (scratch_arr s)) @ drop (Suc k) (left_list s),
            right_list := take (Suc k) (drop (l + n) (scratch_arr s)) @ drop (Suc k) (right_list s)\<rparr>)"
    using Suc.prems assms(1-3) m by (simp add: merge_fill_def aget_def aput_def)
  with Suc show ?case by (simp add: for_each_append)
qed simp

text \<open>\<open>merge\<close> replaces two adjacent runs by their merge.\<close>

lemma merge_run:
  assumes "scratch_arr s = P @ X @ Y @ Q" "length X = n" "length Y = n" "0 < n" "n \<le> length (left_list s)" "n \<le> length (right_list s)"
  shows "\<exists>s'. merge (length P) (length P + n - 1) r s = Some s' \<and> scratch_arr s' = P @ merge_lists X Y @ Q \<and>
    length (left_list s') = length (left_list s) \<and> length (right_list s') = length (right_list s)"
proof -
  let ?s = "s\<lparr>left_list := X @ drop n (left_list s), right_list := Y @ drop n (right_list s)\<rparr>"
  have n: "length P + n - 1 + 1 - length P = n" using assms(4) by simp
  have fill: "for_each (merge_fill (length P) (length P + n - 1)) [0..<n] s = Some ?s"
    using fill_run [of "length P" n s n "length P + n - 1"] assms by simp
  from merge_both_run [of 0 n 0 "left_list ?s" "right_list ?s" "length P" "scratch_arr s"] assms obtain arr' l' r' where
    both: "merge_both n (length P) (left_list ?s) (right_list ?s) (scratch_arr s) 0 0 0 = Some (arr', l', r', l' + r')"
    and b: "l' \<le> n" "r' \<le> n" "l' = n \<or> r' = n" "length arr' = length (scratch_arr s)"
    and over: "overwrite (scratch_arr s) (length P) (merge_lists X Y) = overwrite arr' (length P + (l' + r')) (drop l' X @ drop r' Y)"
    by auto
  have len: "length P + 2 * n \<le> length arr'" using assms b by simp
  have tails: "merge_one n (length P) (left_list ?s) arr' l' (l' + r') = Some (overwrite arr' (length P + (l' + r')) (drop l' X), n + r')"
    "merge_one n (length P) (right_list ?s) (overwrite arr' (length P + (l' + r')) (drop l' X)) r' (n + r') =
       Some (overwrite (overwrite arr' (length P + (l' + r')) (drop l' X)) (length P + (n + r')) (drop r' Y), n + r' + (n - r'))"
    using assms b len by (simp_all add: merge_one_run)
  have "overwrite (overwrite arr' (length P + (l' + r')) (drop l' X)) (length P + (n + r')) (drop r' Y) = overwrite arr' (length P + (l' + r')) (drop l' X @ drop r' Y)"
    using b(3) assms by auto
  also have "\<dots> = P @ merge_lists X Y @ Q" unfolding over [symmetric] using assms by (simp add: overwrite_def length_merge_lists)
  finally have fin: "overwrite (overwrite arr' (length P + (l' + r')) (drop l' X)) (length P + (n + r')) (drop r' Y) = P @ merge_lists X Y @ Q" .
  show ?thesis
    unfolding merge_def Let_def n fill by (rule exI [of _ "?s\<lparr>scratch_arr := P @ merge_lists X Y @ Q\<rparr>"]) (use both tails fin assms in simp)
qed

section \<open>Passes\<close>

fun merge_pairs :: "u32 list list \<Rightarrow> u32 list list" where
  "merge_pairs (x # y # bs) = merge_lists x y # merge_pairs bs"
| "merge_pairs bs = bs"

lemma merge_pairs_simps:
  "(\<forall>b \<in> set bs. length b = s) \<Longrightarrow> even (length bs) \<Longrightarrow> \<forall>b \<in> set (merge_pairs bs). length b = 2 * s"
  "(\<forall>b \<in> set bs. sorted b) \<Longrightarrow> \<forall>b \<in> set (merge_pairs bs). sorted b"
  "mset (concat (merge_pairs bs)) = mset (concat bs)"
  "even (length bs) \<Longrightarrow> length (merge_pairs bs) = length bs div 2"
  by (induction bs rule: merge_pairs.induct) (auto simp: length_merge_lists sorted_merge_lists mset_merge_lists)

lemma pass_run:
  assumes "scratch_arr st = P @ concat bs" "length (scratch_arr st) = SCRATCH_ARRAY_SIZE" "\<forall>b \<in> set bs. length b = s" "even (length bs)" "0 < s"
    and "s \<le> length (left_list st)" "s \<le> length (right_list st)"
  shows "\<exists>st'. for_each (\<lambda>l. merge l (l + s - 1) (l + 2 * s - 1)) (for_step (length P) (SCRATCH_ARRAY_SIZE - 1) (2 * s)) st = Some st' \<and>
    scratch_arr st' = P @ concat (merge_pairs bs) \<and> length (left_list st') = length (left_list st) \<and> length (right_list st') = length (right_list st)"
  using assms
proof (induction bs arbitrary: P st rule: merge_pairs.induct)
  case (1 x y bs)
  have lP: "length P < SCRATCH_ARRAY_SIZE - 1" using "1.prems" by auto
  have step: "for_step (length P) (SCRATCH_ARRAY_SIZE - 1) (2 * s) = length P # for_step (length (P @ merge_lists x y)) (SCRATCH_ARRAY_SIZE - 1) (2 * s)"
    using lP "1.prems" by (simp add: for_step.simps [of "length P"] length_merge_lists mult_2)
  from merge_run [of st P x y "concat bs" s "length P + 2 * s - 1"] "1.prems" obtain st1 where
    m: "merge (length P) (length P + s - 1) (length P + 2 * s - 1) st = Some st1" "scratch_arr st1 = (P @ merge_lists x y) @ concat bs"
      "length (left_list st1) = length (left_list st)" "length (right_list st1) = length (right_list st)"
    by auto
  from "1.IH" [of st1 "P @ merge_lists x y"] m "1.prems" show ?case
    unfolding step by (simp add: length_merge_lists)
next
  case "2_1"
  then show ?case by (simp add: for_step.simps SCRATCH_ARRAY_SIZE_def)
qed simp

lemma passes_run:
  assumes "scratch_arr st = concat bs" "\<forall>b \<in> set bs. length b = s \<and> sorted b" "length bs = 2 ^ k" "s * 2 ^ k = SCRATCH_ARRAY_SIZE"
    and "length (left_list st) = SCRATCH_ARRAY_SIZE div 2" "length (right_list st) = SCRATCH_ARRAY_SIZE div 2"
  shows "\<exists>st'. for_each merge_pass (for_double s SCRATCH_ARRAY_SIZE) st = Some st' \<and> sorted (scratch_arr st') \<and>
    mset (scratch_arr st') = mset (scratch_arr st) \<and>
    length (left_list st') = length (left_list st) \<and> length (right_list st') = length (right_list st)"
  using assms
proof (induction k arbitrary: s bs st)
  case 0
  then obtain b where "bs = [b]" by (auto simp: length_Suc_conv)
  with 0 show ?case by (simp add: for_double.simps)
next
  case (Suc k)
  have s: "0 < s" "s * 2 \<le> SCRATCH_ARRAY_SIZE" "s < SCRATCH_ARRAY_SIZE"
  proof -
    show pos: "0 < s" using Suc.prems(4) by (auto simp: SCRATCH_ARRAY_SIZE_def intro: Nat.gr0I)
    have "s * 2 * 1 \<le> s * 2 * 2 ^ k" by (rule mult_le_mono2) simp
    moreover have "s * 2 * 2 ^ k = SCRATCH_ARRAY_SIZE" using Suc.prems(4) by (simp add: mult.assoc)
    ultimately show "s * 2 \<le> SCRATCH_ARRAY_SIZE" by simp
    then show "s < SCRATCH_ARRAY_SIZE" using pos by linarith
  qed
  have len: "length (concat bs) = SCRATCH_ARRAY_SIZE"
  proof -
    have "length (concat bs) = (\<Sum>b\<leftarrow>bs. s)" unfolding length_concat using Suc.prems(2) by (intro arg_cong [of _ _ sum_list] map_cong) auto
    then show ?thesis using Suc.prems(3,4) by (simp add: sum_list_triv mult.commute)
  qed
  have half: "s \<le> SCRATCH_ARRAY_SIZE div 2" using s(2) by linarith
  from pass_run [of st "[]" bs s] Suc.prems s half len obtain st1 where
    p: "merge_pass s st = Some st1" "scratch_arr st1 = concat (merge_pairs bs)"
      "length (left_list st1) = length (left_list st)" "length (right_list st1) = length (right_list st)"
    by (auto simp: merge_pass_def)
  have "for_double s SCRATCH_ARRAY_SIZE = s # for_double (s * 2) SCRATCH_ARRAY_SIZE" using s by (simp add: for_double.simps [of s])
  with Suc.IH [of st1 "merge_pairs bs" "s * 2"] p Suc.prems merge_pairs_simps [of bs] show ?case
    by (simp add: mult.commute mult.left_commute)
qed

lemma merge_passes_sort:
  assumes "length (scratch_arr st) = SCRATCH_ARRAY_SIZE" "length (left_list st) = SCRATCH_ARRAY_SIZE div 2" "length (right_list st) = SCRATCH_ARRAY_SIZE div 2"
  shows "\<exists>st'. merge_passes st = Some st' \<and> scratch_arr st' = sort (scratch_arr st) \<and>
    length (left_list st') = SCRATCH_ARRAY_SIZE div 2 \<and> length (right_list st') = SCRATCH_ARRAY_SIZE div 2"
proof -
  have "concat (map (\<lambda>x. [x]) xs) = xs" for xs :: "u32 list" by (induction xs) auto
  with passes_run [of st "map (\<lambda>x. [x]) (scratch_arr st)" 1 12] assms obtain st' where
    "merge_passes st = Some st'" "sorted (scratch_arr st')" "mset (scratch_arr st') = mset (scratch_arr st)"
    "length (left_list st') = SCRATCH_ARRAY_SIZE div 2" "length (right_list st') = SCRATCH_ARRAY_SIZE div 2"
    by (auto simp: merge_passes_def SCRATCH_ARRAY_SIZE_def)
  then show ?thesis using properties_for_sort [of "scratch_arr st'" "scratch_arr st"] by auto
qed

section \<open>Loading and storing\<close>

lemma for_step_mult: "0 < d \<Longrightarrow> for_step l (l + k * d) d = map (\<lambda>i. l + i * d) [0..<k]"
proof (induction k arbitrary: l)
  case (Suc k)
  have "for_step l (l + Suc k * d) d = l # for_step (l + d) ((l + d) + k * d) d"
    using Suc.prems by (simp add: for_step.simps [of l] add.assoc)
  also have "\<dots> = map (\<lambda>i. l + i * d) (0 # map Suc [0..<k])"
    unfolding Suc.IH [OF Suc.prems] by (simp add: add.assoc)
  also have "0 # map Suc [0..<k] = [0..<Suc k]" by (simp add: map_Suc_upt upt_conv_Cons del: upt_Suc)
  finally show ?case .
qed (simp add: for_step.simps)

lemma evens: "for_step 0 SCRATCH_ARRAY_SIZE 2 = map (\<lambda>k. k * 2) [0..<2048]"
  using for_step_mult [of 2 0 2048] by (simp add: SCRATCH_ARRAY_SIZE_def)

lemma for_each_aput:
  "\<forall>i \<in> set is. i < length arr \<Longrightarrow>
     \<exists>arr'. for_each (\<lambda>i arr. aput arr i (f i)) is arr = Some arr' \<and> length arr' = length arr \<and>
       (\<forall>j < length arr. arr' ! j = (if j \<in> set is then f j else arr ! j))"
proof (induction "is" arbitrary: arr)
  case (Cons i "is")
  from Cons.IH [of "arr[i := f i]"] Cons.prems obtain arr' where "for_each (\<lambda>i arr. aput arr i (f i)) is (arr[i := f i]) = Some arr'" "length arr' = length arr"
    "\<forall>j < length arr. arr' ! j = (if j \<in> set is then f j else arr[i := f i] ! j)"
    by auto
  with Cons.prems show ?case by (intro exI [of _ arr']) (auto simp: aput_def nth_list_update)
qed simp

lemma load_scratch_run:
  assumes "length arr = SCRATCH_ARRAY_SIZE"
  shows "load_scratch dram pa arr =
    Some (map (\<lambda>j. if even j then ucast (dram (unat pa + j * 32)) else arr ! j) [0..<SCRATCH_ARRAY_SIZE])"
proof -
  have ev: "j \<in> (\<lambda>k. k * 2) ` {0..<2048} \<longleftrightarrow> even j" if "j < SCRATCH_ARRAY_SIZE" for j
  proof
    show "even j \<Longrightarrow> j \<in> (\<lambda>k. k * 2) ` {0..<2048}"
      using that by (intro image_eqI [of _ _ "j div 2"]) (auto simp: SCRATCH_ARRAY_SIZE_def)
  qed auto
  from for_each_aput [of "map (\<lambda>k. k * 2) [0..<2048]" arr "\<lambda>i. ucast (dram (unat pa + i * 32))"] assms obtain arr' where
    "load_scratch dram pa arr = Some arr'" "length arr' = SCRATCH_ARRAY_SIZE"
    "\<forall>j < SCRATCH_ARRAY_SIZE. arr' ! j = (if j \<in> (\<lambda>k. k * 2) ` {0..<2048} then ucast (dram (unat pa + j * 32)) else arr ! j)"
    by (auto simp: load_scratch_def evens [unfolded SCRATCH_ARRAY_SIZE_def] SCRATCH_ARRAY_SIZE_def)
  then show ?thesis using ev by (auto intro!: nth_equalityI)
qed

lemma result_run:
  assumes "length arr = SCRATCH_ARRAY_SIZE" and "n \<le> 2048"
  shows "for_each (\<lambda>i dram. case aget arr i of None \<Rightarrow> None | Some x \<Rightarrow> Some (dram(unat pa + i * 32 := ucast x))) (map (\<lambda>k. k * 2) [0..<n]) dram =
    Some (\<lambda>a. if a \<in> (\<lambda>k. unat pa + k * 64) ` {0..<n} then ucast (arr ! ((a - unat pa) div 32)) else dram a)"
  using assms(2)
proof (induction n)
  case (Suc n)
  have "n * 2 < length arr" using Suc.prems assms(1) by (simp add: SCRATCH_ARRAY_SIZE_def)
  with Suc show ?case
    by (auto simp: for_each_append aget_def atLeast0_lessThan_Suc fun_eq_iff mult.commute [of n 2])
qed simp

lemma result_to_dram_run:
  assumes "length arr = SCRATCH_ARRAY_SIZE"
  shows "\<exists>dram'. result_to_dram arr pa dram = Some dram' \<and> (\<forall>k < 2048. dram' (unat pa + k * 64) = ucast (arr ! (k * 2)))"
  using result_run [OF assms, of 2048 pa dram] by (auto simp: result_to_dram_def evens mult.commute [of _ 2])

section \<open>Properties\<close>

text \<open>C12: The sorting state of the application leaves the scratch array sorted, with the same elements, whatever it held; no array is accessed outside its bounds.\<close>

theorem mergesort_sorts:
  assumes "ms_state s = MERGE_SORT" and "length (scratch_arr s) = SCRATCH_ARRAY_SIZE"
    and "length (left_list s) = SCRATCH_ARRAY_SIZE div 2" and "length (right_list s) = SCRATCH_ARRAY_SIZE div 2"
  shows "\<exists>s'. mergesort s = Some s' \<and> scratch_arr s' = sort (scratch_arr s) \<and> ms_state s' = RESULT_TO_DRAM \<and>
    ms_dram s' = ms_dram s \<and> pa_arr_ptr s' = pa_arr_ptr s"
  using merge_passes_sort [of "merge_st.truncate s"] assms by (auto simp: mergesort_def merge_st.defs)

definition mergesort_reset :: "mapping_reply stream \<Rightarrow> (nat \<Rightarrow> 512 word) \<Rightarrow> mergesort_st" where
  "mergesort_reset rets dram = \<lparr>scratch_arr = replicate SCRATCH_ARRAY_SIZE 0, left_list = replicate (SCRATCH_ARRAY_SIZE div 2) 0,
     right_list = replicate (SCRATCH_ARRAY_SIZE div 2) 0, ms_state = MAP_REQ, pa_arr_ptr = 0, ms_map_req = [], ms_map_ret = rets, ms_dram = dram\<rparr>"

theorem mergesort_sorts_witness:
  "\<exists>s'. mergesort ((mergesort_reset [] (\<lambda>_. 0))\<lparr>ms_state := MERGE_SORT, scratch_arr := 5 # replicate 4095 2\<rparr>) = Some s' \<and>
     scratch_arr s' = sort (5 # replicate 4095 2)"
  using mergesort_sorts [of "(mergesort_reset [] (\<lambda>_. 0))\<lparr>ms_state := MERGE_SORT, scratch_arr := 5 # replicate 4095 2\<rparr>"]
  by (auto simp: mergesort_reset_def SCRATCH_ARRAY_SIZE_def)

text \<open>Half of the scratch array is never loaded, so half of what is sorted is zeros.\<close>

lemma sorted_zeros:
  assumes "sorted xs" "k \<le> length (filter (\<lambda>x. x = 0) xs)" "i < k"
  shows "xs ! i = (0 :: u32)"
proof (rule ccontr)
  assume i: "xs ! i \<noteq> 0"
  have len: "i < length xs" using assms(2,3) length_filter_le [of "\<lambda>x. x = 0" xs] by linarith
  have "{j. j < length xs \<and> xs ! j = 0} \<subseteq> {..<i}"
  proof (rule subsetI)
    fix j assume "j \<in> {j. j < length xs \<and> xs ! j = 0}"
    then have j: "j < length xs" "xs ! j = 0" by simp_all
    show "j \<in> {..<i}"
    proof (rule ccontr)
      assume "j \<notin> {..<i}"
      then have "xs ! i \<le> xs ! j" using sorted_nth_mono [OF assms(1), of i j] j(1) by simp
      then show False using i j by (simp add: word_le_0_iff)
    qed
  qed
  then have "length (filter (\<lambda>x. x = 0) xs) \<le> i"
    unfolding length_filter_conv_card by (metis card_lessThan card_mono finite_lessThan)
  with assms(2,3) show False by simp
qed

lemma filter_zeros_odd:
  "n \<le> length (filter (\<lambda>x. x = 0) (map (\<lambda>j. if even j then f j else (0 :: u32)) [0..<2 * n]))"
  by (induction n) auto

fun mergesort_run :: "nat \<Rightarrow> mergesort_st \<Rightarrow> mergesort_st option" where
  "mergesort_run 0 s = Some s"
| "mergesort_run (Suc n) s = (case mergesort s of None \<Rightarrow> None | Some s' \<Rightarrow> mergesort_run n s')"

text \<open>C40: Given a translation of its address, the application from reset writes after five cycles to every 64th word of DRAM from there on; the words are those of a
  sorted array, but every second element of that array is a zero that was never loaded: the first 1024 of the 2048 words written are 0, so half of
  the input is lost.\<close>

theorem mergesort_loses_input:
  assumes "mp_status ret = 0"
  shows "\<exists>s'. mergesort_run 5 (mergesort_reset [ret] dram) = Some s' \<and> sorted (scratch_arr s') \<and>
    (\<forall>k < 2048. ms_dram s' (unat (mp_address ret) + k * 64) = ucast (scratch_arr s' ! (k * 2))) \<and>
    (\<forall>k < 1024. ms_dram s' (unat (mp_address ret) + k * 64) = 0)"
proof -
  let ?pa = "mp_address ret" and ?n = SCRATCH_ARRAY_SIZE
  let ?arr = "map (\<lambda>j. if even j then ucast (dram (unat ?pa + j * 32)) else 0) [0..<?n] :: u32 list"
  let ?s = "(mergesort_reset [] dram)\<lparr>ms_map_req := [\<lparr>mr_address = va_arr_ptr, mr_length = 0, mr_opcode = MAPPING_REQUEST_READ\<rparr>],
    pa_arr_ptr := ?pa, scratch_arr := ?arr, ms_state := MERGE_SORT\<rparr>"
  have load: "load_scratch dram ?pa (replicate ?n 0) = Some ?arr"
    by (subst load_scratch_run) (auto intro!: map_cong)
  have three: "mergesort_run 3 (mergesort_reset [ret] dram) = Some ?s"
    using assms load by (simp add: numeral_3_eq_3 mergesort_reset_def mergesort_def)
  from merge_passes_sort [of "merge_st.truncate ?s"] obtain st where
    st: "merge_passes (merge_st.truncate ?s) = Some st" "scratch_arr st = sort ?arr"
    by (auto simp: mergesort_reset_def merge_st.defs)
  from result_to_dram_run [of "sort ?arr" ?pa dram] obtain dram' where
    d: "result_to_dram (sort ?arr) ?pa dram = Some dram'" "\<forall>k < 2048. dram' (unat ?pa + k * 64) = ucast (sort ?arr ! (k * 2))"
    by auto
  let ?s' = "?s\<lparr>scratch_arr := sort ?arr, left_list := left_list st, right_list := right_list st, ms_state := RESULT_TO_DRAM, ms_dram := dram'\<rparr>"
  have two: "mergesort_run 2 ?s = Some ?s'"
    using st d(1) by (simp add: numeral_2_eq_2 mergesort_def) (simp add: mergesort_reset_def)
  have run_add: "mergesort_run (m + n) s = (case mergesort_run m s of None \<Rightarrow> None | Some s' \<Rightarrow> mergesort_run n s')" for m n s
    by (induction m arbitrary: s) (auto split: option.split)
  have run: "mergesort_run 5 (mergesort_reset [ret] dram) = Some ?s'"
    using run_add [of 3 2 "mergesort_reset [ret] dram"] three two by simp
  have "2048 \<le> length (filter (\<lambda>x. x = 0) ?arr)"
    using filter_zeros_odd [of 2048 "\<lambda>j. ucast (dram (unat ?pa + j * 32))"] by (simp add: SCRATCH_ARRAY_SIZE_def)
  also have "\<dots> = length (filter (\<lambda>x. x = 0) (sort ?arr))"
    by (simp only: size_mset [symmetric] mset_filter mset_sort)
  finally have zeros: "sort ?arr ! (k * 2) = 0" if "k < 1024" for k
    using sorted_zeros [of "sort ?arr" 2048 "k * 2"] that by simp
  show ?thesis
    by (intro exI [of _ ?s'] conjI run) (use d(2) zeros in auto)
qed

theorem mergesort_loses_input_witness:
  "\<exists>s'. mergesort_run 5 (mergesort_reset [\<lparr>mp_status = 0, mp_address = 0x1000, mp_internal_status = 0\<rparr>] (\<lambda>_. 7)) = Some s' \<and>
     ms_dram s' 0x1000 = 0"
proof -
  from mergesort_loses_input [of "\<lparr>mp_status = 0, mp_address = 0x1000, mp_internal_status = 0\<rparr>" "\<lambda>_. 7"] obtain s' where
    "mergesort_run 5 (mergesort_reset [\<lparr>mp_status = 0, mp_address = 0x1000, mp_internal_status = 0\<rparr>] (\<lambda>_. 7)) = Some s'"
    "\<forall>k < 1024. ms_dram s' (0x1000 + k * 64) = 0"
    by auto
  then show ?thesis by (intro exI [of _ s']) (metis add_0_right mult_zero_left zero_less_numeral)
qed

end
