(* ===== verification/Icap.thy ===== *)
theory Icap
  imports HLS_Prelude
begin

unbundle bit_operations_syntax

text \<open>
  The controller of the configuration port (\<^verbatim>\<open>kernel/icap_hls/icap_controller\<close>): it sends the command sequences of the device to the port, word by word, and
  reads registers and configuration frames back. The port's enable \<open>CSIB\<close> (active low) and direction \<open>RDWRB\<close> keep their value between cycles.
\<close>

section \<open>Registers and command words\<close>

definition ICAP_CSIB_ENABLE :: "1 word" where "ICAP_CSIB_ENABLE = 0"
definition ICAP_CSIB_DISABLE :: "1 word" where "ICAP_CSIB_DISABLE = 1"
definition ICAP_RDWRB_WRITE :: "1 word" where "ICAP_RDWRB_WRITE = 0"
definition ICAP_RDWRB_READ :: "1 word" where "ICAP_RDWRB_READ = 1"

lemmas port_defs = ICAP_CSIB_ENABLE_def ICAP_CSIB_DISABLE_def ICAP_RDWRB_WRITE_def ICAP_RDWRB_READ_def

definition ICAP_T1_REGADDR_SHIFT :: nat where "ICAP_T1_REGADDR_SHIFT = 13"

definition ICAP_REG_FDRO :: nat where "ICAP_REG_FDRO = 3"
definition ICAP_REG_IDCODE :: nat where "ICAP_REG_IDCODE = 12"
definition NR_ICAP_REG :: nat where "NR_ICAP_REG = 20"

definition ICAP_REG_PERMISSION_R :: "2 word" where "ICAP_REG_PERMISSION_R = 0"
definition ICAP_REG_PERMISSION_W :: "2 word" where "ICAP_REG_PERMISSION_W = 1"
definition ICAP_REG_PERMISSION_RW :: "2 word" where "ICAP_REG_PERMISSION_RW = 2"

record icap_register_entry =
  ir_addr :: "14 word"
  ir_rw :: "2 word"

definition reg_R :: "14 word \<Rightarrow> icap_register_entry" where "reg_R a = \<lparr>ir_addr = a, ir_rw = ICAP_REG_PERMISSION_R\<rparr>"
definition reg_W :: "14 word \<Rightarrow> icap_register_entry" where "reg_W a = \<lparr>ir_addr = a, ir_rw = ICAP_REG_PERMISSION_W\<rparr>"
definition reg_RW :: "14 word \<Rightarrow> icap_register_entry" where "reg_RW a = \<lparr>ir_addr = a, ir_rw = ICAP_REG_PERMISSION_RW\<rparr>"

text \<open>In the order of \<open>enum icap_register_nr\<close>.\<close>

definition icap_register_table :: "icap_register_entry list" where
  "icap_register_table =
     [reg_RW 0b00000, reg_RW 0b00001, reg_W 0b00010, reg_R 0b00011, reg_RW 0b00100, reg_RW 0b00101, reg_RW 0b00110, reg_R 0b00111, reg_W 0b01000,
      reg_RW 0b01001, reg_W 0b01010, reg_W 0b01011, reg_RW 0b01100, reg_RW 0b01101, reg_RW 0b01110, reg_RW 0b10000, reg_RW 0b10001, reg_R 0b10110,
      reg_RW 0b11000, reg_RW 0b11111]"

type_synonym u32 = "32 word"

definition COMMAND_regs_1_init :: "u32 list" where
  "COMMAND_regs_1_init = [0xFFFFFFFF, 0x000000BB, 0x11220044, 0xFFFFFFFF, 0xAA995566, 0x20000000, 0x28018001, 0x20000000, 0x20000000]"

definition COMMAND_regs_desync :: "u32 list" where
  "COMMAND_regs_desync = [0x30008001, 0x0000000D, 0x20000000, 0x20000000]"

definition COMMAND_iprog :: "u32 list" where
  "COMMAND_iprog = [0xFFFFFFFF, 0xAA995566, 0x20000000, 0x20000000, 0x30020001, 0x00000000, 0x20000000, 0x30008001, 0x0000000F]"

definition NR_WORDS_READ_ONE_FRAME_ULTRASCLAE_PLUS :: int where
  "NR_WORDS_READ_ONE_FRAME_ULTRASCLAE_PLUS = 93 * 2 + 25"

definition COMMAND_readback_1_init :: "u32 list" where
  "COMMAND_readback_1_init =
     [0xFFFFFFFF, 0x000000BB, 0x11220044, 0xFFFFFFFF, 0xAA995566,
      0x20000000,
      0x3000C001, 0x00800000, 0x30030001, 0x00800000,
      0x30008001, 0x00000007, 0x20000000,
      0x20000000, 0x20000000, 0x20000000, 0x20000000, 0x20000000,
      0x30008001, 0x00000004, 0x20000000,
      0x30002001, 0x0004f70c,
      0x28006000, 0x48000000 OR word_of_int NR_WORDS_READ_ONE_FRAME_ULTRASCLAE_PLUS] @
     replicate 64 0x20000000"

definition COMMAND_readback_2 :: "u32 list" where
  "COMMAND_readback_2 =
     [0x3000C001, 0x00800000, 0x30030001, 0x00000000, 0x20000000, 0x30008001, 0x00000005, 0x20000000,
      0x30008001, 0x00000007, 0x20000000, 0x30008001, 0x0000000D, 0x20000000, 0x20000000]"

definition default_cmd_header :: u32 where "default_cmd_header = 0x28000001"
definition CMD_HEADER_INDEX :: nat where "CMD_HEADER_INDEX = 6"

definition cook_cmd :: "nat \<Rightarrow> u32" where
  "cook_cmd reg_nr = default_cmd_header OR push_bit ICAP_T1_REGADDR_SHIFT (ucast (ir_addr (icap_register_table ! reg_nr)))"

definition update_COMMAND_regs_1 :: "u32 \<Rightarrow> u32 list \<Rightarrow> u32 list" where
  "update_COMMAND_regs_1 cmd regs = regs[CMD_HEADER_INDEX := cmd]"

section \<open>State\<close>

datatype COMMAND_FUNCTION_STATUS = CMD_DONE | CMD_WIP

datatype CMD_READ_REGS_STATE =
  READ_REGS_IDLE | READ_REGS_WRITE_1 | READ_REGS_WRITE_1_TRANSITION | READ_REGS_READ | READ_REGS_READ_TRANSITION | READ_REGS_WRITE_DESYNC

datatype CMD_READBACK_STATE = READBACK_IDLE | READBACK_WRITE_1 | READBACK_WRITE_1_TRANSITION | READBACK_READ | READBACK_WRITE_2

datatype CMD_IPROG_STATE = IPROG_IDLE | IPROG_WRITE_1

datatype icap_controller_hls_state = IDLE_ICAP_INACTIVE | IDLE_ICAP_ACTIVE | STATE_OP_START | STATE_DONE

record icap_ports =
  from_icap :: "u32 stream"
  to_icap :: "u32 stream"
  CSIB :: "1 word"
  RDWRB :: "1 word"
  O_nr_bytes :: int

record icap_st = icap_ports +
  rr_state :: CMD_READ_REGS_STATE
  rr_nr_1 :: nat
  rr_nr_2 :: nat
  rr_nr_bytes_read :: nat
  COMMAND_regs_1 :: "u32 list"
  rb_state :: CMD_READBACK_STATE
  rb_nr_1 :: nat
  rb_nr_2 :: nat
  nr_to_read :: int
  COMMAND_readback_1 :: "u32 list"
  ip_state :: CMD_IPROG_STATE
  ip_nr :: nat
  ctl_state :: icap_controller_hls_state
  test_cmd :: nat
  register_addr :: nat
  nr_test :: nat

text \<open>Both port signals are always driven together.\<close>

definition drive :: "1 word \<Rightarrow> 1 word \<Rightarrow> icap_st \<Rightarrow> icap_st" where
  "drive csib rdwrb s = s\<lparr>CSIB := csib, RDWRB := rdwrb\<rparr>"

definition send :: "u32 \<Rightarrow> icap_st \<Rightarrow> icap_st" where
  "send data s = s\<lparr>to_icap := swrite (to_icap s) data\<rparr>"

section \<open>Reading a register\<close>

text \<open>Words that stand for "not ready yet".\<close>

definition filler :: "u32 \<Rightarrow> bool" where
  "filler data \<longleftrightarrow> data = 0 \<or> data = 0xFFFFFFD9 \<or> data = 0xFFFFFFDB"

text \<open>The third component is what is stored to \<open>*reg_data\<close>, if anything is.\<close>

definition cmd_read_regs :: "nat \<Rightarrow> icap_st \<Rightarrow> icap_st \<times> COMMAND_FUNCTION_STATUS \<times> u32 option" where
  "cmd_read_regs reg_nr s =
     (if reg_nr \<ge> NR_ICAP_REG then (s, CMD_DONE, None)
      else if ir_rw (icap_register_table ! reg_nr) = ICAP_REG_PERMISSION_W then (s, CMD_DONE, None)
      else (case rr_state s of
        READ_REGS_IDLE \<Rightarrow>
          (drive ICAP_CSIB_DISABLE ICAP_RDWRB_WRITE
             (s\<lparr>rr_nr_1 := 0, rr_nr_2 := 0, rr_nr_bytes_read := 0,
                COMMAND_regs_1 := update_COMMAND_regs_1 (cook_cmd reg_nr) (COMMAND_regs_1 s), rr_state := READ_REGS_WRITE_1\<rparr>), CMD_WIP, None)
      | READ_REGS_WRITE_1 \<Rightarrow>
          (if rr_nr_1 s < length (COMMAND_regs_1 s)
           then ((send (COMMAND_regs_1 s ! rr_nr_1 s) (drive ICAP_CSIB_ENABLE ICAP_RDWRB_WRITE s))\<lparr>rr_nr_1 := rr_nr_1 s + 1\<rparr>, CMD_WIP, None)
           else ((drive ICAP_CSIB_DISABLE ICAP_RDWRB_WRITE s)\<lparr>rr_state := READ_REGS_WRITE_1_TRANSITION\<rparr>, CMD_WIP, None))
      | READ_REGS_WRITE_1_TRANSITION \<Rightarrow>
          ((drive ICAP_CSIB_DISABLE ICAP_RDWRB_READ s)\<lparr>rr_state := READ_REGS_READ\<rparr>, CMD_WIP, None)
      | READ_REGS_READ \<Rightarrow>
          (let s = drive ICAP_CSIB_ENABLE ICAP_RDWRB_READ s
           in case from_icap s of
                [] \<Rightarrow> (s, CMD_WIP, None)
              | data # rest \<Rightarrow>
                  (let s = s\<lparr>from_icap := rest, rr_nr_bytes_read := rr_nr_bytes_read s + 1\<rparr>
                   in if filler data \<and> rr_nr_bytes_read s \<le> 5 then (s, CMD_WIP, None)
                      else (s\<lparr>rr_state := READ_REGS_READ_TRANSITION\<rparr>, CMD_WIP, Some data)))
      | READ_REGS_READ_TRANSITION \<Rightarrow>
          ((drive ICAP_CSIB_DISABLE ICAP_RDWRB_READ s)\<lparr>rr_state := READ_REGS_WRITE_DESYNC\<rparr>, CMD_WIP, None)
      | READ_REGS_WRITE_DESYNC \<Rightarrow>
          (if rr_nr_2 s < length COMMAND_regs_desync
           then ((send (COMMAND_regs_desync ! rr_nr_2 s) (drive ICAP_CSIB_ENABLE ICAP_RDWRB_WRITE s))\<lparr>rr_nr_2 := rr_nr_2 s + 1\<rparr>, CMD_WIP, None)
           else ((drive ICAP_CSIB_DISABLE ICAP_RDWRB_READ s)\<lparr>rr_state := READ_REGS_IDLE\<rparr>, CMD_DONE, None))))"

section \<open>Reading a frame back, and rebooting\<close>

definition cmd_read_bitstreams :: "u32 \<Rightarrow> icap_st \<Rightarrow> icap_st \<times> COMMAND_FUNCTION_STATUS" where
  "cmd_read_bitstreams frame_addr s =
     (case rb_state s of
        READBACK_IDLE \<Rightarrow>
          ((drive ICAP_CSIB_DISABLE ICAP_RDWRB_WRITE s)\<lparr>rb_nr_1 := 0, rb_nr_2 := 0,
              COMMAND_readback_1 := (COMMAND_readback_1 s)[22 := frame_addr], rb_state := READBACK_WRITE_1\<rparr>, CMD_WIP)
      | READBACK_WRITE_1 \<Rightarrow>
          (if rb_nr_1 s < length (COMMAND_readback_1 s)
           then ((send (COMMAND_readback_1 s ! rb_nr_1 s) (drive ICAP_CSIB_ENABLE ICAP_RDWRB_WRITE s))\<lparr>rb_nr_1 := rb_nr_1 s + 1\<rparr>, CMD_WIP)
           else ((drive ICAP_CSIB_DISABLE ICAP_RDWRB_WRITE s)\<lparr>rb_state := READBACK_WRITE_1_TRANSITION\<rparr>, CMD_WIP))
      | READBACK_WRITE_1_TRANSITION \<Rightarrow>
          ((drive ICAP_CSIB_DISABLE ICAP_RDWRB_READ s)\<lparr>rb_state := READBACK_READ\<rparr>, CMD_WIP)
      | READBACK_READ \<Rightarrow>
          (let (s, ret, reg_data) = cmd_read_regs ICAP_REG_FDRO s
           in if ret = CMD_DONE
              then (if nr_to_read s = 0 then (s\<lparr>rb_state := READBACK_WRITE_2\<rparr>, CMD_WIP)
                    else (s\<lparr>nr_to_read := nr_to_read s - 1, O_nr_bytes := NR_WORDS_READ_ONE_FRAME_ULTRASCLAE_PLUS - (nr_to_read s - 1)\<rparr>, CMD_WIP))
              else (s, CMD_WIP))
      | READBACK_WRITE_2 \<Rightarrow>
          (if rb_nr_2 s < length COMMAND_readback_2
           then ((send (COMMAND_readback_2 ! rb_nr_2 s) (drive ICAP_CSIB_ENABLE ICAP_RDWRB_WRITE s))\<lparr>rb_nr_2 := rb_nr_2 s + 1\<rparr>, CMD_WIP)
           else ((drive ICAP_CSIB_DISABLE ICAP_RDWRB_READ s)\<lparr>rb_state := READBACK_IDLE\<rparr>, CMD_DONE)))"

definition cmd_iprog :: "icap_st \<Rightarrow> icap_st \<times> COMMAND_FUNCTION_STATUS" where
  "cmd_iprog s =
     (let s' = (case ip_state s of
                  IPROG_IDLE \<Rightarrow> s\<lparr>ip_nr := 0, ip_state := IPROG_WRITE_1\<rparr>
                | IPROG_WRITE_1 \<Rightarrow>
                    (let s = drive ICAP_CSIB_ENABLE ICAP_RDWRB_WRITE s
                     in if ip_nr s < length COMMAND_iprog then (send (COMMAND_iprog ! ip_nr s) s)\<lparr>ip_nr := ip_nr s + 1\<rparr>
                        else s\<lparr>ip_state := IPROG_IDLE\<rparr>))
      in (s', if ip_state s' = IPROG_IDLE then CMD_DONE else CMD_WIP))"

section \<open>The controller\<close>

text \<open>The signals the controller samples in a cycle.\<close>

record icap_in =
  AVAIL :: "1 word"
  start_test :: "1 word"
  reset_test :: "1 word"
  frame_addr :: u32

definition select_test :: "icap_st \<Rightarrow> icap_st option" where
  "select_test s =
     (if nr_test s = 0 then Some (s\<lparr>test_cmd := 0, register_addr := ICAP_REG_IDCODE, nr_test := 1\<rparr>)
      else if nr_test s = 1 then Some (s\<lparr>test_cmd := 2, nr_test := 2\<rparr>)
      else if nr_test s = 2 then Some (s\<lparr>test_cmd := 0, register_addr := ICAP_REG_IDCODE, nr_test := 3\<rparr>)
      else None)"

definition icap_controller_hls :: "icap_in \<Rightarrow> icap_st \<Rightarrow> icap_st" where
  "icap_controller_hls x s =
     (case ctl_state s of
        IDLE_ICAP_INACTIVE \<Rightarrow>
          (if start_test x = 0 then s
           else (let s = (if reset_test x = 1 then s\<lparr>nr_test := 0\<rparr> else s)
                 in case select_test s of
                      None \<Rightarrow> s
                    | Some s \<Rightarrow> drive ICAP_CSIB_DISABLE ICAP_RDWRB_READ
                                  (s\<lparr>ctl_state := if AVAIL x = 0 then IDLE_ICAP_INACTIVE else IDLE_ICAP_ACTIVE\<rparr>)))
      | IDLE_ICAP_ACTIVE \<Rightarrow>
          drive ICAP_CSIB_DISABLE ICAP_RDWRB_READ (s\<lparr>ctl_state := if AVAIL x = 0 then IDLE_ICAP_INACTIVE else STATE_OP_START\<rparr>)
      | STATE_OP_START \<Rightarrow>
          (let (s, ret) = (if test_cmd s = 0 then (case cmd_read_regs (register_addr s) s of (s, ret, reg_data) \<Rightarrow> (s, ret))
                           else if test_cmd s = 1 then cmd_iprog s
                           else if test_cmd s = 2 then cmd_read_bitstreams (frame_addr x) s
                           else (s, CMD_DONE))
           in if ret = CMD_DONE then s\<lparr>ctl_state := STATE_DONE\<rparr> else s)
      | STATE_DONE \<Rightarrow> (drive ICAP_CSIB_DISABLE ICAP_RDWRB_READ s)\<lparr>ctl_state := IDLE_ICAP_INACTIVE\<rparr>)"

text \<open>After power-up: the port signals and the input queue are whatever they are.\<close>

definition icap_reset :: "u32 stream \<Rightarrow> 1 word \<Rightarrow> 1 word \<Rightarrow> icap_st" where
  "icap_reset input csib rdwrb = \<lparr>from_icap = input, to_icap = [], CSIB = csib, RDWRB = rdwrb, O_nr_bytes = 0,
     rr_state = READ_REGS_IDLE, rr_nr_1 = 0, rr_nr_2 = 0, rr_nr_bytes_read = 0, COMMAND_regs_1 = COMMAND_regs_1_init,
     rb_state = READBACK_IDLE, rb_nr_1 = 0, rb_nr_2 = 0, nr_to_read = NR_WORDS_READ_ONE_FRAME_ULTRASCLAE_PLUS, COMMAND_readback_1 = COMMAND_readback_1_init,
     ip_state = IPROG_IDLE, ip_nr = 0, ctl_state = IDLE_ICAP_INACTIVE, test_cmd = 0, register_addr = 0, nr_test = 0\<rparr>"

end
