(* ===== verification/Icap_Props.thy ===== *)
theory Icap_Props
  imports Icap
begin

unbundle bit_operations_syntax

text \<open>
  The port discipline of the configuration port controller, the register read it implements, and two faults of its test sequence.
\<close>

section \<open>The port discipline\<close>

text \<open>
  The device aborts when its direction changes while it is enabled, and takes a word for a command only when it is enabled for writing.
  One step of a command obeys the rules of the port if it keeps the direction while enabled and moves words only in the right mode.
\<close>

definition strobe_ok :: "'a icap_ports_scheme \<Rightarrow> 'a icap_ports_scheme \<Rightarrow> bool" where
  "strobe_ok s s' \<longleftrightarrow>
     (CSIB s = ICAP_CSIB_ENABLE \<and> CSIB s' = ICAP_CSIB_ENABLE \<longrightarrow> RDWRB s' = RDWRB s) \<and>
     (to_icap s' \<noteq> to_icap s \<longrightarrow> CSIB s' = ICAP_CSIB_ENABLE \<and> RDWRB s' = ICAP_RDWRB_WRITE) \<and>
     (from_icap s' \<noteq> from_icap s \<longrightarrow> CSIB s' = ICAP_CSIB_ENABLE \<and> RDWRB s' = ICAP_RDWRB_READ)"

text \<open>What each state of a command may rely on about the port.\<close>

definition rr_port :: "icap_st \<Rightarrow> bool" where
  "rr_port s \<longleftrightarrow>
     (case rr_state s of
        READ_REGS_IDLE \<Rightarrow> CSIB s = ICAP_CSIB_DISABLE
      | READ_REGS_WRITE_1 \<Rightarrow> RDWRB s = ICAP_RDWRB_WRITE
      | READ_REGS_WRITE_1_TRANSITION \<Rightarrow> CSIB s = ICAP_CSIB_DISABLE
      | READ_REGS_READ \<Rightarrow> RDWRB s = ICAP_RDWRB_READ
      | READ_REGS_READ_TRANSITION \<Rightarrow> True
      | READ_REGS_WRITE_DESYNC \<Rightarrow> CSIB s = ICAP_CSIB_DISABLE \<or> RDWRB s = ICAP_RDWRB_WRITE)"

definition rb_port :: "icap_st \<Rightarrow> bool" where
  "rb_port s \<longleftrightarrow>
     (case rb_state s of
        READBACK_IDLE \<Rightarrow> CSIB s = ICAP_CSIB_DISABLE \<and> rr_state s = READ_REGS_IDLE
      | READBACK_WRITE_1 \<Rightarrow> RDWRB s = ICAP_RDWRB_WRITE \<and> rr_state s = READ_REGS_IDLE
      | READBACK_WRITE_1_TRANSITION \<Rightarrow> CSIB s = ICAP_CSIB_DISABLE \<and> rr_state s = READ_REGS_IDLE
      | READBACK_READ \<Rightarrow> rr_port s
      | READBACK_WRITE_2 \<Rightarrow> (CSIB s = ICAP_CSIB_DISABLE \<or> RDWRB s = ICAP_RDWRB_WRITE) \<and> rr_state s = READ_REGS_IDLE)"

definition ctl_ok :: "icap_st \<Rightarrow> bool" where
  "ctl_ok s \<longleftrightarrow>
     (case ctl_state s of
        IDLE_ICAP_INACTIVE \<Rightarrow> rr_state s = READ_REGS_IDLE \<and> rb_state s = READBACK_IDLE
      | IDLE_ICAP_ACTIVE \<Rightarrow> rr_state s = READ_REGS_IDLE \<and> rb_state s = READBACK_IDLE \<and> CSIB s = ICAP_CSIB_DISABLE \<and>
          (test_cmd s = 0 \<and> register_addr s = ICAP_REG_IDCODE \<or> test_cmd s = 2)
      | STATE_OP_START \<Rightarrow> (test_cmd s = 0 \<and> register_addr s = ICAP_REG_IDCODE \<and> rb_state s = READBACK_IDLE \<and> rr_port s) \<or> (test_cmd s = 2 \<and> rb_port s)
      | STATE_DONE \<Rightarrow> rr_state s = READ_REGS_IDLE \<and> rb_state s = READBACK_IDLE)"

lemmas step_defs = drive_def send_def strobe_ok_def port_defs

lemma ports_simps [simp]:
  "rr_state (drive c d s) = rr_state s" "rb_state (drive c d s) = rb_state s" "ctl_state (drive c d s) = ctl_state s" "test_cmd (drive c d s) = test_cmd s"
  "rr_state (send w s) = rr_state s" "rb_state (send w s) = rb_state s" "ctl_state (send w s) = ctl_state s" "test_cmd (send w s) = test_cmd s"
  "register_addr (drive c d s) = register_addr s" "register_addr (send w s) = register_addr s"
  by (simp_all add: drive_def send_def)

lemma read_regs_frame:
  assumes "cmd_read_regs r s = (s', ret, data)"
  shows "rb_state s' = rb_state s" "ctl_state s' = ctl_state s" "test_cmd s' = test_cmd s" "register_addr s' = register_addr s" "nr_to_read s' = nr_to_read s" "nr_test s' = nr_test s"
  using assms by (auto simp: cmd_read_regs_def drive_def send_def Let_def split: if_splits CMD_READ_REGS_STATE.splits list.splits)

lemma read_regs_port:
  assumes "rr_port s" and "cmd_read_regs r s = (s', ret, data)"
  shows "strobe_ok s s'" "rr_port s'"
  using assms
  by (auto simp: cmd_read_regs_def rr_port_def step_defs Let_def split: if_splits CMD_READ_REGS_STATE.splits list.splits)

text \<open>A refused register leaves the command where it was; otherwise it is idle when it reports that it is done.\<close>

lemma read_regs_done:
  assumes "cmd_read_regs r s = (s', CMD_DONE, data)"
  shows "(s' = s \<and> (NR_ICAP_REG \<le> r \<or> ir_rw (icap_register_table ! r) = ICAP_REG_PERMISSION_W)) \<or> (rr_state s' = READ_REGS_IDLE \<and> CSIB s' = ICAP_CSIB_DISABLE)"
  using assms by (auto simp: cmd_read_regs_def drive_def Let_def split: if_splits CMD_READ_REGS_STATE.splits list.splits)

lemma readable [simp]: "\<not> NR_ICAP_REG \<le> ICAP_REG_FDRO" "ir_rw (icap_register_table ! ICAP_REG_FDRO) \<noteq> ICAP_REG_PERMISSION_W"
  "\<not> NR_ICAP_REG \<le> ICAP_REG_IDCODE" "ir_rw (icap_register_table ! ICAP_REG_IDCODE) \<noteq> ICAP_REG_PERMISSION_W"
  by (simp_all add: ICAP_REG_FDRO_def ICAP_REG_IDCODE_def NR_ICAP_REG_def icap_register_table_def reg_R_def reg_RW_def
      ICAP_REG_PERMISSION_R_def ICAP_REG_PERMISSION_W_def ICAP_REG_PERMISSION_RW_def)

lemma read_bitstreams_port:
  assumes "rb_port s" and "cmd_read_bitstreams a s = (s', ret)"
  shows "strobe_ok s s' \<and> (ret = CMD_WIP \<longrightarrow> rb_port s') \<and> (ret = CMD_DONE \<longrightarrow> rr_state s' = READ_REGS_IDLE \<and> rb_state s' = READBACK_IDLE)"
proof (cases "rb_state s = READBACK_READ")
  case True
  obtain s1 r1 d1 where rr: "cmd_read_regs ICAP_REG_FDRO s = (s1, r1, d1)" by (metis prod_cases3)
  from True assms(1) have "rr_port s" by (simp add: rb_port_def)
  note port = read_regs_port [OF this rr]
  have "r1 = CMD_DONE \<Longrightarrow> rr_state s1 = READ_REGS_IDLE \<and> CSIB s1 = ICAP_CSIB_DISABLE"
    using read_regs_done [of ICAP_REG_FDRO s s1 d1] rr by auto
  then show ?thesis
    using assms(2) True rr port read_regs_frame [OF rr]
    by (auto simp: cmd_read_bitstreams_def rb_port_def rr_port_def strobe_ok_def split: if_splits)
next
  case False
  then show ?thesis
    using assms by (auto simp: cmd_read_bitstreams_def rb_port_def step_defs rr_port_def split: if_splits CMD_READBACK_STATE.splits)
qed

lemma read_bitstreams_frame:
  assumes "cmd_read_bitstreams a s = (s', ret)"
  shows "ctl_state s' = ctl_state s" "test_cmd s' = test_cmd s" "register_addr s' = register_addr s"
  using assms by (auto simp: cmd_read_bitstreams_def drive_def send_def dest: read_regs_frame split: if_splits CMD_READBACK_STATE.splits prod.splits)

lemma op_start_ok:
  assumes ok: "ctl_ok s" and st: "ctl_state s = STATE_OP_START"
  shows "strobe_ok s (icap_controller_hls x s) \<and> ctl_ok (icap_controller_hls x s)"
proof (cases "test_cmd s = 0")
  case True
  with ok st have c: "register_addr s = ICAP_REG_IDCODE" "rb_state s = READBACK_IDLE" "rr_port s" by (auto simp: ctl_ok_def)
  obtain s1 r1 d1 where rr: "cmd_read_regs ICAP_REG_IDCODE s = (s1, r1, d1)" by (metis prod_cases3)
  have "r1 = CMD_DONE \<Longrightarrow> rr_state s1 = READ_REGS_IDLE" using read_regs_done [of ICAP_REG_IDCODE s s1 d1] rr by auto
  then show ?thesis
    using True st c rr read_regs_port [OF c(3) rr] read_regs_frame [OF rr]
    by (cases r1) (auto simp: icap_controller_hls_def ctl_ok_def strobe_ok_def)
next
  case False
  with ok st have c: "test_cmd s = 2" "rb_port s" by (auto simp: ctl_ok_def)
  obtain s1 r1 where rb: "cmd_read_bitstreams (frame_addr x) s = (s1, r1)" by fastforce
  then show ?thesis
    using st c read_bitstreams_port [OF c(2) rb] read_bitstreams_frame [OF rb]
    by (cases r1) (auto simp: icap_controller_hls_def ctl_ok_def strobe_ok_def)
qed

lemma ctl_step_ok: "ctl_ok s \<Longrightarrow> strobe_ok s (icap_controller_hls x s) \<and> ctl_ok (icap_controller_hls x s)"
proof (cases "ctl_state s")
  case IDLE_ICAP_INACTIVE
  then show "ctl_ok s \<Longrightarrow> ?thesis"
    by (simp add: icap_controller_hls_def ctl_ok_def step_defs select_test_def)
next
  case IDLE_ICAP_ACTIVE
  then show "ctl_ok s \<Longrightarrow> ?thesis"
    by (simp add: icap_controller_hls_def ctl_ok_def step_defs rr_port_def rb_port_def)
next
  case STATE_DONE
  then show "ctl_ok s \<Longrightarrow> ?thesis"
    by (simp add: icap_controller_hls_def ctl_ok_def step_defs)
qed (rule op_start_ok)

text \<open>Before a cycle the port may have delivered more words.\<close>

definition deliver :: "u32 list \<Rightarrow> icap_st \<Rightarrow> icap_st" where
  "deliver ws s = s\<lparr>from_icap := from_icap s @ ws\<rparr>"

fun icap_cycle :: "icap_in \<times> u32 list \<Rightarrow> icap_st \<Rightarrow> icap_st" where
  "icap_cycle (x, ws) s = icap_controller_hls x (deliver ws s)"

lemma deliver_ok [simp]: "ctl_ok (deliver ws s) \<longleftrightarrow> ctl_ok s"
  by (simp add: deliver_def ctl_ok_def rr_port_def rb_port_def cong: icap_controller_hls_state.case_cong CMD_READ_REGS_STATE.case_cong CMD_READBACK_STATE.case_cong)

interpretation icap_ctl: cycle_machine icap_cycle ctl_ok
  by unfold_locales (auto simp: ctl_step_ok)

text \<open>C11: Whatever signals the controller samples and whatever the port delivers and when, from power-up on it never changes the direction of the configuration port while
  the port stays enabled, sends words only with the port enabled for writing, and takes words only with the port enabled for reading.\<close>

theorem icap_port_discipline:
  "strobe_ok (deliver ws (fold icap_cycle xs (icap_reset input csib rdwrb))) (icap_cycle (x, ws) (fold icap_cycle xs (icap_reset input csib rdwrb)))"
proof -
  have "ctl_ok (icap_reset input csib rdwrb)" by (simp add: ctl_ok_def icap_reset_def)
  from icap_ctl.run_inv [OF this] show ?thesis by (simp add: ctl_step_ok)
qed

section \<open>Reading a register\<close>

text \<open>The header of the read command: type 1, opcode read, the address of the register, one word.\<close>

lemma default_header: "bit default_cmd_header n \<longleftrightarrow> n = 0 \<or> n = 27 \<or> n = 29"
proof -
  have "default_cmd_header = push_bit 29 1 OR push_bit 27 1 OR 1"
    by (simp add: default_cmd_header_def)
  also have "bit \<dots> n \<longleftrightarrow> n = 0 \<or> n = 27 \<or> n = 29"
    by (auto simp only: bit_simps bit_1_iff) (auto simp: bit_simps)
  finally show ?thesis .
qed

lemma cook_cmd_fields:
  "range_get (cook_cmd r) 31 29 = (1 :: 3 word)" "range_get (cook_cmd r) 28 27 = (1 :: 2 word)"
  "range_get (cook_cmd r) 26 13 = ir_addr (icap_register_table ! r)" "range_get (cook_cmd r) 10 0 = (1 :: 11 word)"
  by (rule bit_word_eqI; auto simp: cook_cmd_def ICAP_T1_REGADDR_SHIFT_def bit_simps default_header dest: bit_imp_le_length)+

definition rr_step :: "nat \<Rightarrow> icap_st \<Rightarrow> icap_st" where
  "rr_step r s = fst (cmd_read_regs r s)"

definition readable_reg :: "nat \<Rightarrow> bool" where
  "readable_reg r \<longleftrightarrow> r < NR_ICAP_REG \<and> ir_rw (icap_register_table ! r) \<noteq> ICAP_REG_PERMISSION_W"

lemmas rr_step_defs = rr_step_def cmd_read_regs_def readable_reg_def drive_def send_def

lemma rr_write_phase:
  "readable_reg r \<Longrightarrow> rr_state s = READ_REGS_WRITE_1 \<Longrightarrow> rr_nr_1 s + k = length (COMMAND_regs_1 s) \<Longrightarrow> 0 < k \<Longrightarrow>
     (rr_step r ^^ k) s = s\<lparr>to_icap := to_icap s @ drop (rr_nr_1 s) (COMMAND_regs_1 s), rr_nr_1 := length (COMMAND_regs_1 s),
        CSIB := ICAP_CSIB_ENABLE, RDWRB := ICAP_RDWRB_WRITE\<rparr>"
proof (induction k arbitrary: s)
  case (Suc k)
  let ?s = "s\<lparr>to_icap := to_icap s @ [COMMAND_regs_1 s ! rr_nr_1 s], rr_nr_1 := rr_nr_1 s + 1, CSIB := ICAP_CSIB_ENABLE, RDWRB := ICAP_RDWRB_WRITE\<rparr>"
  have d: "drop (rr_nr_1 s) (COMMAND_regs_1 s) = COMMAND_regs_1 s ! rr_nr_1 s # drop (Suc (rr_nr_1 s)) (COMMAND_regs_1 s)"
    using Suc.prems(3) by (simp add: Cons_nth_drop_Suc)
  have step: "rr_step r s = ?s" using Suc.prems by (simp add: rr_step_defs swrite_def)
  show ?case
  proof (cases "k = 0")
    case True
    then show ?thesis using step d Suc.prems by simp
  next
    case False
    then show ?thesis using Suc.IH [of ?s] Suc.prems d by (simp add: step funpow_swap1)
  qed
qed simp

lemma rr_desync_phase:
  "readable_reg r \<Longrightarrow> rr_state s = READ_REGS_WRITE_DESYNC \<Longrightarrow> rr_nr_2 s + k = length COMMAND_regs_desync \<Longrightarrow> 0 < k \<Longrightarrow>
     (rr_step r ^^ k) s = s\<lparr>to_icap := to_icap s @ drop (rr_nr_2 s) COMMAND_regs_desync, rr_nr_2 := length COMMAND_regs_desync,
        CSIB := ICAP_CSIB_ENABLE, RDWRB := ICAP_RDWRB_WRITE\<rparr>"
proof (induction k arbitrary: s)
  case (Suc k)
  let ?s = "s\<lparr>to_icap := to_icap s @ [COMMAND_regs_desync ! rr_nr_2 s], rr_nr_2 := rr_nr_2 s + 1, CSIB := ICAP_CSIB_ENABLE, RDWRB := ICAP_RDWRB_WRITE\<rparr>"
  have d: "drop (rr_nr_2 s) COMMAND_regs_desync = COMMAND_regs_desync ! rr_nr_2 s # drop (Suc (rr_nr_2 s)) COMMAND_regs_desync"
    using Suc.prems(3) by (simp add: Cons_nth_drop_Suc)
  have step: "rr_step r s = ?s" using Suc.prems by (simp add: rr_step_defs swrite_def)
  show ?case
  proof (cases "k = 0")
    case True
    then show ?thesis using step d Suc.prems by simp
  next
    case False
    then show ?thesis using Suc.IH [of ?s] Suc.prems d by (simp add: step funpow_swap1)
  qed
qed simp

lemma rr_filler_phase:
  "readable_reg r \<Longrightarrow> rr_state s = READ_REGS_READ \<Longrightarrow> from_icap s = ds @ rest \<Longrightarrow> list_all filler ds \<Longrightarrow> rr_nr_bytes_read s + length ds \<le> 5 \<Longrightarrow>
     \<exists>c d. (rr_step r ^^ length ds) s = s\<lparr>from_icap := rest, rr_nr_bytes_read := rr_nr_bytes_read s + length ds, CSIB := c, RDWRB := d\<rparr>"
proof (induction ds arbitrary: s)
  case Nil
  show ?case by (rule exI [of _ "CSIB s"], rule exI [of _ "RDWRB s"]) (use Nil in simp)
next
  case (Cons w ds)
  let ?s = "s\<lparr>from_icap := ds @ rest, rr_nr_bytes_read := rr_nr_bytes_read s + 1, CSIB := ICAP_CSIB_ENABLE, RDWRB := ICAP_RDWRB_READ\<rparr>"
  have "rr_step r s = ?s" using Cons.prems by (simp add: rr_step_defs)
  then show ?case using Cons.IH [of ?s] Cons.prems by (simp add: funpow_swap1)
qed

text \<open>C15: Reading a register. From the idle state, with a port that delivers at most five filler words before the answer, \<open>cmd_read_regs\<close> reports the answer after
  12 cycles and one for each filler word, and is done six cycles later. It has sent exactly the synchronisation sequence with the read header of the
  register (type 1, read, its address, one word) in it, and the desynchronisation sequence; it has taken exactly the filler words and the answer.\<close>

theorem register_read:
  assumes "rr_state s = READ_REGS_IDLE" and "readable_reg r" and "length (COMMAND_regs_1 s) = 9"
    and "from_icap s = ds @ d # rest" and "list_all filler ds" and "length ds \<le> 5" and "filler d \<longrightarrow> length ds = 5"
  shows "snd (cmd_read_regs r ((rr_step r ^^ (12 + length ds)) s)) = (CMD_WIP, Some d) \<and>
    (\<exists>s'. cmd_read_regs r ((rr_step r ^^ (18 + length ds)) s) = (s', CMD_DONE, None) \<and> rr_state s' = READ_REGS_IDLE \<and> from_icap s' = rest \<and>
       to_icap s' = to_icap s @ (COMMAND_regs_1 s)[CMD_HEADER_INDEX := cook_cmd r] @ COMMAND_regs_desync) \<and>
    range_get (cook_cmd r) 31 29 = (1 :: 3 word) \<and> range_get (cook_cmd r) 28 27 = (1 :: 2 word) \<and>
    range_get (cook_cmd r) 26 13 = ir_addr (icap_register_table ! r) \<and> range_get (cook_cmd r) 10 0 = (1 :: 11 word)"
proof -
  let ?C = "(COMMAND_regs_1 s)[CMD_HEADER_INDEX := cook_cmd r]" and ?f = "rr_step r"
  let ?s1 = "s\<lparr>rr_nr_1 := 0, rr_nr_2 := 0, rr_nr_bytes_read := 0, COMMAND_regs_1 := ?C, rr_state := READ_REGS_WRITE_1, CSIB := ICAP_CSIB_DISABLE, RDWRB := ICAP_RDWRB_WRITE\<rparr>"
  have one: "?f s = ?s1" using assms(1,2) by (simp add: rr_step_defs update_COMMAND_regs_1_def)
  have w: "(?f ^^ 9) ?s1 = ?s1\<lparr>to_icap := to_icap s @ ?C, rr_nr_1 := 9, CSIB := ICAP_CSIB_ENABLE\<rparr>"
    using rr_write_phase [OF assms(2), of ?s1 9] assms(3) by simp
  let ?s3 = "?s1\<lparr>to_icap := to_icap s @ ?C, rr_nr_1 := 9, rr_state := READ_REGS_READ, RDWRB := ICAP_RDWRB_READ\<rparr>"
  have t: "?f (?f ((?f ^^ 9) ?s1)) = ?s3"
    unfolding w using assms(2,3) by (simp add: rr_step_defs)
  have "(?f ^^ 12) s = ?f (?f ((?f ^^ 9) (?f s)))" by (simp add: eval_nat_numeral)
  then have twelve: "(?f ^^ 12) s = ?s3" by (simp only: one t)
  from rr_filler_phase [OF assms(2), of ?s3 ds "d # rest"] assms(4-6) obtain c e where
    fl: "(?f ^^ length ds) ?s3 = ?s3\<lparr>from_icap := d # rest, rr_nr_bytes_read := length ds, CSIB := c, RDWRB := e\<rparr>"
    by auto
  let ?s4 = "?s3\<lparr>from_icap := d # rest, rr_nr_bytes_read := length ds, CSIB := c, RDWRB := e\<rparr>"
  have s4: "(?f ^^ (12 + length ds)) s = ?s4"
    using fl twelve by (simp add: add.commute [of 12] funpow_add)
  have answer: "cmd_read_regs r ?s4 = (?s4\<lparr>from_icap := rest, rr_nr_bytes_read := Suc (length ds), CSIB := ICAP_CSIB_ENABLE, RDWRB := ICAP_RDWRB_READ,
    rr_state := READ_REGS_READ_TRANSITION\<rparr>, CMD_WIP, Some d)"
    using assms(2,6,7) by (auto simp: rr_step_defs)
  let ?s6 = "?s4\<lparr>from_icap := rest, rr_nr_bytes_read := Suc (length ds), CSIB := ICAP_CSIB_DISABLE, RDWRB := ICAP_RDWRB_READ, rr_state := READ_REGS_WRITE_DESYNC\<rparr>"
  have s6: "?f (?f ?s4) = ?s6"
    using assms(2) answer by (simp add: rr_step_def) (simp add: rr_step_defs)
  have de: "(?f ^^ 4) ?s6 = ?s6\<lparr>to_icap := to_icap s @ ?C @ COMMAND_regs_desync, rr_nr_2 := 4, CSIB := ICAP_CSIB_ENABLE, RDWRB := ICAP_RDWRB_WRITE\<rparr>"
    using rr_desync_phase [OF assms(2), of ?s6 4] by (simp add: COMMAND_regs_desync_def)
  have "(?f ^^ (18 + length ds)) s = (?f ^^ 4) (?f (?f ((?f ^^ (12 + length ds)) s)))"
    by (simp add: eval_nat_numeral funpow_swap1)
  then have "(?f ^^ (18 + length ds)) s = (?f ^^ 4) ?s6" by (simp only: s4 s6)
  then show ?thesis
    unfolding s4 answer de using assms(2) cook_cmd_fields [of r] by (auto simp: rr_step_defs COMMAND_regs_desync_def)
qed

theorem register_read_witness:
  "snd (cmd_read_regs ICAP_REG_IDCODE ((rr_step ICAP_REG_IDCODE ^^ 14) (icap_reset [0, 0, 0x14b31093] 1 1))) = (CMD_WIP, Some 0x14b31093) \<and>
   (\<exists>s'. cmd_read_regs ICAP_REG_IDCODE ((rr_step ICAP_REG_IDCODE ^^ 20) (icap_reset [0, 0, 0x14b31093] 1 1)) = (s', CMD_DONE, None) \<and> from_icap s' = [] \<and>
      to_icap s' = [0xFFFFFFFF, 0x000000BB, 0x11220044, 0xFFFFFFFF, 0xAA995566, 0x20000000, 0x28018001, 0x20000000, 0x20000000,
        0x30008001, 0x0000000D, 0x20000000, 0x20000000])"
proof -
  let ?s = "icap_reset [0, 0, 0x14b31093] 1 1" and ?r = ICAP_REG_IDCODE
  have h: "rr_state ?s = READ_REGS_IDLE" "readable_reg ?r" "length (COMMAND_regs_1 ?s) = 9" "from_icap ?s = [0, 0] @ 0x14b31093 # []"
    "list_all filler [0, 0]" "length [0, 0 :: u32] \<le> 5" "filler 0x14b31093 \<longrightarrow> length [0, 0 :: u32] = 5"
    by (simp_all add: icap_reset_def COMMAND_regs_1_init_def readable_reg_def not_le [symmetric] filler_def)
  have n: "12 + length [0, 0 :: u32] = 14" "18 + length [0, 0 :: u32] = 20" by simp_all
  have c: "(COMMAND_regs_1 ?s)[CMD_HEADER_INDEX := cook_cmd ?r] = COMMAND_regs_1_init"
    by (simp add: icap_reset_def COMMAND_regs_1_init_def CMD_HEADER_INDEX_def cook_cmd_def default_cmd_header_def ICAP_T1_REGADDR_SHIFT_def
        ICAP_REG_IDCODE_def icap_register_table_def reg_RW_def push_bit_eq_mult)
  have t: "to_icap ?s = []" by (simp add: icap_reset_def)
  from register_read [OF h, unfolded n c t] show ?thesis
    by (auto simp: COMMAND_regs_1_init_def COMMAND_regs_desync_def)
qed

end
