(* ===== verification/Rdma_Test.thy ===== *)
theory Rdma_Test
  imports App_Rdma_Props
begin

unbundle bit_operations_syntax

text \<open>
  The driver that tests the remote memory application from another board (\<^verbatim>\<open>app/rdma/fpga_test/top.cpp\<close>): reads and writes of growing length, each
  read waiting for its reply. \<open>None\<close> is a driver that waits for ever. The time stamp port is sampled several times in one call; the samples
  are the sequence \<open>t_tsc\<close>, the next one at \<open>t_tsc_reads\<close>.
\<close>

section \<open>Model\<close>

definition DST_APP_ID :: int where "DST_APP_ID = 0"
definition BASE_ADDRESS :: "64 word" where "BASE_ADDRESS = 0x100000"
definition NR_ROUNDS :: nat where "NR_ROUNDS = 1"
definition NR_DIFF_LENGTH :: nat where "NR_DIFF_LENGTH = 32"
definition test_length :: "64 word list" where
  "test_length = [64, 128, 256, 512, 1024, 2048, 4096] @ replicate 25 0"

record test_stats =
  ts_nr_read :: "64 word"
  ts_nr_write :: "64 word"

record rdma_test_st =
  t_from_net :: "net_axis_512 stream"
  t_to_net :: "net_axis_512 stream"
  t_tsc :: "nat \<Rightarrow> 64 word"
  t_tsc_reads :: nat
  t_eth_header :: net_axis_512
  app_header_read :: net_axis_512
  app_header_write :: net_axis_512
  acc_tsc_read :: "64 word list"
  acc_tsc_write :: "64 word list"
  t_cached_stats :: test_stats
  t_stats :: test_stats
  t_dram :: "nat \<Rightarrow> 64 word"
  test_state :: "32 word"
  tested :: bool

definition sample_tsc :: "rdma_test_st \<Rightarrow> 64 word \<times> rdma_test_st" where
  "sample_tsc s = (t_tsc s (t_tsc_reads s), s\<lparr>t_tsc_reads := t_tsc_reads s + 1\<rparr>)"

definition to_net :: "net_axis_512 \<Rightarrow> rdma_test_st \<Rightarrow> rdma_test_st" where
  "to_net u s = s\<lparr>t_to_net := swrite (t_to_net s) u\<rparr>"

definition write_unit :: "nat \<Rightarrow> nat \<Rightarrow> net_axis_512" where
  "write_unit units i =
     \<lparr>na_data = of_nat (i + 0x1), na_last = if i = units - 1 then 1 else 0, na_keep = 0xffffffffffffffff, na_user = 0\<rparr>"

definition send_write :: "64 word \<Rightarrow> 64 word \<Rightarrow> nat \<Rightarrow> rdma_test_st \<Rightarrow> rdma_test_st" where
  "send_write address len index s =
     (let (start_tsc, s) = sample_tsc s;
          s = to_net (t_eth_header s) s;
          s = s\<lparr>app_header_write := set_hdr_length (set_hdr_address (app_header_write s) address) len\<rparr>;
          s = to_net (app_header_write s) s;
          units = unat (len div NR_BYTES_AXIS_512);
          s = fold (\<lambda>i. to_net (write_unit units i)) [0..<units] s;
          (end_tsc, s) = sample_tsc s
      in s\<lparr>acc_tsc_write := (acc_tsc_write s)[index := acc_tsc_write s ! index + (end_tsc - start_tsc)]\<rparr>)"

text \<open>\<open>while (1)\<close> until a unit with the end mark: what is left of the input.\<close>

fun wait_last :: "net_axis_512 stream \<Rightarrow> net_axis_512 stream option" where
  "wait_last [] = None"
| "wait_last (u # us) = (if na_last u = 1 then Some us else wait_last us)"

definition send_read :: "64 word \<Rightarrow> 64 word \<Rightarrow> nat \<Rightarrow> rdma_test_st \<Rightarrow> rdma_test_st option" where
  "send_read address len index s =
     (let s = to_net (t_eth_header s) s;
          s = s\<lparr>app_header_read := set_hdr_length (set_hdr_address (app_header_read s) address) len\<rparr>;
          s = to_net (app_header_read s) s;
          (start_tsc, s) = sample_tsc s
      in case wait_last (t_from_net s) of
           None \<Rightarrow> None
         | Some rest \<Rightarrow>
             (let s = s\<lparr>t_from_net := rest\<rparr>;
                  (end_tsc, s) = sample_tsc s
              in Some (s\<lparr>acc_tsc_read := (acc_tsc_read s)[index := acc_tsc_read s ! index + (end_tsc - start_tsc)]\<rparr>)))"

definition t_inc_nr_read :: "rdma_test_st \<Rightarrow> rdma_test_st" where
  "t_inc_nr_read s = (let c = (t_cached_stats s)\<lparr>ts_nr_read := ts_nr_read (t_cached_stats s) + 1\<rparr>
     in s\<lparr>t_cached_stats := c, t_stats := (t_stats s)\<lparr>ts_nr_read := ts_nr_read c\<rparr>\<rparr>)"

definition t_inc_nr_write :: "rdma_test_st \<Rightarrow> rdma_test_st" where
  "t_inc_nr_write s = (let c = (t_cached_stats s)\<lparr>ts_nr_write := ts_nr_write (t_cached_stats s) + 1\<rparr>
     in s\<lparr>t_cached_stats := c, t_stats := (t_stats s)\<lparr>ts_nr_write := ts_nr_write c\<rparr>\<rparr>)"

text \<open>The two nested loops: lengths of zero are skipped, the others tested \<open>NR_ROUNDS\<close> times.\<close>

definition rounds :: "nat list" where
  "rounds = concat (map (\<lambda>i. if test_length ! i = 0 then [] else replicate NR_ROUNDS i) [0..<NR_DIFF_LENGTH])"

fun read_rounds :: "nat list \<Rightarrow> rdma_test_st \<Rightarrow> rdma_test_st option" where
  "read_rounds [] s = Some s"
| "read_rounds (i # is) s =
     (case send_read BASE_ADDRESS (test_length ! i) i (t_inc_nr_read s) of None \<Rightarrow> None | Some s' \<Rightarrow> read_rounds is s')"

fun write_rounds :: "nat list \<Rightarrow> rdma_test_st \<Rightarrow> rdma_test_st" where
  "write_rounds [] s = s"
| "write_rounds (i # is) s = write_rounds is (send_write BASE_ADDRESS (test_length ! i) i (t_inc_nr_write s))"

definition test_read :: "rdma_test_st \<Rightarrow> rdma_test_st option" where
  "test_read s =
     (case read_rounds rounds s of
        None \<Rightarrow> None
      | Some s \<Rightarrow> Some (s\<lparr>t_dram := \<lambda>i. if i < NR_DIFF_LENGTH then acc_tsc_read s ! i else t_dram s i\<rparr>))"

definition test_write :: "rdma_test_st \<Rightarrow> rdma_test_st" where
  "test_write s =
     (let s = write_rounds rounds s
      in s\<lparr>t_dram := \<lambda>i. if NR_DIFF_LENGTH \<le> i \<and> i < 2 * NR_DIFF_LENGTH then acc_tsc_write s ! (i - NR_DIFF_LENGTH) else t_dram s i\<rparr>)"

definition test_headers :: "rdma_test_st \<Rightarrow> rdma_test_st" where
  "test_headers s =
     s\<lparr>acc_tsc_read := replicate NR_DIFF_LENGTH 0, acc_tsc_write := replicate NR_DIFF_LENGTH 0,
       t_eth_header := set_app_id ((t_eth_header s)\<lparr>na_last := 0, na_user := 0, na_keep := 0xffffffffffffffff,
          na_data := range_set (na_data (t_eth_header s)) 7 0 (0x66 :: 8 word)\<rparr>) DST_APP_ID,
       app_header_read := set_hdr_opcode ((app_header_read s)\<lparr>na_last := 1, na_user := 0, na_keep := 0xffffffffffffffff\<rparr>) APP_RDMA_OPCODE_READ,
       app_header_write := set_hdr_opcode ((app_header_write s)\<lparr>na_last := 0, na_user := 0, na_keep := 0xffffffffffffffff\<rparr>) APP_RDMA_OPCODE_WRITE\<rparr>"

definition app_rdma_test :: "rdma_test_st \<Rightarrow> rdma_test_st option" where
  "app_rdma_test s =
     (if tested s then Some (s\<lparr>t_stats := \<lparr>ts_nr_read = ts_nr_read (t_cached_stats s), ts_nr_write = ts_nr_write (t_cached_stats s)\<rparr>\<rparr>)
      else (case test_read ((test_headers s)\<lparr>test_state := 1\<rparr>) of
              None \<Rightarrow> None
            | Some s \<Rightarrow> Some ((test_write (s\<lparr>test_state := 2\<rparr>))\<lparr>test_state := 3, tested := True\<rparr>)))"

section \<open>The packets it sends\<close>

text \<open>What a packet asks for.\<close>

definition asks :: "packet \<Rightarrow> 64 word \<times> 64 word" where
  "asks p = (get_hdr_address (pk_app p), get_hdr_length (pk_app p))"

lemma wait_last_frame: "one_packet f \<Longrightarrow> wait_last (f @ us) = Some us"
  by (induction f) (auto simp: one_packet_Cons one_packet_def split: if_splits)

lemma to_net_fold: "t_to_net (fold (\<lambda>i. to_net (f i)) is s) = t_to_net s @ map f is"
  by (induction "is" arbitrary: s) (simp_all add: to_net_def swrite_def)

lemma to_net_frame: "fold (\<lambda>i. to_net (f i)) is s = s\<lparr>t_to_net := t_to_net s @ map f is\<rparr>"
  by (induction "is" arbitrary: s) (simp_all add: to_net_def swrite_def)

lemma read_rounds_run:
  assumes "t_from_net s = concat fs @ rest" "length fs = length is" "\<forall>f \<in> set fs. one_packet f"
    and "get_hdr_opcode (app_header_read s) = APP_RDMA_OPCODE_READ" "na_last (app_header_read s) = 1"
  shows "\<exists>s' ps. read_rounds is s = Some s' \<and> t_to_net s' = t_to_net s @ concat (map packet_units ps) \<and>
    (\<forall>p \<in> set ps. rdma_packet_ok p \<and> is_read p) \<and> map asks ps = map (\<lambda>i. (BASE_ADDRESS, test_length ! i)) is \<and> t_from_net s' = rest \<and>
    app_header_write s' = app_header_write s \<and> ts_nr_read (t_cached_stats s') = ts_nr_read (t_cached_stats s) + of_nat (length is) \<and>
    ts_nr_write (t_cached_stats s') = ts_nr_write (t_cached_stats s)"
  using assms
proof (induction "is" arbitrary: s fs)
  case Nil
  then show ?case by (intro exI [of _ s] exI [of _ "[]"]) simp
next
  case (Cons i "is")
  then obtain f fs' where fs: "fs = f # fs'" by (cases fs) auto
  let ?p = "\<lparr>pk_eth = t_eth_header s, pk_app = set_hdr_length (set_hdr_address (app_header_read s) BASE_ADDRESS) (test_length ! i), pk_data = []\<rparr>"
  have w: "wait_last (t_from_net s) = Some (concat fs' @ rest)" using Cons.prems(1,3) wait_last_frame [of f] by (simp add: fs)
  then obtain s1 where s1: "send_read BASE_ADDRESS (test_length ! i) i (t_inc_nr_read s) = Some s1"
    "t_to_net s1 = t_to_net s @ packet_units ?p" "t_from_net s1 = concat fs' @ rest" "app_header_write s1 = app_header_write s"
    "get_hdr_opcode (app_header_read s1) = APP_RDMA_OPCODE_READ" "na_last (app_header_read s1) = 1"
    "ts_nr_read (t_cached_stats s1) = ts_nr_read (t_cached_stats s) + 1" "ts_nr_write (t_cached_stats s1) = ts_nr_write (t_cached_stats s)"
    using Cons.prems(4,5) by (simp add: send_read_def t_inc_nr_read_def to_net_def sample_tsc_def swrite_def packet_units_def)
  from Cons.IH [OF s1(3) _ _ s1(5,6)] Cons.prems(2,3) fs obtain s' ps where
    r: "read_rounds is s1 = Some s'" "t_to_net s' = t_to_net s1 @ concat (map packet_units ps)" "\<forall>p \<in> set ps. rdma_packet_ok p \<and> is_read p"
      "map asks ps = map (\<lambda>i. (BASE_ADDRESS, test_length ! i)) is" "t_from_net s' = rest" "app_header_write s' = app_header_write s1"
      "ts_nr_read (t_cached_stats s') = ts_nr_read (t_cached_stats s1) + of_nat (length is)"
      "ts_nr_write (t_cached_stats s') = ts_nr_write (t_cached_stats s1)"
    by auto
  have "rdma_packet_ok ?p" "is_read ?p" "asks ?p = (BASE_ADDRESS, test_length ! i)"
    using Cons.prems(4,5) by (simp_all add: rdma_packet_ok_def is_read_def asks_def)
  with s1 r show ?case by (intro exI [of _ s'] exI [of _ "?p # ps"]) simp
qed

lemma write_rounds_run:
  assumes "get_hdr_opcode (app_header_write s) = APP_RDMA_OPCODE_WRITE" "\<forall>i \<in> set is. 0 < unat (test_length ! i div NR_BYTES_AXIS_512)"
  shows "\<exists>ps. t_to_net (write_rounds is s) = t_to_net s @ concat (map packet_units ps) \<and>
    (\<forall>p \<in> set ps. rdma_packet_ok p \<and> \<not> is_read p) \<and> map asks ps = map (\<lambda>i. (BASE_ADDRESS, test_length ! i)) is \<and>
    map (\<lambda>p. length (pk_data p)) ps = map (\<lambda>i. unat (test_length ! i div NR_BYTES_AXIS_512)) is \<and>
    t_from_net (write_rounds is s) = t_from_net s \<and> ts_nr_read (t_cached_stats (write_rounds is s)) = ts_nr_read (t_cached_stats s) \<and>
    ts_nr_write (t_cached_stats (write_rounds is s)) = ts_nr_write (t_cached_stats s) + of_nat (length is)"
  using assms
proof (induction "is" arbitrary: s)
  case Nil
  then show ?case by (intro exI [of _ "[]"]) simp
next
  case (Cons i "is")
  let ?n = "unat (test_length ! i div NR_BYTES_AXIS_512)"
  let ?p = "\<lparr>pk_eth = t_eth_header s, pk_app = set_hdr_length (set_hdr_address (app_header_write s) BASE_ADDRESS) (test_length ! i),
    pk_data = map (write_unit ?n) [0..<?n]\<rparr>"
  let ?s1 = "send_write BASE_ADDRESS (test_length ! i) i (t_inc_nr_write s)"
  have s1: "t_to_net ?s1 = t_to_net s @ packet_units ?p" "t_from_net ?s1 = t_from_net s" "get_hdr_opcode (app_header_write ?s1) = APP_RDMA_OPCODE_WRITE"
    "ts_nr_read (t_cached_stats ?s1) = ts_nr_read (t_cached_stats s)" "ts_nr_write (t_cached_stats ?s1) = ts_nr_write (t_cached_stats s) + 1"
    using Cons.prems(1) by (simp_all add: send_write_def t_inc_nr_write_def sample_tsc_def to_net_frame packet_units_def Let_def) (simp_all add: to_net_def swrite_def)
  from Cons.IH [OF s1(3)] Cons.prems(2) obtain ps where
    r: "t_to_net (write_rounds is ?s1) = t_to_net ?s1 @ concat (map packet_units ps)" "\<forall>p \<in> set ps. rdma_packet_ok p \<and> \<not> is_read p"
      "map asks ps = map (\<lambda>i. (BASE_ADDRESS, test_length ! i)) is" "map (\<lambda>p. length (pk_data p)) ps = map (\<lambda>i. unat (test_length ! i div NR_BYTES_AXIS_512)) is"
      "t_from_net (write_rounds is ?s1) = t_from_net ?s1" "ts_nr_read (t_cached_stats (write_rounds is ?s1)) = ts_nr_read (t_cached_stats ?s1)"
      "ts_nr_write (t_cached_stats (write_rounds is ?s1)) = ts_nr_write (t_cached_stats ?s1) + of_nat (length is)"
    by auto
  obtain m where m: "?n = Suc m" using Cons.prems(2) by (metis gr0_implies_Suc list.set_intros(1))
  have "one_packet (pk_data ?p)" by (auto simp: one_packet_def m write_unit_def butlast_append)
  then have "rdma_packet_ok ?p" "\<not> is_read ?p" "asks ?p = (BASE_ADDRESS, test_length ! i)"
    using Cons.prems(1) by (simp_all add: rdma_packet_ok_def is_read_def asks_def opcode_defs)
  with s1 r show ?case by (intro exI [of _ "?p # ps"]) simp
qed

lemma rounds_eq: "rounds = [0, 1, 2, 3, 4, 5, 6]"
  by (simp add: rounds_def NR_DIFF_LENGTH_def NR_ROUNDS_def test_length_def upt_rec)

lemma length_rounds: "length rounds = 7"
  by (simp add: rounds_eq)

lemma rounds_units: "\<forall>i \<in> set rounds. 0 < unat (test_length ! i div NR_BYTES_AXIS_512)"
  "map (\<lambda>i. (BASE_ADDRESS, test_length ! i)) rounds = map (\<lambda>n. (BASE_ADDRESS, n)) [64, 128, 256, 512, 1024, 2048, 4096]"
  by (simp_all add: rounds_eq test_length_def NR_BYTES_AXIS_512_def)

text \<open>C32: The test driver and the server agree on the protocol. If seven reply packets arrive, the driver ends, having sent seven reads and then seven writes of 64 to 4096 bytes,
  and the server's parser splits what it sent into exactly these requests, reads and writes each in order, with one data unit for each 64 bytes of every write.\<close>

theorem rdma_test_served:
  assumes "\<not> tested s" and "t_to_net s = []" and "t_from_net s = concat fs @ rest" and "length fs = 7" and "\<forall>f \<in> set fs. one_packet f"
  shows "\<exists>s'. app_rdma_test s = Some s' \<and> tested s' \<and> t_from_net s' = rest \<and>
    ts_nr_read (t_cached_stats s') = ts_nr_read (t_cached_stats s) + 7 \<and> ts_nr_write (t_cached_stats s') = ts_nr_write (t_cached_stats s) + 7 \<and>
    (\<forall>srv net. between_packets srv (t_to_net s' @ net) [] [] [] \<longrightarrow>
       (\<exists>reads writes ds. between_packets ((parser ^^ length (t_to_net s')) srv) net reads writes ds \<and>
          map (\<lambda>q. (rq_address q, rq_length q)) reads = map (\<lambda>n. (BASE_ADDRESS, n)) [64, 128, 256, 512, 1024, 2048, 4096] \<and>
          map (\<lambda>q. (rq_address q, rq_length q)) writes = map (\<lambda>n. (BASE_ADDRESS, n)) [64, 128, 256, 512, 1024, 2048, 4096] \<and>
          length ds = 127))"
proof -
  let ?s0 = "(test_headers s)\<lparr>test_state := 1\<rparr>"
  have s0: "t_from_net ?s0 = concat fs @ rest" "t_to_net ?s0 = []" "t_cached_stats ?s0 = t_cached_stats s"
    "get_hdr_opcode (app_header_read ?s0) = APP_RDMA_OPCODE_READ" "na_last (app_header_read ?s0) = 1"
    "get_hdr_opcode (app_header_write ?s0) = APP_RDMA_OPCODE_WRITE"
    using assms(2,3) by (simp_all add: test_headers_def)
  have "length fs = length rounds" using assms(4) by (simp add: length_rounds)
  from read_rounds_run [OF s0(1) this assms(5) s0(4,5)] obtain s1 rs where
    r: "read_rounds rounds ?s0 = Some s1" "t_to_net s1 = concat (map packet_units rs)" "\<forall>p \<in> set rs. rdma_packet_ok p \<and> is_read p"
      "map asks rs = map (\<lambda>i. (BASE_ADDRESS, test_length ! i)) rounds" "t_from_net s1 = rest" "app_header_write s1 = app_header_write ?s0"
      "ts_nr_read (t_cached_stats s1) = ts_nr_read (t_cached_stats s) + 7" "ts_nr_write (t_cached_stats s1) = ts_nr_write (t_cached_stats s)"
    using s0(2,3) by (auto simp: length_rounds)
  let ?s2 = "s1\<lparr>t_dram := \<lambda>i. if i < NR_DIFF_LENGTH then acc_tsc_read s1 ! i else t_dram s1 i, test_state := 2\<rparr>"
  have "get_hdr_opcode (app_header_write ?s2) = APP_RDMA_OPCODE_WRITE" using r(6) s0(6) by simp
  from write_rounds_run [OF this rounds_units(1)] obtain ws where
    w: "t_to_net (write_rounds rounds ?s2) = concat (map packet_units rs) @ concat (map packet_units ws)" "\<forall>p \<in> set ws. rdma_packet_ok p \<and> \<not> is_read p"
      "map asks ws = map (\<lambda>i. (BASE_ADDRESS, test_length ! i)) rounds" "map (\<lambda>p. length (pk_data p)) ws = map (\<lambda>i. unat (test_length ! i div NR_BYTES_AXIS_512)) rounds"
      "t_from_net (write_rounds rounds ?s2) = rest" "ts_nr_read (t_cached_stats (write_rounds rounds ?s2)) = ts_nr_read (t_cached_stats s) + 7"
      "ts_nr_write (t_cached_stats (write_rounds rounds ?s2)) = ts_nr_write (t_cached_stats s) + 7"
    using r by (auto simp: length_rounds)
  let ?s3 = "(test_write ?s2)\<lparr>test_state := 3, tested := True\<rparr>"
  have run: "app_rdma_test s = Some ?s3"
    using assms(1) r(1) by (simp add: app_rdma_test_def test_read_def)
  have sent: "t_to_net ?s3 = concat (map packet_units (rs @ ws))" using w(1) by (simp add: test_write_def Let_def)
  have ok: "\<forall>p \<in> set (rs @ ws). rdma_packet_ok p" using r(3) w(2) by auto
  have split: "filter is_read (rs @ ws) = rs" "filter (\<lambda>p. \<not> is_read p) (rs @ ws) = ws"
    using r(3) w(2) by (simp_all add: filter_id_conv filter_empty_conv)
  have reqs: "map (\<lambda>q. (rq_address q, rq_length q)) (map request_of ps) = map asks ps" for ps
    by (simp add: request_of_def asks_def)
  have nd: "length (concat (map pk_data (rs @ ws))) = 127"
  proof -
    have "\<forall>p \<in> set rs. pk_data p = []" using r(3) by (auto simp: rdma_packet_ok_def is_read_def)
    then have "concat (map pk_data rs) = []" by simp
    moreover have "length (concat (map pk_data ws)) = sum_list (map (\<lambda>p. length (pk_data p)) ws)" by (simp add: length_concat comp_def)
    moreover have "\<dots> = 127" unfolding w(4) by (simp add: rounds_eq test_length_def NR_BYTES_AXIS_512_def)
    ultimately show ?thesis by simp
  qed
  show ?thesis
  proof (intro exI [of _ ?s3] conjI allI impI)
    fix srv net assume "between_packets srv (t_to_net ?s3 @ net) [] [] []"
    from parser_packets [OF this [unfolded sent] ok, unfolded split]
    have "between_packets ((parser ^^ length (t_to_net ?s3)) srv) net (map request_of rs) (map request_of ws) (concat (map pk_data (rs @ ws)))"
      unfolding sent by simp
    then show "\<exists>reads writes ds. between_packets ((parser ^^ length (t_to_net ?s3)) srv) net reads writes ds \<and>
          map (\<lambda>q. (rq_address q, rq_length q)) reads = map (\<lambda>n. (BASE_ADDRESS, n)) [64, 128, 256, 512, 1024, 2048, 4096] \<and>
          map (\<lambda>q. (rq_address q, rq_length q)) writes = map (\<lambda>n. (BASE_ADDRESS, n)) [64, 128, 256, 512, 1024, 2048, 4096] \<and>
          length ds = 127"
      using nd reqs [of rs, unfolded r(4) rounds_units(2)] reqs [of ws, unfolded w(3) rounds_units(2)] by blast
  qed (use run w in \<open>simp_all add: test_write_def Let_def\<close>)
qed

definition test_start :: "net_axis_512 stream \<Rightarrow> rdma_test_st" where
  "test_start input = \<lparr>t_from_net = input, t_to_net = [], t_tsc = of_nat, t_tsc_reads = 0, t_eth_header = net_axis_512_zero,
     app_header_read = net_axis_512_zero, app_header_write = net_axis_512_zero, acc_tsc_read = [], acc_tsc_write = [],
     t_cached_stats = \<lparr>ts_nr_read = 0, ts_nr_write = 0\<rparr>, t_stats = \<lparr>ts_nr_read = 0, ts_nr_write = 0\<rparr>, t_dram = \<lambda>_. 0, test_state = 0, tested = False\<rparr>"

theorem rdma_test_served_witness:
  "\<exists>s'. app_rdma_test (test_start (replicate 7 (net_axis_512_zero\<lparr>na_last := 1\<rparr>))) = Some s' \<and> tested s' \<and> t_from_net s' = [] \<and>
     ts_nr_read (t_cached_stats s') = 7 \<and> ts_nr_write (t_cached_stats s') = 7 \<and>
     (\<exists>reads writes ds. between_packets ((parser ^^ length (t_to_net s')) ((app_rdma_init (\<lambda>_. 0))\<lparr>app_from_net := t_to_net s'\<rparr>)) [] reads writes ds \<and>
        map rq_length reads = [64, 128, 256, 512, 1024, 2048, 4096] \<and> length writes = 7 \<and> length ds = 127)"
proof -
  let ?u = "net_axis_512_zero\<lparr>na_last := 1\<rparr>" and ?lens = "[64, 128, 256, 512, 1024, 2048, 4096] :: 64 word list"
  let ?s = "test_start (replicate 7 ?u)" and ?srv = "\<lambda>us. (app_rdma_init (\<lambda>_. 0))\<lparr>app_from_net := us\<rparr>"
  have "\<not> tested ?s" "t_to_net ?s = []" "t_from_net ?s = concat (replicate 7 [?u]) @ []" "length (replicate 7 [?u]) = 7"
    "\<forall>f \<in> set (replicate 7 [?u]). one_packet f"
    by (simp_all add: test_start_def one_packet_def numeral_eq_Suc)
  from rdma_test_served [OF this] obtain s' where
    s': "app_rdma_test ?s = Some s'" "tested s'" "t_from_net s' = []" "ts_nr_read (t_cached_stats s') = ts_nr_read (t_cached_stats ?s) + 7"
      "ts_nr_write (t_cached_stats s') = ts_nr_write (t_cached_stats ?s) + 7" and
    split: "\<forall>srv net. between_packets srv (t_to_net s' @ net) [] [] [] \<longrightarrow>
      (\<exists>reads writes ds. between_packets ((parser ^^ length (t_to_net s')) srv) net reads writes ds \<and>
         map (\<lambda>q. (rq_address q, rq_length q)) reads = map (\<lambda>n. (BASE_ADDRESS, n)) ?lens \<and>
         map (\<lambda>q. (rq_address q, rq_length q)) writes = map (\<lambda>n. (BASE_ADDRESS, n)) ?lens \<and> length ds = 127)"
    by blast
  have "between_packets (?srv (t_to_net s')) (t_to_net s' @ []) [] [] []"
    by (simp add: between_packets_def app_rdma_init_def Let_def)
  from split [rule_format, OF this] obtain reads writes ds where
    d: "between_packets ((parser ^^ length (t_to_net s')) (?srv (t_to_net s'))) [] reads writes ds" "length ds = 127"
      and m: "map (\<lambda>q. (rq_address q, rq_length q)) reads = map (\<lambda>n. (BASE_ADDRESS, n)) ?lens"
      "map (\<lambda>q. (rq_address q, rq_length q)) writes = map (\<lambda>n. (BASE_ADDRESS, n)) ?lens"
    by blast
  from arg_cong [OF m(1), of "map snd"] have "map rq_length reads = ?lens" by (simp add: comp_def)
  moreover from arg_cong [OF m(2), of length] have "length writes = 7" by simp
  moreover have "ts_nr_read (t_cached_stats s') = 7" "ts_nr_write (t_cached_stats s') = 7" using s'(4,5) by (simp_all add: test_start_def)
  ultimately show ?thesis
    by (intro exI [of _ s'] conjI exI [of _ reads] exI [of _ writes] exI [of _ ds]) (use s'(1-3) d in simp_all)
qed

end
