(* ===== verification/Mc_Globals.thy ===== *)
theory Mc_Globals
  imports Channels
begin

unbundle bit_operations_syntax

text \<open>
  What the stages of the key-value store share (\<^verbatim>\<open>app/memcached/hls/sources/globals.h\<close>): its constants and words, and the contract of a stage.
  A stage is a function called once per cycle; it polls its input streams and does nothing while one it needs is empty.
\<close>

section \<open>Constants\<close>

definition noOfBins :: nat where "noOfBins = 4"
definition bitsPerBin :: nat where "bitsPerBin = 128"
definition words2aggregate :: nat where "words2aggregate = 2"
definition noOfHashTableEntries :: nat where "noOfHashTableEntries = 10"
definition hashFunctionSeed :: "32 word" where "hashFunctionSeed = 13"
definition dramMemAddressWidth :: nat where "dramMemAddressWidth = 32"

section \<open>Words\<close>

record extendedAxiWord =
  ax_data :: "64 word"
  ax_user :: "112 word"
  ax_keep :: "8 word"
  ax_last :: "1 word"

record pipelineWord =
  pw_metadata :: "124 word"
  pw_SOP :: "1 word"
  pw_keyValid :: "1 word"
  pw_valueValid :: "1 word"
  pw_EOP :: "1 word"
  pw_value :: "64 word"
  pw_key :: "64 word"

record hashTableInternalWord =
  hw_data :: "128 word"
  hw_SOP :: "1 word"
  hw_EOP :: "1 word"

record internalMdWord =
  im_operation :: "8 word"
  im_metadata :: "32 word"
  im_keyLength :: "8 word"
  im_valueLength :: "16 word"

record memCtrlWord =
  mc_address :: "32 word"
  mc_count :: "8 word"

record binStatus =
  bin_free :: "1 word"
  bin_match :: "1 word"

type_synonym comp2decWord = "binStatus list"

record decideResultWord =
  dr_address :: "32 word"
  dr_valueLength :: "16 word"
  dr_operation :: "8 word"
  dr_status :: "1 word"

definition rot :: "32 word \<Rightarrow> nat \<Rightarrow> 32 word" where
  "rot x k = push_bit k x OR drop_bit (32 - k) x"

section \<open>Stages\<close>

text \<open>
  A stage \<open>step\<close> and the arrival \<open>ext q\<close> of data at its inputs. A stage that is not ready does nothing; one that is ready does the same thing whatever
  arrives behind the data it takes. When the data comes is then of no importance: a run with arrivals in any cycles is an initial part of the run with everything there
  from the start, and ends in the same state.
\<close>

locale polling_stage =
  fixes step :: "'s \<Rightarrow> 's" and ext :: "'q \<Rightarrow> 's \<Rightarrow> 's" and ready :: "'s \<Rightarrow> bool"
  assumes idle: "\<not> ready s \<Longrightarrow> step s = s"
    and ready_ext: "ready s \<Longrightarrow> ready (ext q s)"
    and step_ext: "ready s \<Longrightarrow> step (ext q s) = ext q (step s)"
begin

lemma step_exts: "ready s \<Longrightarrow> step (fold ext qs s) = fold ext qs (step s)"
  by (induction qs arbitrary: s) (auto simp: ready_ext step_ext)

lemma arrivals:
  "\<exists>t \<le> length qs. fold ext rest (fold (\<lambda>q s. step (ext q s)) qs s) = (step ^^ t) (fold ext (qs @ rest) s)"
proof (induction qs arbitrary: s)
  case Nil
  show ?case by simp
next
  case (Cons q qs)
  show ?case
  proof (cases "ready (ext q s)")
    case True
    from Cons obtain t where t: "t \<le> length qs"
      "fold ext rest (fold (\<lambda>q s. step (ext q s)) qs (step (ext q s))) = (step ^^ t) (fold ext (qs @ rest) (step (ext q s)))"
      by blast
    moreover have "fold ext (qs @ rest) (step (ext q s)) = step (fold ext (qs @ rest) (ext q s))"
      using step_exts [OF True, of "qs @ rest"] by simp
    ultimately show ?thesis by (intro exI [of _ "Suc t"]) (simp add: funpow_swap1)
  next
    case False
    with Cons [of "ext q s"] show ?thesis by (auto simp: idle intro: le_SucI)
  qed
qed

text \<open>If the run with everything there comes to rest after \<open>n\<close> cycles, every run does so at most \<open>n\<close> cycles after the last arrival.\<close>

lemma settles:
  assumes "(step ^^ n) (fold ext qs s) = s'" and "step s' = s'" and "n \<le> m"
  shows "(step ^^ m) (fold (\<lambda>q s. step (ext q s)) qs s) = s'"
proof -
  from arrivals [of qs "[]" s] obtain t where t: "fold (\<lambda>q s. step (ext q s)) qs s = (step ^^ t) (fold ext qs s)" by auto
  have fixed: "(step ^^ j) s' = s'" for j by (induction j) (simp_all add: assms(2) funpow_swap1)
  have "(step ^^ m) ((step ^^ t) (fold ext qs s)) = (step ^^ (m + t - n)) ((step ^^ n) (fold ext qs s))"
    using assms(3) by (simp add: funpow_add [symmetric, THEN fun_cong, unfolded comp_def])
  then show ?thesis by (simp add: t assms(1) fixed)
qed

end

text \<open>
  A stage in a pipeline. In every cycle \<open>t\<close> the input \<open>q t\<close> arrives, the stage takes its step, and what it has written is handed on: \<open>emitted\<close> is what it hands on
  in cycle \<open>t\<close>, \<open>drained\<close> its state before that cycle.
\<close>

primrec drained :: "('s \<Rightarrow> 's) \<Rightarrow> ('p \<Rightarrow> 's \<Rightarrow> 's) \<Rightarrow> ('s \<Rightarrow> 's) \<Rightarrow> (nat \<Rightarrow> 'p) \<Rightarrow> 's \<Rightarrow> nat \<Rightarrow> 's" where
  "drained step ext clear q s 0 = s"
| "drained step ext clear q s (Suc t) = clear (step (ext (q t) (drained step ext clear q s t)))"

definition emitted :: "('s \<Rightarrow> 's) \<Rightarrow> ('p \<Rightarrow> 's \<Rightarrow> 's) \<Rightarrow> ('s \<Rightarrow> 's) \<Rightarrow> ('s \<Rightarrow> 'o) \<Rightarrow> (nat \<Rightarrow> 'p) \<Rightarrow> 's \<Rightarrow> nat \<Rightarrow> 'o" where
  "emitted step ext clear outs q s t = outs (step (ext (q t) (drained step ext clear q s t)))"

text \<open>\<open>Q\<close> is all that comes over time, and it has come by cycle \<open>T\<close>; \<open>comb\<close> appends and \<open>none\<close> is nothing.\<close>

definition total :: "('q \<Rightarrow> 'q \<Rightarrow> 'q) \<Rightarrow> 'q \<Rightarrow> (nat \<Rightarrow> 'q) \<Rightarrow> nat \<Rightarrow> 'q" where
  "total comb none q n = fold (\<lambda>t acc. comb acc (q t)) [0..<n] none"

definition delivers :: "('q \<Rightarrow> 'q \<Rightarrow> 'q) \<Rightarrow> 'q \<Rightarrow> (nat \<Rightarrow> 'q) \<Rightarrow> nat \<Rightarrow> 'q \<Rightarrow> bool" where
  "delivers comb none q T Q \<longleftrightarrow> total comb none q T = Q \<and> (\<forall>t \<ge> T. q t = none)"

lemma total_simps [simp]: "total comb none q 0 = none" "total comb none q (Suc n) = comb (total comb none q n) (q n)"
  by (simp_all add: total_def)

lemma drained_cong: "(\<And>t. t < n \<Longrightarrow> q t = q' t) \<Longrightarrow> drained step ext clear q s n = drained step ext clear q' s n"
  by (induction n) simp_all

locale stream_stage = polling_stage step ext ready
  for step :: "'s \<Rightarrow> 's" and ext :: "'p \<Rightarrow> 's \<Rightarrow> 's" and ready +
  fixes combI :: "'p \<Rightarrow> 'p \<Rightarrow> 'p" and noneI :: 'p and outs :: "'s \<Rightarrow> 'o" and clear :: "'s \<Rightarrow> 's" and combO :: "'o \<Rightarrow> 'o \<Rightarrow> 'o" and noneO :: 'o
  assumes ext_comb: "ext (combI p q) s = ext q (ext p s)" and ext_none: "ext noneI s = s"
    and step_clear: "clear (step (clear s)) = clear (step s)"
    and step_outs: "outs (step s) = combO (outs s) (outs (step (clear s)))"
    and ext_clear: "clear (ext p s) = ext p (clear s)" "outs (ext p s) = outs s"
    and comb_none: "combO o1 o2 = o1 \<Longrightarrow> o2 = noneO"
begin

text \<open>The same run with nothing handed on.\<close>

definition kept :: "(nat \<Rightarrow> 'p) \<Rightarrow> 's \<Rightarrow> nat \<Rightarrow> 's" where
  "kept q s n = fold (\<lambda>q s. step (ext q s)) (map q [0..<n]) s"

lemma kept_simps: "kept q s 0 = s" "kept q s (Suc n) = step (ext (q n) (kept q s n))"
  by (simp_all add: kept_def)

lemma kept_drained: "clear s = s \<Longrightarrow> outs s = noneO \<Longrightarrow> drained step ext clear q s n = clear (kept q s n) \<and> total combO noneO (emitted step ext clear outs q s) n = outs (kept q s n)"
proof (induction n)
  case (Suc n)
  have "clear (ext (q n) (kept q s n)) = ext (q n) (clear (kept q s n))" by (rule ext_clear)
  with Suc step_clear [of "ext (q n) (kept q s n)"] step_outs [of "ext (q n) (kept q s n)"] show ?case
    by (simp add: kept_simps emitted_def ext_clear)
qed (simp add: kept_simps)

lemma fold_ext: "fold ext (map q [0..<n]) s = ext (total combI noneI q n) s"
  by (induction n arbitrary: s) (simp_all add: ext_none ext_comb)

lemma kept_quiet: "(\<And>t. T \<le> t \<Longrightarrow> q t = noneI) \<Longrightarrow> kept q s (T + m) = (step ^^ m) (kept q s T)"
  by (induction m) (simp_all add: kept_simps ext_none)

lemma kept_settles: "delivers combI noneI q T Q \<Longrightarrow> (step ^^ n) (ext Q s) = s' \<Longrightarrow> step s' = s' \<Longrightarrow> T + n \<le> t \<Longrightarrow> kept q s t = s'"
  using settles [of n "map q [0..<T]" s s' "t - T"] kept_quiet [of T q s "t - T"] by (simp add: delivers_def fold_ext kept_def)

text \<open>What a stage makes of the whole of its input, it makes of every delivery of it.\<close>

lemma stage_settles:
  assumes "delivers combI noneI q T Q" and "clear s = s" "outs s = noneO" and "(step ^^ n) (ext Q s) = s'" "step s' = s'"
  shows "\<And>t. T + n \<le> t \<Longrightarrow> drained step ext clear q s t = clear s'"
    and "delivers combO noneO (emitted step ext clear outs q s) (T + n) (outs s')"
proof -
  have keep: "kept q s (T + m) = s'" if "n \<le> m" for m
    using kept_settles [OF assms(1,4,5)] that by simp
  note kd = kept_drained [OF assms(2,3), of q]
  show d: "drained step ext clear q s t = clear s'" if "T + n \<le> t" for t
    using keep [of "t - T"] kd [of t] that by simp
  have quiet: "outs (step (clear s')) = noneO" using step_outs [of s'] assms(5) comb_none [of "outs s'"] by simp
  have "emitted step ext clear outs q s t = noneO" if "T + n \<le> t" for t
    using d [OF that] assms(1) that quiet by (simp add: emitted_def delivers_def ext_none)
  then show "delivers combO noneO (emitted step ext clear outs q s) (T + n) (outs s')"
    using kd [of "T + n"] keep [of n] by (simp add: delivers_def)
qed

end

text \<open>Tuples of streams.\<close>

definition append2 :: "'a list \<times> 'b list \<Rightarrow> 'a list \<times> 'b list \<Rightarrow> 'a list \<times> 'b list" where
  "append2 = (\<lambda>(a, b) (a', b'). (a @ a', b @ b'))"

definition append3 :: "'a list \<times> 'b list \<times> 'c list \<Rightarrow> 'a list \<times> 'b list \<times> 'c list \<Rightarrow> 'a list \<times> 'b list \<times> 'c list" where
  "append3 = (\<lambda>(a, b, c) (a', b', c'). (a @ a', b @ b', c @ c'))"

definition append4 :: "'a list \<times> 'b list \<times> 'c list \<times> 'd list \<Rightarrow> 'a list \<times> 'b list \<times> 'c list \<times> 'd list \<Rightarrow> 'a list \<times> 'b list \<times> 'c list \<times> 'd list" where
  "append4 = (\<lambda>(a, b, c, d) (a', b', c', d'). (a @ a', b @ b', c @ c', d @ d'))"

end
