(* ===== verification/Mc_Hash.thy ===== *)
theory Mc_Hash
  imports Mc_Globals
begin

unbundle bit_operations_syntax

text \<open>
  The hash unit of the key-value store (\<^verbatim>\<open>app/memcached/hls/sources/hashTable/hash.cpp\<close>): \<open>hashKeyResizer\<close> cuts the 128-bit words of a key into 96-bit blocks,
  \<open>bobj\<close> mixes them, one part of the arithmetic per cycle. Each key is hashed to the value of the published function \<open>hashlittle\<close>.
\<close>

section \<open>Mixing\<close>

datatype hS = HASH_IDLE | HASH_ACC_1 | HASH_ACC_2 | HASH_ACC_3 | HASH_ACC_4 | HASH_FINAL
  | HASH_FINAL_MIX_1 | HASH_FINAL_MIX_2 | HASH_FINAL_MIX_3 | HASH_FINAL_MIX_4

record bobj_st =
  bj_key :: "96 word stream"
  bj_lengthStream :: "32 word stream"
  bj_initvalStream :: "32 word stream"
  bj_hashOut :: "32 word stream"
  hashState :: hS
  bj_a :: "32 word"
  bj_b :: "32 word"
  bj_c :: "32 word"
  bj_length :: "64 word"

text \<open>What each half-round of the source does to \<open>a\<close>, \<open>b\<close>, \<open>c\<close>; \<open>u\<close> names the variable it changes.\<close>

definition mix_a :: "nat \<Rightarrow> bobj_st \<Rightarrow> bobj_st" where
  "mix_a k s = s\<lparr>bj_a := (bj_a s - bj_c s) XOR rot (bj_c s) k, bj_c := bj_c s + bj_b s\<rparr>"

definition mix_b :: "nat \<Rightarrow> bobj_st \<Rightarrow> bobj_st" where
  "mix_b k s = s\<lparr>bj_b := (bj_b s - bj_a s) XOR rot (bj_a s) k, bj_a := bj_a s + bj_c s\<rparr>"

definition mix_c :: "nat \<Rightarrow> bobj_st \<Rightarrow> bobj_st" where
  "mix_c k s = s\<lparr>bj_c := (bj_c s - bj_b s) XOR rot (bj_b s) k, bj_b := bj_b s + bj_a s\<rparr>"

definition final_c :: "nat \<Rightarrow> bobj_st \<Rightarrow> bobj_st" where
  "final_c k s = s\<lparr>bj_c := (bj_c s XOR bj_b s) - rot (bj_b s) k\<rparr>"

definition final_a :: "nat \<Rightarrow> bobj_st \<Rightarrow> bobj_st" where
  "final_a k s = s\<lparr>bj_a := (bj_a s XOR bj_c s) - rot (bj_c s) k\<rparr>"

definition final_b :: "nat \<Rightarrow> bobj_st \<Rightarrow> bobj_st" where
  "final_b k s = s\<lparr>bj_b := (bj_b s XOR bj_a s) - rot (bj_a s) k\<rparr>"

definition add_abc :: "32 word \<Rightarrow> 32 word \<Rightarrow> 32 word \<Rightarrow> bobj_st \<Rightarrow> bobj_st" where
  "add_abc x y z s = s\<lparr>bj_a := bj_a s + x, bj_b := bj_b s + y, bj_c := bj_c s + z\<rparr>"

text \<open>The three 32-bit parts of a block, and the \<open>switch (length)\<close> over the last block.\<close>

definition blk :: "96 word \<Rightarrow> nat \<Rightarrow> 32 word" where
  "blk w i = range_get w (32 * i + 31) (32 * i)"

definition add_last :: "64 word \<Rightarrow> 96 word \<Rightarrow> bobj_st \<Rightarrow> bobj_st" where
  "add_last len w s =
     (if len = 12 then add_abc (blk w 0) (blk w 1) (blk w 2) s
      else if len = 11 then add_abc (blk w 0) (blk w 1) (blk w 2 AND 0xffffff) s
      else if len = 10 then add_abc (blk w 0) (blk w 1) (blk w 2 AND 0xffff) s
      else if len = 9 then add_abc (blk w 0) (blk w 1) (blk w 2 AND 0xff) s
      else if len = 8 then add_abc (blk w 0) (blk w 1) 0 s
      else if len = 7 then add_abc (blk w 0) (blk w 1 AND 0xffffff) 0 s
      else if len = 6 then add_abc (blk w 0) (blk w 1 AND 0xffff) 0 s
      else if len = 5 then add_abc (blk w 0) (blk w 1 AND 0xff) 0 s
      else if len = 4 then add_abc (blk w 0) 0 0 s
      else if len = 3 then add_abc (blk w 0 AND 0xffffff) 0 0 s
      else if len = 2 then add_abc (blk w 0 AND 0xffff) 0 0 s
      else if len = 1 then add_abc (blk w 0 AND 0xff) 0 0 s
      else s)"

definition bobj :: "bobj_st \<Rightarrow> bobj_st" where
  "bobj s =
     (case hashState s of
        HASH_IDLE \<Rightarrow>
          (case (bj_lengthStream s, bj_initvalStream s) of
             (len # lens, initval # inits) \<Rightarrow>
               (let x = 0xdeadbeef + len + initval
                in s\<lparr>bj_lengthStream := lens, bj_initvalStream := inits, bj_length := ucast len, bj_a := x, bj_b := x, bj_c := x,
                     hashState := if (ucast len :: 64 word) > 12 then HASH_ACC_1 else HASH_FINAL\<rparr>)
           | _ \<Rightarrow> s)
      | HASH_ACC_1 \<Rightarrow>
          (case bj_key s of
             [] \<Rightarrow> s
           | w # ws \<Rightarrow> mix_a 4 (add_abc (blk w 0) (blk w 1) (blk w 2) (s\<lparr>bj_key := ws, hashState := HASH_ACC_2\<rparr>)))
      | HASH_ACC_2 \<Rightarrow> mix_c 8 (mix_b 6 (s\<lparr>hashState := HASH_ACC_3\<rparr>))
      | HASH_ACC_3 \<Rightarrow> mix_b 19 (mix_a 16 (s\<lparr>hashState := HASH_ACC_4\<rparr>))
      | HASH_ACC_4 \<Rightarrow>
          mix_c 4 (s\<lparr>bj_length := bj_length s - 12, hashState := if bj_length s - 12 > 12 then HASH_ACC_1 else HASH_FINAL\<rparr>)
      | HASH_FINAL \<Rightarrow>
          (if bj_length s = 0 then s\<lparr>bj_hashOut := swrite (bj_hashOut s) (bj_c s), hashState := HASH_IDLE\<rparr>
           else (case bj_key s of
                   [] \<Rightarrow> s
                 | w # ws \<Rightarrow> add_last (bj_length s) w (s\<lparr>bj_key := if bj_length s \<le> 12 then ws else w # ws, hashState := HASH_FINAL_MIX_1\<rparr>)))
      | HASH_FINAL_MIX_1 \<Rightarrow> final_a 11 (final_c 14 (s\<lparr>hashState := HASH_FINAL_MIX_2\<rparr>))
      | HASH_FINAL_MIX_2 \<Rightarrow> final_c 16 (final_b 25 (s\<lparr>hashState := HASH_FINAL_MIX_3\<rparr>))
      | HASH_FINAL_MIX_3 \<Rightarrow> final_b 14 (final_a 4 (s\<lparr>hashState := HASH_FINAL_MIX_4\<rparr>))
      | HASH_FINAL_MIX_4 \<Rightarrow>
          (let s = final_c 24 s in s\<lparr>bj_hashOut := swrite (bj_hashOut s) (bj_c s), hashState := HASH_IDLE\<rparr>))"

section \<open>Cutting the key into blocks\<close>

datatype ksState = KS_IDLE | KS_STEP1 | KS_STEP2 | KS_STEP3 | KS_STEP0 | KS_RESIDUE | KS_RESIDUE1 | KS_RESIDUE2

record resizer_st =
  in2hash :: "hashTableInternalWord stream"
  in2hashKeyLength :: "8 word stream"
  resizedKey :: "96 word stream"
  resizedKeyLength :: "32 word stream"
  resizedInitValue :: "32 word stream"
  keyResizerState :: ksState
  keyResizerLength :: "8 word"
  resizedKeyOutput :: "96 word"
  tempInput :: hashTableInternalWord

text \<open>\<open>resizedKeyOutput = w; resizedKey.write(resizedKeyOutput)\<close>.\<close>

definition put_block :: "96 word \<Rightarrow> resizer_st \<Rightarrow> resizer_st" where
  "put_block w s = s\<lparr>resizedKeyOutput := w, resizedKey := swrite (resizedKey s) w\<rparr>"

definition hashKeyResizer :: "resizer_st \<Rightarrow> resizer_st" where
  "hashKeyResizer s =
     (case keyResizerState s of
        KS_IDLE \<Rightarrow>
          (case (in2hashKeyLength s, in2hash s) of
             (len # lens, w # ws) \<Rightarrow>
               (let s = put_block (range_get (hw_data w) 95 0)
                          (s\<lparr>in2hashKeyLength := lens, in2hash := ws, keyResizerLength := len, tempInput := w,
                             resizedKeyLength := swrite (resizedKeyLength s) (ucast len), resizedInitValue := swrite (resizedInitValue s) hashFunctionSeed\<rparr>)
                in if len > 12 then s\<lparr>keyResizerState := if hw_EOP w = 1 then KS_RESIDUE else KS_STEP1\<rparr> else s)
           | _ \<Rightarrow> s)
      | KS_STEP1 \<Rightarrow>
          (case in2hash s of
             [] \<Rightarrow> s
           | w # ws \<Rightarrow>
               (let len = keyResizerLength s - 16;
                    s = put_block (range_set (range_set (resizedKeyOutput s) 31 0 (range_get (hw_data (tempInput s)) 127 96 :: 32 word))
                                     95 32 (range_get (hw_data w) 63 0 :: 64 word))
                          (s\<lparr>keyResizerLength := len, in2hash := ws, tempInput := w\<rparr>)
                in s\<lparr>keyResizerState := if len > 8 then (if hw_EOP w = 1 then KS_RESIDUE1 else KS_STEP2) else KS_IDLE\<rparr>))
      | KS_STEP2 \<Rightarrow>
          (case in2hash s of
             [] \<Rightarrow> s
           | w # ws \<Rightarrow>
               (let len = keyResizerLength s - 16;
                    s = put_block (range_set (range_set (resizedKeyOutput s) 63 0 (range_get (hw_data (tempInput s)) 127 64 :: 64 word))
                                     95 64 (range_get (hw_data w) 31 0 :: 32 word))
                          (s\<lparr>keyResizerLength := len, in2hash := ws, tempInput := w\<rparr>)
                in s\<lparr>keyResizerState := if len > 4 then (if hw_EOP w = 1 then KS_RESIDUE2 else KS_STEP3) else KS_IDLE\<rparr>))
      | KS_STEP3 \<Rightarrow>
          (let len = keyResizerLength s - 16
           in put_block (range_get (hw_data (tempInput s)) 127 32)
                (s\<lparr>keyResizerLength := len, keyResizerState := if len > 0 then KS_STEP0 else KS_IDLE\<rparr>))
      | KS_STEP0 \<Rightarrow>
          (case in2hash s of
             [] \<Rightarrow> s
           | w # ws \<Rightarrow>
               (let s = put_block (range_get (hw_data w) 95 0) (s\<lparr>in2hash := ws, tempInput := w\<rparr>)
                in if keyResizerLength s > 12 then s\<lparr>keyResizerState := if hw_EOP w = 1 then KS_RESIDUE else KS_STEP1\<rparr> else s))
      | KS_RESIDUE \<Rightarrow>
          put_block (range_set (resizedKeyOutput s) 31 0 (range_get (hw_data (tempInput s)) 127 96 :: 32 word)) (s\<lparr>keyResizerState := KS_IDLE\<rparr>)
      | KS_RESIDUE1 \<Rightarrow>
          put_block (range_set (resizedKeyOutput s) 63 0 (range_get (hw_data (tempInput s)) 127 64 :: 64 word)) (s\<lparr>keyResizerState := KS_IDLE\<rparr>)
      | KS_RESIDUE2 \<Rightarrow>
          put_block (range_get (hw_data (tempInput s)) 127 32) (s\<lparr>keyResizerState := KS_IDLE\<rparr>))"

text \<open>The two stages with the streams between them: what the first one writes is at once at the inputs of the second.\<close>

definition bobj_arrive :: "96 word list \<times> 32 word list \<times> 32 word list \<Rightarrow> bobj_st \<Rightarrow> bobj_st" where
  "bobj_arrive = (\<lambda>(ps, lens, inits) b. b\<lparr>bj_key := bj_key b @ ps, bj_lengthStream := bj_lengthStream b @ lens, bj_initvalStream := bj_initvalStream b @ inits\<rparr>)"

definition mc_hash :: "resizer_st \<times> bobj_st \<Rightarrow> resizer_st \<times> bobj_st" where
  "mc_hash = (\<lambda>(r, b).
     let r = hashKeyResizer r
     in (r\<lparr>resizedKey := [], resizedKeyLength := [], resizedInitValue := []\<rparr>,
         bobj (bobj_arrive (resizedKey r, resizedKeyLength r, resizedInitValue r) b)))"

section \<open>The reference function\<close>

text \<open>\<open>hashlittle\<close> of Jenkins on a string of bytes.\<close>

type_synonym abc = "32 word \<times> 32 word \<times> 32 word"

definition key_byte :: "8 word list \<Rightarrow> nat \<Rightarrow> 32 word" where
  "key_byte k i = (if i < length k then ucast (k ! i) else 0)"

definition le32 :: "8 word list \<Rightarrow> nat \<Rightarrow> 32 word" where
  "le32 k i = key_byte k i OR push_bit 8 (key_byte k (i + 1)) OR push_bit 16 (key_byte k (i + 2)) OR push_bit 24 (key_byte k (i + 3))"

definition mix :: "abc \<Rightarrow> abc" where
  "mix = (\<lambda>(a, b, c).
     let a = (a - c) XOR rot c 4; c = c + b;
         b = (b - a) XOR rot a 6; a = a + c;
         c = (c - b) XOR rot b 8; b = b + a;
         a = (a - c) XOR rot c 16; c = c + b;
         b = (b - a) XOR rot a 19; a = a + c;
         c = (c - b) XOR rot b 4; b = b + a
     in (a, b, c))"

definition final_mix :: "abc \<Rightarrow> 32 word" where
  "final_mix = (\<lambda>(a, b, c).
     let c = (c XOR b) - rot b 14;
         a = (a XOR c) - rot c 11;
         b = (b XOR a) - rot a 25;
         c = (c XOR b) - rot b 16;
         a = (a XOR c) - rot c 4;
         b = (b XOR a) - rot a 14
     in (c XOR b) - rot b 24)"

definition add_block :: "8 word list \<Rightarrow> abc \<Rightarrow> abc" where
  "add_block k = (\<lambda>(a, b, c). (a + le32 k 0, b + le32 k 4, c + le32 k 8))"

function hashlittle_loop :: "8 word list \<Rightarrow> abc \<Rightarrow> 32 word" where
  "hashlittle_loop k t =
     (if 12 < length k then hashlittle_loop (drop 12 k) (mix (add_block k t))
      else if k = [] then snd (snd t)
      else final_mix (add_block k t))"
  by pat_completeness auto
termination
  by (relation "measure (\<lambda>(k, t). length k)") auto

declare hashlittle_loop.simps [simp del]

definition hashlittle :: "8 word list \<Rightarrow> 32 word \<Rightarrow> 32 word" where
  "hashlittle k initval = (let x = 0xdeadbeef + of_nat (length k) + initval in hashlittle_loop k (x, x, x))"

end
