(* ===== verification/Mc_Hash_Props.thy ===== *)
theory Mc_Hash_Props
  imports Mc_Hash
begin

unbundle bit_operations_syntax

text \<open>
  The hash unit computes the published function on every key, however the words of the keys arrive; and keys of certain lengths stop it for ever.
\<close>

section \<open>Bits of keys, words and blocks\<close>

text \<open>Bit \<open>n\<close> of the part of the key from byte \<open>i\<close> on.\<close>

definition key_bit :: "8 word list \<Rightarrow> nat \<Rightarrow> nat \<Rightarrow> bool" where
  "key_bit k i n \<longleftrightarrow> bit (k ! (i + n div 8)) (n mod 8)"

lemma key_bit_shift: "key_bit k (i + m) n = key_bit k i (8 * m + n)"
  by (simp add: key_bit_def add.assoc)

lemma key_bit_drop: "m \<le> length k \<Longrightarrow> key_bit (drop m k) i n = key_bit k (m + i) n"
  by (simp add: key_bit_def add.assoc)

text \<open>A word agrees with the key from byte \<open>i\<close> on, as far as the key goes.\<close>

definition agrees :: "'a::len word \<Rightarrow> 8 word list \<Rightarrow> nat \<Rightarrow> bool" where
  "agrees w k i \<longleftrightarrow> (\<forall>n < LENGTH('a). i + n div 8 < length k \<longrightarrow> bit w n = key_bit k i n)"

lemma agrees_drop: "m \<le> length k \<Longrightarrow> agrees w (drop m k) i \<longleftrightarrow> agrees w k (m + i)"
  by (auto simp: agrees_def key_bit_drop less_diff_conv2 less_diff_conv add.commute add.left_commute)

text \<open>The words that carry a key, and the blocks it is cut into.\<close>

definition key_words :: "8 word list \<Rightarrow> hashTableInternalWord list \<Rightarrow> bool" where
  "key_words k ws \<longleftrightarrow> length ws = (length k + 15) div 16 \<and>
     (\<forall>j < length ws. agrees (hw_data (ws ! j)) k (16 * j) \<and> (hw_EOP (ws ! j) = 1 \<longleftrightarrow> j = length ws - 1))"

definition key_blocks :: "8 word list \<Rightarrow> 96 word list \<Rightarrow> bool" where
  "key_blocks k ps \<longleftrightarrow> length ps = (length k + 11) div 12 \<and> (\<forall>m < length ps. agrees (ps ! m) k (12 * m))"

lemma key_blocks_Nil: "key_blocks [] ps \<longleftrightarrow> ps = []"
  by (auto simp: key_blocks_def)

lemma key_blocks_Cons:
  assumes "12 < length k"
  shows "key_blocks k (p # ps) \<longleftrightarrow> agrees p k 0 \<and> key_blocks (drop 12 k) ps"
proof -
  have "(length k + 11) div 12 = Suc ((length k - 12 + 11) div 12)" using assms by simp
  then show ?thesis
    using assms by (auto simp: key_blocks_def agrees_drop less_Suc_eq_0_disj nth_Cons split: nat.splits)
qed

lemma key_blocks_one: "0 < length k \<Longrightarrow> length k \<le> 12 \<Longrightarrow> key_blocks k ps \<longleftrightarrow> (\<exists>p. ps = [p] \<and> agrees p k 0)"
proof -
  assume "0 < length k" "length k \<le> 12"
  then have "(length k + 11) div 12 = 1" by (intro div_nat_eqI) (simp_all add: Suc_le_eq)
  then show ?thesis by (auto simp: key_blocks_def length_Suc_conv)
qed

section \<open>Mixing\<close>

lemma bit_key_byte: "bit (key_byte k i) n \<longleftrightarrow> n < 8 \<and> i < length k \<and> bit (k ! i) n"
  by (auto simp: key_byte_def bit_simps dest: bit_imp_le_length)

lemma bit_le32: "bit (le32 k i) n \<longleftrightarrow> n < 32 \<and> i + n div 8 < length k \<and> key_bit k i n"
proof (cases "n < 32")
  case True
  then consider "n < 8" | "8 \<le> n \<and> n < 16" | "16 \<le> n \<and> n < 24" | "24 \<le> n \<and> n < 32" by linarith
  then show ?thesis
  proof cases
    case 1
    then have "n div 8 = 0" "n mod 8 = n" by simp_all
    with 1 show ?thesis by (auto simp: le32_def bit_simps bit_key_byte key_bit_def)
  next
    case 2
    then have d: "n div 8 = 1" by (intro div_nat_eqI) (simp_all add: Suc_le_eq)
    then have "n mod 8 = n - 8" using minus_div_mult_eq_mod [of n 8] by simp
    with 2 d show ?thesis by (auto simp: le32_def bit_simps bit_key_byte key_bit_def)
  next
    case 3
    then have d: "n div 8 = 2" by (intro div_nat_eqI) (simp_all add: Suc_le_eq)
    then have "n mod 8 = n - 16" using minus_div_mult_eq_mod [of n 8] by simp
    with 3 d show ?thesis by (auto simp: le32_def bit_simps bit_key_byte key_bit_def)
  next
    case 4
    then have d: "n div 8 = 3" by (intro div_nat_eqI) (simp_all add: Suc_le_eq)
    then have "n mod 8 = n - 24" using minus_div_mult_eq_mod [of n 8] by simp
    with 4 d show ?thesis by (auto simp: le32_def bit_simps bit_key_byte key_bit_def)
  qed
next
  case False
  then show ?thesis by (auto dest: bit_imp_le_length)
qed


lemma le32_beyond: "length k \<le> i \<Longrightarrow> le32 k i = 0"
  by (rule bit_word_eqI) (simp add: bit_le32)

lemma blk_le32:
  assumes "agrees w k 0" and "i < 3" and "4 * i + 4 \<le> length k"
  shows "blk w i = le32 k (4 * i)"
proof (rule bit_word_eqI)
  fix n assume "n < LENGTH(32)"
  then have "n < 32" "32 * i + n < 96" "4 * i + n div 8 < length k" using assms(2,3) by auto
  moreover have "key_bit k (4 * i) n = key_bit k 0 (32 * i + n)" using key_bit_shift [of k 0 "4 * i" n] by (simp add: mult.commute)
  ultimately show "bit (blk w i) n = bit (le32 k (4 * i)) n"
    using assms(1) by (auto simp: agrees_def blk_def bit_le32 bit_simps)
qed

lemma blk_mask:
  assumes "agrees w k 0" and "i < 3" and "length k = 4 * i + r" and "r < 4"
  shows "blk w i AND mask (8 * r) = le32 k (4 * i)"
proof (rule bit_word_eqI)
  fix n assume "n < LENGTH(32)"
  then have "n < 32" "32 * i + n < 96" "n < 8 * r \<longleftrightarrow> 4 * i + n div 8 < length k" using assms(2-4) by auto
  moreover have "key_bit k (4 * i) n = key_bit k 0 (32 * i + n)" using key_bit_shift [of k 0 "4 * i" n] by (simp add: mult.commute)
  ultimately show "bit (blk w i AND mask (8 * r)) n = bit (le32 k (4 * i)) n"
    using assms(1) by (auto simp: agrees_def blk_def bit_le32 bit_simps)
qed

lemma add_last_le32:
  assumes "agrees w k 0" and "0 < length k" and "length k \<le> 12"
  shows "add_last (of_nat (length k)) w s = add_abc (le32 k 0) (le32 k 4) (le32 k 8) s"
proof -
  have m: "mask (8 * 1) = (0xff :: 32 word)" "mask (8 * 2) = (0xffff :: 32 word)" "mask (8 * 3) = (0xffffff :: 32 word)"
    by (simp_all add: mask_eq_exp_minus_1)
  note full = blk_le32 [OF assms(1), of 0, simplified] blk_le32 [OF assms(1), of 1, simplified] blk_le32 [OF assms(1), of 2, simplified]
  note part = blk_mask [OF assms(1), of _ 1, unfolded m] blk_mask [OF assms(1), of _ 2, unfolded m] blk_mask [OF assms(1), of _ 3, unfolded m]
  note parts = part(1-3) [of 0, simplified] part(1-3) [of 1, simplified] part(1-3) [of 2, simplified]
  from assms(2,3) have "length k \<in> {1, 2, 3, 4, 5, 6, 7, 8, 9, 10, 11, 12}" by (simp, arith)
  then show ?thesis
    by (elim insertE emptyE) (simp_all add: add_last_def full parts le32_beyond)
qed

text \<open>The state of the mixer with the triple as one.\<close>

definition abc_of :: "bobj_st \<Rightarrow> abc" where
  "abc_of s = (bj_a s, bj_b s, bj_c s)"

definition with_abc :: "abc \<Rightarrow> bobj_st \<Rightarrow> bobj_st" where
  "with_abc t s = s\<lparr>bj_a := fst t, bj_b := fst (snd t), bj_c := snd (snd t)\<rparr>"

lemmas mix_steps = mix_a_def mix_b_def mix_c_def final_a_def final_b_def final_c_def add_abc_def

lemma bobj_acc:
  assumes "hashState s = HASH_ACC_1" and "bj_key s = w # ws" and "agrees w k 0" and "12 \<le> length k"
  shows "(bobj ^^ 4) s = with_abc (mix (add_block k (abc_of s))) (s\<lparr>bj_key := ws, bj_length := bj_length s - 12,
    hashState := if bj_length s - 12 > 12 then HASH_ACC_1 else HASH_FINAL\<rparr>)"
proof -
  have "blk w 0 = le32 k 0" "blk w 1 = le32 k 4" "blk w 2 = le32 k 8"
    using blk_le32 [OF assms(3), of 0] blk_le32 [OF assms(3), of 1] blk_le32 [OF assms(3), of 2] assms(4) by simp_all
  then show ?thesis
    using assms(1,2) by (simp add: numeral_eq_Suc bobj_def mix_steps with_abc_def abc_of_def mix_def add_block_def Let_def)
qed

lemma bobj_final:
  assumes "hashState s = HASH_FINAL" and "bj_key s = w # ws" and "agrees w k 0" and "0 < length k" "length k \<le> 12" and "bj_length s = of_nat (length k)"
  shows "\<exists>t. (bobj ^^ 5) s = with_abc t (s\<lparr>bj_key := ws, hashState := HASH_IDLE, bj_hashOut := bj_hashOut s @ [final_mix (add_block k (abc_of s))]\<rparr>)"
proof -
  have len: "bj_length s \<noteq> 0" "bj_length s \<le> 12"
    using assms(4-6) by (auto simp: word_le_nat_alt unat_of_nat take_bit_nat_eq_self word_unat_eq_iff)
  have one: "bobj s = add_abc (le32 k 0) (le32 k 4) (le32 k 8) (s\<lparr>bj_key := ws, hashState := HASH_FINAL_MIX_1\<rparr>)"
    using assms(1,2) len add_last_le32 [OF assms(3-5), folded assms(6)] by (simp add: bobj_def)
  have "(bobj ^^ 5) s = bobj (bobj (bobj (bobj (bobj s))))" by (simp add: numeral_eq_Suc)
  then show ?thesis
    unfolding one
    by (intro exI [of _ "abc_of ((bobj ^^ 5) s)"]) (simp add: one bobj_def mix_steps with_abc_def abc_of_def final_mix_def add_block_def Let_def swrite_def)
qed

lemma abc_of_with [simp]: "abc_of (with_abc t s) = t" "with_abc t (with_abc u s) = with_abc t s"
  by (simp_all add: abc_of_def with_abc_def)

lemma with_abc_simps [simp]:
  "bj_key (with_abc t s) = bj_key s" "bj_length (with_abc t s) = bj_length s" "hashState (with_abc t s) = hashState s" "bj_hashOut (with_abc t s) = bj_hashOut s"
  "(with_abc t s)\<lparr>bj_key := ws\<rparr> = with_abc t (s\<lparr>bj_key := ws\<rparr>)" "(with_abc t s)\<lparr>bj_length := len\<rparr> = with_abc t (s\<lparr>bj_length := len\<rparr>)"
  "(with_abc t s)\<lparr>hashState := h\<rparr> = with_abc t (s\<lparr>hashState := h\<rparr>)" "(with_abc t s)\<lparr>bj_hashOut := out\<rparr> = with_abc t (s\<lparr>bj_hashOut := out\<rparr>)"
  by (simp_all add: with_abc_def)

text \<open>The states of the mixer while it is at a key of which \<open>x\<close> bytes are left.\<close>

definition at_key :: "nat \<Rightarrow> bobj_st \<Rightarrow> bool" where
  "at_key x s \<longleftrightarrow> x < 2 ^ 32 \<and> bj_length s = of_nat x \<and> hashState s = (if 12 < x then HASH_ACC_1 else HASH_FINAL)"

lemma less_of_nat_12: "x < 2 ^ 32 \<Longrightarrow> (12 :: 64 word) < of_nat x \<longleftrightarrow> 12 < x"
  by (simp add: word_less_nat_alt unat_of_nat take_bit_nat_eq_self)

lemma bobj_key:
  "at_key (length k) s \<Longrightarrow> bj_key s = ps @ rest \<Longrightarrow> key_blocks k ps \<Longrightarrow>
     \<exists>t len. (bobj ^^ (4 * length ps + 1)) s = with_abc t (s\<lparr>bj_key := rest, bj_length := len, hashState := HASH_IDLE,
       bj_hashOut := bj_hashOut s @ [hashlittle_loop k (abc_of s)]\<rparr>)"
proof (induction k "abc_of s" arbitrary: s ps rule: hashlittle_loop.induct)
  case (1 k s)
  consider "12 < length k" | "k = []" | "0 < length k" "length k \<le> 12" by force
  then show ?case
  proof cases
    case 1
    with "1.prems"(3) obtain p ps' where ps: "ps = p # ps'" by (cases ps) (auto simp: key_blocks_def)
    with "1.prems"(3) 1 have p: "agrees p k 0" "key_blocks (drop 12 k) ps'" by (simp_all add: key_blocks_Cons)
    let ?s = "with_abc (mix (add_block k (abc_of s))) (s\<lparr>bj_key := ps' @ rest, bj_length := bj_length s - 12,
      hashState := if bj_length s - 12 > 12 then HASH_ACC_1 else HASH_FINAL\<rparr>)"
    have len: "bj_length s - 12 = of_nat (length k - 12)" using 1 "1.prems"(1) by (simp add: at_key_def of_nat_diff)
    have four: "(bobj ^^ 4) s = ?s" using bobj_acc [of s p "ps' @ rest" k] "1.prems"(1,2) ps p(1) 1 by (simp add: at_key_def)
    have "length k < 2 ^ 32" using "1.prems"(1) by (simp only: at_key_def)
    then have "length k - 12 < 2 ^ 32" by linarith
    then have "at_key (length (drop 12 k)) ?s" using len less_of_nat_12 [of "length k - 12"] by (simp add: at_key_def del: of_nat_diff)
    from "1.hyps" [OF 1 _ this _ p(2)] obtain t len' where
      "(bobj ^^ (4 * length ps' + 1)) ?s = with_abc t (s\<lparr>bj_key := rest, bj_length := len', hashState := HASH_IDLE,
         bj_hashOut := bj_hashOut s @ [hashlittle_loop (drop 12 k) (mix (add_block k (abc_of s)))]\<rparr>)"
      by auto
    moreover have "(bobj ^^ (4 * length ps + 1)) s = (bobj ^^ (4 * length ps' + 1)) ((bobj ^^ 4) s)"
      by (simp add: ps funpow_add [symmetric, THEN fun_cong, unfolded comp_def] del: funpow.simps)
    ultimately show ?thesis using 1 four
      by (intro exI [of _ t] exI [of _ len']) (simp add: hashlittle_loop.simps [of k])
  next
    case 2
    then show ?thesis using "1.prems"
      by (intro exI [of _ "abc_of s"] exI [of _ "bj_length s"])
        (simp add: key_blocks_Nil at_key_def bobj_def hashlittle_loop.simps abc_of_def with_abc_def swrite_def)
  next
    case 3
    with "1.prems"(3) obtain p where p: "ps = [p]" "agrees p k 0" by (auto simp: key_blocks_one)
    with bobj_final [of s p rest k] "1.prems"(1,2) p 3 obtain t where
      "(bobj ^^ 5) s = with_abc t (s\<lparr>bj_key := rest, hashState := HASH_IDLE, bj_hashOut := bj_hashOut s @ [final_mix (add_block k (abc_of s))]\<rparr>)"
      by (auto simp: at_key_def)
    then show ?thesis using 3 p
      by (intro exI [of _ t] exI [of _ "bj_length s"]) (simp add: hashlittle_loop.simps [of k])
  qed
qed

section \<open>Cutting the key\<close>

text \<open>Lengths after which the unit that cuts the keys does not return to its idle state.\<close>

definition stuck_length :: "nat \<Rightarrow> bool" where
  "stuck_length x \<longleftrightarrow> x mod 48 \<in> {1..12}"

definition blocks_of :: "nat \<Rightarrow> nat" where
  "blocks_of x = (x + 11) div 12"

lemma less_of_nat_8: "x < 256 \<Longrightarrow> m < 256 \<Longrightarrow> (of_nat m :: 8 word) < of_nat x \<longleftrightarrow> m < x"
  by (simp add: word_less_nat_alt unat_of_nat take_bit_nat_eq_self)

lemmas less_of_nat_8s = less_of_nat_8 [of _ 0, simplified] less_of_nat_8 [of _ 4, simplified] less_of_nat_8 [of _ 8, simplified] less_of_nat_8 [of _ 12, simplified]

text \<open>The rest of a key, in terms of the words that are left.\<close>

lemma key_words_Cons:
  assumes "16 < length k"
  shows "key_words k (w # ws) \<longleftrightarrow> agrees (hw_data w) k 0 \<and> hw_EOP w \<noteq> 1 \<and> key_words (drop 16 k) ws"
proof -
  have "(length k + 15) div 16 = Suc ((length k - 16 + 15) div 16)" using assms by simp
  moreover have "0 < (length k - 16 + 15) div 16" using assms by simp
  then obtain d where "(length k - 16 + 15) div 16 = Suc d" using gr0_implies_Suc by blast
  ultimately have n: "(length k + 15) div 16 = Suc (Suc d)" "(length (drop 16 k) + 15) div 16 = Suc d" by simp_all
  show ?thesis
    using assms unfolding key_words_def n length_Cons All_less_Suc2 nth_Cons_0 nth_Cons_Suc by (auto simp: agrees_drop)
qed

lemma key_words_one: "0 < length k \<Longrightarrow> length k \<le> 16 \<Longrightarrow> key_words k ws \<longleftrightarrow> (\<exists>w. ws = [w] \<and> agrees (hw_data w) k 0 \<and> hw_EOP w = 1)"
proof -
  assume "0 < length k" "length k \<le> 16"
  then have "(length k + 15) div 16 = 1" by (intro div_nat_eqI) (simp_all add: Suc_le_eq)
  then show ?thesis by (auto simp: key_words_def length_Suc_conv)
qed

text \<open>Blocks made of one word, and of the end of one and the start of the next.\<close>

lemma agrees_get: "agrees (w :: 128 word) k i \<Longrightarrow> lo = 8 * m \<Longrightarrow> hi = lo + 95 \<Longrightarrow> m \<le> 4 \<Longrightarrow> agrees (range_get w hi lo :: 96 word) k (i + m)"
  by (auto simp: agrees_def key_bit_shift bit_simps add.assoc) (metis add.commute)?

lemma agreesI: "(\<And>n. n < LENGTH('a) \<Longrightarrow> i + n div 8 < length k \<Longrightarrow> bit w n = key_bit k i n) \<Longrightarrow> agrees (w :: 'a::len word) k i"
  by (simp add: agrees_def)

lemma agreesD: "agrees (w :: 'a::len word) k i \<Longrightarrow> n < LENGTH('a) \<Longrightarrow> i + n div 8 < length k \<Longrightarrow> bit w n = key_bit k i n"
  by (simp add: agrees_def)

lemma agrees_12:
  assumes t: "agrees (t :: 128 word) k i" and w: "length k \<le> i + 16 \<or> agrees (w :: 128 word) k (i + 16)"
    and o: "\<And>n. n < 32 \<Longrightarrow> bit o' n = bit t (96 + n)" "\<And>n. 32 \<le> n \<Longrightarrow> n < 96 \<Longrightarrow> i + 16 < length k \<Longrightarrow> bit o' n = bit w (n - 32)"
  shows "agrees (o' :: 96 word) k (i + 12)"
proof (rule agreesI)
  fix n assume n: "n < LENGTH(96)" "i + 12 + n div 8 < length k"
  show "bit o' n = key_bit k (i + 12) n"
  proof (cases "n < 32")
    case True
    then have "bit t (96 + n) = key_bit k i (96 + n)" using n by (intro agreesD [OF t]) auto
    then show ?thesis using o(1) True by (simp add: key_bit_shift)
  next
    case False
    then have "i + 16 < length k" using n by simp
    moreover from this False have "bit w (n - 32) = key_bit k (i + 16) (n - 32)" using n w by (intro agreesD) auto
    ultimately show ?thesis using o(2) False n by (simp add: key_bit_shift)
  qed
qed

lemma agrees_8:
  assumes t: "agrees (t :: 128 word) k i" and w: "length k \<le> i + 16 \<or> agrees (w :: 128 word) k (i + 16)"
    and o: "\<And>n. n < 64 \<Longrightarrow> bit o' n = bit t (64 + n)" "\<And>n. 64 \<le> n \<Longrightarrow> n < 96 \<Longrightarrow> i + 16 < length k \<Longrightarrow> bit o' n = bit w (n - 64)"
  shows "agrees (o' :: 96 word) k (i + 8)"
proof (rule agreesI)
  fix n assume n: "n < LENGTH(96)" "i + 8 + n div 8 < length k"
  show "bit o' n = key_bit k (i + 8) n"
  proof (cases "n < 64")
    case True
    then have "bit t (64 + n) = key_bit k i (64 + n)" using n by (intro agreesD [OF t]) auto
    then show ?thesis using o(1) True by (simp add: key_bit_shift)
  next
    case False
    then have "i + 16 < length k" using n by simp
    moreover from this False have "bit w (n - 64) = key_bit k (i + 16) (n - 64)" using n w by (intro agreesD) auto
    ultimately show ?thesis using o(2) False n by (simp add: key_bit_shift)
  qed
qed

lemma block_first: "agrees (t :: 128 word) k 0 \<Longrightarrow> agrees (range_get t 95 0 :: 96 word) k 0"
  using agrees_get [of t k 0 0 0 95] by simp

lemma block_step1:
  "agrees (t :: 128 word) k 0 \<Longrightarrow> agrees (w :: 128 word) k 16 \<Longrightarrow>
     agrees (range_set (range_set (x :: 96 word) 31 0 (range_get t 127 96 :: 32 word)) 95 32 (range_get w 63 0 :: 64 word)) k 12"
  by (rule agrees_12 [of t k 0 w, simplified]) (auto simp: bit_simps)

lemma block_residue:
  "agrees (t :: 128 word) k 0 \<Longrightarrow> length k \<le> 16 \<Longrightarrow> agrees (range_set (x :: 96 word) 31 0 (range_get t 127 96 :: 32 word)) k 12"
  by (rule agrees_12 [of t k 0 0, simplified]) (auto simp: bit_simps)

lemma block_step2:
  "agrees (t :: 128 word) k 16 \<Longrightarrow> agrees (w :: 128 word) k 32 \<Longrightarrow>
     agrees (range_set (range_set (x :: 96 word) 63 0 (range_get t 127 64 :: 64 word)) 95 64 (range_get w 31 0 :: 32 word)) k 24"
  by (rule agrees_8 [of t k 16 w, simplified]) (auto simp: bit_simps)

lemma block_residue1:
  "agrees (t :: 128 word) k 16 \<Longrightarrow> length k \<le> 32 \<Longrightarrow> agrees (range_set (x :: 96 word) 63 0 (range_get t 127 64 :: 64 word)) k 24"
  by (rule agrees_8 [of t k 16 0, simplified]) (auto simp: bit_simps)

lemma block_step3: "agrees (t :: 128 word) k 32 \<Longrightarrow> agrees (range_get t 127 32 :: 96 word) k 36"
proof -
  assume "agrees t k 32"
  then have "agrees (range_get t 127 32 :: 96 word) k (32 + 4)" by (rule agrees_get) simp_all
  then show ?thesis by simp
qed

lemmas block_agrees = block_first block_step1 block_residue block_step2 block_residue1 block_step3

text \<open>The blocks of the rest of a key.\<close>

lemma key_blocks_ConsI: "i + 12 < length k \<Longrightarrow> agrees p k i \<Longrightarrow> key_blocks (drop (i + 12) k) ps \<Longrightarrow> key_blocks (drop i k) (p # ps)"
  using key_blocks_Cons [of "drop i k" p ps] agrees_drop [of i k p 0] by (simp add: add.commute)

lemma key_blocks_lastI: "i < length k \<Longrightarrow> length k \<le> i + 12 \<Longrightarrow> agrees p k i \<Longrightarrow> key_blocks (drop i k) [p]"
  using key_blocks_one [of "drop i k" "[p]"] agrees_drop [of i k p 0] by simp

lemmas key_blocks_Cons_at = key_blocks_ConsI [of 0, simplified] key_blocks_ConsI [of 12, simplified] key_blocks_ConsI [of 24, simplified] key_blocks_ConsI [of 36, simplified]
lemmas key_blocks_last_at = key_blocks_lastI [of 0, simplified] key_blocks_lastI [of 12, simplified] key_blocks_lastI [of 24, simplified] key_blocks_lastI [of 36, simplified]

lemma resizer_first:
  "keyResizerState s = KS_STEP0 \<Longrightarrow> in2hash s = w # ws \<Longrightarrow> keyResizerLength s = of_nat x \<Longrightarrow> x < 256 \<Longrightarrow>
     hashKeyResizer s = s\<lparr>in2hash := ws, tempInput := w, resizedKeyOutput := range_get (hw_data w) 95 0, resizedKey := resizedKey s @ [range_get (hw_data w) 95 0],
       keyResizerState := if 12 < x then (if hw_EOP w = 1 then KS_RESIDUE else KS_STEP1) else KS_STEP0\<rparr>"
  by (simp add: hashKeyResizer_def put_block_def swrite_def less_of_nat_8s)

lemma resizer_second:
  assumes "keyResizerState s = KS_STEP1" and "in2hash s = w # ws" and "keyResizerLength s = of_nat x" and "x < 256" and "16 < x"
  shows "\<exists>p. hashKeyResizer s = s\<lparr>in2hash := ws, tempInput := w, resizedKeyOutput := p, resizedKey := resizedKey s @ [p], keyResizerLength := of_nat (x - 16),
       keyResizerState := if 24 < x then (if hw_EOP w = 1 then KS_RESIDUE1 else KS_STEP2) else KS_IDLE\<rparr> \<and>
     (agrees (hw_data (tempInput s)) k 0 \<longrightarrow> agrees (hw_data w) k 16 \<longrightarrow> agrees p k 12)"
proof -
  have "(8 :: 8 word) < of_nat (x - 16) \<longleftrightarrow> 8 < x - 16" by (rule less_of_nat_8s(3)) (use assms(4) in simp)
  then have "(8 :: 8 word) < of_nat x - 16 \<longleftrightarrow> 24 < x" using assms(5) by (simp add: less_diff_conv)
  then show ?thesis
    using assms(1-3,5) by (intro exI [of _ "resizedKeyOutput (hashKeyResizer s)"]) (simp add: hashKeyResizer_def put_block_def swrite_def Let_def block_step1)
qed

lemma resizer_third:
  assumes "keyResizerState s = KS_STEP2" and "in2hash s = w # ws" and "keyResizerLength s = of_nat x" and "x < 256" and "16 < x"
  shows "\<exists>p. hashKeyResizer s = s\<lparr>in2hash := ws, tempInput := w, resizedKeyOutput := p, resizedKey := resizedKey s @ [p], keyResizerLength := of_nat (x - 16),
       keyResizerState := if 20 < x then (if hw_EOP w = 1 then KS_RESIDUE2 else KS_STEP3) else KS_IDLE\<rparr> \<and>
     (agrees (hw_data (tempInput s)) k 16 \<longrightarrow> agrees (hw_data w) k 32 \<longrightarrow> agrees p k 24)"
proof -
  have "(4 :: 8 word) < of_nat (x - 16) \<longleftrightarrow> 4 < x - 16" by (rule less_of_nat_8s(2)) (use assms(4) in simp)
  then have "(4 :: 8 word) < of_nat x - 16 \<longleftrightarrow> 20 < x" using assms(5) by (simp add: less_diff_conv)
  then show ?thesis
    using assms(1-3,5) by (intro exI [of _ "resizedKeyOutput (hashKeyResizer s)"]) (simp add: hashKeyResizer_def put_block_def swrite_def Let_def block_step2)
qed

lemma resizer_fourth:
  assumes "keyResizerState s = KS_STEP3" and "keyResizerLength s = of_nat x" and "x < 256" and "16 < x"
  shows "\<exists>p. hashKeyResizer s = s\<lparr>resizedKeyOutput := p, resizedKey := resizedKey s @ [p], keyResizerLength := of_nat (x - 16), keyResizerState := KS_STEP0\<rparr> \<and>
     (agrees (hw_data (tempInput s)) k 32 \<longrightarrow> agrees p k 36)"
proof -
  have "(0 :: 8 word) < of_nat (x - 16) \<longleftrightarrow> 0 < x - 16" by (rule less_of_nat_8s(1)) (use assms(3) in simp)
  then have "(0 :: 8 word) < of_nat x - 16" using assms(4) by simp
  then show ?thesis
    using assms(1,2,4) by (intro exI [of _ "resizedKeyOutput (hashKeyResizer s)"]) (simp add: hashKeyResizer_def put_block_def swrite_def Let_def block_step3)
qed

lemma resizer_residues:
  "keyResizerState s = KS_RESIDUE \<Longrightarrow>
     \<exists>p. hashKeyResizer s = s\<lparr>resizedKeyOutput := p, resizedKey := resizedKey s @ [p], keyResizerState := KS_IDLE\<rparr> \<and>
       (agrees (hw_data (tempInput s)) k 0 \<longrightarrow> length k \<le> 16 \<longrightarrow> agrees p k 12)"
  "keyResizerState s = KS_RESIDUE1 \<Longrightarrow>
     \<exists>p. hashKeyResizer s = s\<lparr>resizedKeyOutput := p, resizedKey := resizedKey s @ [p], keyResizerState := KS_IDLE\<rparr> \<and>
       (agrees (hw_data (tempInput s)) k 16 \<longrightarrow> length k \<le> 32 \<longrightarrow> agrees p k 24)"
  "keyResizerState s = KS_RESIDUE2 \<Longrightarrow>
     \<exists>p. hashKeyResizer s = s\<lparr>resizedKeyOutput := p, resizedKey := resizedKey s @ [p], keyResizerState := KS_IDLE\<rparr> \<and>
       (agrees (hw_data (tempInput s)) k 32 \<longrightarrow> agrees p k 36)"
  by (rule exI [of _ "resizedKeyOutput (hashKeyResizer s)"], simp add: hashKeyResizer_def put_block_def swrite_def block_residue block_residue1 block_step3)+

lemma blocks_of_range:
  "0 < x \<Longrightarrow> x \<le> 12 \<Longrightarrow> blocks_of x = 1 \<and> stuck_length x"
  "12 < x \<Longrightarrow> x \<le> 24 \<Longrightarrow> blocks_of x = 2 \<and> \<not> stuck_length x"
  "24 < x \<Longrightarrow> x \<le> 36 \<Longrightarrow> blocks_of x = 3 \<and> \<not> stuck_length x"
  "36 < x \<Longrightarrow> x \<le> 48 \<Longrightarrow> blocks_of x = 4 \<and> \<not> stuck_length x"
  by (cases "x = 48"; auto simp: blocks_of_def stuck_length_def intro!: div_nat_eqI)+

lemma blocks_of_more: "48 < x \<Longrightarrow> blocks_of x = blocks_of (x - 48) + 4 \<and> (stuck_length x \<longleftrightarrow> stuck_length (x - 48))"
  by (auto simp: blocks_of_def stuck_length_def le_mod_geq [of 48 x] dest!: less_imp_add_positive)

text \<open>A key and a rest of a key are cut into their blocks, one in each cycle.\<close>

definition resized :: "8 word list \<Rightarrow> hashTableInternalWord list \<Rightarrow> resizer_st \<Rightarrow> resizer_st \<Rightarrow> bool" where
  "resized k rest s s' \<longleftrightarrow> (\<exists>ps. key_blocks k ps \<and> resizedKey s' = resizedKey s @ ps) \<and> in2hash s' = rest \<and>
     keyResizerState s' = (if stuck_length (length k) then KS_STEP0 else KS_IDLE) \<and>
     (stuck_length (length k) \<longrightarrow> keyResizerLength s' \<le> 12) \<and> in2hashKeyLength s' = in2hashKeyLength s \<and> resizedKeyLength s' = resizedKeyLength s \<and> resizedInitValue s' = resizedInitValue s"

lemma resizedI:
  "key_blocks k ps \<Longrightarrow> resizedKey s' = resizedKey s @ ps \<Longrightarrow> in2hash s' = rest \<Longrightarrow> keyResizerState s' = (if stuck_length (length k) then KS_STEP0 else KS_IDLE) \<Longrightarrow>
     (stuck_length (length k) \<Longrightarrow> keyResizerLength s' \<le> 12) \<Longrightarrow> in2hashKeyLength s' = in2hashKeyLength s \<Longrightarrow> resizedKeyLength s' = resizedKeyLength s \<Longrightarrow> resizedInitValue s' = resizedInitValue s \<Longrightarrow> resized k rest s s'"
  unfolding resized_def by blast

lemma resized_16:
  assumes "keyResizerState s = KS_STEP0" and "keyResizerLength s = of_nat (length k)" and "0 < length k" "length k \<le> 16"
    and "key_words k ws" and "in2hash s = ws @ rest"
  shows "resized k rest s ((hashKeyResizer ^^ blocks_of (length k)) s)"
proof -
  from assms(3-5) obtain w where w: "ws = [w]" "agrees (hw_data w) k 0" "hw_EOP w = 1" by (auto simp: key_words_one)
  let ?p = "range_get (hw_data w) 95 0 :: 96 word"
  note p = block_first [OF w(2)]
  have one: "hashKeyResizer s = s\<lparr>in2hash := rest, tempInput := w, resizedKeyOutput := ?p, resizedKey := resizedKey s @ [?p],
      keyResizerState := if 12 < length k then KS_RESIDUE else KS_STEP0\<rparr>"
    using resizer_first [of s w rest "length k"] assms w by simp
  show ?thesis
  proof (cases "length k \<le> 12")
    case True
    then have n: "blocks_of (length k) = 1" "stuck_length (length k)" using blocks_of_range(1) assms(3) by auto
    show ?thesis
      by (rule resizedI [of k "[?p]"]) (use True assms(2,3) one n p key_blocks_last_at(1) in \<open>simp_all add: word_le_nat_alt unat_of_nat take_bit_nat_eq_self\<close>)
  next
    case False
    then have n: "blocks_of (length k) = 2" "\<not> stuck_length (length k)" using blocks_of_range(2) assms(4) by auto
    from False one resizer_residues(1) [of "hashKeyResizer s" k] obtain q where
      q: "hashKeyResizer (hashKeyResizer s) = (hashKeyResizer s)\<lparr>resizedKeyOutput := q, resizedKey := resizedKey (hashKeyResizer s) @ [q], keyResizerState := KS_IDLE\<rparr>"
      "agrees q k 12"
      using w(2) assms(4) by auto
    have "key_blocks k [?p, q]" using False assms(4) p q(2) by (intro key_blocks_Cons_at key_blocks_last_at) simp_all
    then show ?thesis
      by (rule resizedI) (use one n q(1) False in \<open>simp_all add: numeral_2_eq_2\<close>)
  qed
qed

text \<open>The first two words of a longer key give its first two blocks.\<close>

lemma resizer_two:
  assumes "keyResizerState s = KS_STEP0" and "keyResizerLength s = of_nat (length k)" and "16 < length k" "length k < 256"
    and "agrees (hw_data v) k 0" "hw_EOP v \<noteq> 1" "agrees (hw_data w) k 16" and "in2hash s = v # w # ws"
  shows "\<exists>p q. agrees p k 0 \<and> agrees q k 12 \<and> (hashKeyResizer ^^ 2) s =
    s\<lparr>in2hash := ws, tempInput := w, resizedKeyOutput := q, resizedKey := resizedKey s @ [p, q], keyResizerLength := of_nat (length k - 16),
      keyResizerState := if 24 < length k then (if hw_EOP w = 1 then KS_RESIDUE1 else KS_STEP2) else KS_IDLE\<rparr>"
proof -
  let ?p = "range_get (hw_data v) 95 0 :: 96 word"
  let ?s1 = "s\<lparr>in2hash := w # ws, tempInput := v, resizedKeyOutput := ?p, resizedKey := resizedKey s @ [?p], keyResizerState := KS_STEP1\<rparr>"
  have one: "hashKeyResizer s = ?s1"
    using resizer_first [of s v "w # ws" "length k"] assms by simp
  obtain q where "hashKeyResizer ?s1 = ?s1\<lparr>in2hash := ws, tempInput := w, resizedKeyOutput := q, resizedKey := resizedKey ?s1 @ [q],
      keyResizerLength := of_nat (length k - 16),
      keyResizerState := if 24 < length k then (if hw_EOP w = 1 then KS_RESIDUE1 else KS_STEP2) else KS_IDLE\<rparr>" "agrees q k 12"
    using resizer_second [of ?s1 w ws "length k" k] assms by auto
  then show ?thesis
    using one block_first [OF assms(5)] by (intro exI [of _ ?p] exI [of _ q]) (simp add: numeral_2_eq_2)
qed

lemma resized_32:
  assumes "keyResizerState s = KS_STEP0" and "keyResizerLength s = of_nat (length k)" and "16 < length k" "length k \<le> 32"
    and "key_words k ws" and "in2hash s = ws @ rest"
  shows "resized k rest s ((hashKeyResizer ^^ blocks_of (length k)) s)"
proof -
  obtain v ws1 where "ws = v # ws1" using assms(3,5) by (cases ws) (auto simp: key_words_def)
  with assms(3,5) have v: "ws = v # ws1" "agrees (hw_data v) k 0" "hw_EOP v \<noteq> 1" "key_words (drop 16 k) ws1" by (simp_all add: key_words_Cons)
  from this(4) assms(3,4) obtain w where "ws1 = [w]" "agrees (hw_data w) k 16" "hw_EOP w = 1" by (auto simp: key_words_one agrees_drop)
  with resizer_two [of s k v w rest] v assms obtain p q where pq: "agrees p k 0" "agrees q k 12" and
    two: "(hashKeyResizer ^^ 2) s = s\<lparr>in2hash := rest, tempInput := w, resizedKeyOutput := q, resizedKey := resizedKey s @ [p, q],
      keyResizerLength := of_nat (length k - 16), keyResizerState := if 24 < length k then KS_RESIDUE1 else KS_IDLE\<rparr>"
    by auto
  show ?thesis
  proof (cases "length k \<le> 24")
    case True
    then have n: "blocks_of (length k) = 2" "\<not> stuck_length (length k)" using blocks_of_range(2) assms(3) by auto
    have "key_blocks k [p, q]" using True assms(3) pq by (intro key_blocks_Cons_at key_blocks_last_at) simp_all
    then show ?thesis by (rule resizedI) (use True two n in simp_all)
  next
    case False
    then have n: "blocks_of (length k) = Suc 2" "\<not> stuck_length (length k)" using blocks_of_range(3) assms(4) by auto
    let ?s2 = "(hashKeyResizer ^^ 2) s"
    obtain r where r: "hashKeyResizer ?s2 = ?s2\<lparr>resizedKeyOutput := r, resizedKey := resizedKey ?s2 @ [r], keyResizerState := KS_IDLE\<rparr>" "agrees r k 24"
      using resizer_residues(2) [of ?s2 k] False assms(4) two \<open>agrees (hw_data w) k 16\<close> by auto
    have "key_blocks k [p, q, r]" using False assms(4) pq r(2) by (intro key_blocks_Cons_at key_blocks_last_at) simp_all
    moreover have "(hashKeyResizer ^^ blocks_of (length k)) s = ?s2\<lparr>resizedKeyOutput := r, resizedKey := resizedKey ?s2 @ [r], keyResizerState := KS_IDLE\<rparr>"
      by (simp only: n(1) funpow.simps comp_def r(1))
    ultimately show ?thesis by (intro resizedI) (simp_all add: two n(2))
  qed
qed

lemma resizer_three:
  assumes "keyResizerState s = KS_STEP0" and "keyResizerLength s = of_nat (length k)" and "32 < length k" "length k < 256"
    and "key_words k ws" and "in2hash s = ws @ rest"
  shows "\<exists>p q r w ws'. agrees p k 0 \<and> agrees q k 12 \<and> agrees r k 24 \<and> key_words (drop 32 k) (w # ws') \<and> agrees (hw_data w) k 32 \<and> (hashKeyResizer ^^ 3) s =
    s\<lparr>in2hash := ws' @ rest, tempInput := w, resizedKeyOutput := r, resizedKey := resizedKey s @ [p, q, r], keyResizerLength := of_nat (length k - 32),
      keyResizerState := if 36 < length k then (if hw_EOP w = 1 then KS_RESIDUE2 else KS_STEP3) else KS_IDLE\<rparr>"
proof -
  have "3 \<le> length ws" using assms(3,5) by (simp add: key_words_def)
  then obtain v u w ws' where "ws = v # u # w # ws'" by (auto simp: numeral_3_eq_3 Suc_le_length_iff)
  with assms(3,5) have w: "ws = v # u # w # ws'" "agrees (hw_data v) k 0" "hw_EOP v \<noteq> 1" "agrees (hw_data u) k 16" "hw_EOP u \<noteq> 1" "key_words (drop 32 k) (w # ws')"
    by (simp_all add: key_words_Cons agrees_drop)
  then have w2: "agrees (hw_data w) k 32" using assms(3) by (auto simp: key_words_def agrees_drop)
  obtain p q where pq: "agrees p k 0" "agrees q k 12" and
    two: "(hashKeyResizer ^^ 2) s = s\<lparr>in2hash := w # ws' @ rest, tempInput := u, resizedKeyOutput := q, resizedKey := resizedKey s @ [p, q],
      keyResizerLength := of_nat (length k - 16), keyResizerState := KS_STEP2\<rparr>"
    using resizer_two [of s k v u "w # ws' @ rest"] w assms by auto
  let ?s2 = "(hashKeyResizer ^^ 2) s"
  have len: "length k - 16 < 256" "16 < length k - 16" using assms(3,4) by linarith+
  obtain r where "hashKeyResizer ?s2 = ?s2\<lparr>in2hash := ws' @ rest, tempInput := w, resizedKeyOutput := r, resizedKey := resizedKey ?s2 @ [r],
      keyResizerLength := of_nat (length k - 16 - 16),
      keyResizerState := if 20 < length k - 16 then (if hw_EOP w = 1 then KS_RESIDUE2 else KS_STEP3) else KS_IDLE\<rparr>" "agrees r k 24"
    using resizer_third [of ?s2 w "ws' @ rest" "length k - 16" k, OF _ _ _ len] two w(4) w2 by auto
  moreover have "(hashKeyResizer ^^ 3) s = hashKeyResizer ?s2" by (simp only: numeral_3_eq_3 numeral_2_eq_2 funpow.simps comp_def)
  ultimately have "(hashKeyResizer ^^ 3) s = s\<lparr>in2hash := ws' @ rest, tempInput := w, resizedKeyOutput := r, resizedKey := resizedKey s @ [p, q, r],
      keyResizerLength := of_nat (length k - 32), keyResizerState := if 36 < length k then (if hw_EOP w = 1 then KS_RESIDUE2 else KS_STEP3) else KS_IDLE\<rparr>"
    using two by (simp add: less_diff_conv)
  with \<open>agrees r k 24\<close> pq w(6) w2 show ?thesis by blast
qed

lemma resizer_key:
  "keyResizerState s = KS_STEP0 \<Longrightarrow> keyResizerLength s = of_nat (length k) \<Longrightarrow> 0 < length k \<Longrightarrow> length k < 256 \<Longrightarrow> key_words k ws \<Longrightarrow> in2hash s = ws @ rest \<Longrightarrow>
     resized k rest s ((hashKeyResizer ^^ blocks_of (length k)) s)"
proof (induction k arbitrary: s ws rule: length_induct)
  case (1 k)
  consider "length k \<le> 16" | "16 < length k" "length k \<le> 32" | "32 < length k" by linarith
  then show ?case
  proof cases
    case 3
    from resizer_three [OF "1.prems"(1,2) 3 "1.prems"(4-6)] obtain p q r w ws' where
      pqr: "agrees p k 0" "agrees q k 12" "agrees r k 24" "key_words (drop 32 k) (w # ws')" "agrees (hw_data w) k 32" and
      three: "(hashKeyResizer ^^ 3) s = s\<lparr>in2hash := ws' @ rest, tempInput := w, resizedKeyOutput := r, resizedKey := resizedKey s @ [p, q, r],
        keyResizerLength := of_nat (length k - 32), keyResizerState := if 36 < length k then (if hw_EOP w = 1 then KS_RESIDUE2 else KS_STEP3) else KS_IDLE\<rparr>"
      by blast
    let ?s3 = "(hashKeyResizer ^^ 3) s"
    show ?thesis
    proof (cases "length k \<le> 48")
      case True
      then have w: "ws' = []" "hw_EOP w = 1" using pqr(4) 3 by (auto simp: key_words_one)
      show ?thesis
      proof (cases "length k \<le> 36")
        case True
        then have n: "blocks_of (length k) = 3" "\<not> stuck_length (length k)" using blocks_of_range(3) 3 by auto
        have "key_blocks k [p, q, r]" using True 3 pqr by (intro key_blocks_Cons_at key_blocks_last_at) simp_all
        then show ?thesis by (rule resizedI) (use True three n w in simp_all)
      next
        case False
        then have n: "blocks_of (length k) = Suc 3" "\<not> stuck_length (length k)" using blocks_of_range(4) True by auto
        obtain u where u: "hashKeyResizer ?s3 = ?s3\<lparr>resizedKeyOutput := u, resizedKey := resizedKey ?s3 @ [u], keyResizerState := KS_IDLE\<rparr>" "agrees u k 36"
          using resizer_residues(3) [of ?s3 k] False three w pqr(5) by auto
        have "key_blocks k [p, q, r, u]" using False True pqr u(2) by (intro key_blocks_Cons_at key_blocks_last_at) simp_all
        moreover have "(hashKeyResizer ^^ blocks_of (length k)) s = ?s3\<lparr>resizedKeyOutput := u, resizedKey := resizedKey ?s3 @ [u], keyResizerState := KS_IDLE\<rparr>"
          by (simp only: n(1) funpow.simps comp_def u(1))
        ultimately show ?thesis by (intro resizedI) (simp_all add: three n(2) w)
      qed
    next
      case False
      then have w: "hw_EOP w \<noteq> 1" "key_words (drop 48 k) ws'" using pqr(4) by (simp_all add: key_words_Cons)
      have len: "length k - 32 < 256" "16 < length k - 32" using False "1.prems"(4) by linarith+
      obtain u where u: "hashKeyResizer ?s3 = ?s3\<lparr>resizedKeyOutput := u, resizedKey := resizedKey ?s3 @ [u],
          keyResizerLength := of_nat (length k - 32 - 16), keyResizerState := KS_STEP0\<rparr>" "agrees u k 36"
        using resizer_fourth [of ?s3 "length k - 32" k, OF _ _ len] three False w(1) pqr(5) by auto
      let ?s4 = "hashKeyResizer ?s3"
      have s4: "keyResizerState ?s4 = KS_STEP0" "keyResizerLength ?s4 = of_nat (length (drop 48 k))" "in2hash ?s4 = ws' @ rest" "resizedKey ?s4 = resizedKey s @ [p, q, r, u]"
        "in2hashKeyLength ?s4 = in2hashKeyLength s" "resizedKeyLength ?s4 = resizedKeyLength s" "resizedInitValue ?s4 = resizedInitValue s"
        unfolding u(1) using three False by simp_all
      from False "1.prems"(4) have "resized (drop 48 k) rest ?s4 ((hashKeyResizer ^^ blocks_of (length (drop 48 k))) ?s4)"
        by (intro "1.IH" [rule_format, of "drop 48 k" ?s4 ws'] w(2) s4) simp_all
      then obtain ps where ps: "key_blocks (drop 48 k) ps" "resizedKey ((hashKeyResizer ^^ blocks_of (length (drop 48 k))) ?s4) = resizedKey ?s4 @ ps"
        and re: "resized (drop 48 k) rest ?s4 ((hashKeyResizer ^^ blocks_of (length (drop 48 k))) ?s4)"
        unfolding resized_def by blast
      have n: "blocks_of (length k) = blocks_of (length (drop 48 k)) + Suc 3" "stuck_length (length k) \<longleftrightarrow> stuck_length (length (drop 48 k))"
        using blocks_of_more [of "length k"] False by simp_all
      have f: "(hashKeyResizer ^^ blocks_of (length k)) s = (hashKeyResizer ^^ blocks_of (length (drop 48 k))) ?s4"
        by (simp only: n(1) funpow_add funpow.simps comp_def)
      have "key_blocks k ([p, q, r, u] @ ps)" using False pqr u(2) ps(1) by (simp add: key_blocks_Cons_at)
      then show ?thesis
        unfolding f using ps(2) re n(2) by (intro resizedI) (simp_all add: resized_def s4)
    qed
  qed (use resized_16 resized_32 1 in blast)+
qed

text \<open>From the idle state; a key of up to 12 bytes is one block and leaves the unit idle.\<close>

definition hang_length :: "nat \<Rightarrow> bool" where
  "hang_length x \<longleftrightarrow> 48 < x \<and> stuck_length x"

lemma resizer_idle:
  assumes "keyResizerState s = KS_IDLE" and "in2hashKeyLength s = of_nat (length k) # lens" and "in2hash s = ws @ rest" and "key_words k ws"
    and "0 < length k" "length k < 256"
  shows "\<exists>ps s'. (hashKeyResizer ^^ blocks_of (length k)) s = s' \<and> key_blocks k ps \<and> resizedKey s' = resizedKey s @ ps \<and>
    resizedKeyLength s' = resizedKeyLength s @ [of_nat (length k)] \<and> resizedInitValue s' = resizedInitValue s @ [hashFunctionSeed] \<and>
    in2hash s' = rest \<and> in2hashKeyLength s' = lens \<and> keyResizerState s' = (if hang_length (length k) then KS_STEP0 else KS_IDLE) \<and>
    (hang_length (length k) \<longrightarrow> keyResizerLength s' \<le> 12)"
proof -
  let ?t = "s\<lparr>keyResizerState := KS_STEP0, keyResizerLength := of_nat (length k), in2hashKeyLength := lens,
    resizedKeyLength := resizedKeyLength s @ [of_nat (length k)], resizedInitValue := resizedInitValue s @ [hashFunctionSeed]\<rparr>"
  have u: "ucast (of_nat (length k) :: 8 word) = (of_nat (length k) :: 32 word)" using assms(6) by (simp add: unsigned_of_nat take_bit_nat_eq_self)
  obtain w ws' where ws: "ws = w # ws'"
    by (cases ws) (use assms(4,5) in \<open>auto simp: key_words_def div_eq_0_iff simp flip: length_greater_0_conv\<close>)
  show ?thesis
  proof (cases "length k \<le> 12")
    case True
    then have w: "ws' = []" "agrees (hw_data w) k 0" using assms(4,5) ws by (auto simp: key_words_one)
    have n: "blocks_of (length k) = 1" "\<not> hang_length (length k)" using blocks_of_range(1) True assms(5) by (auto simp: hang_length_def)
    have "key_blocks k [range_get (hw_data w) 95 0]" using True assms(5) block_first [OF w(2)] by (simp add: key_blocks_last_at)
    then show ?thesis using n assms(1-3,6) ws w(1) u True
      by (intro exI [of _ "[range_get (hw_data w) 95 0]"]) (simp add: hashKeyResizer_def put_block_def swrite_def Let_def less_of_nat_8s)
  next
    case False
    have "hashKeyResizer s = hashKeyResizer ?t"
      using assms(1-3,6) ws u False by (simp add: hashKeyResizer_def put_block_def swrite_def Let_def less_of_nat_8s)
    moreover have "0 < blocks_of (length k)" using assms(5) by (simp add: blocks_of_def div_greater_zero_iff flip: length_greater_0_conv)
    then obtain m where "blocks_of (length k) = Suc m" using gr0_implies_Suc by blast
    ultimately have "(hashKeyResizer ^^ blocks_of (length k)) s = (hashKeyResizer ^^ blocks_of (length k)) ?t" by (simp add: funpow_swap1)
    moreover have "resized k rest ?t ((hashKeyResizer ^^ blocks_of (length k)) ?t)" by (rule resizer_key [where ws = ws]) (use assms in simp_all)
    moreover have "hang_length (length k) \<longleftrightarrow> stuck_length (length k)"
      using False blocks_of_range(2-4) [of "length k"] by (cases "length k \<le> 24"; cases "length k \<le> 36"; cases "length k \<le> 48") (auto simp: hang_length_def)
    ultimately show ?thesis unfolding resized_def by auto
  qed
qed

section \<open>The unit\<close>

definition bobj_ready :: "bobj_st \<Rightarrow> bool" where
  "bobj_ready s \<longleftrightarrow>
     (case hashState s of
        HASH_IDLE \<Rightarrow> bj_lengthStream s \<noteq> [] \<and> bj_initvalStream s \<noteq> []
      | HASH_ACC_1 \<Rightarrow> bj_key s \<noteq> []
      | HASH_FINAL \<Rightarrow> bj_length s = 0 \<or> bj_key s \<noteq> []
      | _ \<Rightarrow> True)"

definition resizer_arrive :: "hashTableInternalWord list \<times> 8 word list \<Rightarrow> resizer_st \<Rightarrow> resizer_st" where
  "resizer_arrive = (\<lambda>(ws, lens) s. s\<lparr>in2hash := in2hash s @ ws, in2hashKeyLength := in2hashKeyLength s @ lens\<rparr>)"

definition resizer_ready :: "resizer_st \<Rightarrow> bool" where
  "resizer_ready s \<longleftrightarrow>
     (case keyResizerState s of
        KS_IDLE \<Rightarrow> in2hash s \<noteq> [] \<and> in2hashKeyLength s \<noteq> []
      | KS_STEP1 \<Rightarrow> in2hash s \<noteq> []
      | KS_STEP2 \<Rightarrow> in2hash s \<noteq> []
      | KS_STEP0 \<Rightarrow> in2hash s \<noteq> []
      | _ \<Rightarrow> True)"

definition resizer_outs :: "resizer_st \<Rightarrow> 96 word list \<times> 32 word list \<times> 32 word list" where
  "resizer_outs s = (resizedKey s, resizedKeyLength s, resizedInitValue s)"

definition resizer_clear :: "resizer_st \<Rightarrow> resizer_st" where
  "resizer_clear s = s\<lparr>resizedKey := [], resizedKeyLength := [], resizedInitValue := []\<rparr>"

lemma bobj_arrive_simps:
  "mix_a n (bobj_arrive q s) = bobj_arrive q (mix_a n s)" "mix_b n (bobj_arrive q s) = bobj_arrive q (mix_b n s)"
  "mix_c n (bobj_arrive q s) = bobj_arrive q (mix_c n s)" "final_a n (bobj_arrive q s) = bobj_arrive q (final_a n s)"
  "final_b n (bobj_arrive q s) = bobj_arrive q (final_b n s)" "final_c n (bobj_arrive q s) = bobj_arrive q (final_c n s)"
  "add_abc x y z (bobj_arrive q s) = bobj_arrive q (add_abc x y z s)"
  "(bobj_arrive q s)\<lparr>hashState := h\<rparr> = bobj_arrive q (s\<lparr>hashState := h\<rparr>)" "(bobj_arrive q s)\<lparr>bj_length := len\<rparr> = bobj_arrive q (s\<lparr>bj_length := len\<rparr>)"
  "(bobj_arrive q s)\<lparr>bj_hashOut := out\<rparr> = bobj_arrive q (s\<lparr>bj_hashOut := out\<rparr>)"
  "hashState (bobj_arrive q s) = hashState s" "bj_length (bobj_arrive q s) = bj_length s" "bj_hashOut (bobj_arrive q s) = bj_hashOut s" "bj_c (bobj_arrive q s) = bj_c s"
  by (simp_all add: mix_steps bobj_arrive_def split_beta)

lemma add_last_arrive: "add_last len w (bobj_arrive q s) = bobj_arrive q (add_last len w s)"
  by (simp add: add_last_def bobj_arrive_simps)

lemma bobj_arrive_queues:
  "bj_key (bobj_arrive q s) = bj_key s @ fst q" "bj_lengthStream (bobj_arrive q s) = bj_lengthStream s @ fst (snd q)"
  "bj_initvalStream (bobj_arrive q s) = bj_initvalStream s @ snd (snd q)" "(bobj_arrive q s)\<lparr>bj_key := ws @ fst q\<rparr> = bobj_arrive q (s\<lparr>bj_key := ws\<rparr>)"
  "(bobj_arrive q s)\<lparr>bj_key := w # ws @ fst q\<rparr> = bobj_arrive q (s\<lparr>bj_key := w # ws\<rparr>)"
  by (simp_all add: bobj_arrive_def split_beta)

lemma bobj_arrive_ready: "bobj_ready s \<Longrightarrow> bobj (bobj_arrive q s) = bobj_arrive q (bobj s)"
proof (cases "hashState s")
  case HASH_IDLE
  then show "bobj_ready s \<Longrightarrow> ?thesis" by (auto simp: bobj_ready_def neq_Nil_conv bobj_def bobj_arrive_def Let_def split_beta)
next
  case HASH_ACC_1
  then show "bobj_ready s \<Longrightarrow> ?thesis" by (auto simp: bobj_ready_def neq_Nil_conv bobj_def bobj_arrive_simps bobj_arrive_queues)
next
  case HASH_FINAL
  then show "bobj_ready s \<Longrightarrow> ?thesis"
    by (auto simp: bobj_ready_def neq_Nil_conv bobj_def bobj_arrive_simps bobj_arrive_queues add_last_arrive)
qed (simp_all add: bobj_def bobj_arrive_simps Let_def)

interpretation mixer: polling_stage bobj bobj_arrive bobj_ready
proof
  fix s q
  show "\<not> bobj_ready s \<Longrightarrow> bobj s = s" by (cases "hashState s") (auto simp: bobj_ready_def bobj_def split: list.split)
  show "bobj_ready s \<Longrightarrow> bobj_ready (bobj_arrive q s)" by (cases "hashState s") (auto simp: bobj_ready_def bobj_arrive_simps bobj_arrive_queues)
qed (rule bobj_arrive_ready)

lemmas resizer_defs = hashKeyResizer_def resizer_ready_def resizer_arrive_def resizer_outs_def resizer_clear_def put_block_def append3_def swrite_def

interpretation cutter: polling_stage hashKeyResizer resizer_arrive resizer_ready
proof
  fix s q
  show "\<not> resizer_ready s \<Longrightarrow> hashKeyResizer s = s" by (cases "keyResizerState s") (auto simp: resizer_ready_def hashKeyResizer_def split: list.split)
  show "resizer_ready s \<Longrightarrow> resizer_ready (resizer_arrive q s)" by (cases "keyResizerState s") (auto simp: resizer_ready_def resizer_arrive_def split_beta)
  show "resizer_ready s \<Longrightarrow> hashKeyResizer (resizer_arrive q s) = resizer_arrive q (hashKeyResizer s)"
    by (cases "keyResizerState s") (auto simp: resizer_defs neq_Nil_conv split_beta Let_def)
qed

lemma resizer_clear_step:
  "resizer_clear (hashKeyResizer (resizer_clear s)) = resizer_clear (hashKeyResizer s)"
  "resizer_outs (hashKeyResizer s) = append3 (resizer_outs s) (resizer_outs (hashKeyResizer (resizer_clear s)))"
  by (cases "keyResizerState s"; auto simp: resizer_defs Let_def split: list.split)+

interpretation cutter: stream_stage hashKeyResizer resizer_arrive resizer_ready append2 "([], [])" resizer_outs resizer_clear append3 "([], [], [])"
  by unfold_locales (rule resizer_clear_step | force simp: resizer_outs_def resizer_clear_def resizer_arrive_def append2_def append3_def)+

definition bobj_clear :: "bobj_st \<Rightarrow> bobj_st" where
  "bobj_clear b = b\<lparr>bj_hashOut := []\<rparr>"

lemma bobj_clear_step:
  "bobj_clear (bobj (bobj_clear b)) = bobj_clear (bobj b)" "bj_hashOut (bobj b) = bj_hashOut b @ bj_hashOut (bobj (bobj_clear b))"
  by (cases "hashState b"; auto simp: bobj_def bobj_clear_def mix_steps add_last_def swrite_def Let_def split: list.split)+

interpretation mixer: stream_stage bobj bobj_arrive bobj_ready append3 "([], [], [])" bj_hashOut bobj_clear "(@)" "[]"
  by unfold_locales (rule bobj_clear_step | force simp: bobj_clear_def bobj_arrive_def append3_def)+

text \<open>Both stages on a list of keys.\<close>

definition key_ok :: "8 word list \<Rightarrow> bool" where
  "key_ok k \<longleftrightarrow> 0 < length k \<and> length k < 256"

definition key_lens :: "8 word list list \<Rightarrow> 'a::len word list" where
  "key_lens ks = map (\<lambda>k. of_nat (length k)) ks"

definition all_blocks :: "8 word list list \<Rightarrow> nat" where
  "all_blocks ks = sum_list (map (\<lambda>k. blocks_of (length k)) ks)"

lemma key_lens_simps [simp]: "key_lens [] = []" "key_lens (k # ks) = of_nat (length k) # key_lens ks"
  by (simp_all add: key_lens_def)

lemma all_blocks_simps [simp]: "all_blocks [] = 0" "all_blocks (k # ks) = blocks_of (length k) + all_blocks ks"
  by (simp_all add: all_blocks_def)

lemma length_key_blocks: "key_blocks k ps \<Longrightarrow> length ps = blocks_of (length k)"
  by (simp add: key_blocks_def blocks_of_def)

lemma bobj_one_key:
  assumes "hashState s = HASH_IDLE" and "bj_key s = ps @ rest" and "bj_lengthStream s = of_nat (length k) # lens" and "bj_initvalStream s = hashFunctionSeed # inits"
    and "key_blocks k ps" and "key_ok k"
  shows "\<exists>s'. (bobj ^^ (4 * blocks_of (length k) + 2)) s = s' \<and> hashState s' = HASH_IDLE \<and> bj_key s' = rest \<and> bj_lengthStream s' = lens \<and> bj_initvalStream s' = inits \<and>
    bj_hashOut s' = bj_hashOut s @ [hashlittle k hashFunctionSeed]"
proof -
  have len: "length k < 2 ^ 32" using assms(6) by (simp add: key_ok_def)
  have u: "ucast (of_nat (length k) :: 32 word) = (of_nat (length k) :: 64 word)" using len by (simp add: unsigned_of_nat take_bit_nat_eq_self)
  let ?x = "0xdeadbeef + of_nat (length k) + hashFunctionSeed :: 32 word"
  let ?s = "s\<lparr>bj_lengthStream := lens, bj_initvalStream := inits, bj_length := of_nat (length k), bj_a := ?x, bj_b := ?x, bj_c := ?x,
    hashState := if 12 < length k then HASH_ACC_1 else HASH_FINAL\<rparr>"
  have one: "bobj s = ?s" using assms(1,3,4) u less_of_nat_12 [OF len] by (simp add: bobj_def Let_def)
  have "at_key (length k) ?s" using len by (simp add: at_key_def)
  from bobj_key [OF this _ assms(5)] assms(2) obtain t l where
    "(bobj ^^ (4 * length ps + 1)) ?s = with_abc t (?s\<lparr>bj_key := rest, bj_length := l, hashState := HASH_IDLE,
       bj_hashOut := bj_hashOut s @ [hashlittle_loop k (abc_of ?s)]\<rparr>)" by auto
  moreover have "(bobj ^^ (4 * blocks_of (length k) + 2)) s = (bobj ^^ (4 * length ps + 1)) (bobj s)"
    by (simp add: length_key_blocks [OF assms(5)] funpow_swap1)
  moreover have "hashlittle k hashFunctionSeed = hashlittle_loop k (abc_of ?s)" by (simp add: hashlittle_def abc_of_def Let_def)
  ultimately show ?thesis by (simp add: one) (simp add: with_abc_def)
qed

lemma bobj_all_keys:
  "list_all2 key_blocks ks pss \<Longrightarrow> list_all key_ok ks \<Longrightarrow> hashState s = HASH_IDLE \<Longrightarrow> bj_key s = concat pss \<Longrightarrow>
     bj_lengthStream s = key_lens ks \<Longrightarrow> bj_initvalStream s = replicate (length ks) hashFunctionSeed \<Longrightarrow>
     \<exists>s'. (bobj ^^ (4 * all_blocks ks + 2 * length ks)) s = s' \<and> hashState s' = HASH_IDLE \<and> bj_lengthStream s' = [] \<and>
       bj_hashOut s' = bj_hashOut s @ map (\<lambda>k. hashlittle k hashFunctionSeed) ks"
proof (induction ks pss arbitrary: s rule: list_all2_induct)
  case (Cons k ks ps pss)
  from bobj_one_key [of s ps "concat pss" k "key_lens ks" "replicate (length ks) hashFunctionSeed"] Cons.prems Cons.hyps(1) obtain s1 where
    s1: "(bobj ^^ (4 * blocks_of (length k) + 2)) s = s1" "hashState s1 = HASH_IDLE" "bj_key s1 = concat pss" "bj_lengthStream s1 = key_lens ks"
      "bj_initvalStream s1 = replicate (length ks) hashFunctionSeed" "bj_hashOut s1 = bj_hashOut s @ [hashlittle k hashFunctionSeed]"
    by auto
  have n: "4 * all_blocks (k # ks) + 2 * length (k # ks) = (4 * all_blocks ks + 2 * length ks) + (4 * blocks_of (length k) + 2)" by simp
  have "(bobj ^^ (4 * all_blocks (k # ks) + 2 * length (k # ks))) s = (bobj ^^ (4 * all_blocks ks + 2 * length ks)) s1"
    unfolding n funpow_add [of "4 * all_blocks ks + 2 * length ks"] comp_apply s1(1) ..
  then show ?case using Cons.IH [OF _ s1(2-5)] Cons.prems(1) s1(6) by auto
qed simp

lemma resizer_all_keys:
  "list_all2 key_words ks wss \<Longrightarrow> list_all key_ok ks \<Longrightarrow> list_all (\<lambda>k. \<not> hang_length (length k)) (butlast ks) \<Longrightarrow> keyResizerState s = KS_IDLE \<Longrightarrow>
     in2hash s = concat wss \<Longrightarrow> in2hashKeyLength s = key_lens ks \<Longrightarrow>
     \<exists>pss s'. list_all2 key_blocks ks pss \<and> (hashKeyResizer ^^ all_blocks ks) s = s' \<and> hashKeyResizer s' = s' \<and>
       resizer_outs s' = append3 (resizer_outs s) (concat pss, key_lens ks, replicate (length ks) hashFunctionSeed) \<and>
       (ks \<noteq> [] \<longrightarrow> hang_length (length (last ks)) \<longrightarrow> keyResizerState s' = KS_STEP0 \<and> keyResizerLength s' \<le> 12)"
proof (induction ks wss arbitrary: s rule: list_all2_induct)
  case Nil
  then show ?case by (simp add: hashKeyResizer_def append3_def split: prod.split)
next
  case (Cons k ks ws wss)
  from resizer_idle [of s k "key_lens ks" ws "concat wss"] Cons.prems Cons.hyps(1) obtain ps s1 where
    s1: "(hashKeyResizer ^^ blocks_of (length k)) s = s1" "key_blocks k ps" "resizedKey s1 = resizedKey s @ ps" "resizedKeyLength s1 = resizedKeyLength s @ [of_nat (length k)]"
      "resizedInitValue s1 = resizedInitValue s @ [hashFunctionSeed]" "in2hash s1 = concat wss" "in2hashKeyLength s1 = key_lens ks"
      "keyResizerState s1 = (if hang_length (length k) then KS_STEP0 else KS_IDLE)" "hang_length (length k) \<longrightarrow> keyResizerLength s1 \<le> 12"
    by (auto simp: key_ok_def)
  show ?case
  proof (cases "ks = []")
    case True
    with Cons.hyps(2) have "wss = []" by simp
    with True s1(6-8) have "hashKeyResizer s1 = s1" by (simp add: hashKeyResizer_def)
    with True s1 show ?thesis
      by (intro exI [of _ "[ps]"] exI [of _ s1]) (simp add: resizer_outs_def append3_def)
  next
    case False
    then have "keyResizerState s1 = KS_IDLE" using Cons.prems(2) s1(8) by simp
    from Cons.IH [OF _ _ this s1(6,7)] Cons.prems(1,2) False obtain pss s' where
      s': "list_all2 key_blocks ks pss" "(hashKeyResizer ^^ all_blocks ks) s1 = s'" "hashKeyResizer s' = s'"
        "resizer_outs s' = append3 (resizer_outs s1) (concat pss, key_lens ks, replicate (length ks) hashFunctionSeed)"
        "hang_length (length (last ks)) \<longrightarrow> keyResizerState s' = KS_STEP0 \<and> keyResizerLength s' \<le> 12"
      by auto
    have "(hashKeyResizer ^^ all_blocks (k # ks)) s = s'"
      using s1(1) s'(2) by (simp add: add.commute [of "blocks_of (length k)"] funpow_add)
    with s1(2-5) s'(1,3-5) False show ?thesis
      by (intro exI [of _ "ps # pss"] exI [of _ s']) (simp add: resizer_outs_def append3_def)
  qed
qed

definition resizer_reset :: resizer_st where
  "resizer_reset = \<lparr>in2hash = [], in2hashKeyLength = [], resizedKey = [], resizedKeyLength = [], resizedInitValue = [],
     keyResizerState = KS_IDLE, keyResizerLength = 0, resizedKeyOutput = 0, tempInput = \<lparr>hw_data = 0, hw_SOP = 0, hw_EOP = 0\<rparr>\<rparr>"

definition bobj_reset :: bobj_st where
  "bobj_reset = \<lparr>bj_key = [], bj_lengthStream = [], bj_initvalStream = [], bj_hashOut = [], hashState = HASH_IDLE, bj_a = 0, bj_b = 0, bj_c = 0, bj_length = 0\<rparr>"

text \<open>The unit with words and lengths of keys arriving, and the values it puts out in each cycle.\<close>

primrec hash_run :: "(nat \<Rightarrow> hashTableInternalWord list \<times> 8 word list) \<Rightarrow> nat \<Rightarrow> resizer_st \<times> bobj_st" where
  "hash_run q 0 = (resizer_reset, bobj_reset)"
| "hash_run q (Suc t) = (case hash_run q t of (r, b) \<Rightarrow> mc_hash (resizer_arrive (q t) r, b))"

text \<open>What is in the output stream is never taken here: the mixer is run without handing on.\<close>

abbreviation cut_blocks :: "(nat \<Rightarrow> hashTableInternalWord list \<times> 8 word list) \<Rightarrow> nat \<Rightarrow> 96 word list \<times> 32 word list \<times> 32 word list" where
  "cut_blocks q \<equiv> emitted hashKeyResizer resizer_arrive resizer_clear resizer_outs q resizer_reset"

lemma hash_run_stages:
  "hash_run q t = (drained hashKeyResizer resizer_arrive resizer_clear q resizer_reset t, mixer.kept (cut_blocks q) bobj_reset t)"
  by (induction t) (simp_all add: mixer.kept_simps mc_hash_def emitted_def resizer_outs_def resizer_clear_def Let_def)

lemma hash_run_cong: "(\<And>i. i < t \<Longrightarrow> q i = q' i) \<Longrightarrow> hash_run q t = hash_run q' t"
  by (induction t) simp_all

definition sends_keys :: "(nat \<Rightarrow> hashTableInternalWord list \<times> 8 word list) \<Rightarrow> nat \<Rightarrow> 8 word list list \<Rightarrow> bool" where
  "sends_keys q T ks \<longleftrightarrow> (\<exists>wss. list_all2 key_words ks wss \<and> delivers append2 ([], []) q T (concat wss, map (\<lambda>k. of_nat (length k)) ks))"

lemma hash_unit_run:
  assumes "list_all key_ok ks" and "list_all (\<lambda>k. \<not> hang_length (length k)) (butlast ks)" and "sends_keys q T ks" and "T + 5 * all_blocks ks + 2 * length ks \<le> t"
  shows "\<exists>r b. hash_run q t = (r, b) \<and> bj_hashOut b = map (\<lambda>k. hashlittle k hashFunctionSeed) ks \<and>
    hashState b = HASH_IDLE \<and> bj_lengthStream b = [] \<and> resizer_outs r = ([], [], []) \<and>
    (ks \<noteq> [] \<longrightarrow> hang_length (length (last ks)) \<longrightarrow> keyResizerState r = KS_STEP0 \<and> keyResizerLength r \<le> 12)"
proof -
  from assms(3) obtain wss where wss: "list_all2 key_words ks wss" and q: "delivers append2 ([], []) q T (concat wss, key_lens ks)"
    by (auto simp: sends_keys_def key_lens_def)
  let ?a = "resizer_arrive (concat wss, key_lens ks) resizer_reset"
  have a: "keyResizerState ?a = KS_IDLE" "in2hash ?a = concat wss" "in2hashKeyLength ?a = key_lens ks" "resizer_outs ?a = ([], [], [])"
    by (simp_all add: resizer_arrive_def resizer_reset_def resizer_outs_def)
  from resizer_all_keys [OF wss assms(1,2) a(1-3)] obtain pss a' where
    a': "list_all2 key_blocks ks pss" "(hashKeyResizer ^^ all_blocks ks) ?a = a'" "hashKeyResizer a' = a'"
      "resizer_outs a' = (concat pss, key_lens ks, replicate (length ks) hashFunctionSeed)"
      "ks \<noteq> [] \<longrightarrow> hang_length (length (last ks)) \<longrightarrow> keyResizerState a' = KS_STEP0 \<and> keyResizerLength a' \<le> 12"
    using a(4) by (auto simp: append3_def)
  have r0: "resizer_clear resizer_reset = resizer_reset" "resizer_outs resizer_reset = ([], [], [])" by (simp_all add: resizer_reset_def resizer_clear_def resizer_outs_def)
  let ?b = "bobj_arrive (resizer_outs a') bobj_reset"
  have b: "hashState ?b = HASH_IDLE" "bj_key ?b = concat pss" "bj_lengthStream ?b = key_lens ks" "bj_initvalStream ?b = replicate (length ks) hashFunctionSeed" "bj_hashOut ?b = []"
    by (simp_all add: a'(4) bobj_arrive_def bobj_reset_def)
  from bobj_all_keys [OF a'(1) assms(1) b(1-4)] b(5) obtain b' where
    b': "(bobj ^^ (4 * all_blocks ks + 2 * length ks)) ?b = b'" "hashState b' = HASH_IDLE" "bj_lengthStream b' = []" "bj_hashOut b' = map (\<lambda>k. hashlittle k hashFunctionSeed) ks"
    by auto
  have "bobj b' = b'" using b'(2,3) by (simp add: bobj_def)
  from mixer.kept_settles [OF cutter.stage_settles(2) [OF q r0 a'(2,3)] b'(1) this, of t] assms(4)
  have "mixer.kept (cut_blocks q) bobj_reset t = b'" by simp
  moreover have "drained hashKeyResizer resizer_arrive resizer_clear q resizer_reset t = resizer_clear a'"
    using cutter.stage_settles(1) [OF q r0 a'(2,3)] assms(4) by simp
  ultimately show ?thesis using b' a'(5) by (simp add: hash_run_stages) (simp add: resizer_clear_def resizer_outs_def)
qed

text \<open>C14: The hash unit is the published function. Whatever keys of 1 to 255 bytes are sent, and however their words and lengths are spread over the cycles, once all have arrived and
  enough cycles have passed the unit has put out exactly the values of \<open>hashlittle\<close> on the keys, in their order, and nothing else, now and for ever. Only the last key may
  have one of the lengths 49 to 60, 97 to 108 and so on.\<close>

theorem hash_is_hashlittle:
  assumes "list_all (\<lambda>k. 0 < length k \<and> length k < 256) ks" and "list_all (\<lambda>k. \<not> hang_length (length k)) (butlast ks)" and "sends_keys q T ks"
    and "T + 5 * all_blocks ks + 2 * length ks \<le> t"
  shows "bj_hashOut (snd (hash_run q t)) = map (\<lambda>k. hashlittle k hashFunctionSeed) ks"
proof -
  have "list_all key_ok ks" using assms(1) by (simp add: key_ok_def list_all_iff)
  from hash_unit_run [OF this assms(2-4)] show ?thesis by auto
qed

text \<open>The words of a key, with zeros after its end.\<close>

definition pack_word :: "8 word list \<Rightarrow> nat \<Rightarrow> 128 word" where
  "pack_word k i = horner_sum of_bool 2 (map (\<lambda>n. i + n div 8 < length k \<and> key_bit k i n) [0..<128])"

definition pack_words :: "8 word list \<Rightarrow> hashTableInternalWord list" where
  "pack_words k = (let n = (length k + 15) div 16
     in map (\<lambda>j. \<lparr>hw_data = pack_word k (16 * j), hw_SOP = of_bool (j = 0), hw_EOP = of_bool (j = n - 1)\<rparr>) [0..<n])"

lemma agrees_pack: "agrees (pack_word k i) k i"
  by (simp add: agrees_def pack_word_def bit_horner_sum_bit_word_iff)

lemma key_words_pack: "key_words k (pack_words k)"
  by (simp add: key_words_def pack_words_def agrees_pack Let_def)

theorem hash_is_hashlittle_witness:
  "bj_hashOut (snd (hash_run (\<lambda>t. if t = 0 then (pack_words [1, 2, 3], []) else if t = 1 then ([], [3]) else if t = 2 then (pack_words [0x61], [1]) else ([], [])) 17)) =
     [hashlittle [1, 2, 3] 13, hashlittle [0x61] 13]"
proof -
  let ?ks = "[[1, 2, 3], [0x61]] :: 8 word list list"
  let ?q = "\<lambda>t :: nat. if t = 0 then (pack_words [1, 2, 3], []) else if t = 1 then ([], [3]) else if t = 2 then (pack_words [0x61], [1]) else ([], [])"
  have "delivers append2 ([], []) ?q 3 (concat (map pack_words ?ks), map (\<lambda>k. of_nat (length k)) ?ks)"
    by (simp add: delivers_def total_def append2_def upt_rec)
  moreover have "list_all2 key_words ?ks (map pack_words ?ks)" by (simp add: key_words_pack)
  ultimately have q: "sends_keys ?q 3 ?ks" unfolding sends_keys_def by blast
  have h: "list_all (\<lambda>k. 0 < length k \<and> length k < 256) ?ks" "list_all (\<lambda>k. \<not> hang_length (length k)) (butlast ?ks)" "3 + 5 * all_blocks ?ks + 2 * length ?ks \<le> 17"
    by (simp_all add: hang_length_def blocks_of_def)
  from hash_is_hashlittle [OF h(1,2) q h(3)] show ?thesis by (simp add: hashFunctionSeed_def)
qed

text \<open>The state in which the unit takes words and never a length.\<close>

definition hash_stuck :: "32 word list \<Rightarrow> resizer_st \<times> bobj_st \<Rightarrow> bool" where
  "hash_stuck out = (\<lambda>(r, b). keyResizerState r = KS_STEP0 \<and> keyResizerLength r \<le> 12 \<and> resizedKeyLength r = [] \<and>
     hashState b = HASH_IDLE \<and> bj_lengthStream b = [] \<and> bj_hashOut b = out)"

lemma hash_stuck_cycle: "hash_stuck out (r, b) \<Longrightarrow> hash_stuck out (mc_hash (resizer_arrive q r, b))"
  by (cases q)
    (auto simp: hash_stuck_def mc_hash_def resizer_arrive_def bobj_arrive_def hashKeyResizer_def put_block_def bobj_def Let_def not_less split: list.split)

lemma hash_stuck_run: "hash_stuck out (hash_run q t) \<Longrightarrow> hash_stuck out (hash_run q (t + n))"
  by (induction n) (auto simp: hash_stuck_cycle split: prod.split)

text \<open>C39: A key of 49 to 60 bytes (or 97 to 108, and so on) is the last one that is hashed: after its value the unit puts out nothing more, whatever keys follow.\<close>

theorem hash_hangs:
  assumes "hang_length (length k)" and "length k < 256" and "sends_keys first T [k]" and "T + 5 * blocks_of (length k) + 2 \<le> t" and "t \<le> t'"
  shows "bj_hashOut (snd (hash_run (\<lambda>i. if i < t then first i else later i) t')) = [hashlittle k hashFunctionSeed]"
proof -
  let ?q = "\<lambda>i. if i < t then first i else later i"
  have "list_all key_ok [k]" using assms(1,2) by (auto simp: key_ok_def hang_length_def)
  from hash_unit_run [OF this _ assms(3), of t] assms(1,4) have "hash_stuck [hashlittle k hashFunctionSeed] (hash_run first t)"
    by (auto simp: hash_stuck_def resizer_outs_def)
  moreover have "hash_run first t = hash_run ?q t" by (rule hash_run_cong) simp
  ultimately have "hash_stuck [hashlittle k hashFunctionSeed] (hash_run ?q (t + (t' - t)))" using hash_stuck_run [of _ ?q t "t' - t"] by simp
  with assms(5) show ?thesis by (simp add: hash_stuck_def split_beta)
qed

theorem hash_hangs_witness:
  "bj_hashOut (snd (hash_run (\<lambda>i. if i < 28 then (if i = 0 then (pack_words (replicate 49 7), [49]) else ([], [])) else (pack_words [0x61], [1])) 100)) =
     [hashlittle (replicate 49 7) 13]"
proof -
  let ?k = "replicate 49 7 :: 8 word list" and ?first = "\<lambda>i :: nat. if i = 0 then (pack_words (replicate 49 7), [49]) else ([], [])"
  have "delivers append2 ([], []) ?first 1 (concat [pack_words ?k], map (\<lambda>k. of_nat (length k)) [?k])"
    by (simp add: delivers_def append2_def)
  moreover have "list_all2 key_words [?k] [pack_words ?k]" by (simp add: key_words_pack)
  ultimately have q: "sends_keys ?first 1 [?k]" unfolding sends_keys_def by blast
  have h: "hang_length (length ?k)" "length ?k < 256" "1 + 5 * blocks_of (length ?k) + 2 \<le> 28" "28 \<le> (100 :: nat)"
    by (simp_all add: hang_length_def stuck_length_def blocks_of_def)
  show ?thesis by (rule hash_hangs [OF h(1,2) q h(3,4), unfolded hashFunctionSeed_def])
qed

end
