(* ===== verification/Mc_Table.thy ===== *)
theory Mc_Table
  imports Mc_Globals Buddy
begin

unbundle bit_operations_syntax

text \<open>
  The hash table of the key-value store (\<^verbatim>\<open>app/memcached/hls/sources/hashTable\<close>): concurrency control (\<^verbatim>\<open>cc.cpp\<close>, with the filter of \<^verbatim>\<open>globals.cpp\<close>), the
  stage that fetches a bucket (\<^verbatim>\<open>memRead.cpp\<close>), the one that compares keys (\<^verbatim>\<open>compare.cpp\<close>) and the one that decides and writes back
  (\<^verbatim>\<open>memWriteWithBuddy.cpp\<close>). A bucket is a head of 512 bits with four bins of 128 bits (key length, value length, value address), and then the keys,
  128 bits of each of the four keys in every word.
\<close>

section \<open>Concurrency control\<close>

record ccWord =
  ccw_address :: "6 word"
  ccw_valueLength :: "16 word"
  ccw_operation :: "8 word"
  ccw_status :: "1 word"

text \<open>The filter that is compiled in: it keeps nothing, and finds nothing.\<close>

definition concurrencyFilter_compare :: "ccWord \<Rightarrow> bool" where
  "concurrencyFilter_compare compareElement = False"

definition concurrencyFilter_full :: bool where
  "concurrencyFilter_full = False"

datatype concState = CC_IDLE | CC_WAIT | CC_PUSH | CC_STREAM | CC_POP_IDLE | CC_POP_WAIT

record cc_st =
  in2cc :: "hashTableInternalWord stream"
  in2ccMd :: "internalMdWord stream"
  hash2cc :: "32 word stream"
  dec2cc :: "1 word stream"
  cc2memRead :: "hashTableInternalWord stream"
  cc2memReadMd :: "internalMdWord stream"
  ccState :: concState
  ccInputWord :: hashTableInternalWord
  ccInputWordMd :: internalMdWord
  ccCompareElement :: ccWord

definition concurrencyControl :: "cc_st \<Rightarrow> cc_st" where
  "concurrencyControl s =
     (case ccState s of
        CC_IDLE \<Rightarrow>
          (if dec2cc s \<noteq> [] then s\<lparr>ccState := CC_POP_IDLE\<rparr>
           else (case (in2ccMd s, in2cc s, hash2cc s) of
                   (md # mds, w # ws, h # hs) \<Rightarrow>
                     (let el = (ccCompareElement s)\<lparr>ccw_address := range_get h 6 0, ccw_operation := im_operation md\<rparr>
                      in s\<lparr>in2cc := ws, in2ccMd := mds, hash2cc := hs, ccInputWord := w, ccInputWordMd := md\<lparr>im_metadata := h\<rparr>, ccCompareElement := el,
                           ccState := if concurrencyFilter_compare el \<or> concurrencyFilter_full then CC_WAIT else CC_PUSH\<rparr>)
                 | _ \<Rightarrow> s))
      | CC_WAIT \<Rightarrow>
          (if dec2cc s \<noteq> [] then s\<lparr>ccState := CC_POP_WAIT\<rparr>
           else if \<not> concurrencyFilter_full \<and> \<not> concurrencyFilter_compare (ccCompareElement s) then s\<lparr>ccState := CC_PUSH\<rparr>
           else s)
      | CC_PUSH \<Rightarrow>
          s\<lparr>ccCompareElement := (ccCompareElement s)\<lparr>ccw_status := 1\<rparr>,
            cc2memRead := swrite (cc2memRead s) (ccInputWord s), cc2memReadMd := swrite (cc2memReadMd s) (ccInputWordMd s),
            ccState := if hw_EOP (ccInputWord s) \<noteq> 1 then CC_STREAM else CC_IDLE\<rparr>
      | CC_STREAM \<Rightarrow>
          (case in2cc s of
             [] \<Rightarrow> s
           | w # ws \<Rightarrow> s\<lparr>in2cc := ws, ccInputWord := w, cc2memRead := swrite (cc2memRead s) w, ccState := if hw_EOP w = 1 then CC_IDLE else CC_STREAM\<rparr>)
      | CC_POP_IDLE \<Rightarrow> (case dec2cc s of [] \<Rightarrow> s | p # ps \<Rightarrow> s\<lparr>dec2cc := ps, ccState := CC_IDLE\<rparr>)
      | CC_POP_WAIT \<Rightarrow> (case dec2cc s of [] \<Rightarrow> s | p # ps \<Rightarrow> s\<lparr>dec2cc := ps, ccState := CC_WAIT\<rparr>))"

section \<open>Fetching a bucket\<close>

definition bucket_address :: "32 word \<Rightarrow> 32 word" where
  "bucket_address h = range_set 0 (noOfHashTableEntries - 1) 3 (range_get h 6 0 :: 7 word)"

definition bucket_count :: "8 word \<Rightarrow> 8 word" where
  "bucket_count len = (let c = len div 16 in if unat len > unat c * 16 then c + 2 else c + 1)"

definition reset_high :: "8 word \<Rightarrow> 128 word \<Rightarrow> 128 word" where
  "reset_high len data =
     (if len \<le> 16 then range_set 0 (unat len * 8 - 1) 0 (range_get data (unat len * 8 - 1) 0 :: 128 word) else data)"

datatype mrState = MEMRD_IDLE | MEMRD_STREAM

record memRead_st =
  mr_key :: "hashTableInternalWord stream"
  mr_md :: "internalMdWord stream"
  memRdCtrl :: "memCtrlWord stream"
  memRd2comp :: "hashTableInternalWord stream"
  memRd2compMd :: "internalMdWord stream"
  memRdState :: mrState

definition memRead :: "memRead_st \<Rightarrow> memRead_st" where
  "memRead s =
     (case memRdState s of
        MEMRD_IDLE \<Rightarrow>
          (case (mr_md s, mr_key s) of
             (md # mds, w # ws) \<Rightarrow>
               (let s = (if im_operation md \<noteq> 8
                         then s\<lparr>memRdCtrl := swrite (memRdCtrl s) \<lparr>mc_address = bucket_address (im_metadata md), mc_count = bucket_count (im_keyLength md)\<rparr>\<rparr>
                         else s);
                    w = w\<lparr>hw_data := reset_high (im_keyLength md) (hw_data w)\<rparr>
                in s\<lparr>mr_md := mds, mr_key := ws, memRd2comp := swrite (memRd2comp s) w, memRd2compMd := swrite (memRd2compMd s) md,
                     memRdState := if hw_EOP w = 0 then MEMRD_STREAM else MEMRD_IDLE\<rparr>)
           | _ \<Rightarrow> s)
      | MEMRD_STREAM \<Rightarrow>
          (case mr_key s of
             [] \<Rightarrow> s
           | w # ws \<Rightarrow> s\<lparr>mr_key := ws, memRd2comp := swrite (memRd2comp s) w, memRdState := if hw_EOP w = 1 then MEMRD_IDLE else MEMRD_STREAM\<rparr>))"

section \<open>Comparing keys\<close>

text \<open>The fields of a bin in the head of a bucket, and its part of a word of keys.\<close>

definition bin_keyLength :: "512 word \<Rightarrow> nat \<Rightarrow> 8 word" where
  "bin_keyLength m i = range_get m (bitsPerBin * i + 7) (bitsPerBin * i)"

definition bin_data :: "512 word \<Rightarrow> nat \<Rightarrow> 128 word" where
  "bin_data m i = range_get m (bitsPerBin * (i + 1) - 1) (bitsPerBin * i)"

datatype cState = CMP_IDLE | CMP_HEAD | CMP_COMPARE | CMP_STREAM

record compare_st =
  cmp_key :: "hashTableInternalWord stream"
  cmp_md :: "internalMdWord stream"
  memRdData :: "512 word stream"
  comp2memWrKey :: "hashTableInternalWord stream"
  comp2memWrMd :: "internalMdWord stream"
  comp2memWrKeyStatus :: "comp2decWord stream"
  comp2memWrMemData :: "512 word stream"
  cmpState :: cState
  cmp_keyLength :: "8 word"
  cmp_inDataMd :: internalMdWord
  statusOutput :: comp2decWord

definition next_length :: "8 word \<Rightarrow> 8 word" where
  "next_length len = (if len > of_nat (8 * words2aggregate) then len - of_nat (8 * words2aggregate) else 0)"

definition head_status :: "8 word \<Rightarrow> 512 word \<Rightarrow> comp2decWord \<Rightarrow> comp2decWord" where
  "head_status len m st =
     map (\<lambda>i. if bin_keyLength m i = 0 then (st ! i)\<lparr>bin_free := 1\<rparr> else if bin_keyLength m i = len then (st ! i)\<lparr>bin_match := 1\<rparr> else st ! i) [0..<noOfBins]"

definition key_status :: "128 word \<Rightarrow> 512 word \<Rightarrow> comp2decWord \<Rightarrow> comp2decWord" where
  "key_status data m st = map (\<lambda>i. if bin_data m i \<noteq> data then (st ! i)\<lparr>bin_match := 0\<rparr> else st ! i) [0..<noOfBins]"

text \<open>The end of a key: metadata and status go on.\<close>

definition compare_end :: "compare_st \<Rightarrow> compare_st" where
  "compare_end s =
     (let len = next_length (cmp_keyLength s)
      in if len = 0
         then s\<lparr>cmp_keyLength := len, comp2memWrMd := swrite (comp2memWrMd s) (cmp_inDataMd s),
                comp2memWrKeyStatus := swrite (comp2memWrKeyStatus s) (statusOutput s), cmpState := CMP_IDLE\<rparr>
         else s\<lparr>cmp_keyLength := len\<rparr>)"

definition ht_compare :: "compare_st \<Rightarrow> compare_st" where
  "ht_compare s =
     (case cmpState s of
        CMP_IDLE \<Rightarrow>
          (case cmp_md s of
             [] \<Rightarrow> s
           | md # mds \<Rightarrow>
               s\<lparr>cmp_md := mds, cmp_inDataMd := md, cmp_keyLength := im_keyLength md,
                 cmpState := if im_operation md = 8 then CMP_STREAM else CMP_HEAD, statusOutput := replicate noOfBins \<lparr>bin_free = 0, bin_match = 0\<rparr>\<rparr>)
      | CMP_HEAD \<Rightarrow>
          (case memRdData s of
             [] \<Rightarrow> s
           | m # ms \<Rightarrow>
               s\<lparr>memRdData := ms, statusOutput := head_status (cmp_keyLength s) m (statusOutput s),
                 comp2memWrMemData := swrite (comp2memWrMemData s) m, cmpState := CMP_COMPARE\<rparr>)
      | CMP_COMPARE \<Rightarrow>
          (case (memRdData s, cmp_key s) of
             (m # ms, w # ws) \<Rightarrow>
               compare_end (s\<lparr>memRdData := ms, cmp_key := ws, statusOutput := key_status (hw_data w) m (statusOutput s),
                 comp2memWrMemData := swrite (comp2memWrMemData s) m, comp2memWrKey := swrite (comp2memWrKey s) w\<rparr>)
           | _ \<Rightarrow> s)
      | CMP_STREAM \<Rightarrow>
          (case cmp_key s of
             [] \<Rightarrow> s
           | w # ws \<Rightarrow> compare_end (s\<lparr>cmp_key := ws, comp2memWrKey := swrite (comp2memWrKey s) w\<rparr>)))"

section \<open>Deciding and writing back\<close>

datatype mwState = MW_IDLE | MW_EVAL | MW_SET_REST | MW_CONSUME | MW_BUDDY_WAIT | MW_FLUSH_WAIT | MW_FLUSH | MW_FLUSH_CONSUME_KEY | MW_INIT_MEM

record memWrite_st =
  mw_key :: "hashTableInternalWord stream"
  mw_md :: "internalMdWord stream"
  mw_keyStatus :: "comp2decWord stream"
  mw_memData :: "512 word stream"
  mw_alloc_ret :: "buddy_alloc_ret_if stream"
  memWrCtrl :: "memCtrlWord stream"
  memWrData :: "512 word stream"
  memWr2out :: "decideResultWord stream"
  memWr2cc :: "1 word stream"
  mw_alloc :: "buddy_alloc_if stream"
  memWrState :: mwState
  htMemWriteInputStatusWord :: comp2decWord
  htMemWriteInputWordMd :: internalMdWord
  memWr_location :: "3 word"
  memWr_replaceLocation :: "3 word"
  memWriteAddress :: "10 word"
  memWr_keyLength :: "8 word"
  memWr_valueLength :: "16 word"
  memWr_memInitialized :: bool
  buddy_req :: buddy_alloc_if
  buddy_ret :: buddy_alloc_ret_if
  dummy_nr :: "32 word"

definition LENGTH_TO_ORDER :: "16 word \<Rightarrow> 16 word" where
  "LENGTH_TO_ORDER len = drop_bit BUDDY_MIN_SHIFT len"

text \<open>\<open>dummy_value_allocator\<close>: the address and the new counter.\<close>

definition dummy_value_allocator :: "32 word \<Rightarrow> 32 word \<times> 32 word" where
  "dummy_value_allocator nr = (0x100000 + 0x100 * nr, nr + 1)"

definition dr_zero :: "8 word \<Rightarrow> decideResultWord" where
  "dr_zero op = \<lparr>dr_address = 0, dr_valueLength = 0, dr_operation = op, dr_status = 0\<rparr>"

text \<open>A loop over the bins from the last to the first (or the other way) that remembers the last hit.\<close>

definition pick_bin :: "(nat \<Rightarrow> bool) \<Rightarrow> nat list \<Rightarrow> 3 word \<Rightarrow> bool \<times> 3 word" where
  "pick_bin p is loc = fold (\<lambda>i (found, loc). if p i then (True, of_nat i) else (found, loc)) is (False, loc)"

definition bin_valueAddress :: "512 word \<Rightarrow> nat \<Rightarrow> 32 word" where
  "bin_valueAddress m i = range_get m (bitsPerBin * i + 88 - 1) (bitsPerBin * i + 56)"

definition bin_valueLength :: "512 word \<Rightarrow> nat \<Rightarrow> 16 word" where
  "bin_valueLength m i = range_get m (bitsPerBin * i + 56 - 1) (bitsPerBin * i + 40)"

definition mw_get :: "512 word \<Rightarrow> memWrite_st \<Rightarrow> memWrite_st" where
  "mw_get m s =
     (let st = htMemWriteInputStatusWord s; out = dr_zero (im_operation (htMemWriteInputWordMd s));
          (found, loc) = pick_bin (\<lambda>i. bin_match (st ! i) = 1) (rev [0..<noOfBins]) (memWr_location s);
          out = (if \<not> found then out\<lparr>dr_status := 1, dr_valueLength := 0\<rparr>
                 else out\<lparr>dr_status := 0, dr_address := bin_valueAddress m (unat loc), dr_valueLength := bin_valueLength m (unat loc)\<rparr>)
      in s\<lparr>memWr_location := loc, memWr2out := swrite (memWr2out s) out, memWr2cc := swrite (memWr2cc s) 1, memWrState := MW_CONSUME\<rparr>)"

text \<open>The head of the bucket with the new entry in bin \<open>i\<close>, in the order of the stores of the source.\<close>

definition put_entry :: "512 word \<Rightarrow> nat \<Rightarrow> 8 word \<Rightarrow> 16 word \<Rightarrow> 512 word" where
  "put_entry m i klen vlen =
     (let m = range_set m (bitsPerBin * i + 8 - 1) (bitsPerBin * i) klen;
          m = range_set m (bitsPerBin * i + 40 - 1) (bitsPerBin * i + 8) (0x18 :: 32 word)
      in range_set m (bitsPerBin * i + 56 - 1) (bitsPerBin * i + 40) vlen)"

definition put_address :: "512 word \<Rightarrow> nat \<Rightarrow> 32 word \<Rightarrow> 512 word" where
  "put_address m i a = range_set m (bitsPerBin * i + 88 - 1) (bitsPerBin * i + 56) a"

definition mw_set :: "512 word \<Rightarrow> memWrite_st \<Rightarrow> memWrite_st" where
  "mw_set m s =
     (let st = htMemWriteInputStatusWord s; md = htMemWriteInputWordMd s; out = dr_zero (im_operation md);
          (found, loc) = pick_bin (\<lambda>i. bin_free (st ! i) = 1 \<or> bin_match (st ! i) = 1) (rev [0..<noOfBins]) (memWr_location s);
          (replace, rloc) = pick_bin (\<lambda>i. bin_match (st ! i) = 1) (rev [0..<noOfBins]) (memWr_replaceLocation s);
          s = s\<lparr>memWr_location := loc, memWr_replaceLocation := rloc\<rparr>
      in if \<not> found \<and> \<not> replace
         then s\<lparr>memWr2out := swrite (memWr2out s) (out\<lparr>dr_status := 1\<rparr>), memWr2cc := swrite (memWr2cc s) 1, memWrState := MW_CONSUME\<rparr>
         else if found
         then (let s = (if \<not> replace
                        then (let req = \<lparr>ba_opcode = BUDDY_ALLOC, ba_addr = 0, ba_order = ucast (order_base_2 (LENGTH_TO_ORDER (memWr_valueLength s)))\<rparr>
                              in s\<lparr>buddy_req := req, mw_alloc := swrite (mw_alloc s) req\<rparr>)
                        else s\<lparr>memWr_location := rloc\<rparr>);
                   i = unat (memWr_location s);
                   s = s\<lparr>memWrCtrl := swrite (memWrCtrl s) \<lparr>mc_address = bucket_address (im_metadata md), mc_count = bucket_count (im_keyLength md)\<rparr>\<rparr>;
                   m = put_entry m i (memWr_keyLength s) (memWr_valueLength s);
                   (a, s) = (if replace then (bin_valueAddress m i, s)
                             else (let s = (case mw_alloc_ret s of [] \<Rightarrow> s | r # rs \<Rightarrow> s\<lparr>mw_alloc_ret := rs, buddy_ret := r\<rparr>);
                                       (a, nr) = dummy_value_allocator (dummy_nr s)
                                   in (a, s\<lparr>dummy_nr := nr\<rparr>)))
               in s\<lparr>memWrData := swrite (memWrData s) (put_address m i a),
                    memWr2out := swrite (memWr2out s) (out\<lparr>dr_status := 0, dr_address := a\<rparr>), memWrState := MW_SET_REST\<rparr>)
         else s)"

definition mw_delete :: "512 word \<Rightarrow> memWrite_st \<Rightarrow> memWrite_st" where
  "mw_delete m s =
     (let st = htMemWriteInputStatusWord s; md = htMemWriteInputWordMd s; out = dr_zero (im_operation md);
          (found, loc) = pick_bin (\<lambda>i. bin_match (st ! i) = 1) [0..<noOfBins] (memWr_location s);
          s = s\<lparr>memWr_location := loc\<rparr>; i = unat loc;
          s = (if \<not> found then s\<lparr>memWr2out := swrite (memWr2out s) (out\<lparr>dr_status := 1\<rparr>)\<rparr>
               else (let req = \<lparr>ba_opcode = BUDDY_FREE, ba_addr = range_get m (bitsPerBin * i + 87 - 1) (bitsPerBin * i + 56),
                               ba_order = ucast (order_base_2 (LENGTH_TO_ORDER (bin_valueLength m i)))\<rparr>;
                         m' = range_set m (bitsPerBin * i + 8 - 1) (bitsPerBin * i) (0 :: 8 word);
                         m' = range_set m' (bitsPerBin * i + 56 - 1) (bitsPerBin * i + 40) (0 :: 16 word)
                     in s\<lparr>memWrCtrl := swrite (memWrCtrl s) \<lparr>mc_address = bucket_address (im_metadata md), mc_count = 1\<rparr>,
                          buddy_req := req, mw_alloc := swrite (mw_alloc s) req,
                          memWr2out := swrite (memWr2out s) (out\<lparr>dr_status := 0\<rparr>), memWrData := swrite (memWrData s) m'\<rparr>))
      in s\<lparr>memWr2cc := swrite (memWr2cc s) 1, memWrState := MW_CONSUME\<rparr>)"

definition memWriteWithBuddy :: "memWrite_st \<Rightarrow> memWrite_st" where
  "memWriteWithBuddy s =
     (case memWrState s of
        MW_IDLE \<Rightarrow>
          (if memWr_memInitialized s
           then (case (mw_md s, mw_keyStatus s) of
                   (md # mds, st # sts) \<Rightarrow>
                     s\<lparr>memWriteAddress := 0, mw_md := mds, mw_keyStatus := sts, htMemWriteInputStatusWord := st, htMemWriteInputWordMd := md, memWrState := MW_EVAL\<rparr>
                 | _ \<Rightarrow> s)
           else s\<lparr>memWr_memInitialized := True, memWrState := MW_INIT_MEM\<rparr>)
      | MW_EVAL \<Rightarrow>
          (case mw_memData s of
             [] \<Rightarrow> s
           | m # ms \<Rightarrow>
               (let md = htMemWriteInputWordMd s;
                    s = s\<lparr>mw_memData := ms, memWr_keyLength := im_keyLength md, memWr_valueLength := im_valueLength md\<rparr>
                in if im_operation md = 0 then mw_get m s
                   else if im_operation md = 1 then mw_set m s
                   else if im_operation md = 4 then mw_delete m s
                   else s))
      | MW_SET_REST \<Rightarrow>
          (case (mw_key s, mw_memData s) of
             (w # ws, m # ms) \<Rightarrow>
               (let i = unat (memWr_location s);
                    m = range_set m (bitsPerBin * (i + 1) - 1) (bitsPerBin * i) (hw_data w);
                    s = s\<lparr>mw_key := ws, mw_memData := ms, memWrData := swrite (memWrData s) m\<rparr>
                in if hw_EOP w = 1 then s\<lparr>memWr2cc := swrite (memWr2cc s) 1, memWrState := MW_IDLE\<rparr> else s)
           | _ \<Rightarrow> s)
      | MW_CONSUME \<Rightarrow>
          (case (mw_key s, mw_memData s) of
             (w # ws, m # ms) \<Rightarrow> s\<lparr>mw_key := ws, mw_memData := ms, memWrState := if hw_EOP w = 1 then MW_IDLE else MW_CONSUME\<rparr>
           | _ \<Rightarrow> s)
      | MW_BUDDY_WAIT \<Rightarrow> s
      | MW_FLUSH_WAIT \<Rightarrow> s
      | MW_FLUSH \<Rightarrow>
          (let s = s\<lparr>memWrCtrl := swrite (memWrCtrl s) \<lparr>mc_address = ucast (memWriteAddress s), mc_count = 1\<rparr>,
                     memWriteAddress := memWriteAddress s + 1, memWrData := swrite (memWrData s) 0\<rparr>
           in if unat (memWriteAddress s) = 2 ^ noOfHashTableEntries - 1
              then s\<lparr>memWr2cc := swrite (memWr2cc s) 1, memWr2out := swrite (memWr2out s) (dr_zero (im_operation (htMemWriteInputWordMd s))),
                     memWrState := MW_FLUSH_CONSUME_KEY\<rparr>
              else s)
      | MW_FLUSH_CONSUME_KEY \<Rightarrow> (case mw_key s of [] \<Rightarrow> s | w # ws \<Rightarrow> s\<lparr>mw_key := ws, memWrState := MW_IDLE\<rparr>)
      | MW_INIT_MEM \<Rightarrow> s\<lparr>memWrState := MW_IDLE\<rparr>)"

end
