(* ===== verification/Mc_Bucket.thy ===== *)
theory Mc_Bucket
  imports Mc_Table
begin

text \<open>
  What a bucket of the key-value store's hash table stands for: a partial map from keys to the places of their values, with room for four keys.
  The transactions \<open>kv_get\<close>, \<open>kv_set\<close> and \<open>kv_delete\<close> are the specification on the map; \<open>serve\<close> is a transaction on the words of the bucket,
  and refines them.
\<close>

section \<open>Bins and keys\<close>

definition key_rows :: "8 word \<Rightarrow> nat" where
  "key_rows len = (unat len + 15) div 16"

type_synonym stored_key = "8 word \<times> 128 word list"

definition stored_ok :: "stored_key \<Rightarrow> bool" where
  "stored_ok k \<longleftrightarrow> 0 < unat (fst k) \<and> unat (fst k) \<le> 112 \<and> length (snd k) = key_rows (fst k)"

definition bin_key :: "512 word list \<Rightarrow> nat \<Rightarrow> stored_key" where
  "bin_key b i = (let len = bin_keyLength (b ! 0) i in (len, map (\<lambda>j. bin_data (b ! Suc j) i) [0..<key_rows len]))"

definition bin_used :: "512 word list \<Rightarrow> nat \<Rightarrow> bool" where
  "bin_used b i \<longleftrightarrow> bin_keyLength (b ! 0) i \<noteq> 0"

definition bin_value :: "512 word list \<Rightarrow> nat \<Rightarrow> 32 word \<times> 16 word" where
  "bin_value b i = (bin_valueAddress (b ! 0) i, bin_valueLength (b ! 0) i)"

text \<open>A bucket of eight words, with keys that fit into it, no key in two bins.\<close>

definition bucket_ok :: "512 word list \<Rightarrow> bool" where
  "bucket_ok b \<longleftrightarrow> length b = 8 \<and> (\<forall>i < noOfBins. unat (bin_keyLength (b ! 0) i) \<le> 112) \<and>
     (\<forall>i < noOfBins. \<forall>j < noOfBins. bin_used b i \<and> bin_used b j \<and> bin_key b i = bin_key b j \<longrightarrow> i = j)"

definition bucket_map :: "512 word list \<Rightarrow> stored_key \<Rightarrow> (32 word \<times> 16 word) option" where
  "bucket_map b k = map_option (bin_value b) (find (\<lambda>i. bin_used b i \<and> bin_key b i = k) [0..<noOfBins])"

section \<open>Transactions on the map\<close>

definition kv_ok :: "8 word \<Rightarrow> 32 word \<Rightarrow> 16 word \<Rightarrow> decideResultWord" where
  "kv_ok op a l = \<lparr>dr_address = a, dr_valueLength = l, dr_operation = op, dr_status = 0\<rparr>"

definition kv_fail :: "8 word \<Rightarrow> decideResultWord" where
  "kv_fail op = \<lparr>dr_address = 0, dr_valueLength = 0, dr_operation = op, dr_status = 1\<rparr>"

definition kv_get :: "stored_key \<Rightarrow> (stored_key \<rightharpoonup> 32 word \<times> 16 word) \<Rightarrow> decideResultWord \<times> (stored_key \<rightharpoonup> 32 word \<times> 16 word)" where
  "kv_get k m = (case m k of Some (a, l) \<Rightarrow> (kv_ok 0 a l, m) | None \<Rightarrow> (kv_fail 0, m))"

text \<open>\<open>fresh\<close> is the place for a new value. A key that is there keeps its place.\<close>

definition kv_set :: "stored_key \<Rightarrow> 16 word \<Rightarrow> 32 word \<Rightarrow> (stored_key \<rightharpoonup> 32 word \<times> 16 word) \<Rightarrow> decideResultWord \<times> (stored_key \<rightharpoonup> 32 word \<times> 16 word)" where
  "kv_set k l fresh m =
     (case m k of
        Some (a, _) \<Rightarrow> (kv_ok 1 a 0, m(k \<mapsto> (a, l)))
      | None \<Rightarrow> if card (dom m) < noOfBins then (kv_ok 1 fresh 0, m(k \<mapsto> (fresh, l))) else (kv_fail 1, m))"

definition kv_delete :: "stored_key \<Rightarrow> (stored_key \<rightharpoonup> 32 word \<times> 16 word) \<Rightarrow> decideResultWord \<times> (stored_key \<rightharpoonup> 32 word \<times> 16 word)" where
  "kv_delete k m = (case m k of Some _ \<Rightarrow> (kv_ok 4 0 0, m(k := None)) | None \<Rightarrow> (kv_fail 4, m))"

definition kv_step :: "8 word \<Rightarrow> stored_key \<Rightarrow> 16 word \<Rightarrow> 32 word \<Rightarrow> (stored_key \<rightharpoonup> 32 word \<times> 16 word) \<Rightarrow> decideResultWord \<times> (stored_key \<rightharpoonup> 32 word \<times> 16 word)" where
  "kv_step op k l fresh m = (if op = 0 then kv_get k m else if op = 1 then kv_set k l fresh m else kv_delete k m)"

section \<open>Transactions on the words of a bucket\<close>

text \<open>\<open>b\<close> is the head and at least as many words of keys as the key of the request has.\<close>

definition holds :: "512 word list \<Rightarrow> stored_key \<Rightarrow> nat \<Rightarrow> bool" where
  "holds b k i \<longleftrightarrow> bin_keyLength (b ! 0) i = fst k \<and> (\<forall>j < length (snd k). bin_data (b ! Suc j) i = snd k ! j)"

definition hit :: "512 word list \<Rightarrow> stored_key \<Rightarrow> nat option" where
  "hit b k = find (holds b k) [0..<noOfBins]"

definition last_hit :: "512 word list \<Rightarrow> stored_key \<Rightarrow> nat option" where
  "last_hit b k = find (holds b k) (rev [0..<noOfBins])"

definition room :: "512 word list \<Rightarrow> nat option" where
  "room b = find (\<lambda>i. bin_keyLength (b ! 0) i = 0) [0..<noOfBins]"

text \<open>The words that hold key \<open>k\<close> with value length \<open>l\<close> and address \<open>a\<close> in bin \<open>i\<close>, and the head without bin \<open>i\<close>.\<close>

definition put_data :: "512 word \<Rightarrow> nat \<Rightarrow> 128 word \<Rightarrow> 512 word" where
  "put_data m i x = range_set m (bitsPerBin * (i + 1) - 1) (bitsPerBin * i) x"

definition put_key :: "512 word list \<Rightarrow> nat \<Rightarrow> stored_key \<Rightarrow> 16 word \<Rightarrow> 32 word \<Rightarrow> 512 word list" where
  "put_key b i k l a = put_address (put_entry (b ! 0) i (fst k) l) i a # map (\<lambda>j. put_data (b ! Suc j) i (snd k ! j)) [0..<length (snd k)]"

definition drop_key :: "512 word \<Rightarrow> nat \<Rightarrow> 512 word" where
  "drop_key m i = range_set (range_set m (bitsPerBin * i + 8 - 1) (bitsPerBin * i) (0 :: 8 word)) (bitsPerBin * i + 56 - 1) (bitsPerBin * i + 40) (0 :: 16 word)"

record txn =
  tx_data :: "512 word list"
  tx_out :: decideResultWord
  tx_alloc :: "buddy_alloc_if list"
  tx_nr :: "32 word"

definition value_request :: "16 word \<Rightarrow> buddy_alloc_if" where
  "value_request l = \<lparr>ba_opcode = BUDDY_ALLOC, ba_addr = 0, ba_order = ucast (order_base_2 (LENGTH_TO_ORDER l))\<rparr>"

definition free_request :: "512 word \<Rightarrow> nat \<Rightarrow> buddy_alloc_if" where
  "free_request m i = \<lparr>ba_opcode = BUDDY_FREE, ba_addr = range_get m (bitsPerBin * i + 87 - 1) (bitsPerBin * i + 56),
     ba_order = ucast (order_base_2 (LENGTH_TO_ORDER (bin_valueLength m i)))\<rparr>"

definition serve :: "32 word \<Rightarrow> 8 word \<Rightarrow> stored_key \<Rightarrow> 16 word \<Rightarrow> 512 word list \<Rightarrow> txn" where
  "serve nr op k l b =
     (let no = \<lparr>tx_data = [], tx_out = kv_fail op, tx_alloc = [], tx_nr = nr\<rparr>
      in if op = 0 then (case hit b k of None \<Rightarrow> no | Some i \<Rightarrow> no\<lparr>tx_out := kv_ok 0 (bin_valueAddress (b ! 0) i) (bin_valueLength (b ! 0) i)\<rparr>)
         else if op = 1
         then (case hit b k of
                 Some i \<Rightarrow> (let a = bin_valueAddress (b ! 0) i in no\<lparr>tx_data := put_key b i k l a, tx_out := kv_ok 1 a 0\<rparr>)
               | None \<Rightarrow>
                   (case room b of
                      None \<Rightarrow> no
                    | Some i \<Rightarrow> (let (a, nr) = dummy_value_allocator nr
                               in no\<lparr>tx_data := put_key b i k l a, tx_out := kv_ok 1 a 0, tx_alloc := [value_request l], tx_nr := nr\<rparr>)))
         else (case last_hit b k of None \<Rightarrow> no | Some i \<Rightarrow> no\<lparr>tx_data := [drop_key (b ! 0) i], tx_out := kv_ok 4 0 0, tx_alloc := [free_request (b ! 0) i]\<rparr>))"

text \<open>The bucket after words were written to its start.\<close>

definition write_burst :: "512 word list \<Rightarrow> 512 word list \<Rightarrow> 512 word list" where
  "write_burst b ws = ws @ drop (length ws) b"

section \<open>Fields of the head\<close>

lemmas bin_field_defs = bin_keyLength_def bin_data_def bin_valueAddress_def bin_valueLength_def put_entry_def put_address_def put_data_def drop_key_def
  bitsPerBin_def noOfBins_def Let_def

lemma bins_apart: "i \<noteq> j \<Longrightarrow> (128 * i + 127 < 128 * j) \<or> (128 * j + 127 < 128 * (i :: nat))"
  by linarith

lemma put_head_same:
  assumes "i < noOfBins"
  shows "bin_keyLength (put_address (put_entry m i len l) i a) i = len"
    and "bin_valueAddress (put_address (put_entry m i len l) i a) i = a"
    and "bin_valueLength (put_address (put_entry m i len l) i a) i = l"
    and "bin_valueAddress (put_entry m i len l) i = bin_valueAddress m i"
  using assms by (simp_all add: bin_field_defs ap_simps add.commute)

lemma put_head_other:
  assumes "i \<noteq> j"
  shows "bin_keyLength (put_address (put_entry m i len l) i a) j = bin_keyLength m j"
    and "bin_valueAddress (put_address (put_entry m i len l) i a) j = bin_valueAddress m j"
    and "bin_valueLength (put_address (put_entry m i len l) i a) j = bin_valueLength m j"
  using bins_apart [OF assms] by (auto simp: bin_field_defs range_get_set_other)

lemma drop_head:
  "i < noOfBins \<Longrightarrow> bin_keyLength (drop_key m i) i = 0"
  "i \<noteq> j \<Longrightarrow> bin_keyLength (drop_key m i) j = bin_keyLength m j"
  "i \<noteq> j \<Longrightarrow> bin_valueAddress (drop_key m i) j = bin_valueAddress m j"
  "i \<noteq> j \<Longrightarrow> bin_valueLength (drop_key m i) j = bin_valueLength m j"
  using bins_apart [of i j] by (auto simp: bin_field_defs ap_simps add.commute)

lemma put_data_bins:
  "i < noOfBins \<Longrightarrow> bin_data (put_data m i x) i = x"
  "i \<noteq> j \<Longrightarrow> bin_data (put_data m i x) j = bin_data m j"
  using bins_apart [of i j] by (auto simp: bin_field_defs ap_simps add.commute)

section \<open>The map of a bucket\<close>

lemma find_SomeD: "find P xs = Some x \<Longrightarrow> x \<in> set xs \<and> P x"
  by (induction xs) (auto split: if_splits)

lemma bin_key_holds:
  assumes "stored_ok k"
  shows "holds b k i \<longleftrightarrow> bin_used b i \<and> bin_key b i = k"
proof (cases k)
  case (Pair len ks)
  with assms show ?thesis
    by (auto simp: holds_def bin_used_def bin_key_def stored_ok_def Let_def list_eq_iff_nth_eq)
qed

lemma bucket_map_Some:
  assumes "bucket_ok b"
  shows "bucket_map b k = Some v \<longleftrightarrow> (\<exists>i < noOfBins. bin_used b i \<and> bin_key b i = k \<and> bin_value b i = v)"
proof
  assume "\<exists>i < noOfBins. bin_used b i \<and> bin_key b i = k \<and> bin_value b i = v"
  then obtain i where i: "i < noOfBins" "bin_used b i" "bin_key b i = k" "bin_value b i = v" by blast
  then have "find (\<lambda>i. bin_used b i \<and> bin_key b i = k) [0..<noOfBins] \<noteq> None" by (auto simp: find_None_iff)
  then obtain j where j: "find (\<lambda>i. bin_used b i \<and> bin_key b i = k) [0..<noOfBins] = Some j" by blast
  then have "j < noOfBins" "bin_used b j" "bin_key b j = k" by (auto simp: find_Some_iff)
  with i assms have "j = i" unfolding bucket_ok_def by metis
  with i(4) j show "bucket_map b k = Some v" by (simp add: bucket_map_def)
qed (auto simp: bucket_map_def find_Some_iff)

lemma dom_bucket_map: "bucket_ok b \<Longrightarrow> dom (bucket_map b) = bin_key b ` {i. i < noOfBins \<and> bin_used b i}"
  by (auto simp: dom_def bucket_map_Some image_def simp del: split_paired_Ex)

lemma bin_key_inj: "bucket_ok b \<Longrightarrow> inj_on (bin_key b) {i. i < noOfBins \<and> bin_used b i}"
  by (auto simp: bucket_ok_def inj_on_def)

lemma bucket_full: "bucket_ok b \<Longrightarrow> card (dom (bucket_map b)) < noOfBins \<longleftrightarrow> room b \<noteq> None"
proof -
  assume ok: "bucket_ok b"
  have c: "card (dom (bucket_map b)) = card {i. i < noOfBins \<and> bin_used b i}" by (simp add: dom_bucket_map [OF ok] card_image bin_key_inj [OF ok])
  show ?thesis
  proof (cases "room b")
    case None
    then have "{i. i < noOfBins \<and> bin_used b i} = {..<noOfBins}" by (auto simp: room_def find_None_iff bin_used_def)
    with None c show ?thesis by simp
  next
    case (Some i)
    then have "i < noOfBins" "\<not> bin_used b i" by (auto simp: room_def find_Some_iff bin_used_def)
    then have "{i. i < noOfBins \<and> bin_used b i} \<subset> {..<noOfBins}" by auto
    from psubset_card_mono [OF _ this] Some c show ?thesis by simp
  qed
qed

lemma hit_Some:
  assumes "bucket_ok b" and "stored_ok k" and "hit b k = Some i"
  shows "i < noOfBins" "bin_used b i" "bin_key b i = k" "bucket_map b k = Some (bin_value b i)"
proof -
  show "i < noOfBins" "bin_used b i" "bin_key b i = k" using assms(2,3) by (auto simp: hit_def find_Some_iff bin_key_holds)
  then show "bucket_map b k = Some (bin_value b i)" using assms(1) by (auto simp: bucket_map_Some)
qed

lemma hit_None: "bucket_ok b \<Longrightarrow> stored_ok k \<Longrightarrow> hit b k = None \<Longrightarrow> bucket_map b k = None \<and> (\<forall>i < noOfBins. bin_used b i \<longrightarrow> bin_key b i \<noteq> k)"
  by (auto simp: hit_def find_None_iff bin_key_holds bucket_map_def)

lemma last_hit_hit:
  assumes "bucket_ok b" and "stored_ok k"
  shows "last_hit b k = hit b k"
proof (cases "hit b k")
  case None
  then have "last_hit b k = None" by (auto simp: hit_def last_hit_def find_None_iff)
  with None show ?thesis by simp
next
  case (Some i)
  note i = hit_Some [OF assms Some]
  then have "last_hit b k \<noteq> None" using bin_key_holds [OF assms(2), of b] by (auto simp: last_hit_def find_None_iff)
  then obtain j where j: "last_hit b k = Some j" by blast
  then have "j < noOfBins \<and> holds b k j" unfolding last_hit_def by (auto dest: find_SomeD)
  then have "j = i" using i assms(1) bin_key_holds [OF assms(2), of b] unfolding bucket_ok_def by metis
  with Some j show ?thesis by simp
qed

lemma room_Some: "room b = Some i \<Longrightarrow> i < noOfBins \<and> \<not> bin_used b i"
  by (auto simp: room_def find_Some_iff bin_used_def)

text \<open>A change of one bin, when no other bin has the key.\<close>

lemma bin_update:
  assumes b: "bucket_ok b" and i: "i < noOfBins" and len: "length b' = 8"
    and other: "\<And>j. j < noOfBins \<Longrightarrow> j \<noteq> i \<Longrightarrow> bin_key b' j = bin_key b j \<and> bin_value b' j = bin_value b j"
    and alone: "\<And>j. j < noOfBins \<Longrightarrow> j \<noteq> i \<Longrightarrow> bin_used b j \<Longrightarrow> bin_key b j \<noteq> k"
    and old: "bin_used b i \<Longrightarrow> bin_key b i = k"
    and new: "unat (bin_keyLength (b' ! 0) i) \<le> 112" "bin_used b' i \<Longrightarrow> bin_key b' i = k"
  shows "bucket_ok b' \<and> bucket_map b' = (bucket_map b)(k := if bin_used b' i then Some (bin_value b' i) else None)"
proof
  have used: "bin_used b' j \<longleftrightarrow> bin_used b j" if "j < noOfBins" "j \<noteq> i" for j
    using other [OF that] by (simp add: bin_used_def bin_key_def Let_def)
  have lens: "unat (bin_keyLength (b' ! 0) j) \<le> 112" if "j < noOfBins" for j
    using b other [OF that] new(1) that by (cases "j = i") (auto simp: bucket_ok_def bin_key_def Let_def)
  have "j1 = j2" if "j1 < noOfBins" "j2 < noOfBins" "bin_used b' j1" "bin_used b' j2" "bin_key b' j1 = bin_key b' j2" for j1 j2
    using that b other [of j1] other [of j2] alone [of j1] alone [of j2] new(2) used [of j1] used [of j2] unfolding bucket_ok_def by metis
  with lens len show ok: "bucket_ok b'" unfolding bucket_ok_def by blast
  have "bucket_map b' k' = Some v \<longleftrightarrow> ((bucket_map b)(k := if bin_used b' i then Some (bin_value b' i) else None)) k' = Some v" for k' v
  proof (cases "k' = k")
    case True
    then show ?thesis using alone other used i new(2) by (simp add: bucket_map_Some [OF ok]) metis
  next
    case False
    then show ?thesis using other used i new(2) old by (simp add: bucket_map_Some [OF ok] bucket_map_Some [OF b]) metis
  qed
  then show "bucket_map b' = (bucket_map b)(k := if bin_used b' i then Some (bin_value b' i) else None)"
    by (intro ext) (metis not_Some_eq)
qed

section \<open>A transaction on the words refines the one on the map\<close>

lemma length_put_key: "length (put_key b i k l a) = Suc (length (snd k))"
  by (simp add: put_key_def)

lemma write_burst_nth: "n < length ws \<Longrightarrow> write_burst b ws ! n = ws ! n" "length ws \<le> n \<Longrightarrow> length ws \<le> length b \<Longrightarrow> write_burst b ws ! n = b ! n"
  by (auto simp: write_burst_def nth_append)

lemma length_write_burst: "length ws \<le> length b \<Longrightarrow> length (write_burst b ws) = length b"
  by (simp add: write_burst_def)

lemma key_rows_fits: "stored_ok k \<Longrightarrow> length (snd k) \<le> 7 \<and> 0 < length (snd k)"
  by (auto simp: stored_ok_def key_rows_def)

lemma put_key_rows: "length (snd k) < length b \<Longrightarrow> write_burst b (put_key b i k l a) ! Suc j = (if j < length (snd k) then put_data (b ! Suc j) i (snd k ! j) else b ! Suc j)"
  by (simp add: write_burst_nth length_put_key put_key_def)

lemma put_key_head: "write_burst b (put_key b i k l a) ! 0 = put_address (put_entry (b ! 0) i (fst k) l) i a"
  by (simp add: write_burst_nth length_put_key) (simp add: put_key_def)

lemma put_key_bin:
  assumes "i < noOfBins" and "stored_ok k" and "length (snd k) < length b"
  shows "bin_key (write_burst b (put_key b i k l a)) i = k" and "bin_value (write_burst b (put_key b i k l a)) i = (a, l)"
    and "j \<noteq> i \<Longrightarrow> bin_key (write_burst b (put_key b i k l a)) j = bin_key b j" and "j \<noteq> i \<Longrightarrow> bin_value (write_burst b (put_key b i k l a)) j = bin_value b j"
proof -
  have "map (\<lambda>j. bin_data (write_burst b (put_key b i k l a) ! Suc j) i) [0..<key_rows (fst k)] = snd k"
    using assms by (intro nth_equalityI) (simp_all add: put_key_rows put_data_bins stored_ok_def)
  then show "bin_key (write_burst b (put_key b i k l a)) i = k"
    using assms by (simp add: bin_key_def put_key_head put_head_same prod_eq_iff)
  show "bin_value (write_burst b (put_key b i k l a)) i = (a, l)"
    using assms by (simp add: bin_value_def put_key_head put_head_same)
  show "j \<noteq> i \<Longrightarrow> bin_key (write_burst b (put_key b i k l a)) j = bin_key b j"
    using assms by (simp add: bin_key_def put_key_head put_head_other put_key_rows put_data_bins Let_def)
  show "j \<noteq> i \<Longrightarrow> bin_value (write_burst b (put_key b i k l a)) j = bin_value b j"
    by (simp add: bin_value_def put_key_head put_head_other)
qed

lemma put_key_bucket:
  assumes b: "bucket_ok b" and i: "i < noOfBins" and k: "stored_ok k"
    and alone: "\<And>j. j < noOfBins \<Longrightarrow> j \<noteq> i \<Longrightarrow> bin_used b j \<Longrightarrow> bin_key b j \<noteq> k" and old: "bin_used b i \<Longrightarrow> bin_key b i = k"
  shows "bucket_ok (write_burst b (put_key b i k l a)) \<and> bucket_map (write_burst b (put_key b i k l a)) = (bucket_map b)(k \<mapsto> (a, l))"
proof -
  let ?b = "write_burst b (put_key b i k l a)"
  have fits: "length (snd k) < length b" using b key_rows_fits [OF k] by (simp add: bucket_ok_def)
  have len: "length ?b = 8" using b key_rows_fits [OF k] by (simp add: bucket_ok_def length_write_burst length_put_key)
  have head: "bin_keyLength (?b ! 0) i = fst k" using i by (simp add: put_key_head put_head_same)
  then have "unat (bin_keyLength (?b ! 0) i) \<le> 112" "bin_used ?b i" using k by (auto simp: stored_ok_def bin_used_def)
  with bin_update [OF b i len, of k] put_key_bin [OF i k fits] alone old show ?thesis by (simp del: fun_upd_apply)
qed

lemma drop_key_bucket:
  assumes b: "bucket_ok b" and i: "i < noOfBins" and used: "bin_used b i"
  shows "bucket_ok (write_burst b [drop_key (b ! 0) i]) \<and> bucket_map (write_burst b [drop_key (b ! 0) i]) = (bucket_map b)(bin_key b i := None)"
proof -
  let ?b = "write_burst b [drop_key (b ! 0) i]"
  have rows: "?b ! 0 = drop_key (b ! 0) i" "?b ! Suc j = b ! Suc j" for j using b by (simp_all add: write_burst_nth bucket_ok_def)
  have len: "length ?b = 8" using b by (simp add: bucket_ok_def length_write_burst)
  have "\<not> bin_used ?b i" "unat (bin_keyLength (?b ! 0) i) \<le> 112" using i by (simp_all add: bin_used_def rows drop_head)
  moreover have "bin_key ?b j = bin_key b j \<and> bin_value ?b j = bin_value b j" if "j \<noteq> i" for j
    using that by (simp add: bin_key_def bin_value_def rows drop_head Let_def)
  moreover have "bin_key b j \<noteq> bin_key b i" if "j < noOfBins" "j \<noteq> i" "bin_used b j" for j using b that i used unfolding bucket_ok_def by blast
  ultimately show ?thesis using bin_update [OF b i len, of "bin_key b i"] by (simp del: fun_upd_apply)
qed

lemma serve_refines:
  assumes b: "bucket_ok b" and k: "stored_ok k" and op: "op \<in> {0, 1, 4}"
  shows "bucket_ok (write_burst b (tx_data (serve nr op k l b)))"
    and "kv_step op k l (fst (dummy_value_allocator nr)) (bucket_map b) = (tx_out (serve nr op k l b), bucket_map (write_burst b (tx_data (serve nr op k l b))))"
proof -
  have none: "write_burst b [] = b" by (simp add: write_burst_def)
  note same = last_hit_hit [OF b k]
  have "bucket_ok (write_burst b (tx_data (serve nr op k l b))) \<and>
    kv_step op k l (fst (dummy_value_allocator nr)) (bucket_map b) = (tx_out (serve nr op k l b), bucket_map (write_burst b (tx_data (serve nr op k l b))))"
  proof (cases "hit b k")
    case None
    note h = hit_None [OF b k None]
    show ?thesis
    proof (cases "room b")
      case None
      with h \<open>hit b k = None\<close> b op none bucket_full [OF b] show ?thesis
        by (auto simp: serve_def same kv_step_def kv_get_def kv_set_def kv_delete_def)
    next
      case (Some i)
      from put_key_bucket [OF b _ k, of i] room_Some [OF Some] h \<open>hit b k = None\<close> Some b op none bucket_full [OF b] show ?thesis
        by (auto simp: serve_def same kv_step_def kv_get_def kv_set_def kv_delete_def split_beta Let_def)
    qed
  next
    case (Some i)
    note h = hit_Some [OF b k Some]
    have "bin_key b j \<noteq> k" if "j < noOfBins" "j \<noteq> i" "bin_used b j" for j using b that h(1-3) unfolding bucket_ok_def by metis
    with put_key_bucket [OF b h(1) k] drop_key_bucket [OF b h(1,2)] h Some b op none show ?thesis
      by (auto simp: serve_def same kv_step_def kv_get_def kv_set_def kv_delete_def Let_def bin_value_def)
  qed
  then show "bucket_ok (write_burst b (tx_data (serve nr op k l b)))"
    and "kv_step op k l (fst (dummy_value_allocator nr)) (bucket_map b) = (tx_out (serve nr op k l b), bucket_map (write_burst b (tx_data (serve nr op k l b))))"
    by simp_all
qed

text \<open>Only the words that are read for the request matter.\<close>

lemma take_burst:
  assumes "length (snd k) < n"
  shows "hit (take n b) k = hit b k" and "last_hit (take n b) k = last_hit b k" and "room (take n b) = room b" and "put_key (take n b) i k l a = put_key b i k l a" and "take n b ! 0 = b ! 0"
proof -
  have "holds (take n b) k = holds b k" using assms by (intro ext) (simp add: holds_def)
  then show "hit (take n b) k = hit b k" "last_hit (take n b) k = last_hit b k" by (simp_all add: hit_def last_hit_def)
qed (use assms in \<open>simp_all add: room_def put_key_def\<close>)

lemma serve_take: "length (snd k) < n \<Longrightarrow> serve nr op k l (take n b) = serve nr op k l b"
  by (simp only: serve_def take_burst)

end
