(* ===== verification/Mc_Stages.thy ===== *)
theory Mc_Stages
  imports Mc_Bucket
begin

text \<open>
  The stages of the key-value store's hash table on a list of requests: fetching, comparing and writing back, each with all of its input there from the start,
  and as stages whose result does not depend on when the input comes.
\<close>

section \<open>Requests\<close>

text \<open>The words of a key, of which the last, and no other, has its flag set.\<close>

fun eop_last :: "hashTableInternalWord list \<Rightarrow> bool" where
  "eop_last [] \<longleftrightarrow> False"
| "eop_last (w # ws) \<longleftrightarrow> (if ws = [] then hw_EOP w = 1 else hw_EOP w = 0 \<and> eop_last ws)"

type_synonym kv_request = "internalMdWord \<times> hashTableInternalWord list"

definition request_ok :: "kv_request \<Rightarrow> bool" where
  "request_ok = (\<lambda>(md, ws). im_operation md \<in> {0, 1, 4} \<and> 0 < unat (im_keyLength md) \<and> unat (im_keyLength md) \<le> 112 \<and>
     length ws = key_rows (im_keyLength md) \<and> eop_last ws)"

text \<open>The words after the part behind a short key is cleared, and the key as it is stored.\<close>

fun mask_key :: "internalMdWord \<Rightarrow> hashTableInternalWord list \<Rightarrow> hashTableInternalWord list" where
  "mask_key md [] = []"
| "mask_key md (w # ws) = w\<lparr>hw_data := reset_high (im_keyLength md) (hw_data w)\<rparr> # ws"

definition request_key :: "kv_request \<Rightarrow> stored_key" where
  "request_key = (\<lambda>(md, ws). (im_keyLength md, map hw_data (mask_key md ws)))"

lemma mask_key_simps [simp]: "length (mask_key md ws) = length ws" "eop_last (mask_key md ws) = eop_last ws"
  by (cases ws; simp)+

lemma funpow_then: "(f ^^ m) s = s1 \<Longrightarrow> (f ^^ n) s1 = s2 \<Longrightarrow> (f ^^ (m + n)) s = s2"
  by (auto simp: add.commute [of m] funpow_add)

section \<open>Fetching\<close>

definition read_command :: "internalMdWord \<Rightarrow> memCtrlWord" where
  "read_command md = \<lparr>mc_address = bucket_address (im_metadata md), mc_count = bucket_count (im_keyLength md)\<rparr>"

lemma memRead_stream:
  "eop_last ws \<Longrightarrow> memRdState s = MEMRD_STREAM \<Longrightarrow> mr_key s = ws @ rest \<Longrightarrow>
     (memRead ^^ length ws) s = s\<lparr>mr_key := rest, memRd2comp := memRd2comp s @ ws, memRdState := MEMRD_IDLE\<rparr>"
proof (induction ws arbitrary: s)
  case (Cons w ws)
  show ?case
  proof (cases "ws = []")
    case True
    with Cons.prems show ?thesis by (simp add: memRead_def swrite_def)
  next
    case False
    let ?s = "s\<lparr>mr_key := ws @ rest, memRd2comp := memRd2comp s @ [w], memRdState := MEMRD_STREAM\<rparr>"
    have "memRead s = ?s" using Cons.prems False by (simp add: memRead_def swrite_def)
    moreover have "(memRead ^^ length ws) ?s = ?s\<lparr>mr_key := rest, memRd2comp := memRd2comp ?s @ ws, memRdState := MEMRD_IDLE\<rparr>"
      by (rule Cons.IH) (use Cons.prems False in simp_all)
    ultimately show ?thesis by (simp add: funpow_swap1)
  qed
qed simp

lemma memRead_request:
  assumes "request_ok (md, ws)" and "memRdState s = MEMRD_IDLE" and "mr_md s = md # mds" and "mr_key s = ws @ rest"
  shows "(memRead ^^ length ws) s = s\<lparr>mr_md := mds, mr_key := rest, memRdCtrl := memRdCtrl s @ [read_command md],
    memRd2comp := memRd2comp s @ mask_key md ws, memRd2compMd := memRd2compMd s @ [md], memRdState := MEMRD_IDLE\<rparr>"
proof -
  from assms(1) have op: "im_operation md \<noteq> 8" "eop_last ws" by (auto simp: request_ok_def)
  then obtain w ws' where ws: "ws = w # ws'" by (cases ws) auto
  let ?w = "w\<lparr>hw_data := reset_high (im_keyLength md) (hw_data w)\<rparr>"
  let ?s = "s\<lparr>mr_md := mds, mr_key := ws' @ rest, memRdCtrl := memRdCtrl s @ [read_command md], memRd2comp := memRd2comp s @ [?w],
    memRd2compMd := memRd2compMd s @ [md], memRdState := if hw_EOP w = 0 then MEMRD_STREAM else MEMRD_IDLE\<rparr>"
  have one: "memRead s = ?s" using assms(2-4) op(1) ws by (simp add: memRead_def read_command_def swrite_def Let_def)
  show ?thesis
  proof (cases "ws' = []")
    case True
    then show ?thesis using one op(2) ws by simp
  next
    case False
    with op(2) ws have "(memRead ^^ length ws') ?s = ?s\<lparr>mr_key := rest, memRd2comp := memRd2comp ?s @ ws', memRdState := MEMRD_IDLE\<rparr>"
      by (intro memRead_stream) simp_all
    then show ?thesis using one ws by (simp add: funpow_swap1)
  qed
qed

abbreviation all_words :: "kv_request list \<Rightarrow> hashTableInternalWord list" where
  "all_words rs \<equiv> concat (map snd rs)"

abbreviation all_masked :: "kv_request list \<Rightarrow> hashTableInternalWord list" where
  "all_masked rs \<equiv> concat (map (\<lambda>(md, ws). mask_key md ws) rs)"

lemma memRead_requests:
  "list_all request_ok rs \<Longrightarrow> memRdState s = MEMRD_IDLE \<Longrightarrow> mr_md s = map fst rs \<Longrightarrow> mr_key s = all_words rs \<Longrightarrow>
     (memRead ^^ length (all_words rs)) s = s\<lparr>mr_md := [], mr_key := [], memRdCtrl := memRdCtrl s @ map (read_command \<circ> fst) rs,
       memRd2comp := memRd2comp s @ all_masked rs, memRd2compMd := memRd2compMd s @ map fst rs, memRdState := MEMRD_IDLE\<rparr>"
proof (induction rs arbitrary: s)
  case (Cons r rs)
  obtain md ws where r: "r = (md, ws)" by (cases r)
  let ?s = "s\<lparr>mr_md := map fst rs, mr_key := all_words rs, memRdCtrl := memRdCtrl s @ [read_command md],
    memRd2comp := memRd2comp s @ mask_key md ws, memRd2compMd := memRd2compMd s @ [md], memRdState := MEMRD_IDLE\<rparr>"
  have "(memRead ^^ length ws) s = ?s" using Cons.prems r by (intro memRead_request) simp_all
  from funpow_then [OF this Cons.IH] Cons.prems(1) r show ?case by simp
qed simp

section \<open>Comparing\<close>

text \<open>The state of the bins after the keys \<open>ks\<close> and the rows are compared.\<close>

definition key_statuses :: "128 word list \<Rightarrow> 512 word list \<Rightarrow> comp2decWord \<Rightarrow> comp2decWord" where
  "key_statuses ks rows st = fold (\<lambda>(k, m). key_status k m) (zip ks rows) st"

definition no_status :: comp2decWord where
  "no_status = replicate noOfBins \<lparr>bin_free = 0, bin_match = 0\<rparr>"

definition bin_status :: "512 word list \<Rightarrow> stored_key \<Rightarrow> nat \<Rightarrow> binStatus" where
  "bin_status b k i = \<lparr>bin_free = if bin_keyLength (b ! 0) i = 0 then 1 else 0, bin_match = if holds b k i then 1 else 0\<rparr>"

lemma key_statuses_simps:
  "key_statuses [] [] st = st" "key_statuses (k # ks) (m # ms) st = key_statuses ks ms (key_status k m st)"
  by (simp_all add: key_statuses_def)

lemma key_statuses_length: "length ks = length rows \<Longrightarrow> length st = noOfBins \<Longrightarrow> length (key_statuses ks rows st) = noOfBins"
  by (induction ks rows arbitrary: st rule: list_induct2) (simp_all add: key_statuses_simps key_status_def)

lemma key_statuses_nth:
  "length ks = length rows \<Longrightarrow> i < noOfBins \<Longrightarrow>
     key_statuses ks rows st ! i = (if \<forall>j < length ks. bin_data (rows ! j) i = ks ! j then st ! i else (st ! i)\<lparr>bin_match := 0\<rparr>)"
proof (induction ks rows arbitrary: st rule: list_induct2)
  case (Cons k ks m ms)
  then show ?case by (auto simp: key_statuses_simps key_status_def All_less_Suc2)
qed (simp add: key_statuses_simps)

lemma compared_status:
  assumes "length ks = length rows" and "len \<noteq> 0"
  shows "key_statuses ks rows (head_status len h no_status) = map (bin_status (h # rows) (len, ks)) [0..<noOfBins]"
  using assms by (intro nth_equalityI)
    (auto simp: key_statuses_length key_statuses_nth head_status_def no_status_def bin_status_def holds_def)

lemma next_length_rows:
  assumes "len \<noteq> 0" and "unat len \<le> 112"
  shows "next_length len = 0 \<longleftrightarrow> key_rows len = 1" and "key_rows (next_length len) = key_rows len - 1" and "unat (next_length len) \<le> 112"
proof -
  have gt: "len > of_nat (8 * words2aggregate) \<longleftrightarrow> 16 < unat len" by (simp add: words2aggregate_def word_less_nat_alt)
  have sub: "unat (len - 16) = unat len - 16" if "16 < unat len" using that by (simp add: unat_sub word_le_nat_alt)
  have pos: "0 < unat len" using assms(1) by (simp add: unat_gt_0)
  have u: "unat (next_length len) = (if 16 < unat len then unat len - 16 else 0)"
    using gt sub by (simp add: next_length_def words2aggregate_def)
  have z: "next_length len = 0 \<longleftrightarrow> unat (next_length len) = 0" by (simp add: unat_eq_0)
  show "unat (next_length len) \<le> 112" unfolding u using assms(2) by (simp add: le_diff_conv)
  show "key_rows (next_length len) = key_rows len - 1" using u pos by (simp add: key_rows_def) linarith
  show "next_length len = 0 \<longleftrightarrow> key_rows len = 1" unfolding z u using pos by (simp add: key_rows_def) linarith
qed

lemma compare_rows:
  "cmpState s = CMP_COMPARE \<Longrightarrow> cmp_keyLength s = len \<Longrightarrow> len \<noteq> 0 \<Longrightarrow> unat len \<le> 112 \<Longrightarrow> length ws = key_rows len \<Longrightarrow> length rows = length ws \<Longrightarrow>
     cmp_key s = ws @ rest \<Longrightarrow> memRdData s = rows @ rest' \<Longrightarrow>
     (ht_compare ^^ length ws) s = s\<lparr>cmp_key := rest, memRdData := rest', comp2memWrKey := comp2memWrKey s @ ws, comp2memWrMemData := comp2memWrMemData s @ rows,
       statusOutput := key_statuses (map hw_data ws) rows (statusOutput s), comp2memWrKeyStatus := comp2memWrKeyStatus s @ [key_statuses (map hw_data ws) rows (statusOutput s)],
       comp2memWrMd := comp2memWrMd s @ [cmp_inDataMd s], cmp_keyLength := 0, cmpState := CMP_IDLE\<rparr>"
proof (induction ws arbitrary: s rows len)
  case Nil
  then have "unat len = 0" by (simp add: key_rows_def)
  then show ?case using Nil.prems(3) by (simp add: unat_eq_0)
next
  case (Cons w ws)
  from Cons.prems(6) obtain m ms where rows: "rows = m # ms" by (cases rows) auto
  note next_rows = next_length_rows [OF Cons.prems(3,4)]
  let ?s = "s\<lparr>cmp_key := ws @ rest, memRdData := ms @ rest', comp2memWrKey := comp2memWrKey s @ [w], comp2memWrMemData := comp2memWrMemData s @ [m],
    statusOutput := key_status (hw_data w) m (statusOutput s), cmp_keyLength := next_length len\<rparr>"
  show ?case
  proof (cases "ws = []")
    case True
    then have "key_rows len = 1" using Cons.prems(5) by simp
    then have "next_length len = 0" using next_rows(1) by simp
    with True Cons.prems(1,2,6-8) rows show ?thesis by (simp add: ht_compare_def compare_end_def key_statuses_simps swrite_def)
  next
    case False
    then have "key_rows len \<noteq> 1" using Cons.prems(5) [symmetric] by simp
    then have more: "next_length len \<noteq> 0" using next_rows(1) by simp
    then have one: "ht_compare s = ?s" using Cons.prems rows by (simp add: ht_compare_def compare_end_def swrite_def)
    have "(ht_compare ^^ length ws) ?s = ?s\<lparr>cmp_key := rest, memRdData := rest', comp2memWrKey := comp2memWrKey ?s @ ws, comp2memWrMemData := comp2memWrMemData ?s @ ms,
      statusOutput := key_statuses (map hw_data ws) ms (statusOutput ?s), comp2memWrKeyStatus := comp2memWrKeyStatus ?s @ [key_statuses (map hw_data ws) ms (statusOutput ?s)],
      comp2memWrMd := comp2memWrMd ?s @ [cmp_inDataMd ?s], cmp_keyLength := 0, cmpState := CMP_IDLE\<rparr>"
      by (rule Cons.IH [of _ "next_length len"]) (use Cons.prems rows next_rows more in simp_all)
    then show ?thesis using one rows by (simp add: funpow_swap1 key_statuses_simps)
  qed
qed

text \<open>A burst for a request: the head and as many words as the key has.\<close>

definition burst_ok :: "kv_request \<Rightarrow> 512 word list \<Rightarrow> bool" where
  "burst_ok r b \<longleftrightarrow> length b = Suc (length (snd r))"

definition request_status :: "kv_request \<Rightarrow> 512 word list \<Rightarrow> comp2decWord" where
  "request_status r b = map (bin_status b (request_key r)) [0..<noOfBins]"

lemma compare_request:
  assumes "request_ok (md, ws)" and "burst_ok (md, ws) b" and "cmpState s = CMP_IDLE" and "cmp_md s = md # mds" and "cmp_key s = mask_key md ws @ rest"
    and "memRdData s = b @ rest'"
  shows "\<exists>s'. (ht_compare ^^ (length ws + 2)) s = s' \<and> cmpState s' = CMP_IDLE \<and> cmp_md s' = mds \<and> cmp_key s' = rest \<and> memRdData s' = rest' \<and>
    comp2memWrMd s' = comp2memWrMd s @ [md] \<and> comp2memWrKey s' = comp2memWrKey s @ mask_key md ws \<and>
    comp2memWrKeyStatus s' = comp2memWrKeyStatus s @ [request_status (md, ws) b] \<and> comp2memWrMemData s' = comp2memWrMemData s @ b"
proof -
  from assms(1) have ok: "im_operation md \<noteq> 8" "im_keyLength md \<noteq> 0" "unat (im_keyLength md) \<le> 112" "length ws = key_rows (im_keyLength md)"
    by (auto simp: request_ok_def)
  from assms(2) obtain h rows where b: "b = h # rows" "length rows = length ws" by (cases b) (auto simp: burst_ok_def)
  let ?s = "s\<lparr>cmp_md := mds, cmp_inDataMd := md, cmp_keyLength := im_keyLength md, cmpState := CMP_COMPARE, memRdData := rows @ rest',
    statusOutput := head_status (im_keyLength md) h no_status, comp2memWrMemData := comp2memWrMemData s @ [h]\<rparr>"
  have "ht_compare (ht_compare s) = ?s"
    using assms(3,4,6) ok(1) b(1) by (simp add: ht_compare_def no_status_def swrite_def)
  then have two: "(ht_compare ^^ 2) s = ?s" by (simp add: numeral_2_eq_2)
  note st = compared_status [of "map hw_data (mask_key md ws)" rows "im_keyLength md" h]
  have "(ht_compare ^^ length (mask_key md ws)) ?s = ?s\<lparr>cmp_key := rest, memRdData := rest', comp2memWrKey := comp2memWrKey ?s @ mask_key md ws,
    comp2memWrMemData := comp2memWrMemData ?s @ rows, statusOutput := key_statuses (map hw_data (mask_key md ws)) rows (statusOutput ?s),
    comp2memWrKeyStatus := comp2memWrKeyStatus ?s @ [key_statuses (map hw_data (mask_key md ws)) rows (statusOutput ?s)],
    comp2memWrMd := comp2memWrMd ?s @ [cmp_inDataMd ?s], cmp_keyLength := 0, cmpState := CMP_IDLE\<rparr>"
    by (rule compare_rows) (use ok b assms(5) in simp_all)
  from funpow_then [OF two this] show ?thesis
    using st b ok(2) by (simp add: add.commute [of 2] request_status_def request_key_def)
qed

lemma compare_requests:
  "list_all2 burst_ok rs bs \<Longrightarrow> list_all request_ok rs \<Longrightarrow> cmpState s = CMP_IDLE \<Longrightarrow> cmp_md s = map fst rs \<Longrightarrow> cmp_key s = all_masked rs \<Longrightarrow>
     memRdData s = concat bs \<Longrightarrow>
     \<exists>s'. (ht_compare ^^ (length (all_words rs) + 2 * length rs)) s = s' \<and> cmpState s' = CMP_IDLE \<and> cmp_md s' = [] \<and> cmp_key s' = [] \<and> memRdData s' = [] \<and>
       comp2memWrMd s' = comp2memWrMd s @ map fst rs \<and> comp2memWrKey s' = comp2memWrKey s @ all_masked rs \<and>
       comp2memWrKeyStatus s' = comp2memWrKeyStatus s @ map2 request_status rs bs \<and> comp2memWrMemData s' = comp2memWrMemData s @ concat bs"
proof (induction rs bs arbitrary: s rule: list_all2_induct)
  case (Cons r rs b bs)
  obtain md ws where r: "r = (md, ws)" by (cases r)
  from compare_request [of md ws b s "map fst rs" "all_masked rs" "concat bs"] Cons.prems Cons.hyps(1) r obtain s1 where
    s1: "(ht_compare ^^ (length ws + 2)) s = s1" "cmpState s1 = CMP_IDLE" "cmp_md s1 = map fst rs" "cmp_key s1 = all_masked rs" "memRdData s1 = concat bs"
      "comp2memWrMd s1 = comp2memWrMd s @ [md]" "comp2memWrKey s1 = comp2memWrKey s @ mask_key md ws"
      "comp2memWrKeyStatus s1 = comp2memWrKeyStatus s @ [request_status r b]" "comp2memWrMemData s1 = comp2memWrMemData s @ b"
    by auto
  from Cons.IH [OF _ s1(2-5)] Cons.prems(1) obtain s' where
    s': "(ht_compare ^^ (length (all_words rs) + 2 * length rs)) s1 = s'" "cmpState s' = CMP_IDLE" "cmp_md s' = []" "cmp_key s' = []" "memRdData s' = []"
      "comp2memWrMd s' = comp2memWrMd s1 @ map fst rs" "comp2memWrKey s' = comp2memWrKey s1 @ all_masked rs"
      "comp2memWrKeyStatus s' = comp2memWrKeyStatus s1 @ map2 request_status rs bs" "comp2memWrMemData s' = comp2memWrMemData s1 @ concat bs"
    by auto
  have n: "length (all_words (r # rs)) + 2 * length (r # rs) = length ws + 2 + (length (all_words rs) + 2 * length rs)" by (simp add: r)
  from funpow_then [OF s1(1) s'(1)] have run: "(ht_compare ^^ (length (all_words (r # rs)) + 2 * length (r # rs))) s = s'" by (simp only: n)
  from s1(6-9) s'(2-9) r show ?case unfolding run by simp
qed simp

section \<open>Writing back\<close>

lemma pick_bin_find: "pick_bin p is loc = (case find p (rev is) of None \<Rightarrow> (False, loc) | Some i \<Rightarrow> (True, of_nat i))"
proof (induction "is" rule: rev_induct)
  case (snoc i "is")
  then show ?case by (cases "find p (rev is)") (auto simp: pick_bin_def)
qed (simp add: pick_bin_def)

lemma mw_consume:
  "eop_last ws \<Longrightarrow> memWrState s = MW_CONSUME \<Longrightarrow> mw_key s = ws @ rest \<Longrightarrow> mw_memData s = rows @ rest' \<Longrightarrow> length rows = length ws \<Longrightarrow>
     (memWriteWithBuddy ^^ length ws) s = s\<lparr>mw_key := rest, mw_memData := rest', memWrState := MW_IDLE\<rparr>"
proof (induction ws arbitrary: s rows)
  case (Cons w ws)
  from Cons.prems(5) obtain m ms where rows: "rows = m # ms" by (cases rows) auto
  let ?s = "s\<lparr>mw_key := ws @ rest, mw_memData := ms @ rest', memWrState := if ws = [] then MW_IDLE else MW_CONSUME\<rparr>"
  have one: "memWriteWithBuddy s = ?s" using Cons.prems rows by (auto simp: memWriteWithBuddy_def)
  show ?case
  proof (cases "ws = []")
    case True
    with one Cons.prems rows show ?thesis by simp
  next
    case False
    have "(memWriteWithBuddy ^^ length ws) ?s = ?s\<lparr>mw_key := rest, mw_memData := rest', memWrState := MW_IDLE\<rparr>"
      by (rule Cons.IH) (use Cons.prems rows False in simp_all)
    then show ?thesis using one by (simp add: funpow_swap1)
  qed
qed simp

lemma mw_set_rest:
  "eop_last ws \<Longrightarrow> memWrState s = MW_SET_REST \<Longrightarrow> mw_key s = ws @ rest \<Longrightarrow> mw_memData s = rows @ rest' \<Longrightarrow> length rows = length ws \<Longrightarrow>
     (memWriteWithBuddy ^^ length ws) s = s\<lparr>mw_key := rest, mw_memData := rest', memWr2cc := memWr2cc s @ [1], memWrState := MW_IDLE,
       memWrData := memWrData s @ map2 (\<lambda>w m. put_data m (unat (memWr_location s)) (hw_data w)) ws rows\<rparr>"
proof (induction ws arbitrary: s rows)
  case (Cons w ws)
  from Cons.prems(5) obtain m ms where rows: "rows = m # ms" by (cases rows) auto
  let ?s = "s\<lparr>mw_key := ws @ rest, mw_memData := ms @ rest', memWrData := memWrData s @ [put_data m (unat (memWr_location s)) (hw_data w)],
    memWr2cc := memWr2cc s @ (if ws = [] then [1] else []), memWrState := if ws = [] then MW_IDLE else MW_SET_REST\<rparr>"
  have one: "memWriteWithBuddy s = ?s" using Cons.prems rows by (auto simp: memWriteWithBuddy_def put_data_def swrite_def Let_def)
  show ?case
  proof (cases "ws = []")
    case True
    with one Cons.prems rows show ?thesis by simp
  next
    case False
    have "(memWriteWithBuddy ^^ length ws) ?s = ?s\<lparr>mw_key := rest, mw_memData := rest', memWr2cc := memWr2cc ?s @ [1], memWrState := MW_IDLE,
      memWrData := memWrData ?s @ map2 (\<lambda>w m. put_data m (unat (memWr_location ?s)) (hw_data w)) ws ms\<rparr>"
      by (rule Cons.IH) (use Cons.prems rows False in simp_all)
    then show ?thesis using one rows False by (simp add: funpow_swap1)
  qed
qed simp

lemma request_status_bins:
  "i < noOfBins \<Longrightarrow> bin_match (request_status r b ! i) = 1 \<longleftrightarrow> holds b (request_key r) i"
  "i < noOfBins \<Longrightarrow> bin_free (request_status r b ! i) = 1 \<longleftrightarrow> bin_keyLength (b ! 0) i = 0"
  by (simp_all add: request_status_def bin_status_def)

lemma find_cong_set: "(\<And>x. x \<in> set xs \<Longrightarrow> P x = Q x) \<Longrightarrow> find P xs = find Q xs"
  by (induction xs) auto

lemma pick_match:
  "pick_bin (\<lambda>i. bin_match (request_status r b ! i) = 1) (rev [0..<noOfBins]) loc = (case hit b (request_key r) of None \<Rightarrow> (False, loc) | Some i \<Rightarrow> (True, of_nat i))"
proof -
  have "find (\<lambda>i. bin_match (request_status r b ! i) = 1) [0..<noOfBins] = hit b (request_key r)"
    unfolding hit_def by (rule find_cong_set) (simp add: request_status_bins)
  then show ?thesis by (simp add: pick_bin_find)
qed

lemma pick_last_match:
  "pick_bin (\<lambda>i. bin_match (request_status r b ! i) = 1) [0..<noOfBins] loc = (case last_hit b (request_key r) of None \<Rightarrow> (False, loc) | Some i \<Rightarrow> (True, of_nat i))"
proof -
  have "find (\<lambda>i. bin_match (request_status r b ! i) = 1) (rev [0..<noOfBins]) = last_hit b (request_key r)"
    unfolding last_hit_def by (rule find_cong_set) (simp add: request_status_bins)
  then show ?thesis by (simp add: pick_bin_find)
qed

lemma pick_room:
  assumes "hit b (request_key r) = None"
  shows "pick_bin (\<lambda>i. bin_free (request_status r b ! i) = 1 \<or> bin_match (request_status r b ! i) = 1) (rev [0..<noOfBins]) loc =
    (case room b of None \<Rightarrow> (False, loc) | Some i \<Rightarrow> (True, of_nat i))"
proof -
  have "find (\<lambda>i. bin_free (request_status r b ! i) = 1 \<or> bin_match (request_status r b ! i) = 1) [0..<noOfBins] = room b"
    unfolding room_def using assms by (intro find_cong_set) (auto simp: request_status_bins hit_def find_None_iff)
  then show ?thesis by (simp add: pick_bin_find)
qed

lemma pick_any:
  assumes "hit b (request_key r) = Some i"
  shows "fst (pick_bin (\<lambda>i. bin_free (request_status r b ! i) = 1 \<or> bin_match (request_status r b ! i) = 1) (rev [0..<noOfBins]) loc)"
proof -
  have "i < noOfBins \<and> holds b (request_key r) i" using assms by (auto simp: hit_def find_Some_iff)
  then have "find (\<lambda>i. bin_free (request_status r b ! i) = 1 \<or> bin_match (request_status r b ! i) = 1) [0..<noOfBins] \<noteq> None"
    by (auto simp: find_None_iff request_status_bins)
  then show ?thesis by (auto simp: pick_bin_find)
qed

lemma bin_index: "hit b k = Some i \<or> last_hit b k = Some i \<or> room b = Some i \<Longrightarrow> i < noOfBins \<and> unat (of_nat i :: 3 word) = i"
proof -
  assume "hit b k = Some i \<or> last_hit b k = Some i \<or> room b = Some i"
  then have "i < noOfBins" by (auto simp: hit_def last_hit_def room_def dest: find_SomeD)
  then show ?thesis by (simp add: noOfBins_def unat_of_nat take_bit_nat_eq_self)
qed

text \<open>
  The second cycle of a request: the head of the bucket is there. \<open>sent\<close> is the state after the words \<open>ds\<close>, the result \<open>out\<close> and the requests \<open>al\<close> to the
  allocator have been written.
\<close>

definition transaction :: "32 word \<Rightarrow> kv_request \<Rightarrow> 512 word list \<Rightarrow> txn" where
  "transaction nr r b = serve nr (im_operation (fst r)) (request_key r) (im_valueLength (fst r)) b"

definition write_command :: "internalMdWord \<Rightarrow> 512 word list \<Rightarrow> memCtrlWord list" where
  "write_command md ds = (if ds = [] then [] else [\<lparr>mc_address = bucket_address (im_metadata md), mc_count = of_nat (length ds)\<rparr>])"

definition waiting :: "memWrite_st \<Rightarrow> internalMdWord list \<Rightarrow> hashTableInternalWord list \<Rightarrow> comp2decWord list \<Rightarrow> 512 word list \<Rightarrow> bool" where
  "waiting s mds ws sts ms \<longleftrightarrow> memWrState s = MW_IDLE \<and> memWr_memInitialized s \<and> mw_md s = mds \<and> mw_key s = ws \<and> mw_keyStatus s = sts \<and> mw_memData s = ms"

definition written :: "memWrite_st \<Rightarrow> kv_request \<Rightarrow> txn \<Rightarrow> memWrite_st \<Rightarrow> bool" where
  "written s r tx s' \<longleftrightarrow> dummy_nr s' = tx_nr tx \<and> memWr2out s' = memWr2out s @ [tx_out tx] \<and> memWr2cc s' = memWr2cc s @ [1] \<and>
     memWrCtrl s' = memWrCtrl s @ write_command (fst r) (tx_data tx) \<and> memWrData s' = memWrData s @ tx_data tx \<and> mw_alloc s' = mw_alloc s @ tx_alloc tx"

text \<open>The state in which the head of the bucket has been taken.\<close>

definition evaluated :: "memWrite_st \<Rightarrow> kv_request \<Rightarrow> 512 word list \<Rightarrow> internalMdWord list \<Rightarrow> hashTableInternalWord list \<Rightarrow> comp2decWord list \<Rightarrow> 512 word list \<Rightarrow> memWrite_st \<Rightarrow> bool" where
  "evaluated s r b mds rest sts rest' s1 \<longleftrightarrow>
     memWr_memInitialized s1 \<and> mw_md s1 = mds \<and> mw_key s1 = mask_key (fst r) (snd r) @ rest \<and> mw_keyStatus s1 = sts \<and> mw_memData s1 = tl b @ rest' \<and>
     htMemWriteInputWordMd s1 = fst r \<and> htMemWriteInputStatusWord s1 = request_status r b \<and> memWr_keyLength s1 = im_keyLength (fst r) \<and>
     memWr_valueLength s1 = im_valueLength (fst r) \<and>
     dummy_nr s1 = dummy_nr s \<and> memWr2out s1 = memWr2out s \<and> memWr2cc s1 = memWr2cc s \<and> memWrCtrl s1 = memWrCtrl s \<and> memWrData s1 = memWrData s \<and> mw_alloc s1 = mw_alloc s"

lemma mw_begin:
  assumes "waiting s (md # mds) (mask_key md ws @ rest) (request_status (md, ws) b # sts) (b @ rest')" and "burst_ok (md, ws) b"
  shows "\<exists>s1. (memWriteWithBuddy ^^ 2) s = (if im_operation md = 0 then mw_get (b ! 0) s1 else if im_operation md = 1 then mw_set (b ! 0) s1
      else if im_operation md = 4 then mw_delete (b ! 0) s1 else s1) \<and>
    evaluated s (md, ws) b mds rest sts rest' s1"
proof -
  from assms(2) obtain h rows where "b = h # rows" by (cases b) (auto simp: burst_ok_def)
  with assms(1) show ?thesis
    by (intro exI [of _ "s\<lparr>memWriteAddress := 0, mw_md := mds, mw_keyStatus := sts, htMemWriteInputStatusWord := request_status (md, ws) b, htMemWriteInputWordMd := md,
      memWrState := MW_EVAL, mw_memData := tl b @ rest', memWr_keyLength := im_keyLength md, memWr_valueLength := im_valueLength md\<rparr>"])
      (simp add: numeral_2_eq_2 memWriteWithBuddy_def waiting_def evaluated_def)
qed

lemma bucket_count_rows:
  assumes "0 < unat len" and "unat len \<le> 112"
  shows "bucket_count len = of_nat (Suc (key_rows len))"
proof -
  have d: "unat (len div 16) = unat len div 16" by (simp add: unat_div)
  have "unat len div 16 < 256" using assms(2) by linarith
  then have w: "len div 16 = of_nat (unat len div 16)" by (intro word_unat_eq_iff [THEN iffD2]) (simp add: d unat_of_nat take_bit_nat_eq_self del: of_nat_div)
  have "bucket_count len = of_nat (if unat len > unat len div 16 * 16 then unat len div 16 + 2 else unat len div 16 + 1)"
    unfolding bucket_count_def Let_def d by (simp add: w del: of_nat_div)
  moreover have "(if unat len > unat len div 16 * 16 then unat len div 16 + 2 else unat len div 16 + 1) = Suc (key_rows len)"
    unfolding key_rows_def by (simp split: if_split) linarith
  ultimately show ?thesis by simp
qed

lemma mw_get_effect:
  assumes "htMemWriteInputStatusWord s = request_status (md, ws) b" and "htMemWriteInputWordMd s = md" and "im_operation md = 0"
  shows "\<exists>loc. mw_get (b ! 0) s = s\<lparr>memWr_location := loc, memWr2out := memWr2out s @ [tx_out (transaction nr (md, ws) b)], memWr2cc := memWr2cc s @ [1], memWrState := MW_CONSUME\<rparr>"
proof (cases "hit b (request_key (md, ws))")
  case None
  with assms show ?thesis
    by (intro exI [of _ "memWr_location s"]) (simp add: mw_get_def pick_match transaction_def serve_def kv_fail_def dr_zero_def swrite_def)
next
  case (Some i)
  with bin_index [of b "request_key (md, ws)" i] assms show ?thesis
    by (intro exI [of _ "of_nat i"]) (simp add: mw_get_def pick_match transaction_def serve_def kv_ok_def dr_zero_def swrite_def)
qed

lemma mw_delete_effect:
  assumes "htMemWriteInputStatusWord s = request_status (md, ws) b" and "htMemWriteInputWordMd s = md" and "im_operation md = 4"
    and "tx = transaction nr (md, ws) b"
  shows "\<exists>loc req. mw_delete (b ! 0) s = s\<lparr>memWr_location := loc, buddy_req := req, memWrCtrl := memWrCtrl s @ write_command md (tx_data tx), memWrData := memWrData s @ tx_data tx,
    mw_alloc := mw_alloc s @ tx_alloc tx, memWr2out := memWr2out s @ [tx_out tx], memWr2cc := memWr2cc s @ [1], memWrState := MW_CONSUME\<rparr>"
proof (cases "last_hit b (request_key (md, ws))")
  case None
  with assms show ?thesis
    by (intro exI [of _ "memWr_location s"] exI [of _ "buddy_req s"]) (simp add: mw_delete_def pick_last_match transaction_def serve_def kv_fail_def dr_zero_def swrite_def write_command_def)
next
  case (Some i)
  with bin_index [of b "request_key (md, ws)" i] assms show ?thesis
    by (intro exI [of _ "of_nat i"] exI [of _ "free_request (b ! 0) i"])
      (simp add: mw_delete_def pick_last_match transaction_def serve_def kv_ok_def dr_zero_def swrite_def write_command_def drop_key_def free_request_def Let_def)
qed

lemma mw_set_none:
  assumes "htMemWriteInputStatusWord s = request_status (md, ws) b" and "htMemWriteInputWordMd s = md" and "im_operation md = 1"
    and "hit b (request_key (md, ws)) = None" and "room b = None"
  shows "\<exists>l1 l2. mw_set (b ! 0) s = s\<lparr>memWr_location := l1, memWr_replaceLocation := l2, memWr2out := memWr2out s @ [kv_fail 1], memWr2cc := memWr2cc s @ [1], memWrState := MW_CONSUME\<rparr>"
  using assms by (intro exI [of _ "memWr_location s"] exI [of _ "memWr_replaceLocation s"])
    (simp add: mw_set_def pick_match pick_room kv_fail_def dr_zero_def swrite_def)

text \<open>The new entry goes to bin \<open>i\<close>, with the value at \<open>a\<close>.\<close>

definition entry_sent :: "memWrite_st \<Rightarrow> internalMdWord \<Rightarrow> 512 word \<Rightarrow> nat \<Rightarrow> 32 word \<Rightarrow> memWrite_st \<Rightarrow> bool" where
  "entry_sent s md h i a s' \<longleftrightarrow> memWrState s' = MW_SET_REST \<and> memWr_memInitialized s' = memWr_memInitialized s \<and> memWr_location s' = of_nat i \<and>
     mw_md s' = mw_md s \<and> mw_key s' = mw_key s \<and> mw_keyStatus s' = mw_keyStatus s \<and> mw_memData s' = mw_memData s \<and>
     memWrCtrl s' = memWrCtrl s @ [\<lparr>mc_address = bucket_address (im_metadata md), mc_count = bucket_count (im_keyLength md)\<rparr>] \<and>
     memWrData s' = memWrData s @ [put_address (put_entry h i (memWr_keyLength s) (memWr_valueLength s)) i a] \<and>
     memWr2out s' = memWr2out s @ [kv_ok 1 a 0] \<and> memWr2cc s' = memWr2cc s"

lemma mw_set_replace:
  assumes "htMemWriteInputStatusWord s = request_status (md, ws) b" and "htMemWriteInputWordMd s = md" and "im_operation md = 1"
    and hit: "hit b (request_key (md, ws)) = Some i"
  shows "entry_sent s md (b ! 0) i (bin_valueAddress (b ! 0) i) (mw_set (b ! 0) s)" "mw_alloc (mw_set (b ! 0) s) = mw_alloc s" "dummy_nr (mw_set (b ! 0) s) = dummy_nr s"
proof -
  have i: "i < noOfBins" "unat (of_nat i :: 3 word) = i" using bin_index [of b _ i] hit by blast+
  let ?p = "pick_bin (\<lambda>j. bin_free (htMemWriteInputStatusWord s ! j) = 1 \<or> bin_match (htMemWriteInputStatusWord s ! j) = 1) (rev [0..<noOfBins]) (memWr_location s)"
  have "fst ?p" using pick_any [OF hit, of "memWr_location s"] assms(1) by simp
  then obtain loc where p: "?p = (True, loc)" by (cases ?p) simp
  have q: "pick_bin (\<lambda>j. bin_match (htMemWriteInputStatusWord s ! j) = 1) (rev [0..<noOfBins]) (memWr_replaceLocation s) = (True, of_nat i)"
    using pick_match [of "(md, ws)" b] hit assms(1) by simp
  note defs = mw_set_def p q i put_head_same(4) kv_ok_def dr_zero_def swrite_def Let_def assms(2,3)
  show "entry_sent s md (b ! 0) i (bin_valueAddress (b ! 0) i) (mw_set (b ! 0) s)" by (simp add: entry_sent_def defs)
  show "mw_alloc (mw_set (b ! 0) s) = mw_alloc s" "dummy_nr (mw_set (b ! 0) s) = dummy_nr s" by (simp_all add: defs)
qed

lemma mw_set_new:
  assumes "htMemWriteInputStatusWord s = request_status (md, ws) b" and "htMemWriteInputWordMd s = md" and "im_operation md = 1"
    and hit: "hit b (request_key (md, ws)) = None" and room: "room b = Some i"
  shows "entry_sent s md (b ! 0) i (fst (dummy_value_allocator (dummy_nr s))) (mw_set (b ! 0) s)" "mw_alloc (mw_set (b ! 0) s) = mw_alloc s @ [value_request (memWr_valueLength s)]"
    "dummy_nr (mw_set (b ! 0) s) = snd (dummy_value_allocator (dummy_nr s))"
proof -
  have i: "i < noOfBins" "unat (of_nat i :: 3 word) = i" using bin_index [of b _ i] room by blast+
  have p: "pick_bin (\<lambda>j. bin_free (htMemWriteInputStatusWord s ! j) = 1 \<or> bin_match (htMemWriteInputStatusWord s ! j) = 1) (rev [0..<noOfBins]) (memWr_location s) = (True, of_nat i)"
    using pick_room [OF hit] room assms(1) by simp
  have q: "pick_bin (\<lambda>j. bin_match (htMemWriteInputStatusWord s ! j) = 1) (rev [0..<noOfBins]) (memWr_replaceLocation s) = (False, memWr_replaceLocation s)"
    using pick_match [of "(md, ws)" b] hit assms(1) by simp
  note defs = mw_set_def p q i value_request_def kv_ok_def dr_zero_def swrite_def Let_def split_beta assms(2,3)
  show "entry_sent s md (b ! 0) i (fst (dummy_value_allocator (dummy_nr s))) (mw_set (b ! 0) s)" by (cases "mw_alloc_ret s") (simp_all add: entry_sent_def defs)
  show "mw_alloc (mw_set (b ! 0) s) = mw_alloc s @ [value_request (memWr_valueLength s)]" "dummy_nr (mw_set (b ! 0) s) = snd (dummy_value_allocator (dummy_nr s))"
    by (cases "mw_alloc_ret s"; simp add: defs)+
qed

text \<open>The rest of the bucket follows.\<close>

lemma entry_written:
  assumes "entry_sent s md (b ! 0) i a s1" and "eop_last ws" and "mw_key s = ws @ rest" and "mw_memData s = tl b @ rest'" and "length b = Suc (length ws)"
    and "i < noOfBins" and "memWr_keyLength s = fst k" and "map hw_data ws = snd k"
  shows "\<exists>s'. (memWriteWithBuddy ^^ length ws) s1 = s' \<and> memWrState s' = MW_IDLE \<and> memWr_memInitialized s' = memWr_memInitialized s \<and> mw_md s' = mw_md s \<and> mw_key s' = rest \<and>
    mw_keyStatus s' = mw_keyStatus s \<and> mw_memData s' = rest' \<and> dummy_nr s' = dummy_nr s1 \<and> mw_alloc s' = mw_alloc s1 \<and>
    memWrCtrl s' = memWrCtrl s @ [\<lparr>mc_address = bucket_address (im_metadata md), mc_count = bucket_count (im_keyLength md)\<rparr>] \<and>
    memWrData s' = memWrData s @ put_key b i k (memWr_valueLength s) a \<and> memWr2out s' = memWr2out s @ [kv_ok 1 a 0] \<and> memWr2cc s' = memWr2cc s @ [1]"
proof -
  have e: "memWrState s1 = MW_SET_REST" "mw_key s1 = ws @ rest" "mw_memData s1 = tl b @ rest'" "length (tl b) = length ws" "unat (memWr_location s1) = i"
    using assms by (simp_all add: entry_sent_def noOfBins_def unat_of_nat take_bit_nat_eq_self)
  have "map2 (\<lambda>w m. put_data m i (hw_data w)) ws (tl b) = map (\<lambda>j. put_data (b ! Suc j) i (snd k ! j)) [0..<length (snd k)]"
    using e(4) assms(5,8) [symmetric] by (intro nth_equalityI) (simp_all add: nth_tl)
  with mw_set_rest [OF assms(2) e(1-4)] e(5) assms(1,7) show ?thesis by (simp add: entry_sent_def put_key_def)
qed

lemma request_keyD:
  assumes "request_ok (md, ws)"
  shows "stored_ok (request_key (md, ws))" "fst (request_key (md, ws)) = im_keyLength md" "snd (request_key (md, ws)) = map hw_data (mask_key md ws)"
  using assms by (auto simp: request_ok_def stored_ok_def request_key_def)

lemma set_command:
  assumes "request_ok (md, ws)" and "ds = put_key b i (request_key (md, ws)) l a"
  shows "[\<lparr>mc_address = bucket_address (im_metadata md), mc_count = bucket_count (im_keyLength md)\<rparr>] = write_command md ds"
proof -
  have "length ds = Suc (key_rows (im_keyLength md))" using assms by (simp add: length_put_key request_key_def request_ok_def)
  moreover from this have "ds \<noteq> []" by auto
  ultimately show ?thesis using assms(1) bucket_count_rows [of "im_keyLength md"] by (simp add: write_command_def request_ok_def)
qed

text \<open>The three operations, from the head on.\<close>

lemma transaction_get: "im_operation (fst r) = 0 \<Longrightarrow> tx_data (transaction nr r b) = [] \<and> tx_alloc (transaction nr r b) = [] \<and> tx_nr (transaction nr r b) = nr"
  by (simp add: transaction_def serve_def Let_def split: option.split)

lemma mw_get_request:
  assumes ok: "request_ok (md, ws)" and b: "burst_ok (md, ws) b" and ev: "evaluated s (md, ws) b mds rest sts rest' s1" and op: "im_operation md = 0"
  shows "\<exists>s'. (memWriteWithBuddy ^^ length ws) (mw_get (b ! 0) s1) = s' \<and> waiting s' mds rest sts rest' \<and> written s (md, ws) (transaction (dummy_nr s) (md, ws) b) s'"
proof -
  let ?tx = "transaction (dummy_nr s) (md, ws) b"
  from ev mw_get_effect [of s1 md ws b "dummy_nr s"] op obtain loc where
    eq: "mw_get (b ! 0) s1 = s1\<lparr>memWr_location := loc, memWr2out := memWr2out s1 @ [tx_out ?tx], memWr2cc := memWr2cc s1 @ [1], memWrState := MW_CONSUME\<rparr>"
    by (auto simp: evaluated_def)
  have "(memWriteWithBuddy ^^ length (mask_key md ws)) (mw_get (b ! 0) s1) = (mw_get (b ! 0) s1)\<lparr>mw_key := rest, mw_memData := rest', memWrState := MW_IDLE\<rparr>"
    by (rule mw_consume [of _ _ _ "tl b"]) (use ok b ev in \<open>simp_all add: eq request_ok_def burst_ok_def evaluated_def\<close>)
  then show ?thesis using ev transaction_get [of "(md, ws)" "dummy_nr s" b] op by (simp add: eq evaluated_def waiting_def written_def write_command_def)
qed

lemma mw_delete_request:
  assumes ok: "request_ok (md, ws)" and b: "burst_ok (md, ws) b" and ev: "evaluated s (md, ws) b mds rest sts rest' s1" and op: "im_operation md = 4"
  shows "\<exists>s'. (memWriteWithBuddy ^^ length ws) (mw_delete (b ! 0) s1) = s' \<and> waiting s' mds rest sts rest' \<and> written s (md, ws) (transaction (dummy_nr s) (md, ws) b) s'"
proof -
  let ?tx = "transaction (dummy_nr s) (md, ws) b"
  from ev mw_delete_effect [of s1 md ws b ?tx "dummy_nr s"] op obtain loc req where
    eq: "mw_delete (b ! 0) s1 = s1\<lparr>memWr_location := loc, buddy_req := req, memWrCtrl := memWrCtrl s1 @ write_command md (tx_data ?tx), memWrData := memWrData s1 @ tx_data ?tx,
      mw_alloc := mw_alloc s1 @ tx_alloc ?tx, memWr2out := memWr2out s1 @ [tx_out ?tx], memWr2cc := memWr2cc s1 @ [1], memWrState := MW_CONSUME\<rparr>"
    by (auto simp: evaluated_def)
  have "(memWriteWithBuddy ^^ length (mask_key md ws)) (mw_delete (b ! 0) s1) = (mw_delete (b ! 0) s1)\<lparr>mw_key := rest, mw_memData := rest', memWrState := MW_IDLE\<rparr>"
    by (rule mw_consume [of _ _ _ "tl b"]) (use ok b ev in \<open>simp_all add: eq request_ok_def burst_ok_def evaluated_def\<close>)
  moreover have "tx_nr ?tx = dummy_nr s" using op by (simp add: transaction_def serve_def Let_def split: option.split)
  ultimately show ?thesis using ev by (simp add: eq evaluated_def waiting_def written_def)
qed

lemma mw_full_request:
  assumes ok: "request_ok (md, ws)" and b: "burst_ok (md, ws) b" and ev: "evaluated s (md, ws) b mds rest sts rest' s1" and op: "im_operation md = 1"
    and none: "hit b (request_key (md, ws)) = None" "room b = None"
  shows "\<exists>s'. (memWriteWithBuddy ^^ length ws) (mw_set (b ! 0) s1) = s' \<and> waiting s' mds rest sts rest' \<and> written s (md, ws) (transaction (dummy_nr s) (md, ws) b) s'"
proof -
  from ev mw_set_none [of s1 md ws b, OF _ _ op none] obtain l1 l2 where
    eq: "mw_set (b ! 0) s1 = s1\<lparr>memWr_location := l1, memWr_replaceLocation := l2, memWr2out := memWr2out s1 @ [kv_fail 1], memWr2cc := memWr2cc s1 @ [1], memWrState := MW_CONSUME\<rparr>"
    by (auto simp: evaluated_def)
  have "(memWriteWithBuddy ^^ length (mask_key md ws)) (mw_set (b ! 0) s1) = (mw_set (b ! 0) s1)\<lparr>mw_key := rest, mw_memData := rest', memWrState := MW_IDLE\<rparr>"
    by (rule mw_consume [of _ _ _ "tl b"]) (use ok b ev in \<open>simp_all add: eq request_ok_def burst_ok_def evaluated_def\<close>)
  then show ?thesis using ev op none by (simp add: eq evaluated_def waiting_def written_def transaction_def serve_def write_command_def)
qed

lemma mw_entry_request:
  assumes ok: "request_ok (md, ws)" and b: "burst_ok (md, ws) b" and ev: "evaluated s (md, ws) b mds rest sts rest' s1"
    and sent: "entry_sent s1 md (b ! 0) i a (mw_set (b ! 0) s1)" "mw_alloc (mw_set (b ! 0) s1) = mw_alloc s1 @ tx_alloc tx" "dummy_nr (mw_set (b ! 0) s1) = tx_nr tx"
    and tx: "tx_data tx = put_key b i (request_key (md, ws)) (im_valueLength md) a" "tx_out tx = kv_ok 1 a 0" and i: "i < noOfBins"
  shows "\<exists>s'. (memWriteWithBuddy ^^ length ws) (mw_set (b ! 0) s1) = s' \<and> waiting s' mds rest sts rest' \<and> written s (md, ws) tx s'"
proof -
  have "\<exists>s'. (memWriteWithBuddy ^^ length (mask_key md ws)) (mw_set (b ! 0) s1) = s' \<and> memWrState s' = MW_IDLE \<and> memWr_memInitialized s' = memWr_memInitialized s1 \<and>
    mw_md s' = mw_md s1 \<and> mw_key s' = rest \<and> mw_keyStatus s' = mw_keyStatus s1 \<and> mw_memData s' = rest' \<and>
    dummy_nr s' = dummy_nr (mw_set (b ! 0) s1) \<and> mw_alloc s' = mw_alloc (mw_set (b ! 0) s1) \<and>
    memWrCtrl s' = memWrCtrl s1 @ [\<lparr>mc_address = bucket_address (im_metadata md), mc_count = bucket_count (im_keyLength md)\<rparr>] \<and>
    memWrData s' = memWrData s1 @ put_key b i (request_key (md, ws)) (memWr_valueLength s1) a \<and> memWr2out s' = memWr2out s1 @ [kv_ok 1 a 0] \<and> memWr2cc s' = memWr2cc s1 @ [1]"
    by (rule entry_written [OF sent(1)]) (use ok b ev i request_keyD [OF ok] in \<open>simp_all add: evaluated_def request_ok_def burst_ok_def\<close>)
  then show ?thesis using ev sent(2,3) tx set_command [OF ok tx(1)] by (auto simp: evaluated_def waiting_def written_def)
qed

lemma mw_set_request:
  assumes ok: "request_ok (md, ws)" and b: "burst_ok (md, ws) b" and ev: "evaluated s (md, ws) b mds rest sts rest' s1" and op: "im_operation md = 1"
  shows "\<exists>s'. (memWriteWithBuddy ^^ length ws) (mw_set (b ! 0) s1) = s' \<and> waiting s' mds rest sts rest' \<and> written s (md, ws) (transaction (dummy_nr s) (md, ws) b) s'"
proof -
  from ev have s1: "htMemWriteInputStatusWord s1 = request_status (md, ws) b" "htMemWriteInputWordMd s1 = md" "dummy_nr s1 = dummy_nr s" "memWr_valueLength s1 = im_valueLength md"
    by (simp_all add: evaluated_def)
  consider "hit b (request_key (md, ws)) = None" "room b = None" | i where "hit b (request_key (md, ws)) = Some i"
    | i where "hit b (request_key (md, ws)) = None" "room b = Some i" by (cases "hit b (request_key (md, ws))"; cases "room b") auto
  then show ?thesis
  proof cases
    case 1
    then show ?thesis by (rule mw_full_request [OF ok b ev op])
  next
    case (2 i)
    from mw_set_replace [OF s1(1,2) op 2] bin_index [of b "request_key (md, ws)" i] 2 op s1(3) show ?thesis
      by (intro mw_entry_request [OF ok b ev, of i "bin_valueAddress (b ! 0) i"]) (simp_all add: transaction_def serve_def Let_def)
  next
    case (3 i)
    from mw_set_new [OF s1(1,2) op 3] bin_index [of b "request_key (md, ws)" i] 3 op s1(3,4) show ?thesis
      by (intro mw_entry_request [OF ok b ev, of i "fst (dummy_value_allocator (dummy_nr s))"]) (simp_all add: transaction_def serve_def Let_def split_beta)
  qed
qed

lemma mw_request:
  assumes ok: "request_ok (md, ws)" and b: "burst_ok (md, ws) b"
    and wait: "waiting s (md # mds) (mask_key md ws @ rest) (request_status (md, ws) b # sts) (b @ rest')"
  shows "\<exists>s'. (memWriteWithBuddy ^^ (length ws + 2)) s = s' \<and> waiting s' mds rest sts rest' \<and> written s (md, ws) (transaction (dummy_nr s) (md, ws) b) s'"
proof -
  from mw_begin [OF wait b] obtain s1 where
    run: "(memWriteWithBuddy ^^ 2) s = (if im_operation md = 0 then mw_get (b ! 0) s1 else if im_operation md = 1 then mw_set (b ! 0) s1
      else if im_operation md = 4 then mw_delete (b ! 0) s1 else s1)"
    and ev: "evaluated s (md, ws) b mds rest sts rest' s1" by blast
  have "(memWriteWithBuddy ^^ (length ws + 2)) s = (memWriteWithBuddy ^^ length ws) ((memWriteWithBuddy ^^ 2) s)" by (simp only: funpow_add comp_apply)
  moreover consider "im_operation md = 0" | "im_operation md = 1" | "im_operation md = 4" using ok by (auto simp: request_ok_def)
  then have "\<exists>s'. (memWriteWithBuddy ^^ length ws) ((memWriteWithBuddy ^^ 2) s) = s' \<and> waiting s' mds rest sts rest' \<and> written s (md, ws) (transaction (dummy_nr s) (md, ws) b) s'"
    unfolding run by cases (simp_all add: mw_get_request [OF ok b ev, simplified] mw_set_request [OF ok b ev, simplified] mw_delete_request [OF ok b ev, simplified])
  ultimately show ?thesis by simp
qed

text \<open>The transactions of a list of requests, with the counter of places handed from one to the next.\<close>

fun transactions :: "32 word \<Rightarrow> kv_request list \<Rightarrow> 512 word list list \<Rightarrow> txn list" where
  "transactions nr (r # rs) (b # bs) = (let tx = transaction nr r b in tx # transactions (tx_nr tx) rs bs)"
| "transactions nr _ _ = []"

definition all_written :: "memWrite_st \<Rightarrow> kv_request list \<Rightarrow> txn list \<Rightarrow> memWrite_st \<Rightarrow> bool" where
  "all_written s rs txs s' \<longleftrightarrow> memWr2out s' = memWr2out s @ map tx_out txs \<and> memWr2cc s' = memWr2cc s @ replicate (length txs) 1 \<and>
     memWrCtrl s' = memWrCtrl s @ concat (map2 (\<lambda>r tx. write_command (fst r) (tx_data tx)) rs txs) \<and> memWrData s' = memWrData s @ concat (map tx_data txs) \<and>
     mw_alloc s' = mw_alloc s @ concat (map tx_alloc txs) \<and> dummy_nr s' = fold (\<lambda>tx _. tx_nr tx) txs (dummy_nr s)"

lemma mw_requests:
  "list_all2 burst_ok rs bs \<Longrightarrow> list_all request_ok rs \<Longrightarrow> waiting s (map fst rs) (all_masked rs) (map2 request_status rs bs) (concat bs) \<Longrightarrow>
     \<exists>s'. (memWriteWithBuddy ^^ (length (all_words rs) + 2 * length rs)) s = s' \<and> waiting s' [] [] [] [] \<and> all_written s rs (transactions (dummy_nr s) rs bs) s'"
proof (induction rs bs arbitrary: s rule: list_all2_induct)
  case (Cons r rs b bs)
  obtain md ws where r: "r = (md, ws)" by (cases r)
  let ?tx = "transaction (dummy_nr s) r b"
  from mw_request [of md ws b s "map fst rs" "all_masked rs" "map2 request_status rs bs" "concat bs"] Cons.prems Cons.hyps(1) r obtain s1 where
    s1: "(memWriteWithBuddy ^^ (length ws + 2)) s = s1" "waiting s1 (map fst rs) (all_masked rs) (map2 request_status rs bs) (concat bs)" "written s r ?tx s1"
    by auto
  from Cons.IH [OF _ s1(2)] Cons.prems(1) obtain s' where
    s': "(memWriteWithBuddy ^^ (length (all_words rs) + 2 * length rs)) s1 = s'" "waiting s' [] [] [] []" "all_written s1 rs (transactions (dummy_nr s1) rs bs) s'"
    by auto
  have n: "length (all_words (r # rs)) + 2 * length (r # rs) = length ws + 2 + (length (all_words rs) + 2 * length rs)" by (simp add: r)
  from funpow_then [OF s1(1) s'(1)] have run: "(memWriteWithBuddy ^^ (length (all_words (r # rs)) + 2 * length (r # rs))) s = s'" by (simp only: n)
  from s1(3) s'(2,3) show ?case unfolding run by (simp add: written_def all_written_def Let_def)
qed (simp add: all_written_def)

section \<open>The stages as stages\<close>

text \<open>Arrival of data, readiness, and the streams that are handed on to the next stage.\<close>

definition mr_arrive :: "internalMdWord list \<times> hashTableInternalWord list \<Rightarrow> memRead_st \<Rightarrow> memRead_st" where
  "mr_arrive = (\<lambda>(mds, ws) s. s\<lparr>mr_md := mr_md s @ mds, mr_key := mr_key s @ ws\<rparr>)"

definition mr_ready :: "memRead_st \<Rightarrow> bool" where
  "mr_ready s \<longleftrightarrow> mr_key s \<noteq> [] \<and> (memRdState s = MEMRD_IDLE \<longrightarrow> mr_md s \<noteq> [])"

definition mr_outs :: "memRead_st \<Rightarrow> internalMdWord list \<times> hashTableInternalWord list" where
  "mr_outs s = (memRd2compMd s, memRd2comp s)"

definition mr_clear :: "memRead_st \<Rightarrow> memRead_st" where
  "mr_clear s = s\<lparr>memRd2compMd := [], memRd2comp := []\<rparr>"

lemmas mr_defs = memRead_def mr_arrive_def mr_ready_def mr_outs_def mr_clear_def append2_def swrite_def

interpretation fetcher: polling_stage memRead mr_arrive mr_ready
proof
  fix s q
  show "\<not> mr_ready s \<Longrightarrow> memRead s = s" by (cases "memRdState s") (auto simp: mr_defs split: list.split)
  show "mr_ready s \<Longrightarrow> mr_ready (mr_arrive q s)" by (cases "memRdState s") (auto simp: mr_defs split_beta)
  show "mr_ready s \<Longrightarrow> memRead (mr_arrive q s) = mr_arrive q (memRead s)"
    by (cases "memRdState s") (auto simp: mr_defs neq_Nil_conv split_beta Let_def)
qed

lemma mr_clear_step:
  "mr_clear (memRead (mr_clear s)) = mr_clear (memRead s)" "mr_outs (memRead s) = append2 (mr_outs s) (mr_outs (memRead (mr_clear s)))"
  by (cases "memRdState s"; auto simp: mr_defs Let_def split: list.split)+

interpretation fetcher: stream_stage memRead mr_arrive mr_ready append2 "([], [])" mr_outs mr_clear append2 "([], [])"
  by unfold_locales (rule mr_clear_step | force simp: mr_outs_def mr_clear_def mr_arrive_def append2_def)+

definition cmp_arrive :: "internalMdWord list \<times> hashTableInternalWord list \<times> 512 word list \<Rightarrow> compare_st \<Rightarrow> compare_st" where
  "cmp_arrive = (\<lambda>(mds, ws, ms) s. s\<lparr>cmp_md := cmp_md s @ mds, cmp_key := cmp_key s @ ws, memRdData := memRdData s @ ms\<rparr>)"

definition cmp_ready :: "compare_st \<Rightarrow> bool" where
  "cmp_ready s \<longleftrightarrow> (case cmpState s of CMP_IDLE \<Rightarrow> cmp_md s \<noteq> [] | CMP_HEAD \<Rightarrow> memRdData s \<noteq> [] | CMP_COMPARE \<Rightarrow> memRdData s \<noteq> [] \<and> cmp_key s \<noteq> [] | CMP_STREAM \<Rightarrow> cmp_key s \<noteq> [])"

definition cmp_outs :: "compare_st \<Rightarrow> internalMdWord list \<times> hashTableInternalWord list \<times> comp2decWord list \<times> 512 word list" where
  "cmp_outs s = (comp2memWrMd s, comp2memWrKey s, comp2memWrKeyStatus s, comp2memWrMemData s)"

definition cmp_clear :: "compare_st \<Rightarrow> compare_st" where
  "cmp_clear s = s\<lparr>comp2memWrMd := [], comp2memWrKey := [], comp2memWrKeyStatus := [], comp2memWrMemData := []\<rparr>"

lemmas cmp_defs = ht_compare_def cmp_arrive_def cmp_ready_def cmp_outs_def cmp_clear_def append3_def append4_def swrite_def compare_end_def

interpretation comparer: polling_stage ht_compare cmp_arrive cmp_ready
proof
  fix s q
  show "\<not> cmp_ready s \<Longrightarrow> ht_compare s = s" by (cases "cmpState s") (auto simp: cmp_defs split: list.split)
  show "cmp_ready s \<Longrightarrow> cmp_ready (cmp_arrive q s)" by (cases "cmpState s") (auto simp: cmp_defs split_beta)
  show "cmp_ready s \<Longrightarrow> ht_compare (cmp_arrive q s) = cmp_arrive q (ht_compare s)"
    by (cases "cmpState s") (auto simp: cmp_defs neq_Nil_conv split_beta Let_def)
qed

lemma cmp_clear_step:
  "cmp_clear (ht_compare (cmp_clear s)) = cmp_clear (ht_compare s)" "cmp_outs (ht_compare s) = append4 (cmp_outs s) (cmp_outs (ht_compare (cmp_clear s)))"
  by (cases "cmpState s"; auto simp: cmp_defs Let_def split: list.split)+

interpretation comparer: stream_stage ht_compare cmp_arrive cmp_ready append3 "([], [], [])" cmp_outs cmp_clear append4 "([], [], [], [])"
  by unfold_locales (rule cmp_clear_step | force simp: cmp_outs_def cmp_clear_def cmp_arrive_def append3_def append4_def)+

text \<open>The write-back stage hands the pops on to the concurrency control.\<close>

definition mw_arrive :: "internalMdWord list \<times> hashTableInternalWord list \<times> comp2decWord list \<times> 512 word list \<Rightarrow> memWrite_st \<Rightarrow> memWrite_st" where
  "mw_arrive = (\<lambda>(mds, ws, sts, ms) s. s\<lparr>mw_md := mw_md s @ mds, mw_key := mw_key s @ ws, mw_keyStatus := mw_keyStatus s @ sts, mw_memData := mw_memData s @ ms\<rparr>)"

definition mw_ready :: "memWrite_st \<Rightarrow> bool" where
  "mw_ready s \<longleftrightarrow> (case memWrState s of
     MW_IDLE \<Rightarrow> memWr_memInitialized s \<longrightarrow> mw_md s \<noteq> [] \<and> mw_keyStatus s \<noteq> []
   | MW_EVAL \<Rightarrow> mw_memData s \<noteq> []
   | MW_SET_REST \<Rightarrow> mw_key s \<noteq> [] \<and> mw_memData s \<noteq> []
   | MW_CONSUME \<Rightarrow> mw_key s \<noteq> [] \<and> mw_memData s \<noteq> []
   | MW_FLUSH_CONSUME_KEY \<Rightarrow> mw_key s \<noteq> []
   | MW_BUDDY_WAIT \<Rightarrow> False | MW_FLUSH_WAIT \<Rightarrow> False | MW_FLUSH \<Rightarrow> True | MW_INIT_MEM \<Rightarrow> True)"

definition mw_clear :: "memWrite_st \<Rightarrow> memWrite_st" where
  "mw_clear s = s\<lparr>memWr2cc := []\<rparr>"

lemma mw_ops_arrive:
  "mw_get m (mw_arrive q s) = mw_arrive q (mw_get m s)" "mw_delete m (mw_arrive q s) = mw_arrive q (mw_delete m s)"
  by (auto simp: mw_arrive_def mw_get_def mw_delete_def split_beta Let_def)

text \<open>An update of the state by a SET, with what it depends on as arguments.\<close>

definition set_update :: "512 word \<Rightarrow> bool \<Rightarrow> 3 word \<Rightarrow> bool \<Rightarrow> 3 word \<Rightarrow> memWrite_st \<Rightarrow> memWrite_st" where
  "set_update m found loc replace rloc s =
     (let md = htMemWriteInputWordMd s; out = dr_zero (im_operation md); ctrl = \<lparr>mc_address = bucket_address (im_metadata md), mc_count = bucket_count (im_keyLength md)\<rparr>
      in if \<not> found \<and> \<not> replace
         then s\<lparr>memWr_location := loc, memWr_replaceLocation := rloc, memWr2out := memWr2out s @ [out\<lparr>dr_status := 1\<rparr>], memWr2cc := memWr2cc s @ [1], memWrState := MW_CONSUME\<rparr>
         else if found
         then (if replace
               then (let h = put_entry m (unat rloc) (memWr_keyLength s) (memWr_valueLength s); a = bin_valueAddress h (unat rloc)
                     in s\<lparr>memWr_location := rloc, memWr_replaceLocation := rloc, memWrCtrl := memWrCtrl s @ [ctrl], memWrData := memWrData s @ [put_address h (unat rloc) a],
                          memWr2out := memWr2out s @ [out\<lparr>dr_status := 0, dr_address := a\<rparr>], memWrState := MW_SET_REST\<rparr>)
               else (let h = put_entry m (unat loc) (memWr_keyLength s) (memWr_valueLength s); a = fst (dummy_value_allocator (dummy_nr s)); req = value_request (memWr_valueLength s)
                     in s\<lparr>memWr_location := loc, memWr_replaceLocation := rloc, buddy_req := req, mw_alloc := mw_alloc s @ [req], mw_alloc_ret := tl (mw_alloc_ret s),
                          buddy_ret := (if mw_alloc_ret s = [] then buddy_ret s else hd (mw_alloc_ret s)), memWrCtrl := memWrCtrl s @ [ctrl],
                          memWrData := memWrData s @ [put_address h (unat loc) a], dummy_nr := snd (dummy_value_allocator (dummy_nr s)),
                          memWr2out := memWr2out s @ [out\<lparr>dr_status := 0, dr_address := a\<rparr>], memWrState := MW_SET_REST\<rparr>))
         else s\<lparr>memWr_location := loc, memWr_replaceLocation := rloc\<rparr>)"

lemma mw_set_update:
  "mw_set m s =
     (let st = htMemWriteInputStatusWord s;
          (found, loc) = pick_bin (\<lambda>i. bin_free (st ! i) = 1 \<or> bin_match (st ! i) = 1) (rev [0..<noOfBins]) (memWr_location s);
          (replace, rloc) = pick_bin (\<lambda>i. bin_match (st ! i) = 1) (rev [0..<noOfBins]) (memWr_replaceLocation s)
      in set_update m found loc replace rloc s)"
proof -
  let ?st = "htMemWriteInputStatusWord s"
  obtain found loc where p: "pick_bin (\<lambda>i. bin_free (?st ! i) = 1 \<or> bin_match (?st ! i) = 1) (rev [0..<noOfBins]) (memWr_location s) = (found, loc)"
    by (rule prod.exhaust)
  obtain replace rloc where q: "pick_bin (\<lambda>i. bin_match (?st ! i) = 1) (rev [0..<noOfBins]) (memWr_replaceLocation s) = (replace, rloc)" by (rule prod.exhaust)
  obtain a nr where "dummy_value_allocator (dummy_nr s) = (a, nr)" by (rule prod.exhaust)
  with p q show ?thesis
    by (cases found; cases replace; cases "mw_alloc_ret s") (simp_all add: mw_set_def set_update_def value_request_def swrite_def Let_def)
qed

lemma set_update_arrive: "set_update m found loc replace rloc (mw_arrive q s) = mw_arrive q (set_update m found loc replace rloc s)"
  by (cases found; cases replace) (simp_all add: set_update_def mw_arrive_def Let_def split_beta)

lemma mw_set_arrive: "mw_set m (mw_arrive q s) = mw_arrive q (mw_set m s)"
proof -
  have "htMemWriteInputStatusWord (mw_arrive q s) = htMemWriteInputStatusWord s" "memWr_location (mw_arrive q s) = memWr_location s"
    "memWr_replaceLocation (mw_arrive q s) = memWr_replaceLocation s" by (simp_all add: mw_arrive_def split_beta)
  then show ?thesis by (simp add: mw_set_update set_update_arrive split_beta Let_def)
qed

lemma mw_ops_clear:
  "mw_clear (mw_get m (mw_clear s)) = mw_clear (mw_get m s)" "mw_clear (mw_delete m (mw_clear s)) = mw_clear (mw_delete m s)"
  "memWr2cc (mw_get m s) = memWr2cc s @ memWr2cc (mw_get m (mw_clear s))" "memWr2cc (mw_delete m s) = memWr2cc s @ memWr2cc (mw_delete m (mw_clear s))"
  by (auto simp: mw_clear_def mw_get_def mw_delete_def swrite_def split_beta Let_def)

lemma mw_set_clear:
  "mw_clear (mw_set m (mw_clear s)) = mw_clear (mw_set m s)" "memWr2cc (mw_set m s) = memWr2cc s @ memWr2cc (mw_set m (mw_clear s))"
proof -
  have u: "mw_clear (set_update m found loc replace rloc (mw_clear s)) = mw_clear (set_update m found loc replace rloc s)"
    "memWr2cc (set_update m found loc replace rloc s) = memWr2cc s @ memWr2cc (set_update m found loc replace rloc (mw_clear s))" for found loc replace rloc
    by (cases found; cases replace; simp add: set_update_def mw_clear_def Let_def)+
  have c: "htMemWriteInputStatusWord (mw_clear s) = htMemWriteInputStatusWord s" "memWr_location (mw_clear s) = memWr_location s"
    "memWr_replaceLocation (mw_clear s) = memWr_replaceLocation s" by (simp_all add: mw_clear_def)
  show "mw_clear (mw_set m (mw_clear s)) = mw_clear (mw_set m s)" unfolding mw_set_update c Let_def split_beta by (rule u(1))
  show "memWr2cc (mw_set m s) = memWr2cc s @ memWr2cc (mw_set m (mw_clear s))" unfolding mw_set_update c Let_def split_beta by (rule u(2))
qed

lemma mw_eval_arrive:
  assumes "memWrState s = MW_EVAL" and "mw_ready s"
  shows "memWriteWithBuddy (mw_arrive q s) = mw_arrive q (memWriteWithBuddy s)"
proof -
  obtain m ms where m: "mw_memData s = m # ms" using assms by (cases "mw_memData s") (auto simp: mw_ready_def)
  let ?t = "s\<lparr>mw_memData := ms, memWr_keyLength := im_keyLength (htMemWriteInputWordMd s), memWr_valueLength := im_valueLength (htMemWriteInputWordMd s)\<rparr>"
  have a: "memWrState (mw_arrive q s) = MW_EVAL" "mw_memData (mw_arrive q s) = m # (ms @ snd (snd (snd q)))" "htMemWriteInputWordMd (mw_arrive q s) = htMemWriteInputWordMd s"
    using assms(1) m by (simp_all add: mw_arrive_def split_beta)
  have t: "(mw_arrive q s)\<lparr>mw_memData := ms @ snd (snd (snd q)), memWr_keyLength := im_keyLength (htMemWriteInputWordMd s), memWr_valueLength := im_valueLength (htMemWriteInputWordMd s)\<rparr> = mw_arrive q ?t"
    by (simp add: mw_arrive_def split_beta)
  show ?thesis
    unfolding memWriteWithBuddy_def a assms(1) m by (simp add: Let_def t mw_ops_arrive mw_set_arrive a(3))
qed

interpretation writer: polling_stage memWriteWithBuddy mw_arrive mw_ready
proof
  fix s q
  show "\<not> mw_ready s \<Longrightarrow> memWriteWithBuddy s = s" by (cases "memWrState s") (auto simp: memWriteWithBuddy_def mw_ready_def split: list.split)
  show "mw_ready s \<Longrightarrow> mw_ready (mw_arrive q s)" by (cases "memWrState s") (auto simp: mw_ready_def mw_arrive_def split_beta)
  show "mw_ready s \<Longrightarrow> memWriteWithBuddy (mw_arrive q s) = mw_arrive q (memWriteWithBuddy s)"
  proof (cases "memWrState s")
    case MW_EVAL
    then show "mw_ready s \<Longrightarrow> ?thesis" by (rule mw_eval_arrive)
  qed (auto simp: memWriteWithBuddy_def mw_ready_def mw_arrive_def neq_Nil_conv split_beta Let_def)
qed

lemma mw_clear_step:
  "mw_clear (memWriteWithBuddy (mw_clear s)) = mw_clear (memWriteWithBuddy s) \<and> memWr2cc (memWriteWithBuddy s) = memWr2cc s @ memWr2cc (memWriteWithBuddy (mw_clear s))"
proof (cases "memWrState s")
  case MW_EVAL
  show ?thesis
  proof (cases "mw_memData s")
    case (Cons m ms)
    let ?f = "\<lambda>s. s\<lparr>mw_memData := ms, memWr_keyLength := im_keyLength (htMemWriteInputWordMd s), memWr_valueLength := im_valueLength (htMemWriteInputWordMd s)\<rparr>"
    have c: "memWrState (mw_clear s) = MW_EVAL" "mw_memData (mw_clear s) = m # ms" "htMemWriteInputWordMd (mw_clear s) = htMemWriteInputWordMd s"
      using MW_EVAL Cons by (simp_all add: mw_clear_def)
    have t: "(mw_clear s)\<lparr>mw_memData := ms, memWr_keyLength := x, memWr_valueLength := y\<rparr> = mw_clear (s\<lparr>mw_memData := ms, memWr_keyLength := x, memWr_valueLength := y\<rparr>)" for x y
      by (simp add: mw_clear_def)
    have k: "memWr2cc (s\<lparr>mw_memData := ms, memWr_keyLength := x, memWr_valueLength := y\<rparr>) = memWr2cc s" "memWr2cc (mw_clear u) = []" "mw_clear (mw_clear u) = mw_clear u" for x y u
      by (simp_all add: mw_clear_def)
    show ?thesis unfolding memWriteWithBuddy_def c MW_EVAL Cons
      by (simp add: Let_def t mw_ops_clear(1,2) mw_set_clear(1) mw_ops_clear(3,4) [of m "?f s"] mw_set_clear(2) [of m "?f s"] k)
  qed (simp add: memWriteWithBuddy_def mw_clear_def MW_EVAL)
qed (auto simp: memWriteWithBuddy_def mw_clear_def swrite_def Let_def split: list.split)

interpretation writer: stream_stage memWriteWithBuddy mw_arrive mw_ready append4 "([], [], [], [])" memWr2cc mw_clear "(@)" "[]"
  by unfold_locales (rule mw_clear_step [THEN conjunct1] mw_clear_step [THEN conjunct2] | force simp: mw_clear_def mw_arrive_def append4_def)+

end
