(* ===== verification/Mc_Table_Props.thy ===== *)
theory Mc_Table_Props
  imports Mc_Stages
begin

text \<open>
  The hash table of the key-value store as a whole: the three stages in a row, with the memory behind them. Requests that are served one after the other are operations on a map,
  whenever their words and the words of the memory come; requests to one bucket that are in flight together lose updates.
\<close>

section \<open>The stages in a row\<close>

text \<open>One cycle of the stages; what a stage puts out is there for the next one in the same cycle.\<close>

definition table_core :: "memRead_st \<times> compare_st \<times> memWrite_st \<Rightarrow> memRead_st \<times> compare_st \<times> memWrite_st" where
  "table_core = (\<lambda>(r, c, w).
     let r = memRead r; c = ht_compare (cmp_arrive (memRd2compMd r, memRd2comp r, []) c); w = memWriteWithBuddy (mw_arrive (cmp_outs c) w)
     in (mr_clear r, cmp_clear c, w))"

text \<open>A run in which requests (\<open>q\<close>) and words of the memory (\<open>d\<close>) arrive.\<close>

primrec table_run :: "(nat \<Rightarrow> internalMdWord list \<times> hashTableInternalWord list) \<Rightarrow> (nat \<Rightarrow> 512 word list) \<Rightarrow>
    memRead_st \<times> compare_st \<times> memWrite_st \<Rightarrow> nat \<Rightarrow> memRead_st \<times> compare_st \<times> memWrite_st" where
  "table_run q d st 0 = st"
| "table_run q d st (Suc t) = (case table_run q d st t of (r, c, w) \<Rightarrow> table_core (mr_arrive (q t) r, cmp_arrive ([], [], d t) c, w))"

abbreviation fetched :: "(nat \<Rightarrow> internalMdWord list \<times> hashTableInternalWord list) \<Rightarrow> (nat \<Rightarrow> 512 word list) \<Rightarrow> memRead_st \<Rightarrow> nat \<Rightarrow>
    internalMdWord list \<times> hashTableInternalWord list \<times> 512 word list" where
  "fetched q d r t \<equiv> (case emitted memRead mr_arrive mr_clear mr_outs q r t of (mds, ws) \<Rightarrow> (mds, ws, d t))"

lemma cmp_arrive_both: "cmp_arrive (mds, ws, []) (cmp_arrive ([], [], ms) c) = cmp_arrive (mds, ws, ms) c"
  by (simp add: cmp_arrive_def)

lemma table_run_stages:
  "table_run q d (r, c, w) t =
     (drained memRead mr_arrive mr_clear q r t, drained ht_compare cmp_arrive cmp_clear (fetched q d r) c t,
      writer.kept (emitted ht_compare cmp_arrive cmp_clear cmp_outs (fetched q d r) c) w t)"
  by (induction t) (simp_all add: writer.kept_simps table_core_def emitted_def mr_outs_def cmp_arrive_both Let_def)

lemma delivers_later: "delivers comb none q T Q \<Longrightarrow> (\<And>x. comb x none = x) \<Longrightarrow> T \<le> n \<Longrightarrow> total comb none q n = Q"
proof (induction n)
  case (Suc n)
  then show ?case by (cases "T = Suc n") (auto simp: delivers_def)
qed (auto simp: delivers_def)

lemma total_join:
  "total append3 ([], [], []) (\<lambda>t. case p t of (x, y) \<Rightarrow> (x, y, d t)) n = (case total append2 ([], []) p n of (x, y) \<Rightarrow> (x, y, total (@) [] d n))"
  by (induction n) (simp_all add: append2_def append3_def split_beta)

lemma delivers_join:
  assumes "delivers append2 ([], []) p T (a, b)" and "delivers (@) [] d T' m"
  shows "delivers append3 ([], [], []) (\<lambda>t. case p t of (x, y) \<Rightarrow> (x, y, d t)) (max T T') (a, b, m)"
proof -
  have "total append2 ([], []) p (max T T') = (a, b)" by (rule delivers_later [OF assms(1)]) (auto simp: append2_def)
  moreover have "total (@) [] d (max T T') = m" using delivers_later [OF assms(2), of "max T T'"] by simp
  ultimately show ?thesis using assms by (simp add: delivers_def total_join)
qed

text \<open>Stages at rest, with nothing to hand on.\<close>

definition at_rest :: "memRead_st \<times> compare_st \<times> memWrite_st \<Rightarrow> bool" where
  "at_rest = (\<lambda>(r, c, w). memRdState r = MEMRD_IDLE \<and> mr_md r = [] \<and> mr_key r = [] \<and> mr_outs r = ([], []) \<and>
     cmpState c = CMP_IDLE \<and> cmp_md c = [] \<and> cmp_key c = [] \<and> memRdData c = [] \<and> cmp_outs c = ([], [], [], []) \<and> waiting w [] [] [] [])"

definition serve_time :: "kv_request list \<Rightarrow> nat" where
  "serve_time rs = 3 * length (all_words rs) + 4 * length rs"

lemma table_serves:
  assumes rs: "list_all request_ok rs" and bs: "list_all2 burst_ok rs bs" and rest: "at_rest (r, c, w)"
    and q: "delivers append2 ([], []) q T (map fst rs, all_words rs)" and d: "delivers (@) [] d T' (concat bs)" and t: "max T T' + serve_time rs \<le> t"
  shows "\<exists>r' c' w'. table_run q d (r, c, w) t = (r', c', w') \<and> at_rest (r', c', w') \<and> memRdCtrl r' = memRdCtrl r @ map (read_command \<circ> fst) rs \<and>
    all_written w rs (transactions (dummy_nr w) rs bs) w'"
proof -
  let ?W = "length (all_words rs)" and ?N = "length rs"
  have r0: "mr_clear r = r" "mr_outs r = ([], [])" using rest by (simp_all add: at_rest_def mr_clear_def mr_outs_def)
  have c0: "cmp_clear c = c" "cmp_outs c = ([], [], [], [])" using rest by (simp_all add: at_rest_def cmp_clear_def cmp_outs_def)
  let ?r = "mr_arrive (map fst rs, all_words rs) r"
  let ?r' = "?r\<lparr>mr_md := [], mr_key := [], memRdCtrl := memRdCtrl ?r @ map (read_command \<circ> fst) rs,
    memRd2comp := memRd2comp ?r @ all_masked rs, memRd2compMd := memRd2compMd ?r @ map fst rs, memRdState := MEMRD_IDLE\<rparr>"
  have r1: "(memRead ^^ ?W) ?r = ?r'" by (rule memRead_requests [OF rs]) (use rest in \<open>simp_all add: at_rest_def mr_arrive_def\<close>)
  have r2: "memRead ?r' = ?r'" by (simp add: memRead_def)
  have "mr_outs ?r' = (map fst rs, all_masked rs)" using r0 by (simp add: mr_outs_def mr_arrive_def)
  with fetcher.stage_settles [OF q r0 r1 r2] have f: "delivers append2 ([], []) (emitted memRead mr_arrive mr_clear mr_outs q r) (T + ?W) (map fst rs, all_masked rs)"
    and fr: "\<And>t. T + ?W \<le> t \<Longrightarrow> drained memRead mr_arrive mr_clear q r t = mr_clear ?r'" by simp_all
  note j = delivers_join [OF f d]
  let ?c = "cmp_arrive (map fst rs, all_masked rs, concat bs) c"
  have c1: "cmpState ?c = CMP_IDLE" "cmp_md ?c = map fst rs" "cmp_key ?c = all_masked rs" "memRdData ?c = concat bs" "cmp_outs ?c = ([], [], [], [])"
    using rest by (simp_all add: at_rest_def cmp_arrive_def cmp_outs_def)
  from compare_requests [OF bs rs c1(1-4)] obtain c' where
    c': "(ht_compare ^^ (?W + 2 * ?N)) ?c = c'" "cmpState c' = CMP_IDLE" "cmp_md c' = []" "cmp_key c' = []" "memRdData c' = []"
      "cmp_outs c' = (map fst rs, all_masked rs, map2 request_status rs bs, concat bs)" using c1(5) by (auto simp: cmp_outs_def)
  have "ht_compare c' = c'" using c'(2,3) by (simp add: ht_compare_def)
  from comparer.stage_settles [OF j c0 c'(1) this] have g: "delivers append4 ([], [], [], []) (emitted ht_compare cmp_arrive cmp_clear cmp_outs (fetched q d r) c)
      (max (T + ?W) T' + (?W + 2 * ?N)) (map fst rs, all_masked rs, map2 request_status rs bs, concat bs)"
    and fc: "\<And>t. max (T + ?W) T' + (?W + 2 * ?N) \<le> t \<Longrightarrow> drained ht_compare cmp_arrive cmp_clear (fetched q d r) c t = cmp_clear c'" by (simp_all add: c'(6))
  let ?w = "mw_arrive (map fst rs, all_masked rs, map2 request_status rs bs, concat bs) w"
  have w1: "waiting ?w (map fst rs) (all_masked rs) (map2 request_status rs bs) (concat bs)" using rest by (simp add: at_rest_def waiting_def mw_arrive_def)
  from mw_requests [OF bs rs w1] obtain w' where
    w': "(memWriteWithBuddy ^^ (?W + 2 * ?N)) ?w = w'" "waiting w' [] [] [] []" "all_written ?w rs (transactions (dummy_nr ?w) rs bs) w'" by auto
  have w2: "memWriteWithBuddy w' = w'" using w'(2) by (simp add: memWriteWithBuddy_def waiting_def)
  have "all_written w rs (transactions (dummy_nr w) rs bs) w'" using w'(3) by (simp add: all_written_def mw_arrive_def)
  moreover have "at_rest (mr_clear ?r', cmp_clear c', w')" using c'(2-5) w'(2) by (simp add: at_rest_def mr_clear_def mr_outs_def cmp_clear_def cmp_outs_def)
  moreover have "memRdCtrl (mr_clear ?r') = memRdCtrl r @ map (read_command \<circ> fst) rs" by (simp add: mr_clear_def mr_arrive_def)
  moreover have "table_run q d (r, c, w) t = (mr_clear ?r', cmp_clear c', w')"
    using t fr [of t] fc [of t] writer.kept_settles [OF g w'(1) w2, of t] by (simp add: table_run_stages serve_time_def)
  ultimately show ?thesis by blast
qed

section \<open>Requests one after the other\<close>

text \<open>The memory holds a bucket at every address of one. A command writes as many of the words as it says.\<close>

type_synonym table = "32 word \<Rightarrow> 512 word list"

fun mem_writes :: "table \<Rightarrow> memCtrlWord list \<Rightarrow> 512 word list \<Rightarrow> table" where
  "mem_writes tbl [] ds = tbl"
| "mem_writes tbl (c # cs) ds =
     mem_writes (tbl(mc_address c := write_burst (tbl (mc_address c)) (take (unat (mc_count c)) ds))) cs (drop (unat (mc_count c)) ds)"

definition mem_read :: "table \<Rightarrow> memCtrlWord \<Rightarrow> 512 word list" where
  "mem_read tbl c = take (unat (mc_count c)) (tbl (mc_address c))"

text \<open>
  A session: the words of a request come in any cycles, and so do the words that the memory returns; when the stages have come to rest, what they have written is in the memory, and
  the next request comes.
\<close>

inductive session :: "table \<Rightarrow> memRead_st \<times> compare_st \<times> memWrite_st \<Rightarrow> kv_request list \<Rightarrow> decideResultWord list \<Rightarrow> table \<Rightarrow> memRead_st \<times> compare_st \<times> memWrite_st \<Rightarrow> bool" where
  finished: "session tbl st [] [] tbl st"
| served: "session tbl (r, c, w) ((md, ws) # rs) (outs @ outs') tbl' st'"
  if "delivers append2 ([], []) q T ([md], ws)" and "delivers (@) [] d T' (mem_read tbl (read_command md))"
    and "table_run q d (r, c, w) t = (r1, c1, w1)" and "T \<le> t" and "T' \<le> t" and "table_core (r1, c1, w1) = (r1, c1, w1)"
    and "memWr2out w1 = memWr2out w @ outs" and "memWrCtrl w1 = memWrCtrl w @ cs" and "memWrData w1 = memWrData w @ ds"
    and "session (mem_writes tbl cs ds) (r1, c1, w1) rs outs' tbl' st'"

text \<open>The specification: a map for every bucket.\<close>

fun kv_run :: "32 word \<Rightarrow> (32 word \<Rightarrow> stored_key \<rightharpoonup> 32 word \<times> 16 word) \<Rightarrow> kv_request list \<Rightarrow> decideResultWord list \<times> (32 word \<Rightarrow> stored_key \<rightharpoonup> 32 word \<times> 16 word)" where
  "kv_run nr M [] = ([], M)"
| "kv_run nr M (r # rs) =
     (let a = bucket_address (im_metadata (fst r)); k = request_key r;
          (out, m) = kv_step (im_operation (fst r)) k (im_valueLength (fst r)) (0x100000 + 0x100 * nr) (M a);
          (outs, M') = kv_run (if im_operation (fst r) = 1 \<and> M a k = None \<and> m k \<noteq> None then nr + 1 else nr) (M(a := m)) rs
      in (out # outs, M'))"

definition table_ok :: "table \<Rightarrow> bool" where
  "table_ok tbl \<longleftrightarrow> (\<forall>a. bucket_ok (tbl a))"

lemma table_run_still:
  assumes "table_run q d st t = st'" and "table_core st' = st'" and "\<And>i. t \<le> i \<Longrightarrow> q i = ([], []) \<and> d i = []"
  shows "table_run q d st (t + n) = st'"
proof (induction n)
  case (Suc n)
  then show ?case using assms(2,3) by (cases st') (simp add: mr_arrive_def cmp_arrive_def)
qed (simp add: assms(1))

lemma transaction_nr:
  assumes "bucket_ok b" and "request_ok r"
  shows "tx_nr (transaction nr r b) =
    (if im_operation (fst r) = 1 \<and> bucket_map b (request_key r) = None \<and> bucket_map (write_burst b (tx_data (transaction nr r b))) (request_key r) \<noteq> None then nr + 1 else nr)"
proof -
  obtain md ws where r: "r = (md, ws)" by (cases r)
  have k: "stored_ok (request_key r)" using request_keyD(1) assms(2) r by simp
  have none: "write_burst b [] = b" by (simp add: write_burst_def)
  show ?thesis
  proof (cases "hit b (request_key r)")
    case None
    note h = hit_None [OF assms(1) k None]
    show ?thesis
    proof (cases "room b")
      case (Some i)
      with put_key_bucket [OF assms(1) _ k, of i] room_Some [OF Some] h None last_hit_hit [OF assms(1) k] show ?thesis
        by (auto simp: transaction_def serve_def dummy_value_allocator_def Let_def)
    qed (use h None none last_hit_hit [OF assms(1) k] in \<open>auto simp: transaction_def serve_def Let_def\<close>)
  next
    case (Some i)
    then show ?thesis using hit_Some [OF assms(1) k Some] last_hit_hit [OF assms(1) k] by (auto simp: transaction_def serve_def Let_def)
  qed
qed

text \<open>One request.\<close>

lemma burst_read:
  assumes "table_ok tbl" and "request_ok (md, ws)" and "a = bucket_address (im_metadata md)"
  shows "burst_ok (md, ws) (mem_read tbl (read_command md))"
    and "transaction nr (md, ws) (mem_read tbl (read_command md)) = transaction nr (md, ws) (tbl a)"
proof -
  have len: "0 < unat (im_keyLength md)" "unat (im_keyLength md) \<le> 112" "length ws = key_rows (im_keyLength md)" using assms(2) by (auto simp: request_ok_def)
  then have rows: "length ws \<le> 7" by (simp add: key_rows_def)
  have n: "unat (bucket_count (im_keyLength md)) = Suc (length ws)"
    using bucket_count_rows [OF len(1,2)] len(3) rows by (simp add: unat_of_nat take_bit_nat_eq_self del: of_nat_Suc)
  have b: "length (tbl a) = 8" using assms(1) by (simp add: table_ok_def bucket_ok_def)
  show "burst_ok (md, ws) (mem_read tbl (read_command md))" using n b rows assms(3) by (simp add: burst_ok_def mem_read_def read_command_def)
  have "length (snd (request_key (md, ws))) < Suc (length ws)" by (simp add: request_key_def)
  from serve_take [OF this] n assms(3) show "transaction nr (md, ws) (mem_read tbl (read_command md)) = transaction nr (md, ws) (tbl a)"
    by (simp add: transaction_def mem_read_def read_command_def)
qed

lemma write_command_mem:
  assumes "length ds \<le> 8"
  shows "mem_writes tbl (write_command md ds) ds = tbl(bucket_address (im_metadata md) := write_burst (tbl (bucket_address (im_metadata md))) ds)"
proof -
  have "unat (of_nat (length ds) :: 8 word) = length ds" using assms by (simp add: unat_of_nat take_bit_nat_eq_self)
  then show ?thesis by (simp add: write_command_def write_burst_def)
qed

lemma transaction_data_length: "request_ok r \<Longrightarrow> length (tx_data (transaction nr r b)) \<le> 8"
proof -
  assume "request_ok r"
  moreover obtain md ws where r: "r = (md, ws)" by (cases r)
  ultimately have "length (snd (request_key r)) \<le> 7" using key_rows_fits request_keyD(1) by blast
  then show ?thesis by (auto simp: transaction_def serve_def length_put_key Let_def split: option.split prod.split)
qed

lemma table_answers_one:
  assumes tbl: "table_ok tbl" and r: "request_ok (md, ws)" and rest: "at_rest (r0, c0, w0)"
    and q: "delivers append2 ([], []) q T ([md], ws)" and d: "delivers (@) [] d T' (mem_read tbl (read_command md))" and t: "max T T' + serve_time [(md, ws)] \<le> t"
    and tx: "tx = transaction (dummy_nr w0) (md, ws) (tbl (bucket_address (im_metadata md)))"
  shows "\<exists>r' c' w'. table_run q d (r0, c0, w0) t = (r', c', w') \<and> at_rest (r', c', w') \<and> memRdCtrl r' = memRdCtrl r0 @ [read_command md] \<and>
    memWr2out w' = memWr2out w0 @ [tx_out tx] \<and> memWrCtrl w' = memWrCtrl w0 @ write_command md (tx_data tx) \<and> memWrData w' = memWrData w0 @ tx_data tx \<and>
    mw_alloc w' = mw_alloc w0 @ tx_alloc tx \<and> dummy_nr w' = tx_nr tx"
proof -
  note b = burst_read [OF tbl r refl]
  have "delivers append2 ([], []) q T (map fst [(md, ws)], all_words [(md, ws)])" "delivers (@) [] d T' (concat [mem_read tbl (read_command md)])" using q d by simp_all
  from table_serves [OF _ _ rest this t] r b(1) obtain r' c' w' where
    "table_run q d (r0, c0, w0) t = (r', c', w')" "at_rest (r', c', w')" "memRdCtrl r' = memRdCtrl r0 @ map (read_command \<circ> fst) [(md, ws)]"
    "all_written w0 [(md, ws)] (transactions (dummy_nr w0) [(md, ws)] [mem_read tbl (read_command md)]) w'" by auto
  then show ?thesis by (simp add: all_written_def tx b(2) [symmetric] Let_def)
qed

lemma rest_still: "at_rest st \<Longrightarrow> table_core st = st"
  by (cases st) (simp add: at_rest_def table_core_def memRead_def ht_compare_def memWriteWithBuddy_def waiting_def mr_outs_def cmp_outs_def cmp_arrive_def mw_arrive_def mr_clear_def cmp_clear_def)

lemma delivers_quiet: "delivers append2 ([], []) q T Q \<Longrightarrow> delivers (@) [] d T' D \<Longrightarrow> T \<le> t \<Longrightarrow> T' \<le> t \<Longrightarrow> t \<le> i \<Longrightarrow> q i = ([], []) \<and> d i = []"
  by (simp add: delivers_def)

text \<open>What the state of the specification becomes by one request.\<close>

lemma kv_run_Cons:
  assumes tbl: "table_ok tbl" and r: "request_ok r" and a: "a = bucket_address (im_metadata (fst r))" and tx: "tx = transaction nr r (tbl a)"
    and tbl': "tbl' = tbl(a := write_burst (tbl a) (tx_data tx))" and rs: "kv_run (tx_nr tx) (\<lambda>a. bucket_map (tbl' a)) rs = (outs, M)"
  shows "table_ok tbl' \<and> kv_run nr (\<lambda>a. bucket_map (tbl a)) (r # rs) = (tx_out tx # outs, M)"
proof -
  obtain md ws where md: "r = (md, ws)" by (cases r)
  have b: "bucket_ok (tbl a)" using tbl by (simp add: table_ok_def)
  have k: "stored_ok (request_key r)" using request_keyD(1) r md by simp
  have op: "im_operation (fst r) \<in> {0, 1, 4}" using r md by (simp add: request_ok_def)
  note sv = serve_refines [OF b k op, where nr = nr and l = "im_valueLength (fst r)"]
  have step: "kv_step (im_operation (fst r)) (request_key r) (im_valueLength (fst r)) (0x100000 + 0x100 * nr) (bucket_map (tbl a)) = (tx_out tx, bucket_map (write_burst (tbl a) (tx_data tx)))"
    using sv(2) by (simp add: tx transaction_def dummy_value_allocator_def)
  have "(\<lambda>a. bucket_map (tbl a))(a := bucket_map (write_burst (tbl a) (tx_data tx))) = (\<lambda>a. bucket_map (tbl' a))" by (auto simp: tbl')
  with rs step transaction_nr [OF b r, of nr] tx have "kv_run nr (\<lambda>a. bucket_map (tbl a)) (r # rs) = (tx_out tx # outs, M)"
    by (simp add: a [symmetric] Let_def)
  moreover have "table_ok tbl'" using tbl sv(1) by (simp add: tbl' tx transaction_def table_ok_def)
  ultimately show ?thesis by simp
qed

lemma session_step:
  assumes q: "delivers append2 ([], []) q T ([md], ws)" and d: "delivers (@) [] d T' (mem_read tbl (read_command md))"
    and run: "table_run q d (r, c, w) t = (r1, c1, w1)" and t: "T \<le> t" "T' \<le> t" and core: "table_core (r1, c1, w1) = (r1, c1, w1)"
    and tbl: "table_ok tbl" and req: "request_ok (md, ws)" and rest: "at_rest (r, c, w)"
    and tx: "tx = transaction (dummy_nr w) (md, ws) (tbl (bucket_address (im_metadata md)))"
  shows "at_rest (r1, c1, w1) \<and> memWr2out w1 = memWr2out w @ [tx_out tx] \<and> memWrCtrl w1 = memWrCtrl w @ write_command md (tx_data tx) \<and>
    memWrData w1 = memWrData w @ tx_data tx \<and> dummy_nr w1 = tx_nr tx"
proof -
  let ?n = "max T T' + serve_time [(md, ws)]"
  have "table_run q d (r, c, w) (t + ?n) = (r1, c1, w1)" using table_run_still [OF run core] delivers_quiet [OF q d t] by simp
  with table_answers_one [OF tbl req rest q d _ tx, of "t + ?n"] show ?thesis by auto
qed

lemma session_refines:
  "session tbl st rs outs tbl' st' \<Longrightarrow> table_ok tbl \<Longrightarrow> at_rest st \<Longrightarrow> list_all request_ok rs \<Longrightarrow>
     kv_run (dummy_nr (snd (snd st))) (\<lambda>a. bucket_map (tbl a)) rs = (outs, \<lambda>a. bucket_map (tbl' a)) \<and> table_ok tbl' \<and> at_rest st'"
proof (induction rule: session.induct)
  case (served q T md ws d T' tbl r c w t r1 c1 w1 outs cs ds rs outs' tbl' st')
  let ?a = "bucket_address (im_metadata md)"
  let ?tx = "transaction (dummy_nr w) (md, ws) (tbl ?a)"
  have req: "request_ok (md, ws)" "list_all request_ok rs" using served.prems(3) by simp_all
  note one = session_step [OF served.hyps(1-6) served.prems(1) req(1) served.prems(2) refl]
  then have eq: "outs = [tx_out ?tx]" "cs = write_command md (tx_data ?tx)" "ds = tx_data ?tx" using served.hyps(7-9) by simp_all
  have mem: "mem_writes tbl cs ds = tbl(?a := write_burst (tbl ?a) (tx_data ?tx))" unfolding eq by (rule write_command_mem [OF transaction_data_length [OF req(1)]])
  have "table_ok (mem_writes tbl cs ds)" using kv_run_Cons [OF served.prems(1) req(1) refl refl refl, of _ "[]"] by (simp add: mem)
  with served.IH one req(2) have ih: "kv_run (tx_nr ?tx) (\<lambda>a. bucket_map (mem_writes tbl cs ds a)) rs = (outs', \<lambda>a. bucket_map (tbl' a))" "table_ok tbl'" "at_rest st'"
    by simp_all
  with kv_run_Cons [OF served.prems(1) req(1) _ _ mem, of "dummy_nr w" rs outs'] eq(1) show ?case by simp
qed simp

text \<open>C13: The table is a map. Requests that are sent one after the other, each when the stages have come to rest from the one before, are GET, SET and DELETE on one partial map per
  bucket: in whatever cycles the words of the requests and of the memory come, the results are those of the operations on the maps (a key that is there is replaced in place, a new key gets
  the next place for values if there are fewer than four keys in the bucket, everything else fails and changes nothing), and the words in the memory stand for the maps after the
  operations, no key in two bins.\<close>

theorem table_is_map:
  assumes "session tbl st rs outs tbl' st'" and "table_ok tbl" and "at_rest st" and "list_all request_ok rs"
  shows "kv_run (dummy_nr (snd (snd st))) (\<lambda>a. bucket_map (tbl a)) rs = (outs, \<lambda>a. bucket_map (tbl' a)) \<and> table_ok tbl' \<and> at_rest st'"
  using assms by (rule session_refines)

lemma delivers_at_once: "comb none Q = Q \<Longrightarrow> delivers comb none (\<lambda>t. if t = 0 then Q else none) 1 Q"
  by (simp add: delivers_def)

lemma session_exists: "table_ok tbl \<Longrightarrow> at_rest st \<Longrightarrow> list_all request_ok rs \<Longrightarrow> \<exists>outs tbl' st'. session tbl st rs outs tbl' st'"
proof (induction rs arbitrary: tbl st)
  case Nil
  then show ?case by (blast intro: session.finished)
next
  case (Cons req rs)
  obtain md ws r c w where p: "req = (md, ws)" "st = (r, c, w)" by (cases req; cases st)
  let ?a = "bucket_address (im_metadata md)"
  let ?tx = "transaction (dummy_nr w) (md, ws) (tbl ?a)" and ?q = "\<lambda>t :: nat. if t = 0 then ([md], ws) else ([], [])"
    and ?d = "\<lambda>t :: nat. if t = 0 then mem_read tbl (read_command md) else []" and ?t = "max 1 1 + serve_time [(md, ws)]"
  have ok: "request_ok (md, ws)" "list_all request_ok rs" "at_rest (r, c, w)" using Cons.prems p by simp_all
  have q: "delivers append2 ([], []) ?q 1 ([md], ws)" "delivers (@) [] ?d 1 (mem_read tbl (read_command md))"
    by (rule delivers_at_once; simp add: append2_def)+
  from table_answers_one [OF Cons.prems(1) ok(1,3) q order_refl refl] obtain r' c' w' where
    st': "table_run ?q ?d (r, c, w) ?t = (r', c', w')" "at_rest (r', c', w')" "memWr2out w' = memWr2out w @ [tx_out ?tx]"
      "memWrCtrl w' = memWrCtrl w @ write_command md (tx_data ?tx)" "memWrData w' = memWrData w @ tx_data ?tx" by blast
  have mem: "mem_writes tbl (write_command md (tx_data ?tx)) (tx_data ?tx) = tbl(?a := write_burst (tbl ?a) (tx_data ?tx))"
    by (rule write_command_mem [OF transaction_data_length [OF ok(1)]])
  have "table_ok (mem_writes tbl (write_command md (tx_data ?tx)) (tx_data ?tx))" using kv_run_Cons [OF Cons.prems(1) ok(1) refl refl refl, of _ "[]"] by (simp add: mem)
  from Cons.IH [OF this st'(2) ok(2)] obtain outs tbl' st'' where
    "session (mem_writes tbl (write_command md (tx_data ?tx)) (tx_data ?tx)) (r', c', w') rs outs tbl' st''" by blast
  moreover have "1 \<le> ?t" by simp
  ultimately have "session tbl st (req # rs) ([tx_out ?tx] @ outs) tbl' st''"
    unfolding p using session.served [OF q st'(1) _ _ rest_still [OF st'(2)] st'(3-5)] by blast
  then show ?case by blast
qed

definition mr_reset :: memRead_st where
  "mr_reset = \<lparr>mr_key = [], mr_md = [], memRdCtrl = [], memRd2comp = [], memRd2compMd = [], memRdState = MEMRD_IDLE\<rparr>"

definition cmp_reset :: compare_st where
  "cmp_reset = \<lparr>cmp_key = [], cmp_md = [], memRdData = [], comp2memWrKey = [], comp2memWrMd = [], comp2memWrKeyStatus = [], comp2memWrMemData = [], cmpState = CMP_IDLE,
     cmp_keyLength = 0, cmp_inDataMd = \<lparr>im_operation = 0, im_metadata = 0, im_keyLength = 0, im_valueLength = 0\<rparr>, statusOutput = no_status\<rparr>"

definition mw_reset :: memWrite_st where
  "mw_reset = \<lparr>mw_key = [], mw_md = [], mw_keyStatus = [], mw_memData = [], mw_alloc_ret = [], memWrCtrl = [], memWrData = [], memWr2out = [], memWr2cc = [], mw_alloc = [],
     memWrState = MW_IDLE, htMemWriteInputStatusWord = no_status, htMemWriteInputWordMd = \<lparr>im_operation = 0, im_metadata = 0, im_keyLength = 0, im_valueLength = 0\<rparr>,
     memWr_location = 0, memWr_replaceLocation = 0, memWriteAddress = 0, memWr_keyLength = 0, memWr_valueLength = 0, memWr_memInitialized = False,
     buddy_req = \<lparr>ba_opcode = BUDDY_ALLOC, ba_addr = 0, ba_order = 0\<rparr>, buddy_ret = \<lparr>br_stat = 0, br_addr = 0\<rparr>, dummy_nr = 0\<rparr>"

text \<open>The stages after reset, when the write-back stage has gone through its state for initialisation.\<close>

definition table_reset :: "memRead_st \<times> compare_st \<times> memWrite_st" where
  "table_reset = (mr_reset, cmp_reset, (memWriteWithBuddy ^^ 2) mw_reset)"

lemma mw_initialised: "(memWriteWithBuddy ^^ 2) mw_reset = mw_reset\<lparr>memWr_memInitialized := True\<rparr>"
  by (simp add: numeral_2_eq_2 memWriteWithBuddy_def mw_reset_def)

lemma table_reset_rest: "at_rest table_reset" "dummy_nr (snd (snd table_reset)) = 0"
  unfolding table_reset_def mw_initialised
  by (simp_all add: at_rest_def mr_reset_def cmp_reset_def mw_reset_def mr_outs_def cmp_outs_def waiting_def)

lemma zero_bucket: "bucket_ok (replicate 8 0)" "bucket_map (replicate 8 0) = Map.empty" "room (replicate 8 0) = Some 0"
proof -
  have "\<not> bin_used (replicate 8 0) i" "bin_keyLength (replicate 8 0 ! 0) i = 0" for i by (simp_all add: bin_used_def bin_keyLength_def)
  then show "bucket_ok (replicate 8 0)" "bucket_map (replicate 8 0) = Map.empty" by (auto simp: bucket_ok_def bucket_map_def find_None_iff)
  show "room (replicate 8 0) = Some 0" by (simp add: room_def noOfBins_def bin_keyLength_def upt_rec)
qed

lemma zero_table: "table_ok (\<lambda>a. replicate 8 0)"
  by (simp add: table_ok_def zero_bucket)

text \<open>Requests for a key of one byte.\<close>

definition byte_request :: "8 word \<Rightarrow> 128 word \<Rightarrow> 16 word \<Rightarrow> kv_request" where
  "byte_request op x l = (\<lparr>im_operation = op, im_metadata = 0x12345678, im_keyLength = 1, im_valueLength = l\<rparr>, [\<lparr>hw_data = x, hw_SOP = 1, hw_EOP = 1\<rparr>])"

lemma byte_request_ok: "op \<in> {0, 1, 4} \<Longrightarrow> request_ok (byte_request op x l)"
  by (auto simp: byte_request_def request_ok_def key_rows_def)

theorem table_is_map_witness:
  "\<exists>tbl st. session (\<lambda>a. replicate 8 0) table_reset [byte_request 1 0x61 5, byte_request 0 0x61 0, byte_request 4 0x61 0, byte_request 0 0x61 0]
     [kv_ok 1 0x100000 0, kv_ok 0 0x100000 5, kv_ok 4 0 0, kv_fail 0] tbl st"
proof -
  let ?rs = "[byte_request 1 0x61 5, byte_request 0 0x61 0, byte_request 4 0x61 0, byte_request 0 0x61 0]"
  have ok: "list_all request_ok ?rs" by (simp add: byte_request_ok)
  from session_exists [OF zero_table table_reset_rest(1) ok] obtain outs tbl' st' where
    s: "session (\<lambda>a. replicate 8 0) table_reset ?rs outs tbl' st'" by blast
  have outs: "fst (kv_run 0 (\<lambda>a. Map.empty) ?rs) = [kv_ok 1 0x100000 0, kv_ok 0 0x100000 5, kv_ok 4 0 0, kv_fail 0]"
    by (simp add: byte_request_def request_key_def kv_step_def kv_set_def kv_get_def kv_delete_def noOfBins_def split_beta Let_def)
  from table_is_map [OF s zero_table table_reset_rest(1) ok]
  have "kv_run 0 (\<lambda>a. Map.empty) ?rs = (outs, \<lambda>a. bucket_map (tbl' a))" unfolding table_reset_rest(2) zero_bucket(2) by (rule conjunct1)
  from s outs [unfolded this fst_conv] show ?thesis by (intro exI) simp
qed

text \<open>C18: Every request is answered. From stages at rest, a GET, SET or DELETE with a key of 1 to 112 bytes makes the table ask the memory for the bucket. When the words of the
  request (\<open>n\<close> of them) have come in the first \<open>T\<close> cycles and those of the memory in the first \<open>T'\<close>, then from cycle \<open>max T T' + 3 n + 4\<close> on the stages are at
  rest again and have put out one result of the operation and one pop for the concurrency control.\<close>

theorem table_answers:
  assumes "request_ok (md, ws)" and "at_rest (r, c, w)" and "length b = Suc (length ws)"
    and "delivers append2 ([], []) q T ([md], ws)" and "delivers (@) [] d T' b" and "max T T' + 3 * length ws + 4 \<le> t"
  shows "\<exists>r' c' w' out. table_run q d (r, c, w) t = (r', c', w') \<and> at_rest (r', c', w') \<and> memRdCtrl r' = memRdCtrl r @ [read_command md] \<and>
    memWr2out w' = memWr2out w @ [out] \<and> dr_operation out = im_operation md \<and> memWr2cc w' = memWr2cc w @ [1]"
proof -
  have "dr_operation (tx_out (transaction nr (md, ws) b)) = im_operation md" for nr
    using assms(1) by (auto simp: request_ok_def transaction_def serve_def kv_ok_def kv_fail_def Let_def split: option.split prod.split)
  with table_serves [of "[(md, ws)]" "[b]" r c w q T d T' t] assms show ?thesis
    by (auto simp: burst_ok_def serve_time_def all_written_def Let_def)
qed

theorem table_answers_witness:
  "\<exists>r' c' w' out. table_run (\<lambda>t. if t = 0 then ([fst (byte_request 0 0x61 0)], snd (byte_request 0 0x61 0)) else ([], [])) (\<lambda>t. if t = 0 then [0, 0] else []) table_reset 8 = (r', c', w') \<and>
     at_rest (r', c', w') \<and> memRdCtrl r' = [read_command (fst (byte_request 0 0x61 0))] \<and> memWr2out w' = [out] \<and> dr_operation out = 0 \<and> memWr2cc w' = [1]"
proof -
  let ?w = "(memWriteWithBuddy ^^ 2) mw_reset" and ?r = "byte_request 0 0x61 0"
  have req: "request_ok (fst ?r, snd ?r)" using byte_request_ok [of 0 "0x61" 0] by simp
  have n: "length [0 :: 512 word, 0] = Suc (length (snd ?r))" "max 1 1 + 3 * length (snd ?r) + 4 \<le> 8" by (simp_all add: byte_request_def)
  have q: "delivers append2 ([], []) (\<lambda>t :: nat. if t = 0 then ([fst ?r], snd ?r) else ([], [])) 1 ([fst ?r], snd ?r)" by (rule delivers_at_once) (simp add: append2_def)
  have d: "delivers (@) [] (\<lambda>t :: nat. if t = 0 then [0, 0] else []) 1 [0 :: 512 word, 0]" by (rule delivers_at_once) simp
  have s: "memRdCtrl mr_reset = []" "memWr2out ?w = []" "memWr2cc ?w = []" unfolding mw_initialised by (simp_all add: mr_reset_def mw_reset_def)
  have op: "im_operation (fst ?r) = 0" by (simp add: byte_request_def)
  from table_answers [OF req table_reset_rest(1) [unfolded table_reset_def] n(1) q d n(2)] show ?thesis
    unfolding table_reset_def s op by simp
qed

section \<open>Requests in flight together\<close>

lemma put_key_again: "length (snd k1) \<le> length (snd k2) \<Longrightarrow> length (snd k2) < length b \<Longrightarrow>
    write_burst (write_burst b (put_key b i k1 l1 a1)) (put_key b i k2 l2 a2) = write_burst b (put_key b i k2 l2 a2)"
  by (simp add: write_burst_def length_put_key)

lemma two_writes:
  assumes "d1 \<noteq> []" "d2 \<noteq> []" "length d1 \<le> 8" "length d2 \<le> 8" and "bucket_address (im_metadata md1) = bucket_address (im_metadata md2)"
  shows "mem_writes tbl (write_command md1 d1 @ write_command md2 d2) (d1 @ d2) (bucket_address (im_metadata md1)) = write_burst (write_burst (tbl (bucket_address (im_metadata md1))) d1) d2"
proof -
  have "unat (of_nat (length d1) :: 8 word) = length d1" "unat (of_nat (length d2) :: 8 word) = length d2"
    using assms(3,4) by (simp_all add: unat_of_nat take_bit_nat_eq_self)
  then show ?thesis using assms(1,2,5) by (simp add: write_command_def)
qed

text \<open>C38: Updates are lost. The filter that would hold back a request to a bucket for which another is in flight is compiled out, so that two SETs of new keys can both read
  the bucket before either is written. Then both report success, and the first key is not in the table: only the second is.\<close>

theorem set_lost:
  assumes "request_ok (md1, ws1)" and "request_ok (md2, ws2)" and "im_operation md1 = 1" and "im_operation md2 = 1" and "length ws1 \<le> length ws2"
    and "bucket_address (im_metadata md1) = bucket_address (im_metadata md2)" and "request_key (md1, ws1) \<noteq> request_key (md2, ws2)"
    and "table_ok tbl" and "b = tbl (bucket_address (im_metadata md1))" and "bucket_map b (request_key (md1, ws1)) = None" and "bucket_map b (request_key (md2, ws2)) = None"
    and "card (dom (bucket_map b)) < noOfBins" and "at_rest (r, c, w)" and "memWrCtrl w = []" and "memWrData w = []" and "memWr2out w = []"
    and "delivers append2 ([], []) q T ([md1, md2], ws1 @ ws2)" and "delivers (@) [] d T' (mem_read tbl (read_command md1) @ mem_read tbl (read_command md2))"
    and "T + T' + serve_time [(md1, ws1), (md2, ws2)] \<le> t"
  shows "\<exists>r' c' w' a. table_run q d (r, c, w) t = (r', c', w') \<and> map dr_status (memWr2out w') = [0, 0] \<and>
    bucket_map (mem_writes tbl (memWrCtrl w') (memWrData w') (bucket_address (im_metadata md1))) = (bucket_map b)(request_key (md2, ws2) \<mapsto> (a, im_valueLength md2)) \<and>
    bucket_map (mem_writes tbl (memWrCtrl w') (memWrData w') (bucket_address (im_metadata md1))) (request_key (md1, ws1)) = None"
proof -
  let ?a = "bucket_address (im_metadata md1)" and ?k1 = "request_key (md1, ws1)" and ?k2 = "request_key (md2, ws2)"
  have b: "bucket_ok b" using assms(8,9) by (simp add: table_ok_def)
  have k: "stored_ok ?k1" "stored_ok ?k2" using request_keyD(1) assms(1,2) by blast+
  have none: "hit b ?k1 = None" "hit b ?k2 = None" using assms(10,11) hit_Some(4) [OF b k(1)] hit_Some(4) [OF b k(2)] by (metis option.exhaust option.distinct(1))+
  from assms(12) bucket_full [OF b] obtain i where i: "room b = Some i" by blast
  have new: "transaction nr (md1, ws1) b = \<lparr>tx_data = put_key b i ?k1 (im_valueLength md1) (0x100000 + 0x100 * nr), tx_out = kv_ok 1 (0x100000 + 0x100 * nr) 0,
      tx_alloc = [value_request (im_valueLength md1)], tx_nr = nr + 1\<rparr>"
    "transaction nr (md2, ws2) b = \<lparr>tx_data = put_key b i ?k2 (im_valueLength md2) (0x100000 + 0x100 * nr), tx_out = kv_ok 1 (0x100000 + 0x100 * nr) 0,
      tx_alloc = [value_request (im_valueLength md2)], tx_nr = nr + 1\<rparr>" for nr
    using none i assms(3,4) by (simp_all add: transaction_def serve_def dummy_value_allocator_def)
  note rd = burst_read [OF assms(8) assms(1) refl, folded assms(9)] burst_read [OF assms(8) assms(2) refl, folded assms(6), folded assms(9)]
  have q: "delivers append2 ([], []) q T (map fst [(md1, ws1), (md2, ws2)], all_words [(md1, ws1), (md2, ws2)])"
    and d: "delivers (@) [] d T' (concat [mem_read tbl (read_command md1), mem_read tbl (read_command md2)])" using assms(17,18) by simp_all
  have t: "max T T' + serve_time [(md1, ws1), (md2, ws2)] \<le> t" using assms(19) by simp
  from table_serves [OF _ _ assms(13) q d t] assms(1,2) rd(1,3) obtain r' c' w' where run: "table_run q d (r, c, w) t = (r', c', w')"
    and w': "all_written w [(md1, ws1), (md2, ws2)] (transactions (dummy_nr w) [(md1, ws1), (md2, ws2)] [mem_read tbl (read_command md1), mem_read tbl (read_command md2)]) w'" by auto
  let ?d1 = "put_key b i ?k1 (im_valueLength md1) (0x100000 + 0x100 * dummy_nr w)" and ?d2 = "put_key b i ?k2 (im_valueLength md2) (0x100000 + 0x100 * (dummy_nr w + 1))"
  have out: "map dr_status (memWr2out w') = [0, 0]" "memWrCtrl w' = write_command md1 ?d1 @ write_command md2 ?d2" "memWrData w' = ?d1 @ ?d2"
    using w' assms(14-16) by (simp_all add: all_written_def rd(2,4) new kv_ok_def Let_def)
  have fits: "length (snd ?k1) \<le> length (snd ?k2)" "length (snd ?k2) < length b" "length ?d1 \<le> 8" "length ?d2 \<le> 8"
    using assms(5) b key_rows_fits [OF k(1)] key_rows_fits [OF k(2)] by (simp_all add: request_key_def bucket_ok_def length_put_key)
  have "?d1 \<noteq> []" "?d2 \<noteq> []" by (simp_all add: put_key_def)
  from two_writes [OF this fits(3,4) assms(6), of tbl]
  have "mem_writes tbl (memWrCtrl w') (memWrData w') ?a = write_burst (write_burst b ?d1) ?d2" unfolding out(2,3) assms(9) .
  also have "\<dots> = write_burst b ?d2" by (rule put_key_again [OF fits(1,2)])
  finally have "bucket_map (mem_writes tbl (memWrCtrl w') (memWrData w') ?a) = (bucket_map b)(?k2 \<mapsto> (0x100000 + 0x100 * (dummy_nr w + 1), im_valueLength md2))"
    using put_key_bucket [OF b _ k(2), of i] room_Some [OF i] hit_None [OF b k(2) none(2)] by simp
  with run out(1) assms(7,10) show ?thesis by auto
qed

theorem set_lost_witness:
  "\<exists>r' c' w'. table_run (\<lambda>t. if t = 0 then ([fst (byte_request 1 0x61 5), fst (byte_request 1 0x62 7)], snd (byte_request 1 0x61 5) @ snd (byte_request 1 0x62 7)) else ([], []))
       (\<lambda>t. if t = 0 then replicate 4 0 else []) table_reset 16 = (r', c', w') \<and> map dr_status (memWr2out w') = [0, 0] \<and>
     bucket_map (mem_writes (\<lambda>a. replicate 8 0) (memWrCtrl w') (memWrData w') (bucket_address 0x12345678)) (request_key (fst (byte_request 1 0x61 5), snd (byte_request 1 0x61 5))) = None"
proof -
  let ?w = "(memWriteWithBuddy ^^ 2) mw_reset" and ?r1 = "byte_request 1 0x61 5" and ?r2 = "byte_request 1 0x62 7" and ?tbl = "\<lambda>a :: 32 word. replicate 8 (0 :: 512 word)"
  have req: "request_ok (fst ?r1, snd ?r1)" "request_ok (fst ?r2, snd ?r2)" "im_operation (fst ?r1) = 1" "im_operation (fst ?r2) = 1" "length (snd ?r1) \<le> length (snd ?r2)"
    "bucket_address (im_metadata (fst ?r1)) = bucket_address (im_metadata (fst ?r2))"
    using byte_request_ok [of 1 "0x61" 5] byte_request_ok [of 1 "0x62" 7] by (simp, simp, simp_all add: byte_request_def)
  have md: "im_metadata (fst ?r1) = 0x12345678" by (simp add: byte_request_def)
  have keys: "request_key (fst ?r1, snd ?r1) \<noteq> request_key (fst ?r2, snd ?r2)"
    by (simp add: byte_request_def request_key_def reset_high_def range_get_def range_set_def)
  have q: "delivers append2 ([], []) (\<lambda>t :: nat. if t = 0 then ([fst ?r1, fst ?r2], snd ?r1 @ snd ?r2) else ([], [])) 1 ([fst ?r1, fst ?r2], snd ?r1 @ snd ?r2)"
    by (rule delivers_at_once) (simp add: append2_def)
  have m: "mem_read ?tbl (read_command (fst ?r1)) @ mem_read ?tbl (read_command (fst ?r2)) = replicate 4 0"
    by (simp add: mem_read_def read_command_def byte_request_def bucket_count_def replicate_add [symmetric])
  have d: "delivers (@) [] (\<lambda>t :: nat. if t = 0 then replicate 4 0 else []) 1 (mem_read ?tbl (read_command (fst ?r1)) @ mem_read ?tbl (read_command (fst ?r2)))"
    unfolding m by (rule delivers_at_once) simp
  have t: "1 + 1 + serve_time [(fst ?r1, snd ?r1), (fst ?r2, snd ?r2)] \<le> 16" by (simp add: serve_time_def byte_request_def)
  have s: "memWrCtrl ?w = []" "memWrData ?w = []" "memWr2out ?w = []" unfolding mw_initialised by (simp_all add: mw_reset_def)
  have e: "bucket_map (replicate 8 0) k = None" "card (dom (bucket_map (replicate 8 0))) < noOfBins" for k by (simp_all add: zero_bucket(2) noOfBins_def)
  from set_lost [OF req keys zero_table refl e(1) e(1) e(2) table_reset_rest(1) [unfolded table_reset_def] s q d t] show ?thesis
    unfolding table_reset_def md by (elim exE conjE) (intro exI conjI; assumption)
qed

end
