(* ===== verification/Mc_Cc.thy ===== *)
theory Mc_Cc
  imports Mc_Table
begin

text \<open>
  The concurrency control of the key-value store with the filter that is compiled in: it joins every request with its hash value and passes it on, in order, and holds none back.
\<close>

section \<open>Runs\<close>

definition cc_reset :: cc_st where
  "cc_reset = \<lparr>in2cc = [], in2ccMd = [], hash2cc = [], dec2cc = [], cc2memRead = [], cc2memReadMd = [], ccState = CC_IDLE,
     ccInputWord = \<lparr>hw_data = 0, hw_SOP = 0, hw_EOP = 0\<rparr>, ccInputWordMd = \<lparr>im_operation = 0, im_metadata = 0, im_keyLength = 0, im_valueLength = 0\<rparr>,
     ccCompareElement = \<lparr>ccw_address = 0, ccw_valueLength = 0, ccw_operation = 0, ccw_status = 0\<rparr>\<rparr>"

text \<open>Words of keys, metadata, hash values and pops arrive at any time; \<open>ws\<close>, \<open>mds\<close> and \<open>hs\<close> are all that have arrived.\<close>

inductive cc_reach :: "hashTableInternalWord list \<Rightarrow> internalMdWord list \<Rightarrow> 32 word list \<Rightarrow> cc_st \<Rightarrow> bool" where
  start: "cc_reach [] [] [] cc_reset"
| arrive: "cc_reach (ws @ ws') (mds @ mds') (hs @ hs')
    (s\<lparr>in2cc := in2cc s @ ws', in2ccMd := in2ccMd s @ mds', hash2cc := hash2cc s @ hs', dec2cc := dec2cc s @ ps\<rparr>)" if "cc_reach ws mds hs s"
| cycle: "cc_reach ws mds hs (concurrencyControl s)" if "cc_reach ws mds hs s"

definition with_hash :: "internalMdWord list \<Rightarrow> 32 word list \<Rightarrow> internalMdWord list" where
  "with_hash mds hs = map2 (\<lambda>md h. md\<lparr>im_metadata := h\<rparr>) mds hs"

text \<open>The request that has been taken and not yet passed on.\<close>

definition held :: "cc_st \<Rightarrow> bool" where
  "held s \<longleftrightarrow> ccState s = CC_PUSH"

definition cc_inv :: "hashTableInternalWord list \<Rightarrow> internalMdWord list \<Rightarrow> 32 word list \<Rightarrow> cc_st \<Rightarrow> bool" where
  "cc_inv ws mds hs s \<longleftrightarrow> ccState s \<notin> {CC_WAIT, CC_POP_WAIT} \<and>
     cc2memRead s @ (if held s then [ccInputWord s] else []) @ in2cc s = ws \<and>
     (\<exists>md h. md @ in2ccMd s = mds \<and> h @ hash2cc s = hs \<and> length md = length h \<and> cc2memReadMd s @ (if held s then [ccInputWordMd s] else []) = with_hash md h)"

lemma with_hash_snoc: "length mds = length hs \<Longrightarrow> with_hash (mds @ [md]) (hs @ [h]) = with_hash mds hs @ [md\<lparr>im_metadata := h\<rparr>]"
  by (simp add: with_hash_def)

lemma cc_inv_arrive:
  "cc_inv ws mds hs s \<Longrightarrow> cc_inv (ws @ ws') (mds @ mds') (hs @ hs') (s\<lparr>in2cc := in2cc s @ ws', in2ccMd := in2ccMd s @ mds', hash2cc := hash2cc s @ hs', dec2cc := dec2cc s @ ps\<rparr>)"
  by (auto simp: cc_inv_def held_def)

lemma cc_inv_take:
  assumes inv: "cc_inv ws mds hs s" and st: "ccState s = CC_IDLE" "dec2cc s = []" and q: "in2ccMd s = m # ms" "in2cc s = w # vs" "hash2cc s = x # xs"
  shows "cc_inv ws mds hs (concurrencyControl s)"
proof -
  from inv obtain md h where p: "md @ in2ccMd s = mds" "h @ hash2cc s = hs" "length md = length h" "cc2memReadMd s = with_hash md h" "cc2memRead s @ in2cc s = ws"
    by (auto simp: cc_inv_def held_def st)
  have "(md @ [m]) @ ms = mds" "(h @ [x]) @ xs = hs" using p(1,2) q by simp_all
  with p(3-5) with_hash_snoc [OF p(3), of m x] q st show ?thesis
    by (auto simp: cc_inv_def held_def concurrencyControl_def concurrencyFilter_compare_def concurrencyFilter_full_def Let_def intro!: exI [of _ "md @ [m]"] exI [of _ "h @ [x]"])
qed

lemma cc_inv_cycle:
  assumes inv: "cc_inv ws mds hs s"
  shows "cc_inv ws mds hs (concurrencyControl s)"
proof (cases "ccState s = CC_IDLE \<and> dec2cc s = [] \<and> in2ccMd s \<noteq> [] \<and> in2cc s \<noteq> [] \<and> hash2cc s \<noteq> []")
  case True
  then show ?thesis using cc_inv_take [OF inv] by (auto simp: neq_Nil_conv)
next
  case False
  then show ?thesis using inv
    by (cases "ccState s") (auto simp: cc_inv_def held_def concurrencyControl_def swrite_def split: list.splits)
qed

lemma cc_reach_inv: "cc_reach ws mds hs s \<Longrightarrow> cc_inv ws mds hs s"
proof (induction rule: cc_reach.induct)
  case start
  show ?case by (simp add: cc_inv_def held_def cc_reset_def with_hash_def)
qed (simp_all add: cc_inv_arrive cc_inv_cycle)

text \<open>The concurrency control loses and reorders nothing, and holds nothing back. However words, metadata, hash values and pops arrive, what has been passed on to the table,
  the word that is held for one cycle, and what waits in the input are together exactly the words that have arrived, in order; the metadata passed on are the first that have arrived, each with
  its hash value; and no request ever waits for another.\<close>

theorem cc_passes:
  assumes "cc_reach ws mds hs s"
  shows "ccState s \<notin> {CC_WAIT, CC_POP_WAIT} \<and> cc2memRead s @ (if ccState s = CC_PUSH then [ccInputWord s] else []) @ in2cc s = ws \<and>
    (\<exists>rest. with_hash mds hs = cc2memReadMd s @ (if ccState s = CC_PUSH then [ccInputWordMd s] else []) @ rest \<and> rest = with_hash (in2ccMd s) (hash2cc s))"
proof -
  from cc_reach_inv [OF assms] obtain md h where p: "ccState s \<notin> {CC_WAIT, CC_POP_WAIT}" "cc2memRead s @ (if ccState s = CC_PUSH then [ccInputWord s] else []) @ in2cc s = ws"
    "md @ in2ccMd s = mds" "h @ hash2cc s = hs" "length md = length h" "cc2memReadMd s @ (if ccState s = CC_PUSH then [ccInputWordMd s] else []) = with_hash md h"
    unfolding cc_inv_def held_def by blast
  have "with_hash mds hs = with_hash md h @ with_hash (in2ccMd s) (hash2cc s)" using p(5) by (simp add: with_hash_def p(3,4) [symmetric])
  with p(1,2) p(6) [symmetric] show ?thesis by simp
qed

theorem cc_passes_witness:
  "\<exists>s. cc_reach [\<lparr>hw_data = 0x61, hw_SOP = 1, hw_EOP = 1\<rparr>] [\<lparr>im_operation = 1, im_metadata = 0, im_keyLength = 1, im_valueLength = 5\<rparr>] [7] s \<and>
     ccState s = CC_IDLE \<and> cc2memRead s = [\<lparr>hw_data = 0x61, hw_SOP = 1, hw_EOP = 1\<rparr>] \<and>
     cc2memReadMd s = [\<lparr>im_operation = 1, im_metadata = 7, im_keyLength = 1, im_valueLength = 5\<rparr>]"
proof -
  let ?w = "\<lparr>hw_data = 0x61, hw_SOP = 1, hw_EOP = 1\<rparr>" and ?m = "\<lparr>im_operation = 1, im_metadata = 0, im_keyLength = 1, im_valueLength = 5\<rparr>"
  let ?s = "cc_reset\<lparr>in2cc := [?w], in2ccMd := [?m], hash2cc := [7]\<rparr>"
  have "cc_reach [?w] [?m] [7] ?s" using cc_reach.arrive [OF cc_reach.start, of "[?w]" "[?m]" "[7]" "[]"] by (simp add: cc_reset_def)
  then have r: "cc_reach [?w] [?m] [7] (concurrencyControl (concurrencyControl ?s))" by (intro cc_reach.cycle)
  have st: "ccState (concurrencyControl (concurrencyControl ?s)) = CC_IDLE" "in2cc (concurrencyControl (concurrencyControl ?s)) = []" "in2ccMd (concurrencyControl (concurrencyControl ?s)) = []"
    by (simp_all add: concurrencyControl_def concurrencyFilter_compare_def concurrencyFilter_full_def cc_reset_def Let_def)
  from cc_passes [OF r] r st show ?thesis by (intro exI [of _ "concurrencyControl (concurrencyControl ?s)"]) (simp add: with_hash_def)
qed

end
