(* ===== verification/Mc_Input.thy ===== *)
theory Mc_Input
  imports Mc_Hash_Props Mc_Table_Props
begin

unbundle bit_operations_syntax

text \<open>
  The input logic of the key-value store's hash table (\<^verbatim>\<open>hashTableWithBuddy.cpp\<close>), which gathers the key of a request from words of 64 bits into
  words of 128 bits for the hash unit and the table. It keeps its buffer from one word to the next, so that what is behind the end of a key is left over from earlier words;
  it is shown that the keys of the table do not depend on it.
\<close>

section \<open>Input logic\<close>

datatype ilState = IL_IDLE | IL_STREAM

record input_st =
  il_inData :: "pipelineWord stream"
  in2key :: "64 word stream"
  in2value :: "64 word stream"
  in2md :: "128 word stream"
  il_hash :: "hashTableInternalWord stream"
  il_hashKeyLength :: "8 word stream"
  il_cc :: "hashTableInternalWord stream"
  il_ccMd :: "internalMdWord stream"
  iState :: ilState
  bufferWord :: hashTableInternalWord
  bufferWordMd :: internalMdWord
  il_wordCounter :: "2 word"
  keyWordCounter :: "2 word"
  il_keyLength :: "8 word"

text \<open>Flags and metadata of a word in one vector.\<close>

definition metadataBuffer :: "pipelineWord \<Rightarrow> 128 word" where
  "metadataBuffer w =
     range_set (bit_put (bit_put (bit_put (bit_put 0 127 (pw_EOP w = 1)) 126 (pw_valueValid w = 1)) 125 (pw_keyValid w = 1)) 124 (pw_SOP w = 1)) 123 0 (pw_metadata w)"

text \<open>The buffer goes to the hash unit and to the table; with the metadata when it is the last of a key.\<close>

definition send_buffer :: "1 word \<Rightarrow> input_st \<Rightarrow> input_st" where
  "send_buffer eop s =
     (let w = (bufferWord s)\<lparr>hw_EOP := eop\<rparr>; s = s\<lparr>bufferWord := w, il_cc := swrite (il_cc s) w, il_hash := swrite (il_hash s) w\<rparr>
      in if eop = 1 then s\<lparr>il_ccMd := swrite (il_ccMd s) (bufferWordMd s)\<rparr> else s)"

definition il_first :: "pipelineWord \<Rightarrow> input_st \<Rightarrow> input_st" where
  "il_first w s =
     (let op = range_get (pw_metadata w) 111 104; len = (if op = 8 then 1 else range_get (pw_metadata w) 7 0);
          md = (bufferWordMd s)\<lparr>im_operation := op, im_valueLength := ucast (range_get (pw_metadata w) 39 8 :: 32 word), im_keyLength := len\<rparr>;
          s = s\<lparr>bufferWord := (bufferWord s)\<lparr>hw_SOP := 1\<rparr>, bufferWordMd := md, il_keyLength := len, keyWordCounter := 1\<rparr>;
          s = (if len > 0
               then (let s = (if op \<noteq> 8 then s\<lparr>in2key := swrite (in2key s) (pw_key w)\<rparr> else s);
                         s = s\<lparr>il_hashKeyLength := swrite (il_hashKeyLength s) len\<rparr>
                     in if len \<le> 8
                        then (send_buffer 1 (s\<lparr>bufferWord := (bufferWord s)\<lparr>hw_data :=
                                range_set (hw_data (bufferWord s)) (unat len * 8 - 1) 0 (range_get (pw_key w) (unat len * 8 - 1) 0 :: 64 word)\<rparr>\<rparr>))\<lparr>il_keyLength := 0\<rparr>
                        else s\<lparr>bufferWord := (bufferWord s)\<lparr>hw_data := range_set (hw_data (bufferWord s)) 63 0 (pw_key w)\<rparr>, il_keyLength := len - 8\<rparr>)
               else s);
          s = (if pw_valueValid w = 1 then s\<lparr>in2value := swrite (in2value s) (pw_value w)\<rparr> else s)
      in s\<lparr>in2md := swrite (in2md s) (metadataBuffer w), il_wordCounter := il_wordCounter s + 1, iState := IL_STREAM\<rparr>)"

definition il_key_word :: "pipelineWord \<Rightarrow> input_st \<Rightarrow> input_st" where
  "il_key_word w s =
     (let len = il_keyLength s; c = unat (keyWordCounter s); d = hw_data (bufferWord s);
          s = s\<lparr>bufferWord := (bufferWord s)\<lparr>hw_SOP := 0\<rparr>, in2key := swrite (in2key s) (pw_key w)\<rparr>
      in if len \<le> 8
         then send_buffer 1 (s\<lparr>bufferWord := (bufferWord s)\<lparr>hw_data := range_set d (64 * c + unat len * 8 - 1) (64 * c) (pw_key w)\<rparr>, il_keyLength := 0\<rparr>)
         else (let s = s\<lparr>bufferWord := (bufferWord s)\<lparr>hw_data := range_set d (64 * (c + 1) - 1) (64 * c) (pw_key w)\<rparr>, il_keyLength := len - 8\<rparr>
               in if c = 1 then (send_buffer 0 s)\<lparr>keyWordCounter := 0\<rparr> else s\<lparr>keyWordCounter := keyWordCounter s + 1\<rparr>))"

definition il_next :: "pipelineWord \<Rightarrow> input_st \<Rightarrow> input_st" where
  "il_next w s =
     (let s = (if pw_valueValid w = 1 then s\<lparr>in2value := swrite (in2value s) (pw_value w)\<rparr> else s);
          s = (if il_wordCounter s < 2 then s\<lparr>in2md := swrite (in2md s) (metadataBuffer w), il_wordCounter := il_wordCounter s + 1\<rparr> else s);
          s = (if il_keyLength s > 0 then il_key_word w s else s)
      in if pw_EOP w = 1 then s\<lparr>iState := IL_IDLE\<rparr> else s)"

definition ht_inputLogic :: "input_st \<Rightarrow> input_st" where
  "ht_inputLogic s =
     (case il_inData s of
        [] \<Rightarrow> s
      | w # ws \<Rightarrow>
          (let s = s\<lparr>il_inData := ws\<rparr>
           in case iState s of
                IL_IDLE \<Rightarrow>
                  (let s = s\<lparr>il_wordCounter := 0, bufferWordMd := (bufferWordMd s)\<lparr>im_keyLength := 0\<rparr>\<rparr>
                   in if pw_SOP w = 1 then il_first w s else s\<lparr>keyWordCounter := 0\<rparr>)
              | IL_STREAM \<Rightarrow> il_next w s))"

definition pw_zero :: pipelineWord where
  "pw_zero = \<lparr>pw_metadata = 0, pw_SOP = 0, pw_keyValid = 0, pw_valueValid = 0, pw_EOP = 0, pw_value = 0, pw_key = 0\<rparr>"

section \<open>Gathering a key\<close>

text \<open>The word \<open>d'\<close> is \<open>d\<close> with the bytes \<open>i\<close> up to \<open>e\<close> of the key at its start, as far as the key goes.\<close>

definition overlaid :: "128 word \<Rightarrow> 8 word list \<Rightarrow> nat \<Rightarrow> nat \<Rightarrow> 128 word \<Rightarrow> bool" where
  "overlaid d k i e d' \<longleftrightarrow> (\<forall>n < 128. bit d' n = (if i + n div 8 < e \<and> i + n div 8 < length k then key_bit k i n else bit d n))"

text \<open>The words of the key from byte \<open>i\<close> on, when \<open>d\<close> is in the buffer before.\<close>

fun gathered :: "128 word \<Rightarrow> 8 word list \<Rightarrow> nat \<Rightarrow> hashTableInternalWord list \<Rightarrow> bool" where
  "gathered d k i [] \<longleftrightarrow> False"
| "gathered d k i (w # ws) \<longleftrightarrow> i < length k \<and> overlaid d k i (i + 16) (hw_data w) \<and>
     (if i + 16 < length k then hw_EOP w = 0 \<and> gathered (hw_data w) k (i + 16) ws else hw_EOP w = 1 \<and> ws = [])"

lemma overlaid_first:
  assumes "agrees (x :: 64 word) k i" and "i < length k" and "m = min 8 (length k - i)" and "hi = m * 8 - 1"
  shows "overlaid d k i (i + 8) (range_set d hi 0 x)"
  unfolding overlaid_def
proof (intro allI impI)
  fix n :: nat
  assume n: "n < 128"
  have m: "0 < m" "m \<le> 8" using assms(2,3) by auto
  have "n \<le> hi \<longleftrightarrow> i + n div 8 < i + 8 \<and> i + n div 8 < length k" using assms(2-4) m by (auto simp: less_diff_conv min_def split: if_splits)
  moreover have "bit x n = key_bit k i n" if "n \<le> hi" using agreesD [OF assms(1), of n] that m assms(2-4) by (auto simp: less_diff_conv min_def split: if_splits)
  ultimately show "bit (range_set d hi 0 x) n = (if i + n div 8 < i + 8 \<and> i + n div 8 < length k then key_bit k i n else bit d n)"
    using n m assms(4) by (auto simp: bit_simps)
qed

lemma overlaid_second:
  assumes "overlaid d k i (i + 8) e" and "agrees (x :: 64 word) k (i + 8)" and "i + 8 < length k" and "m = min 8 (length k - (i + 8))" and "hi = 64 + m * 8 - 1"
  shows "overlaid d k i (i + 16) (range_set e hi 64 x)"
  unfolding overlaid_def
proof (intro allI impI)
  fix n :: nat
  assume n: "n < 128"
  have m: "0 < m" "m \<le> 8" using assms(3,4) by auto
  show "bit (range_set e hi 64 x) n = (if i + n div 8 < i + 16 \<and> i + n div 8 < length k then key_bit k i n else bit d n)"
  proof (cases "n < 64")
    case True
    then show ?thesis using assms(1) n by (auto simp: overlaid_def bit_simps)
  next
    case False
    have "n \<le> hi \<longleftrightarrow> i + n div 8 < i + 16 \<and> i + n div 8 < length k" using assms(3-5) m n False by (auto simp: min_def split: if_splits)
    moreover have "bit x (n - 64) = key_bit k i n" if "n \<le> hi"
      using agreesD [OF assms(2), of "n - 64"] that m assms(3-5) n False key_bit_shift [of k i 8 "n - 64"] by (auto simp: min_def split: if_splits)
    moreover have "bit e n = bit d n" using assms(1) n False by (auto simp: overlaid_def)
    ultimately show ?thesis using False n m assms(5) by (auto simp: bit_simps)
  qed
qed

text \<open>A word of a request after the first, but for the end of the request.\<close>

definition il_side :: "pipelineWord \<Rightarrow> input_st \<Rightarrow> input_st" where
  "il_side w s =
     (let s = (if pw_valueValid w = 1 then s\<lparr>in2value := swrite (in2value s) (pw_value w)\<rparr> else s)
      in if il_wordCounter s < 2 then s\<lparr>in2md := swrite (in2md s) (metadataBuffer w), il_wordCounter := il_wordCounter s + 1\<rparr> else s)"

definition il_body :: "pipelineWord \<Rightarrow> input_st \<Rightarrow> input_st" where
  "il_body w s = (if il_keyLength s > 0 then il_key_word w (il_side w s) else il_side w s)"

lemma il_next_body: "il_next w s = (if pw_EOP w = 1 then (il_body w s)\<lparr>iState := IL_IDLE\<rparr> else il_body w s)"
  by (simp add: il_next_def il_body_def il_side_def Let_def)

text \<open>What has been sent on from \<open>s\<close> to \<open>s'\<close>.\<close>

definition sent_on :: "input_st \<Rightarrow> hashTableInternalWord list \<Rightarrow> internalMdWord list \<Rightarrow> 64 word list \<Rightarrow> input_st \<Rightarrow> bool" where
  "sent_on s ws mds ks s' \<longleftrightarrow> il_cc s' = il_cc s @ ws \<and> il_hash s' = il_hash s @ ws \<and> il_ccMd s' = il_ccMd s @ mds \<and> in2key s' = in2key s @ ks \<and>
     il_hashKeyLength s' = il_hashKeyLength s \<and> bufferWordMd s' = bufferWordMd s"

lemma sent_on_trans: "sent_on s ws mds ks s1 \<Longrightarrow> sent_on s1 ws' mds' ks' s2 \<Longrightarrow> sent_on s (ws @ ws') (mds @ mds') (ks @ ks') s2"
  by (simp add: sent_on_def)

lemma of_nat_8: "x < 256 \<Longrightarrow> (of_nat x :: 8 word) \<le> 8 \<longleftrightarrow> x \<le> 8" "x < 256 \<Longrightarrow> 0 < (of_nat x :: 8 word) \<longleftrightarrow> 0 < x" "x < 256 \<Longrightarrow> unat (of_nat x :: 8 word) = x"
  "8 \<le> x \<Longrightarrow> (of_nat x :: 8 word) - 8 = of_nat (x - 8)"
  by (simp_all add: word_le_nat_alt word_less_nat_alt unat_of_nat take_bit_nat_eq_self of_nat_diff)

lemma il_side_frame:
  "sent_on s [] [] [] (il_side w s)" "il_keyLength (il_side w s) = il_keyLength s" "keyWordCounter (il_side w s) = keyWordCounter s" "bufferWord (il_side w s) = bufferWord s"
  by (simp_all add: il_side_def sent_on_def Let_def)

lemma il_first_half:
  assumes "il_keyLength s = of_nat (length k - i)" and "keyWordCounter s = 0" and "length k < 256" and "i < length k" and "agrees (pw_key w) k i"
  shows "if length k \<le> i + 8
    then il_keyLength (il_body w s) = 0 \<and> (\<exists>u. gathered (hw_data (bufferWord s)) k i [u] \<and> sent_on s [u] [bufferWordMd s] [pw_key w] (il_body w s))
    else il_keyLength (il_body w s) = of_nat (length k - (i + 8)) \<and> keyWordCounter (il_body w s) = 1 \<and>
      overlaid (hw_data (bufferWord s)) k i (i + 8) (hw_data (bufferWord (il_body w s))) \<and> sent_on s [] [] [pw_key w] (il_body w s)"
proof -
  let ?x = "length k - i"
  have x: "?x < 256" "0 < ?x" "(of_nat ?x :: 8 word) \<le> 8 \<longleftrightarrow> length k \<le> i + 8" using assms(3,4) of_nat_8(1) [of ?x] by auto
  have pos: "il_keyLength s > 0" using x(1,2) of_nat_8(2) [of ?x] assms(1) by simp
  obtain t where t: "il_body w s = il_key_word w t" "sent_on s [] [] [] t" "il_keyLength t = of_nat ?x" "keyWordCounter t = 0" "bufferWord t = bufferWord s"
    using il_side_frame [where s = s and w = w] assms(1,2) pos by (metis il_body_def)
  show ?thesis
  proof (cases "length k \<le> i + 8")
    case True
    then have len: "of_nat ?x \<le> (8 :: 8 word)" "unat (of_nat ?x :: 8 word) = ?x" using x(3) of_nat_8(3) [OF x(1)] by blast+
    have "overlaid (hw_data (bufferWord s)) k i (i + 8) (range_set (hw_data (bufferWord s)) (?x * 8 - 1) 0 (pw_key w))"
      by (rule overlaid_first [OF assms(5,4) refl]) (use True in simp)
    then have "overlaid (hw_data (bufferWord s)) k i (i + 16) (range_set (hw_data (bufferWord s)) (?x * 8 - 1) 0 (pw_key w))" using True by (auto simp: overlaid_def)
    with True t len assms(4) show ?thesis
      by (simp add: il_key_word_def send_buffer_def sent_on_def swrite_def Let_def del: of_nat_diff)
  next
    case False
    then have len: "\<not> of_nat ?x \<le> (8 :: 8 word)" "(of_nat ?x :: 8 word) - 8 = of_nat (length k - (i + 8))" using x(3) of_nat_8(4) [of ?x] by auto
    have "overlaid (hw_data (bufferWord s)) k i (i + 8) (range_set (hw_data (bufferWord s)) 63 0 (pw_key w))"
      by (rule overlaid_first [OF assms(5,4) refl]) (use False in \<open>simp add: min_def\<close>)
    with False t len show ?thesis by (simp add: il_key_word_def sent_on_def swrite_def del: of_nat_diff)
  qed
qed

lemma il_second_half:
  assumes "il_keyLength s = of_nat (length k - (i + 8))" and "keyWordCounter s = 1" and "length k < 256" and "i + 8 < length k" and "agrees (pw_key w) k (i + 8)"
    and d: "overlaid d k i (i + 8) (hw_data (bufferWord s))"
  shows "\<exists>u. overlaid d k i (i + 16) (hw_data u) \<and>
    (if length k \<le> i + 16 then il_keyLength (il_body w s) = 0 \<and> hw_EOP u = 1 \<and> sent_on s [u] [bufferWordMd s] [pw_key w] (il_body w s)
     else il_keyLength (il_body w s) = of_nat (length k - (i + 16)) \<and> keyWordCounter (il_body w s) = 0 \<and> hw_EOP u = 0 \<and>
       hw_data (bufferWord (il_body w s)) = hw_data u \<and> sent_on s [u] [] [pw_key w] (il_body w s))"
proof -
  let ?x = "length k - (i + 8)"
  have x: "?x < 256" "0 < ?x" "(of_nat ?x :: 8 word) \<le> 8 \<longleftrightarrow> length k \<le> i + 16" using assms(3,4) of_nat_8(1) [of ?x] by auto
  have pos: "il_keyLength s > 0" using x(1,2) of_nat_8(2) [of ?x] assms(1) by simp
  obtain t where t: "il_body w s = il_key_word w t" "sent_on s [] [] [] t" "il_keyLength t = of_nat ?x" "keyWordCounter t = 1" "bufferWord t = bufferWord s"
    using il_side_frame [where s = s and w = w] assms(1,2) pos by (metis il_body_def)
  let ?b = "hw_data (bufferWord s)"
  show ?thesis
  proof (cases "length k \<le> i + 16")
    case True
    then have len: "of_nat ?x \<le> (8 :: 8 word)" "unat (of_nat ?x :: 8 word) = ?x" using x(3) of_nat_8(3) [OF x(1)] by blast+
    have "overlaid d k i (i + 16) (range_set ?b (64 + ?x * 8 - 1) 64 (pw_key w))" by (rule overlaid_second [OF d assms(5,4) refl]) (use True in simp)
    with True t len show ?thesis
      by (intro exI [of _ "(bufferWord s)\<lparr>hw_SOP := 0, hw_data := range_set ?b (64 + ?x * 8 - 1) 64 (pw_key w), hw_EOP := 1\<rparr>"])
        (simp add: il_key_word_def send_buffer_def sent_on_def swrite_def Let_def del: of_nat_diff)
  next
    case False
    then have len: "\<not> of_nat ?x \<le> (8 :: 8 word)" "(of_nat ?x :: 8 word) - 8 = of_nat (length k - (i + 16))" using x(3) of_nat_8(4) [of ?x] by auto
    have "overlaid d k i (i + 16) (range_set ?b 127 64 (pw_key w))" by (rule overlaid_second [OF d assms(5,4) refl]) (use False in \<open>simp add: min_def\<close>)
    with False t len show ?thesis
      by (intro exI [of _ "(bufferWord s)\<lparr>hw_SOP := 0, hw_data := range_set ?b 127 64 (pw_key w), hw_EOP := 0\<rparr>"])
        (simp add: il_key_word_def send_buffer_def sent_on_def swrite_def Let_def del: of_nat_diff)
  qed
qed

text \<open>The words of a request that carry the key from byte \<open>i\<close> on.\<close>

fun carries :: "8 word list \<Rightarrow> nat \<Rightarrow> pipelineWord list \<Rightarrow> bool" where
  "carries k i [] \<longleftrightarrow> length k \<le> i"
| "carries k i (p # ps) \<longleftrightarrow> i < length k \<and> agrees (pw_key p) k i \<and> carries k (i + 8) ps"

lemma gather_rest:
  "carries k (i + 8) ps \<Longrightarrow> il_keyLength s = of_nat (length k - (i + 8)) \<Longrightarrow> keyWordCounter s = 1 \<Longrightarrow> length k < 256 \<Longrightarrow> i + 8 < length k \<Longrightarrow>
     overlaid d k i (i + 8) (hw_data (bufferWord s)) \<Longrightarrow>
     \<exists>ws. gathered d k i ws \<and> sent_on s ws [bufferWordMd s] (map pw_key ps) (fold il_body ps s) \<and> il_keyLength (fold il_body ps s) = 0"
proof (induction "length k - i" arbitrary: i ps s d rule: less_induct)
  case less
  from less.prems(1,5) obtain p ps' where ps: "ps = p # ps'" "agrees (pw_key p) k (i + 8)" "carries k (i + 16) ps'" by (cases ps) (auto simp: add.assoc)
  let ?s = "il_body p s"
  from il_second_half [OF less.prems(2-5) ps(2) less.prems(6)] obtain u where u: "overlaid d k i (i + 16) (hw_data u)"
    and step: "if length k \<le> i + 16 then il_keyLength ?s = 0 \<and> hw_EOP u = 1 \<and> sent_on s [u] [bufferWordMd s] [pw_key p] ?s
      else il_keyLength ?s = of_nat (length k - (i + 16)) \<and> keyWordCounter ?s = 0 \<and> hw_EOP u = 0 \<and> hw_data (bufferWord ?s) = hw_data u \<and> sent_on s [u] [] [pw_key p] ?s" by blast
  show ?case
  proof (cases "length k \<le> i + 16")
    case True
    then have "ps' = []" using ps(3) by (cases ps') auto
    with True step u less.prems(5) ps(1) show ?thesis by (intro exI [of _ "[u]"]) simp
  next
    case False
    with step have s1: "il_keyLength ?s = of_nat (length k - (i + 16))" "keyWordCounter ?s = 0" "hw_EOP u = 0" "hw_data (bufferWord ?s) = hw_data u" "sent_on s [u] [] [pw_key p] ?s" by simp_all
    from ps(3) False obtain p2 ps2 where p2: "ps' = p2 # ps2" "agrees (pw_key p2) k (i + 16)" "carries k (i + 16 + 8) ps2" by (cases ps') auto
    let ?s2 = "il_body p2 ?s"
    have lt: "i + 16 < length k" using False by simp
    note h = il_first_half [OF s1(1,2) less.prems(4) lt p2(2)]
    have md: "bufferWordMd ?s = bufferWordMd s" using s1(5) by (simp add: sent_on_def)
    have "\<exists>ws. gathered (hw_data u) k (i + 16) ws \<and> sent_on ?s ws [bufferWordMd s] (map pw_key ps') (fold il_body ps' ?s) \<and> il_keyLength (fold il_body ps' ?s) = 0"
    proof (cases "length k \<le> i + 16 + 8")
      case True
      then have "ps2 = []" using p2(3) by (cases ps2) auto
      moreover from True h s1(4) md obtain u2 where "gathered (hw_data u) k (i + 16) [u2]" "sent_on ?s [u2] [bufferWordMd s] [pw_key p2] ?s2" "il_keyLength ?s2 = 0"
        by (auto simp del: gathered.simps)
      ultimately show ?thesis unfolding p2(1) by (intro exI [of _ "[u2]"]) (simp del: gathered.simps)
    next
      case False
      with h s1(4) have s2: "il_keyLength ?s2 = of_nat (length k - (i + 16 + 8))" "keyWordCounter ?s2 = 1" "overlaid (hw_data u) k (i + 16) (i + 16 + 8) (hw_data (bufferWord ?s2))"
        "sent_on ?s [] [] [pw_key p2] ?s2" by simp_all
      have "length k - (i + 16) < length k - i" "i + 16 + 8 < length k" using False lt by linarith+
      from less.hyps [OF this(1) p2(3) s2(1,2) less.prems(4) this(2) s2(3)] obtain ws where
        ws: "gathered (hw_data u) k (i + 16) ws" "sent_on ?s2 ws [bufferWordMd ?s2] (map pw_key ps2) (fold il_body ps2 ?s2)" "il_keyLength (fold il_body ps2 ?s2) = 0" by auto
      have "bufferWordMd ?s2 = bufferWordMd s" using s2(4) md by (simp add: sent_on_def)
      with ws sent_on_trans [OF s2(4) ws(2)] p2(1) show ?thesis by auto
    qed
    then obtain ws where ws: "gathered (hw_data u) k (i + 16) ws" "sent_on ?s ws [bufferWordMd s] (map pw_key ps') (fold il_body ps' ?s)" "il_keyLength (fold il_body ps' ?s) = 0" by blast
    with sent_on_trans [OF s1(5) ws(2)] u s1(3) lt less.prems(5) ps(1) show ?thesis by (intro exI [of _ "u # ws"]) simp
  qed
qed

section \<open>A whole request\<close>

text \<open>A request for the key \<open>k\<close>: operation and lengths in the metadata of the first word, the key in the first words, and the end marked.\<close>

definition packet_of :: "8 word list \<Rightarrow> 8 word \<Rightarrow> 16 word \<Rightarrow> pipelineWord list \<Rightarrow> bool" where
  "packet_of k op vl ps \<longleftrightarrow> 2 \<le> length ps \<and> pw_SOP (hd ps) = 1 \<and> range_get (pw_metadata (hd ps)) 111 104 = op \<and> range_get (pw_metadata (hd ps)) 7 0 = (of_nat (length k) :: 8 word) \<and>
     ucast (range_get (pw_metadata (hd ps)) 39 8 :: 32 word) = vl \<and> carries k 0 (take ((length k + 7) div 8) ps) \<and>
     pw_EOP (last ps) = 1 \<and> list_all (\<lambda>p. pw_EOP p \<noteq> 1) (butlast ps)"

lemma il_body_frame:
  "il_inData (il_body w s) = il_inData s" "iState (il_body w s) = iState s"
  "il_body w (s\<lparr>il_inData := x\<rparr>) = (il_body w s)\<lparr>il_inData := x\<rparr>"
  by (simp_all add: il_body_def il_side_def il_key_word_def send_buffer_def Let_def)

lemma il_rest:
  "ps \<noteq> [] \<Longrightarrow> pw_EOP (last ps) = 1 \<Longrightarrow> list_all (\<lambda>p. pw_EOP p \<noteq> 1) (butlast ps) \<Longrightarrow> iState s = IL_STREAM \<Longrightarrow> il_inData s = ps @ rest \<Longrightarrow>
     (ht_inputLogic ^^ length ps) s = (fold il_body ps s)\<lparr>il_inData := rest, iState := IL_IDLE\<rparr>"
proof (induction ps arbitrary: s)
  case (Cons p ps)
  let ?s = "(il_body p s)\<lparr>il_inData := ps @ rest\<rparr>"
  show ?case
  proof (cases "ps = []")
    case True
    with Cons.prems show ?thesis by (simp add: ht_inputLogic_def il_next_body il_body_frame)
  next
    case False
    then have one: "ht_inputLogic s = ?s" using Cons.prems by (simp add: ht_inputLogic_def il_next_body il_body_frame)
    have fr: "fold il_body ps (t\<lparr>il_inData := x\<rparr>) = (fold il_body ps t)\<lparr>il_inData := x\<rparr>" for t x by (induction ps arbitrary: t) (simp_all add: il_body_frame)
    have "(ht_inputLogic ^^ length ps) ?s = (fold il_body ps ?s)\<lparr>il_inData := rest, iState := IL_IDLE\<rparr>"
      by (rule Cons.IH) (use Cons.prems False in \<open>simp_all add: il_body_frame\<close>)
    then show ?thesis using one by (simp add: funpow_swap1 fr)
  qed
qed simp

lemma il_tail: "il_keyLength s = 0 \<Longrightarrow> sent_on s [] [] [] (fold il_body ps s)"
proof (induction ps arbitrary: s)
  case (Cons p ps)
  then have "sent_on s [] [] [] (il_body p s)" "il_keyLength (il_body p s) = 0" by (simp_all add: il_body_def il_side_frame)
  with Cons.IH [of "il_body p s"] sent_on_trans show ?case by fastforce
qed (simp add: sent_on_def)

lemma agrees_low: "agrees (x :: 64 word) k 0 \<Longrightarrow> length k \<le> 8 \<Longrightarrow> 0 < length k \<Longrightarrow> agrees (range_get x (length k * 8 - 1) 0 :: 64 word) k 0"
  by (auto simp: agrees_def bit_simps)

lemma il_first_word:
  assumes "iState s = IL_IDLE" and "il_inData s = p # ps" and "pw_SOP p = 1" and "range_get (pw_metadata p) 111 104 = op" and "op \<noteq> 8"
    and "range_get (pw_metadata p) 7 0 = (of_nat (length k) :: 8 word)" and "ucast (range_get (pw_metadata p) 39 8 :: 32 word) = vl" and "0 < length k" and "length k < 256"
    and "agrees (pw_key p) k 0" and s1: "s1 = ht_inputLogic s"
  shows "iState s1 = IL_STREAM \<and> il_inData s1 = ps \<and> il_hashKeyLength s1 = il_hashKeyLength s @ [of_nat (length k)] \<and> in2key s1 = in2key s @ [pw_key p] \<and>
    bufferWordMd s1 = (bufferWordMd s)\<lparr>im_operation := op, im_valueLength := vl, im_keyLength := of_nat (length k)\<rparr> \<and>
    (if length k \<le> 8 then il_keyLength s1 = 0 \<and> (\<exists>u. gathered (hw_data (bufferWord s)) k 0 [u] \<and> il_cc s1 = il_cc s @ [u] \<and> il_hash s1 = il_hash s @ [u] \<and> il_ccMd s1 = il_ccMd s @ [bufferWordMd s1])
     else il_keyLength s1 = of_nat (length k - 8) \<and> keyWordCounter s1 = 1 \<and> overlaid (hw_data (bufferWord s)) k 0 8 (hw_data (bufferWord s1)) \<and>
       il_cc s1 = il_cc s \<and> il_hash s1 = il_hash s \<and> il_ccMd s1 = il_ccMd s)"
proof -
  let ?d = "hw_data (bufferWord s)"
  have len: "(of_nat (length k) :: 8 word) \<le> 8 \<longleftrightarrow> length k \<le> 8" "0 < (of_nat (length k) :: 8 word)" "unat (of_nat (length k) :: 8 word) = length k"
    using of_nat_8(1-3) [of "length k"] assms(8,9) by simp_all
  have c: "0 < unat (of_nat (length k) :: 8 word)" using len(3) assms(8) by simp
  show ?thesis
  proof (cases "length k \<le> 8")
    case True
    have "overlaid ?d k 0 (0 + 8) (range_set ?d (length k * 8 - 1) 0 (range_get (pw_key p) (length k * 8 - 1) 0 :: 64 word))"
      by (rule overlaid_first [OF agrees_low [OF assms(10)] _ refl]) (use True assms(8) in simp_all)
    then have "overlaid ?d k 0 16 (range_set ?d (length k * 8 - 1) 0 (range_get (pw_key p) (length k * 8 - 1) 0 :: 64 word))" using True by (auto simp: overlaid_def)
    with True assms(1-9) len show ?thesis
      by (simp add: s1 ht_inputLogic_def il_first_def send_buffer_def swrite_def Let_def)
  next
    case False
    have "overlaid ?d k 0 (0 + 8) (range_set ?d 63 0 (pw_key p))" by (rule overlaid_first [OF assms(10,8) refl]) (use False in \<open>simp add: min_def\<close>)
    with False assms(1-9) len of_nat_8(4) [of "length k"] show ?thesis
      by (simp add: s1 ht_inputLogic_def il_first_def swrite_def Let_def del: of_nat_diff)
  qed
qed

lemma il_request:
  assumes idle: "iState s = IL_IDLE" and ps: "il_inData s = ps @ rest" "packet_of k op vl ps" and op: "op \<noteq> 8" and k: "0 < length k" "length k < 256"
    and md: "md = (bufferWordMd s)\<lparr>im_operation := op, im_valueLength := vl, im_keyLength := of_nat (length k)\<rparr>"
  shows "\<exists>s' ws. (ht_inputLogic ^^ length ps) s = s' \<and> iState s' = IL_IDLE \<and> il_inData s' = rest \<and> gathered (hw_data (bufferWord s)) k 0 ws \<and>
    il_cc s' = il_cc s @ ws \<and> il_hash s' = il_hash s @ ws \<and> il_ccMd s' = il_ccMd s @ [md] \<and> il_hashKeyLength s' = il_hashKeyLength s @ [of_nat (length k)] \<and>
    in2key s' = in2key s @ map pw_key (take ((length k + 7) div 8) ps)"
proof -
  let ?n = "(length k + 7) div 8" and ?d = "hw_data (bufferWord s)"
  have "2 \<le> length ps" using ps(2) by (simp add: packet_of_def)
  then obtain p ps' where p: "ps = p # ps'" "ps' \<noteq> []" by (cases ps; cases "tl ps") auto
  have n: "?n = Suc (?n - 1)" using k(1) by linarith
  let ?kp = "take (?n - 1) ps'" and ?tail = "drop (?n - 1) ps'"
  have take: "take ?n ps = p # ?kp" unfolding p(1) by (subst n) simp
  have key: "agrees (pw_key p) k 0" "carries k 8 ?kp" using ps(2) take by (simp_all add: packet_of_def)
  let ?s1 = "ht_inputLogic s"
  have s1: "iState ?s1 = IL_STREAM \<and> il_inData ?s1 = ps' @ rest \<and> il_hashKeyLength ?s1 = il_hashKeyLength s @ [of_nat (length k)] \<and> in2key ?s1 = in2key s @ [pw_key p] \<and>
    bufferWordMd ?s1 = (bufferWordMd s)\<lparr>im_operation := op, im_valueLength := vl, im_keyLength := of_nat (length k)\<rparr> \<and>
    (if length k \<le> 8 then il_keyLength ?s1 = 0 \<and> (\<exists>u. gathered ?d k 0 [u] \<and> il_cc ?s1 = il_cc s @ [u] \<and> il_hash ?s1 = il_hash s @ [u] \<and> il_ccMd ?s1 = il_ccMd s @ [bufferWordMd ?s1])
     else il_keyLength ?s1 = of_nat (length k - 8) \<and> keyWordCounter ?s1 = 1 \<and> overlaid ?d k 0 8 (hw_data (bufferWord ?s1)) \<and>
       il_cc ?s1 = il_cc s \<and> il_hash ?s1 = il_hash s \<and> il_ccMd ?s1 = il_ccMd s)"
    by (rule il_first_word [OF idle]) (use ps p op k key(1) in \<open>simp_all add: packet_of_def\<close>)
  let ?s2 = "fold il_body ?kp ?s1"
  have "\<exists>ws. gathered ?d k 0 ws \<and> il_cc ?s2 = il_cc s @ ws \<and> il_hash ?s2 = il_hash s @ ws \<and> il_ccMd ?s2 = il_ccMd s @ [md] \<and> il_hashKeyLength ?s2 = il_hashKeyLength s @ [of_nat (length k)] \<and>
    in2key ?s2 = in2key s @ map pw_key (take ?n ps) \<and> il_keyLength ?s2 = 0"
  proof (cases "length k \<le> 8")
    case True
    then have "?kp = []" using key(2) by (cases ?kp) auto
    with True s1 md take show ?thesis by (auto simp del: gathered.simps)
  next
    case False
    with s1 key(2) k(2) have "\<exists>ws. gathered ?d k 0 ws \<and> sent_on ?s1 ws [bufferWordMd ?s1] (map pw_key ?kp) ?s2 \<and> il_keyLength ?s2 = 0"
      by (intro gather_rest) simp_all
    then obtain ws where ws: "gathered ?d k 0 ws" "sent_on ?s1 ws [bufferWordMd ?s1] (map pw_key ?kp) ?s2" "il_keyLength ?s2 = 0" by blast
    from s1 False md take ws(2,3) show ?thesis by (intro exI [of _ ws] conjI ws(1)) (simp_all add: sent_on_def)
  qed
  then obtain ws where ws: "gathered ?d k 0 ws" "il_cc ?s2 = il_cc s @ ws" "il_hash ?s2 = il_hash s @ ws" "il_ccMd ?s2 = il_ccMd s @ [md]"
    "il_hashKeyLength ?s2 = il_hashKeyLength s @ [of_nat (length k)]" "in2key ?s2 = in2key s @ map pw_key (take ?n ps)" "il_keyLength ?s2 = 0" by blast
  have "fold il_body ps' ?s1 = fold il_body ?tail ?s2" by (metis append_take_drop_id comp_apply fold_append)
  moreover have "(ht_inputLogic ^^ length ps') ?s1 = (fold il_body ps' ?s1)\<lparr>il_inData := rest, iState := IL_IDLE\<rparr>"
    by (rule il_rest) (use s1 ps(2) p in \<open>simp_all add: packet_of_def\<close>)
  ultimately have "(ht_inputLogic ^^ length ps) s = (fold il_body ?tail ?s2)\<lparr>il_inData := rest, iState := IL_IDLE\<rparr>" by (simp add: p(1) funpow_swap1)
  with ws il_tail [OF ws(7), of ?tail] show ?thesis by (auto simp: sent_on_def)
qed

section \<open>Keys of the table\<close>

lemma gathered_key_words: "gathered d k i ws \<Longrightarrow> key_words (drop i k) ws \<and> eop_last ws"
proof (induction ws arbitrary: d i)
  case (Cons w ws)
  have i: "i < length k" and o: "overlaid d k i (i + 16) (hw_data w)" using Cons.prems by simp_all
  have "agrees (hw_data w) k i" using o by (auto simp: agrees_def overlaid_def)
  then have a: "agrees (hw_data w) (drop i k) 0" using agrees_drop [of i k "hw_data w" 0] i by simp
  show ?case
  proof (cases "i + 16 < length k")
    case True
    with Cons.prems have "hw_EOP w = 0" "gathered (hw_data w) k (i + 16) ws" by simp_all
    with Cons.IH have "key_words (drop (i + 16) k) ws \<and> eop_last ws" "hw_EOP w = 0" by blast+
    with True a show ?thesis using key_words_Cons [of "drop i k" w ws] by (cases ws) (auto simp: add.commute)
  next
    case False
    with Cons.prems a i show ?thesis using key_words_one [of "drop i k" "w # ws"] by auto
  qed
qed simp

text \<open>With the same buffer before it, or with a whole word of the key before it, the words are the same.\<close>

lemma overlaid_unique: "overlaid d k i e x \<Longrightarrow> overlaid d k i e y \<Longrightarrow> x = y"
  by (rule bit_word_eqI) (simp add: overlaid_def)

lemma gathered_unique: "gathered d k i ws \<Longrightarrow> gathered d k i ws' \<Longrightarrow> map hw_data ws = map hw_data ws'"
proof (induction ws arbitrary: d i ws')
  case (Cons w ws)
  then obtain w' vs where w': "ws' = w' # vs" by (cases ws') auto
  with Cons.prems have "hw_data w = hw_data w'" by (auto intro: overlaid_unique)
  with Cons.prems w' Cons.IH [of "hw_data w" "i + 16" vs] show ?case by (auto split: if_splits)
qed simp

lemma reset_high_agree:
  assumes "overlaid d k 0 16 x" and "overlaid d' k 0 16 y" and "0 < length k" "length k \<le> 16"
  shows "reset_high (of_nat (length k)) x = reset_high (of_nat (length k)) y"
proof -
  have len: "(of_nat (length k) :: 8 word) \<le> 16" "unat (of_nat (length k) :: 8 word) = length k"
    using assms(4) by (simp_all add: word_le_nat_alt unat_of_nat take_bit_nat_eq_self)
  show ?thesis
  proof (rule bit_word_eqI)
    fix n assume n: "n < LENGTH(128)"
    have "n \<le> length k * 8 - 1 \<longleftrightarrow> n div 8 < length k" using assms(3) by linarith
    then show "bit (reset_high (of_nat (length k)) x) n = bit (reset_high (of_nat (length k)) y) n"
      using n assms(1,2) len by (auto simp: reset_high_def bit_simps overlaid_def)
  qed
qed

lemma gathered_key:
  assumes "gathered d k 0 ws" and "gathered d' k 0 ws'" and "im_keyLength md = of_nat (length k)" and "im_keyLength md' = of_nat (length k)" and "length k < 256"
  shows "request_key (md, ws) = request_key (md', ws')"
proof -
  from assms(1,2) obtain w vs w' vs' where w: "ws = w # vs" "ws' = w' # vs'" by (cases ws; cases ws') auto
  show ?thesis
  proof (cases "length k \<le> 16")
    case True
    with assms(1,2) w have "vs = []" "vs' = []" "overlaid d k 0 16 (hw_data w)" "overlaid d' k 0 16 (hw_data w')" "0 < length k" by simp_all
    with reset_high_agree [of d k "hw_data w" d' "hw_data w'"] True w assms(3,4) show ?thesis by (simp add: request_key_def)
  next
    case False
    then have big: "\<not> (of_nat (length k) :: 8 word) \<le> 16" using assms(5) by (simp add: word_le_nat_alt unat_of_nat take_bit_nat_eq_self)
    have "overlaid d k 0 16 (hw_data w)" "overlaid d' k 0 16 (hw_data w')" using assms(1,2) w by simp_all
    then have "hw_data w = hw_data w'" using False by (intro bit_word_eqI) (auto simp: overlaid_def)
    moreover from this False assms(1,2) w have "gathered (hw_data w) k 16 vs" "gathered (hw_data w) k 16 vs'" by simp_all
    ultimately show ?thesis using gathered_unique [of "hw_data w" k 16 vs vs'] w big assms(3,4) by (simp add: request_key_def reset_high_def)
  qed
qed

lemma agrees_masked:
  assumes "agrees (hw_data (ws ! j)) k (16 * j)" and "j < length ws" and "im_keyLength md = of_nat (length k)" and "0 < length k" "length k < 256"
  shows "agrees (hw_data (mask_key md ws ! j)) k (16 * j)"
proof (cases "j = 0")
  case True
  obtain w vs where w: "ws = w # vs" using assms(2) by (cases ws) auto
  have u: "unat (of_nat (length k) :: 8 word) = length k" using assms(5) by (simp add: unat_of_nat take_bit_nat_eq_self)
  have "agrees (reset_high (of_nat (length k)) (hw_data w)) k 0"
  proof (rule agreesI)
    fix n assume n: "n < LENGTH(128)" "0 + n div 8 < length k"
    then have "bit (hw_data w) n = key_bit k 0 n" using assms(1) True w by (intro agreesD) simp_all
    moreover have "n \<le> length k * 8 - 1" using n(2) assms(4) by linarith
    ultimately show "bit (reset_high (of_nat (length k)) (hw_data w)) n = key_bit k 0 n" using n(1) by (simp add: reset_high_def u bit_simps)
  qed
  then show ?thesis using True w assms(3) by simp
next
  case False
  then have "mask_key md ws ! j = ws ! j" by (cases ws) (auto simp: nth_Cons')
  then show ?thesis using assms(1) by simp
qed

lemma agrees_same:
  assumes "\<And>j. j < (length k + 15) div 16 \<Longrightarrow> agrees (ds ! j :: 128 word) k (16 * j) \<and> agrees (ds ! j) k' (16 * j)" and "length k = length k'"
  shows "k = k'"
proof (rule nth_equalityI)
  fix p assume p: "p < length k"
  let ?j = "p div 16"
  have j: "?j < (length k + 15) div 16" using p by linarith
  have "16 * ?j + (8 * (p mod 16) + n) div 8 = p" "(8 * (p mod 16) + n) mod 8 = n" if "n < 8" for n using that by simp_all
  then have byte: "key_bit x (16 * ?j) (8 * (p mod 16) + n) = bit (x ! p) n" if "n < 8" for n x using that by (simp add: key_bit_def)
  show "k ! p = k' ! p"
  proof (rule bit_word_eqI)
    fix n assume "n < LENGTH(8)"
    then have n: "n < 8" by simp
    then have m: "8 * (p mod 16) + n < LENGTH(128)" using mod_less_divisor [of 16 p] by simp
    have "bit (ds ! ?j) (8 * (p mod 16) + n) = key_bit k (16 * ?j) (8 * (p mod 16) + n)" by (rule agreesD) (use assms(1) [OF j] m n p in simp_all)
    moreover have "bit (ds ! ?j) (8 * (p mod 16) + n) = key_bit k' (16 * ?j) (8 * (p mod 16) + n)" by (rule agreesD) (use assms(1) [OF j] assms(2) m n p in simp_all)
    ultimately show "bit (k ! p) n = bit (k' ! p) n" using byte [OF n] by simp
  qed
qed (rule assms(2))

lemma request_key_inj:
  assumes "key_words k ws" and "key_words k' ws'" and "im_keyLength md = of_nat (length k)" and "im_keyLength md' = of_nat (length k')"
    and "0 < length k" "length k < 256" "0 < length k'" "length k' < 256" and eq: "request_key (md, ws) = request_key (md', ws')"
  shows "k = k'"
proof (rule agrees_same [of k "map hw_data (mask_key md ws)"])
  have "(of_nat (length k) :: 8 word) = of_nat (length k')" using eq assms(3,4) by (simp add: request_key_def)
  then show len: "length k = length k'" using of_nat_8(3) [OF assms(6)] of_nat_8(3) [OF assms(8)] by metis
  fix j assume j: "j < (length k + 15) div 16"
  have l: "j < length ws" "j < length ws'" using assms(1,2) j len by (simp_all add: key_words_def)
  have "agrees (hw_data (mask_key md ws ! j)) k (16 * j)" by (rule agrees_masked [OF _ l(1) assms(3,5,6)]) (use assms(1) l in \<open>simp add: key_words_def\<close>)
  moreover have "agrees (hw_data (mask_key md' ws' ! j)) k' (16 * j)" by (rule agrees_masked [OF _ l(2) assms(4,7,8)]) (use assms(2) l in \<open>simp add: key_words_def\<close>)
  moreover have "map hw_data (mask_key md ws) ! j = map hw_data (mask_key md' ws') ! j" using eq by (simp add: request_key_def)
  ultimately show "agrees (map hw_data (mask_key md ws) ! j) k (16 * j) \<and> agrees (map hw_data (mask_key md ws) ! j) k' (16 * j)" using l by simp
qed

text \<open>The request that a run of the input logic gives: it ends idle with the words of the request taken, and words and metadata have gone to the hash unit and the table.\<close>

definition input_gives :: "input_st \<Rightarrow> pipelineWord list \<Rightarrow> pipelineWord list \<Rightarrow> kv_request \<Rightarrow> bool" where
  "input_gives s ps rest r \<longleftrightarrow>
     (let s' = (ht_inputLogic ^^ length ps) s
      in iState s' = IL_IDLE \<and> il_inData s' = rest \<and> il_cc s' = il_cc s @ snd r \<and> il_hash s' = il_hash s @ snd r \<and> il_ccMd s' = il_ccMd s @ [fst r] \<and>
         il_hashKeyLength s' = il_hashKeyLength s @ [im_keyLength (fst r)])"

lemma input_request:
  assumes "iState s = IL_IDLE" and "il_inData s = ps @ rest" "packet_of k op vl ps" and op: "op \<in> {0, 1, 4}" and k: "0 < length k" "length k \<le> 112"
  shows "\<exists>md ws. input_gives s ps rest (md, ws) \<and> gathered (hw_data (bufferWord s)) k 0 ws \<and> request_ok (md, ws) \<and> im_operation md = op \<and> im_valueLength md = vl \<and>
    im_keyLength md = of_nat (length k) \<and> key_words k ws"
proof -
  let ?md = "(bufferWordMd s)\<lparr>im_operation := op, im_valueLength := vl, im_keyLength := of_nat (length k)\<rparr>"
  have len: "unat (of_nat (length k) :: 8 word) = length k" using k(2) by (simp add: unat_of_nat take_bit_nat_eq_self)
  have "op \<noteq> 8" "length k < 256" using op k(2) by auto
  from il_request [OF assms(1-3) this(1) k(1) this(2) refl] obtain s' ws where
    ws: "(ht_inputLogic ^^ length ps) s = s'" "iState s' = IL_IDLE" "il_inData s' = rest" "gathered (hw_data (bufferWord s)) k 0 ws" "il_cc s' = il_cc s @ ws" "il_hash s' = il_hash s @ ws"
      "il_ccMd s' = il_ccMd s @ [?md]" "il_hashKeyLength s' = il_hashKeyLength s @ [of_nat (length k)]" by blast
  have kw: "key_words k ws" "eop_last ws" using gathered_key_words [OF ws(4)] by simp_all
  then have "request_ok (?md, ws)" using op k len by (simp add: request_ok_def key_words_def key_rows_def)
  moreover have "input_gives s ps rest (?md, ws)" using ws by (simp add: input_gives_def Let_def)
  ultimately show ?thesis using ws(4) kw(1) by (intro exI [of _ ?md] exI [of _ ws]) simp
qed

text \<open>Keys are told apart, and nothing else. However the buffer of the input logic is filled by earlier requests, a request for a key of 1 to 112 bytes reaches the hash unit as
  exactly its bytes and the table as a request that it serves; and two requests, at any two times, are for the same key of the table exactly if their keys have the same bytes.\<close>

theorem input_keys:
  assumes "iState s1 = IL_IDLE" and "il_inData s1 = ps1 @ rest1" and "packet_of k1 op1 vl1 ps1" and "op1 \<in> {0, 1, 4}" and "0 < length k1" and "length k1 \<le> 112"
    and "iState s2 = IL_IDLE" and "il_inData s2 = ps2 @ rest2" and "packet_of k2 op2 vl2 ps2" and "op2 \<in> {0, 1, 4}" and "0 < length k2" and "length k2 \<le> 112"
  shows "\<exists>r1 r2. input_gives s1 ps1 rest1 r1 \<and> input_gives s2 ps2 rest2 r2 \<and> request_ok r1 \<and> request_ok r2 \<and> key_words k1 (snd r1) \<and> key_words k2 (snd r2) \<and>
    (request_key r1 = request_key r2 \<longleftrightarrow> k1 = k2)"
proof -
  from input_request [OF assms(1-6)] obtain md1 ws1 where 1: "input_gives s1 ps1 rest1 (md1, ws1)" "gathered (hw_data (bufferWord s1)) k1 0 ws1" "request_ok (md1, ws1)"
    "im_keyLength md1 = of_nat (length k1)" "key_words k1 ws1" by blast
  from input_request [OF assms(7-12)] obtain md2 ws2 where 2: "input_gives s2 ps2 rest2 (md2, ws2)" "gathered (hw_data (bufferWord s2)) k2 0 ws2" "request_ok (md2, ws2)"
    "im_keyLength md2 = of_nat (length k2)" "key_words k2 ws2" by blast
  have "request_key (md1, ws1) = request_key (md2, ws2) \<longleftrightarrow> k1 = k2"
    using gathered_key [OF 1(2) _ 1(4), of _ ws2 md2] 2(2,4) request_key_inj [OF 1(5) 2(5) 1(4) 2(4)] assms(5,6,11,12) by auto
  with 1 2 show ?thesis by (intro exI [of _ "(md1, ws1)"] exI [of _ "(md2, ws2)"]) simp
qed

text \<open>A SET of a key of one byte, and the input logic with \<open>d\<close> left in its buffer.\<close>

definition byte_md :: "124 word" where
  "byte_md = range_set (range_set (range_set 0 111 104 (1 :: 8 word)) 39 8 (5 :: 32 word)) 7 0 (1 :: 8 word)"

definition byte_packet :: "8 word \<Rightarrow> pipelineWord list" where
  "byte_packet x = [pw_zero\<lparr>pw_metadata := byte_md, pw_SOP := 1, pw_keyValid := 1, pw_key := ucast x\<rparr>, pw_zero\<lparr>pw_valueValid := 1, pw_EOP := 1\<rparr>]"

definition input_start :: "128 word \<Rightarrow> pipelineWord list \<Rightarrow> input_st" where
  "input_start d ps = \<lparr>il_inData = ps, in2key = [], in2value = [], in2md = [], il_hash = [], il_hashKeyLength = [], il_cc = [], il_ccMd = [], iState = IL_IDLE,
     bufferWord = \<lparr>hw_data = d, hw_SOP = 0, hw_EOP = 0\<rparr>, bufferWordMd = \<lparr>im_operation = 0, im_metadata = 0, im_keyLength = 0, im_valueLength = 0\<rparr>,
     il_wordCounter = 0, keyWordCounter = 0, il_keyLength = 0\<rparr>"

lemma byte_packet_of: "packet_of [x] 1 5 (byte_packet x)"
proof -
  have "agrees (ucast x :: 64 word) [x] 0" by (auto simp: agrees_def key_bit_def bit_simps)
  moreover have "range_get byte_md 111 104 = (1 :: 8 word)" "range_get byte_md 39 8 = (5 :: 32 word)" "range_get byte_md 7 0 = (1 :: 8 word)"
    unfolding byte_md_def by (simp_all add: range_get_set range_get_set_other)
  ultimately show ?thesis by (simp add: packet_of_def byte_packet_def pw_zero_def)
qed

theorem input_keys_witness:
  "\<exists>r1 r2. input_gives (input_start 0 (byte_packet 0x61)) (byte_packet 0x61) [] r1 \<and> input_gives (input_start (-1) (byte_packet 0x61)) (byte_packet 0x61) [] r2 \<and>
     request_ok r1 \<and> request_ok r2 \<and> request_key r1 = request_key r2"
proof -
  have s: "iState (input_start d (byte_packet x)) = IL_IDLE" "il_inData (input_start d (byte_packet x)) = byte_packet x @ []" for d x by (simp_all add: input_start_def)
  have k: "0 < length [0x61 :: 8 word]" "length [0x61 :: 8 word] \<le> 112" "(1 :: 8 word) \<in> {0, 1, 4}" by simp_all
  from input_keys [OF s byte_packet_of k(3,1,2) s byte_packet_of k(3,1,2), of 0 "-1"] show ?thesis
    by (elim exE conjE) (rule exI conjI | assumption | erule iffD2 [OF _ refl])+
qed

end
