(* ===== verification/Mc_Output.thy ===== *)
theory Mc_Output
  imports Mc_Input
begin

unbundle bit_operations_syntax

text \<open>
  The output logic of the key-value store's hash table (\<^verbatim>\<open>hashTableWithBuddy.cpp\<close>), which joins the result of a request with the key and the value that were put aside for it.
\<close>

section \<open>Output logic\<close>

datatype oState = OL_IDLE | OL_W1 | OL_MD | OL_REST

record output_st =
  ol_memWr2out :: "decideResultWord stream"
  key2out :: "64 word stream"
  value2out :: "64 word stream"
  md2out :: "128 word stream"
  ol_outData :: "pipelineWord stream"
  olState :: oState
  ol_addressWord :: decideResultWord
  ol_metadataWord :: "128 word"
  ol_keyLength :: "8 word"
  ol_valueLength :: "16 word"

definition less_8 :: "'a::len word \<Rightarrow> 'a word" where
  "less_8 x = (if x > 8 then x - 8 else 0)"

definition key_there :: "output_st \<Rightarrow> bool" where
  "key_there s \<longleftrightarrow> (ol_keyLength s > 0 \<longrightarrow> key2out s \<noteq> [])"

definition value_there :: "output_st \<Rightarrow> bool" where
  "value_there s \<longleftrightarrow> (ol_valueLength s > 0 \<longrightarrow> value2out s \<noteq> [])"

text \<open>The next words of key and value, if any are due.\<close>

definition take_key :: "output_st \<Rightarrow> pipelineWord \<Rightarrow> output_st \<times> pipelineWord" where
  "take_key s w = (if ol_keyLength s > 0 then (s\<lparr>key2out := tl (key2out s), ol_keyLength := less_8 (ol_keyLength s)\<rparr>, w\<lparr>pw_key := hd (key2out s)\<rparr>) else (s, w))"

definition take_value :: "output_st \<Rightarrow> pipelineWord \<Rightarrow> output_st \<times> pipelineWord" where
  "take_value s w = (s\<lparr>value2out := tl (value2out s), ol_valueLength := less_8 (ol_valueLength s)\<rparr>, w\<lparr>pw_value := hd (value2out s)\<rparr>)"

definition ol_rest :: "oState \<Rightarrow> output_st \<Rightarrow> pipelineWord \<Rightarrow> output_st" where
  "ol_rest more_state s w =
     (let w = (if ol_keyLength s > 0 then w\<lparr>pw_keyValid := 1\<rparr> else w); (s, w) = take_key s w;
          (s, w) = (if ol_valueLength s > 0 then take_value s (w\<lparr>pw_valueValid := 1\<rparr>) else (s, w));
          (s, w) = (if ol_valueLength s = 0 \<and> ol_keyLength s = 0 then (s\<lparr>olState := OL_IDLE\<rparr>, w\<lparr>pw_EOP := 1\<rparr>) else (s\<lparr>olState := more_state\<rparr>, w))
      in s\<lparr>ol_outData := swrite (ol_outData s) w\<rparr>)"

definition ol_first :: "output_st \<Rightarrow> output_st" where
  "ol_first s =
     (let md = ol_metadataWord s; r = ol_addressWord s; b1 = (\<lambda>i. if bit md i then 1 else 0);
          m = range_set (0 :: 124 word) 103 72 (dr_address r);
          m = range_set m 123 104 (range_get md 123 104 :: 20 word);
          m = bit_put m 112 (dr_status r = 1);
          w = pw_zero\<lparr>pw_SOP := b1 124, pw_keyValid := b1 125, pw_valueValid := b1 126, pw_EOP := b1 127\<rparr>;
          (s, w) = (if dr_operation r \<noteq> 1 then (s\<lparr>ol_metadataWord := range_set md 23 8 (dr_valueLength r)\<rparr>, w)
                    else take_value (s\<lparr>ol_valueLength := range_get md 23 8\<rparr>) w);
          (s, w) = take_key s w;
          w = w\<lparr>pw_metadata := range_set m 71 0 (range_get (ol_metadataWord s) 71 0 :: 72 word)\<rparr>
      in s\<lparr>ol_outData := swrite (ol_outData s) w, olState := OL_MD\<rparr>)"

definition ht_outputLogic :: "output_st \<Rightarrow> output_st" where
  "ht_outputLogic s =
     (case olState s of
        OL_IDLE \<Rightarrow>
          (case (ol_memWr2out s, md2out s) of
             (r # rs, md # mds) \<Rightarrow>
               (let s = s\<lparr>ol_memWr2out := rs, md2out := mds, ol_addressWord := r, ol_metadataWord := md, ol_keyLength := range_get md 7 0\<rparr>
                in if key_there s \<and> (dr_operation r = 1 \<longrightarrow> value2out s \<noteq> []) then ol_first s else s)
           | _ \<Rightarrow> s)
      | OL_W1 \<Rightarrow> s
      | OL_MD \<Rightarrow>
          (case md2out s of
             [] \<Rightarrow> s
           | md # mds \<Rightarrow>
               if key_there s \<and> value_there s then ol_rest OL_REST (s\<lparr>md2out := mds, ol_metadataWord := md\<rparr>) (pw_zero\<lparr>pw_metadata := range_get md 123 0\<rparr>) else s)
      | OL_REST \<Rightarrow> (if key_there s \<and> value_there s then ol_rest OL_REST s pw_zero else s))"

section \<open>The words of a reply\<close>

lemma less_8_nat: "unat (8 :: 'a::len word) = 8 \<Longrightarrow> unat (less_8 (x :: 'a word)) = unat x - 8"
  by (auto simp: less_8_def word_less_nat_alt word_le_nat_alt unat_sub)

definition units :: "'a::len word \<Rightarrow> nat" where
  "units x = (unat x + 7) div 8"

lemma units_zero: "units x = 0 \<longleftrightarrow> x = 0"
  unfolding units_def unat_eq_0 [symmetric] by linarith

lemma units_less_8:
  assumes "unat (8 :: 'a::len word) = 8"
  shows "units (less_8 (x :: 'a word)) = units x - 1" "less_8 x = 0 \<longleftrightarrow> units x \<le> 1"
proof -
  show "units (less_8 x) = units x - 1" unfolding units_def less_8_nat [OF assms] by linarith
  show "less_8 x = 0 \<longleftrightarrow> units x \<le> 1" unfolding unat_eq_0 [symmetric] less_8_nat [OF assms] units_def by linarith
qed

text \<open>Words that carry the rest of a key and of a value, the last one marked.\<close>

definition reply_rest :: "64 word list \<Rightarrow> 64 word list \<Rightarrow> pipelineWord list \<Rightarrow> bool" where
  "reply_rest ks vs ws \<longleftrightarrow> ws \<noteq> [] \<and> map pw_key (filter (\<lambda>w. pw_keyValid w = 1) ws) = ks \<and> map pw_value (filter (\<lambda>w. pw_valueValid w = 1) ws) = vs \<and>
     pw_EOP (last ws) = 1 \<and> list_all (\<lambda>w. pw_EOP w = 0) (butlast ws)"

lemma reply_rest_Cons:
  assumes "reply_rest ks vs ws" and "pw_EOP w = 0"
  shows "reply_rest (if pw_keyValid w = 1 then pw_key w # ks else ks) (if pw_valueValid w = 1 then pw_value w # vs else vs) (w # ws)"
  using assms by (auto simp: reply_rest_def)

text \<open>One word after the first.\<close>

definition rest_word :: "pipelineWord \<Rightarrow> 64 word list \<Rightarrow> 64 word list \<Rightarrow> pipelineWord" where
  "rest_word w ks vs =
     w\<lparr>pw_keyValid := if ks = [] then 0 else 1, pw_key := if ks = [] then 0 else hd ks, pw_valueValid := if vs = [] then 0 else 1, pw_value := if vs = [] then 0 else hd vs,
       pw_EOP := if length ks \<le> 1 \<and> length vs \<le> 1 then 1 else 0\<rparr>"

lemma ol_rest_step:
  assumes "key2out s = ks @ kr" and "length ks = units (ol_keyLength s)" and "value2out s = vs @ vr" and "length vs = units (ol_valueLength s)"
    and "w = pw_zero\<lparr>pw_metadata := m\<rparr>"
  shows "ol_rest OL_REST s w = s\<lparr>key2out := tl ks @ kr, ol_keyLength := less_8 (ol_keyLength s), value2out := tl vs @ vr, ol_valueLength := less_8 (ol_valueLength s),
    olState := if length ks \<le> 1 \<and> length vs \<le> 1 then OL_IDLE else OL_REST, ol_outData := ol_outData s @ [rest_word w ks vs]\<rparr>"
proof -
  have z: "less_8 (0 :: 8 word) = 0" "less_8 (0 :: 16 word) = 0" by (simp_all add: less_8_def)
  have k: "0 < ol_keyLength s \<longleftrightarrow> ks \<noteq> []" "less_8 (ol_keyLength s) = 0 \<longleftrightarrow> length ks \<le> 1"
    using assms(2) units_zero [of "ol_keyLength s"] units_less_8(2) [of "ol_keyLength s"] by (auto simp: word_gt_0)
  have v: "0 < ol_valueLength s \<longleftrightarrow> vs \<noteq> []" "less_8 (ol_valueLength s) = 0 \<longleftrightarrow> length vs \<le> 1"
    using assms(4) units_zero [of "ol_valueLength s"] units_less_8(2) [of "ol_valueLength s"] by (auto simp: word_gt_0)
  have e: "ks = [] \<Longrightarrow> ol_keyLength s = 0" "vs = [] \<Longrightarrow> ol_valueLength s = 0" using k(1) v(1) by (auto simp: word_gt_0)
  show ?thesis
    by (cases "ks = []"; cases "vs = []")
      (simp_all add: ol_rest_def take_key_def take_value_def k v e z assms(1,3,5) rest_word_def pw_zero_def swrite_def Let_def)
qed

text \<open>What is left in the queues after a reply.\<close>

definition queues :: "output_st \<Rightarrow> decideResultWord list \<times> 128 word list \<times> 64 word list \<times> 64 word list" where
  "queues s = (ol_memWr2out s, md2out s, key2out s, value2out s)"

lemma rest_word_reply:
  "reply_rest ks' vs' ws \<Longrightarrow> ks' = tl ks \<Longrightarrow> vs' = tl vs \<Longrightarrow> \<not> (length ks \<le> 1 \<and> length vs \<le> 1) \<Longrightarrow> reply_rest ks vs (rest_word w ks vs # ws)"
  "length ks \<le> 1 \<Longrightarrow> length vs \<le> 1 \<Longrightarrow> reply_rest ks vs [rest_word w ks vs]"
proof -
  assume a: "reply_rest ks' vs' ws" "ks' = tl ks" "vs' = tl vs" "\<not> (length ks \<le> 1 \<and> length vs \<le> 1)"
  have e: "pw_EOP (rest_word w ks vs) = 0" using a(4) by (simp add: rest_word_def)
  show "reply_rest ks vs (rest_word w ks vs # ws)"
    using reply_rest_Cons [OF a(1) e] a(2,3) by (cases ks; cases vs) (simp_all add: rest_word_def)
next
  show "length ks \<le> 1 \<Longrightarrow> length vs \<le> 1 \<Longrightarrow> reply_rest ks vs [rest_word w ks vs]"
    by (cases ks; cases vs) (simp_all add: reply_rest_def rest_word_def)
qed

lemma ol_rest_words:
  "olState s = OL_REST \<Longrightarrow> key2out s = ks @ kr \<Longrightarrow> length ks = units (ol_keyLength s) \<Longrightarrow> value2out s = vs @ vr \<Longrightarrow> length vs = units (ol_valueLength s) \<Longrightarrow>
     \<exists>ws s'. (ht_outputLogic ^^ length ws) s = s' \<and> reply_rest ks vs ws \<and> olState s' = OL_IDLE \<and> queues s' = (ol_memWr2out s, md2out s, kr, vr) \<and>
       ol_outData s' = ol_outData s @ ws \<and> ol_valueLength s' = 0"
proof (induction "length ks + length vs" arbitrary: s ks vs rule: less_induct)
  case less
  have kl: "0 < ol_keyLength s \<longrightarrow> ks \<noteq> []" using less.prems(3) units_zero [of "ol_keyLength s"] by (auto simp: word_gt_0)
  have vl: "0 < ol_valueLength s \<longrightarrow> vs \<noteq> []" using less.prems(5) units_zero [of "ol_valueLength s"] by (auto simp: word_gt_0)
  let ?w = "rest_word pw_zero ks vs"
  have one: "ht_outputLogic s = s\<lparr>key2out := tl ks @ kr, ol_keyLength := less_8 (ol_keyLength s), value2out := tl vs @ vr, ol_valueLength := less_8 (ol_valueLength s),
    olState := if length ks \<le> 1 \<and> length vs \<le> 1 then OL_IDLE else OL_REST, ol_outData := ol_outData s @ [?w]\<rparr>"
    using less.prems(1,2,4) kl vl ol_rest_step [OF less.prems(2-5), of pw_zero 0] by (simp add: ht_outputLogic_def key_there_def value_there_def pw_zero_def)
  show ?case
  proof (cases "length ks \<le> 1 \<and> length vs \<le> 1")
    case True
    then have "tl ks = []" "tl vs = []" by (cases ks; cases vs; simp)+
    moreover have "less_8 (ol_valueLength s) = 0" using True less.prems(5) units_less_8(2) [of "ol_valueLength s"] by simp
    ultimately show ?thesis using one True rest_word_reply(2) [of ks vs pw_zero] by (intro exI [of _ "[?w]"]) (simp add: queues_def)
  next
    case False
    let ?s = "ht_outputLogic s"
    have "length (tl ks) = units (ol_keyLength ?s)" "length (tl vs) = units (ol_valueLength ?s)" "olState ?s = OL_REST" "key2out ?s = tl ks @ kr" "value2out ?s = tl vs @ vr"
      using less.prems(3,5) units_less_8(1) [of "ol_keyLength s"] units_less_8(1) [of "ol_valueLength s"] False by (simp_all add: one)
    moreover have "length (tl ks) + length (tl vs) < length ks + length vs" using False by (cases ks; cases vs) auto
    ultimately obtain ws s' where ws: "(ht_outputLogic ^^ length ws) ?s = s'" "reply_rest (tl ks) (tl vs) ws" "olState s' = OL_IDLE" "queues s' = (ol_memWr2out ?s, md2out ?s, kr, vr)"
      "ol_outData s' = ol_outData ?s @ ws" "ol_valueLength s' = 0" using less.hyps [of "tl ks" "tl vs" ?s] by blast
    from ws rest_word_reply(1) [OF ws(2) refl refl False, of pw_zero] show ?thesis
      by (intro exI [of _ "?w # ws"]) (simp add: funpow_swap1, simp add: one)
  qed
qed

text \<open>The first word: the result in the metadata, with the first words of key and value.\<close>

lemma ol_first_step:
  assumes "olState s = OL_IDLE" and "ol_memWr2out s = r # rs" and "md2out s = m0 # mds" and "key2out s = k # kr" and "range_get m0 7 0 \<noteq> (0 :: 8 word)"
    and "dr_operation r = 1 \<longrightarrow> value2out s = v # vr" and "dr_operation r \<noteq> 1 \<longrightarrow> value2out s = vr \<and> ol_valueLength s = 0"
    and "bit m0 124" "bit m0 125" "bit m0 126 = (dr_operation r = 1)" "\<not> bit m0 127"
  shows "\<exists>w s'. ht_outputLogic s = s' \<and> olState s' = OL_MD \<and> queues s' = (rs, mds, kr, vr) \<and> ol_outData s' = ol_outData s @ [w] \<and>
    ol_keyLength s' = less_8 (range_get m0 7 0) \<and> ol_valueLength s' = (if dr_operation r = 1 then less_8 (range_get m0 23 8) else 0) \<and>
    pw_SOP w = 1 \<and> pw_EOP w = 0 \<and> pw_keyValid w = 1 \<and> pw_key w = k \<and> (pw_valueValid w = 1 \<longleftrightarrow> dr_operation r = 1) \<and> (dr_operation r = 1 \<longrightarrow> pw_value w = v) \<and>
    range_get (pw_metadata w) 103 72 = dr_address r \<and> bit (pw_metadata w) 112 = (dr_status r = 1) \<and>
    range_get (pw_metadata w) 23 8 = (if dr_operation r = 1 then range_get m0 23 8 else dr_valueLength r)"
proof -
  have pos: "0 < (range_get m0 7 0 :: 8 word)" using assms(5) by (simp add: word_gt_0)
  have md: "range_get (range_set (bit_put (range_set (range_set (0 :: 124 word) 103 72 (dr_address r)) 123 104 x) 112 b) 71 0 (y :: 72 word)) 103 72 = dr_address r"
    "bit (range_set (bit_put (range_set (range_set (0 :: 124 word) 103 72 (dr_address r)) 123 104 x) 112 b) 71 0 (y :: 72 word)) 112 = b"
    "range_get (range_set z 71 0 (range_get (m :: 128 word) 71 0 :: 72 word)) 23 8 = (range_get m 23 8 :: 16 word)" for x :: "20 word" and b y and z :: "124 word" and m
    by (simp_all add: range_get_set range_get_set_other range_get_bit_put bit_simps) (rule bit_word_eqI, auto simp: bit_simps)
  have vl: "range_get (range_set m0 23 8 (dr_valueLength r)) 23 8 = dr_valueLength r" by (simp add: range_get_set)
  show ?thesis
    using assms pos
    by (cases "dr_operation r = 1")
      (simp_all add: ht_outputLogic_def key_there_def ol_first_def take_key_def take_value_def pw_zero_def queues_def swrite_def md vl Let_def)
qed

lemma ol_md_words:
  assumes "olState s = OL_MD" and "md2out s = m1 # mds" and "key2out s = ks @ kr" and "length ks = units (ol_keyLength s)" and "value2out s = vs @ vr"
    and "length vs = units (ol_valueLength s)"
  shows "\<exists>ws s'. (ht_outputLogic ^^ length ws) s = s' \<and> reply_rest ks vs ws \<and> olState s' = OL_IDLE \<and> queues s' = (ol_memWr2out s, mds, kr, vr) \<and>
    ol_outData s' = ol_outData s @ ws \<and> ol_valueLength s' = 0"
proof -
  have kl: "0 < ol_keyLength s \<longrightarrow> ks \<noteq> []" using assms(4) units_zero [of "ol_keyLength s"] by (auto simp: word_gt_0)
  have vl: "0 < ol_valueLength s \<longrightarrow> vs \<noteq> []" using assms(6) units_zero [of "ol_valueLength s"] by (auto simp: word_gt_0)
  let ?t = "s\<lparr>md2out := mds, ol_metadataWord := m1\<rparr>" and ?p = "pw_zero\<lparr>pw_metadata := range_get m1 123 0\<rparr>"
  let ?w = "rest_word ?p ks vs"
  have "ol_rest OL_REST ?t ?p = ?t\<lparr>key2out := tl ks @ kr, ol_keyLength := less_8 (ol_keyLength ?t), value2out := tl vs @ vr, ol_valueLength := less_8 (ol_valueLength ?t),
    olState := if length ks \<le> 1 \<and> length vs \<le> 1 then OL_IDLE else OL_REST, ol_outData := ol_outData ?t @ [?w]\<rparr>"
    by (rule ol_rest_step) (use assms in simp_all)
  then have one: "ht_outputLogic s = ?t\<lparr>key2out := tl ks @ kr, ol_keyLength := less_8 (ol_keyLength s), value2out := tl vs @ vr, ol_valueLength := less_8 (ol_valueLength s),
    olState := if length ks \<le> 1 \<and> length vs \<le> 1 then OL_IDLE else OL_REST, ol_outData := ol_outData s @ [?w]\<rparr>"
    using assms(1,2,3,5) kl vl by (simp add: ht_outputLogic_def key_there_def value_there_def)
  show ?thesis
  proof (cases "length ks \<le> 1 \<and> length vs \<le> 1")
    case True
    then have "tl ks = []" "tl vs = []" by (cases ks; cases vs; simp)+
    moreover have "less_8 (ol_valueLength s) = 0" using True assms(6) units_less_8(2) [of "ol_valueLength s"] by simp
    ultimately show ?thesis using one True rest_word_reply(2) [of ks vs ?p] by (intro exI [of _ "[?w]"]) (simp add: queues_def)
  next
    case False
    let ?s = "ht_outputLogic s"
    have "length (tl ks) = units (ol_keyLength ?s)" "length (tl vs) = units (ol_valueLength ?s)" "olState ?s = OL_REST" "key2out ?s = tl ks @ kr" "value2out ?s = tl vs @ vr"
      using assms(4,6) units_less_8(1) [of "ol_keyLength s"] units_less_8(1) [of "ol_valueLength s"] False by (simp_all add: one)
    then obtain ws s' where ws: "(ht_outputLogic ^^ length ws) ?s = s'" "reply_rest (tl ks) (tl vs) ws" "olState s' = OL_IDLE" "queues s' = (ol_memWr2out ?s, md2out ?s, kr, vr)"
      "ol_outData s' = ol_outData ?s @ ws" "ol_valueLength s' = 0" using ol_rest_words [of ?s "tl ks" kr "tl vs" vr] by blast
    from ws rest_word_reply(1) [OF ws(2) refl refl False, of ?p] show ?thesis
      by (intro exI [of _ "?w # ws"]) (simp add: funpow_swap1, simp add: one)
  qed
qed

text \<open>A reply is complete. When the result, the two metadata words, the key and, for a SET, the value of a request are there, the output logic sends one packet: its first
  word is marked as the start and has the address, the status and the length of the value in its metadata, the valid words carry exactly the words of the key and of the value in
  order, the last word and no other is marked as the end; nothing that belongs to later requests is taken.\<close>

theorem output_reply:
  assumes "olState s = OL_IDLE" and "ol_valueLength s = 0" and "ol_memWr2out s = r # rs" and "md2out s = m0 # m1 # mds"
    and "key2out s = ks @ kr" and "length ks = units (range_get m0 7 0 :: 8 word)" and "ks \<noteq> []"
    and "value2out s = vs @ vr" and "length vs = (if dr_operation r = 1 then units (range_get m0 23 8 :: 16 word) else 0)" and "dr_operation r = 1 \<longrightarrow> vs \<noteq> []"
    and "bit m0 124" and "bit m0 125" and "bit m0 126 = (dr_operation r = 1)" and "\<not> bit m0 127"
  shows "\<exists>w ws s'. (ht_outputLogic ^^ length (w # ws)) s = s' \<and> ol_outData s' = ol_outData s @ w # ws \<and> olState s' = OL_IDLE \<and> ol_valueLength s' = 0 \<and> queues s' = (rs, mds, kr, vr) \<and>
    reply_rest ks vs (w # ws) \<and> pw_SOP w = 1 \<and> range_get (pw_metadata w) 103 72 = dr_address r \<and> bit (pw_metadata w) 112 = (dr_status r = 1) \<and>
    range_get (pw_metadata w) 23 8 = (if dr_operation r = 1 then range_get m0 23 8 else dr_valueLength r)"
proof -
  obtain k ks' where k: "ks = k # ks'" using assms(7) by (cases ks) auto
  have len: "range_get m0 7 0 \<noteq> (0 :: 8 word)" using assms(6) k units_zero by (metis length_0_conv list.distinct(1))
  have v1: "dr_operation r = 1 \<longrightarrow> value2out s = hd vs # (tl vs @ vr)" using assms(8,10) by (cases vs) simp_all
  have "dr_operation r \<noteq> 1 \<longrightarrow> vs = []" using assms(9) by (simp split: if_splits)
  then have v2: "dr_operation r \<noteq> 1 \<longrightarrow> value2out s = tl vs @ vr \<and> ol_valueLength s = 0" using assms(2,8) by auto
  have "key2out s = k # (ks' @ kr)" using assms(5) k by simp
  from ol_first_step [OF assms(1,3,4) this len v1 v2 assms(11-14)] obtain w s1 where w: "ht_outputLogic s = s1" "olState s1 = OL_MD" "queues s1 = (rs, m1 # mds, ks' @ kr, tl vs @ vr)"
    "ol_outData s1 = ol_outData s @ [w]" "ol_keyLength s1 = less_8 (range_get m0 7 0)" "ol_valueLength s1 = (if dr_operation r = 1 then less_8 (range_get m0 23 8) else 0)"
    "pw_SOP w = 1" "pw_EOP w = 0" "pw_keyValid w = 1" "pw_key w = k" "pw_valueValid w = 1 \<longleftrightarrow> dr_operation r = 1" "dr_operation r = 1 \<longrightarrow> pw_value w = hd vs"
    "range_get (pw_metadata w) 103 72 = dr_address r" "bit (pw_metadata w) 112 = (dr_status r = 1)"
    "range_get (pw_metadata w) 23 8 = (if dr_operation r = 1 then range_get m0 23 8 else dr_valueLength r)" by (elim exE conjE) (rule that; assumption)
  have "length ks' = units (ol_keyLength s1)" "length (tl vs) = units (ol_valueLength s1)"
    using assms(6,9) k w(5,6) units_less_8(1) [of "range_get m0 7 0 :: 8 word"] units_less_8(1) [of "range_get m0 23 8 :: 16 word"] by (simp_all add: units_zero)
  with ol_md_words [OF w(2), of m1 mds ks' kr "tl vs" vr] w(3) obtain ws s' where ws: "(ht_outputLogic ^^ length ws) s1 = s'" "reply_rest ks' (tl vs) ws" "olState s' = OL_IDLE"
    "queues s' = (rs, mds, kr, vr)" "ol_outData s' = ol_outData s1 @ ws" "ol_valueLength s' = 0" by (auto simp: queues_def)
  have "reply_rest ks vs (w # ws)" using reply_rest_Cons [OF ws(2) w(8)] w(9-12) k assms(9,10) by (cases vs) (auto split: if_splits)
  with w ws show ?thesis by (intro exI [of _ w] exI [of _ ws] exI [of _ s']) (simp add: funpow_swap1)
qed

definition output_start :: "decideResultWord \<Rightarrow> 128 word \<Rightarrow> 64 word \<Rightarrow> output_st" where
  "output_start r m k = \<lparr>ol_memWr2out = [r], key2out = [k], value2out = [], md2out = [m, 0], ol_outData = [], olState = OL_IDLE,
     ol_addressWord = kv_ok 0 0 0, ol_metadataWord = 0, ol_keyLength = 0, ol_valueLength = 0\<rparr>"

theorem output_reply_witness:
  "\<exists>w ws s'. (ht_outputLogic ^^ length (w # ws)) (output_start (kv_ok 0 0x100000 5) (metadataBuffer (hd (byte_packet 0x61))) 0x61) = s' \<and> ol_outData s' = w # ws \<and>
     reply_rest [0x61] [] (w # ws) \<and> range_get (pw_metadata w) 103 72 = (0x100000 :: 32 word) \<and> range_get (pw_metadata w) 23 8 = (5 :: 16 word)"
proof -
  let ?m = "metadataBuffer (hd (byte_packet 0x61))" and ?r = "kv_ok 0 0x100000 5"
  let ?s = "output_start ?r ?m 0x61"
  have b: "bit ?m 124" "bit ?m 125" "bit ?m 126 = (dr_operation ?r = 1)" "\<not> bit ?m 127" by (simp_all add: metadataBuffer_def byte_packet_def pw_zero_def kv_ok_def bit_simps)
  have "range_get ?m 7 0 = (range_get byte_md 7 0 :: 8 word)" by (rule bit_word_eqI) (auto simp: metadataBuffer_def byte_packet_def bit_simps)
  then have l: "range_get ?m 7 0 = (1 :: 8 word)" unfolding byte_md_def by (simp add: range_get_set)
  have s: "olState ?s = OL_IDLE" "ol_valueLength ?s = 0" "ol_memWr2out ?s = ?r # []" "md2out ?s = ?m # 0 # []" "key2out ?s = [0x61] @ []" "value2out ?s = [] @ []" "ol_outData ?s = []"
    by (simp_all add: output_start_def)
  have n: "length [0x61 :: 64 word] = units (range_get ?m 7 0 :: 8 word)" "[0x61 :: 64 word] \<noteq> []" unfolding l by (simp_all add: units_def)
  have v: "length ([] :: 64 word list) = (if dr_operation ?r = 1 then units (range_get ?m 23 8 :: 16 word) else 0)" "dr_operation ?r = 1 \<longrightarrow> ([] :: 64 word list) \<noteq> []"
    by (simp_all add: kv_ok_def)
  have r: "dr_address ?r = 0x100000" "dr_valueLength ?r = 5" "dr_operation ?r = 0" by (simp_all add: kv_ok_def)
  from output_reply [OF s(1-5) n s(6) v b] show ?thesis
    unfolding s(7) r append_Nil if_not_P [OF zero_neq_one] by (elim exE conjE) (intro exI conjI; assumption)
qed

end
