(* ===== verification/Spec2Isabelle.thy ===== *)
theory Spec2Isabelle
  imports Resv_Path Lookup_Spec Paging_Run Paging_Top Buddy_Props Rdm_Order Rdm_Segment App_Rdma_Props Sysnet_Props Chunk_Props Libmm
    Mergesort Icap_Props Rdma_Test Mc_Hash_Props Mc_Table_Props Mc_Cc Mc_Output
begin

text \<open>
  A verification development for FPGA-OS, an operating system for FPGAs whose services are
  hardware units written in C++ for Vivado HLS. The units exchange words over FIFO streams; together
  they give applications on the board a network, virtual memory and memory allocation.

  \<^bold>\<open>The system and its parts.\<close>
  \<^item> Virtual memory. \<^verbatim>\<open>mm/paging_hashed\<close> translates addresses with a hashed page table, a small BRAM
    table in front of a DRAM table with chained buckets; \<^verbatim>\<open>mm/ip_libmm_paging\<close> starts it up and shares one
    physical allocator between it and the start-up logic.
  \<^item> Physical memory. \<^verbatim>\<open>alloc/buddy\<close> is a buddy allocator over a gigabyte, with its free bits in a tree in DRAM and a
    set-associative cache of tree lines on chip. \<^verbatim>\<open>mm/segfix\<close>, \<^verbatim>\<open>mm/segvar\<close>, \<^verbatim>\<open>alloc/chunk\<close>, \<^verbatim>\<open>alloc/chunkfix\<close> and
    \<^verbatim>\<open>mm/legacy/hls_segment\<close> hand out and protect segments.
  \<^item> Network. \<^verbatim>\<open>net/sysnet\<close> dispatches frames to applications and arbitrates their output; \<^verbatim>\<open>net/libnet\<close> acknowledges frames.
  \<^item> Applications. \<^verbatim>\<open>app/rdma\<close> serves remote memory: over the paging unit (\<^verbatim>\<open>rdm_mapping\<close>), over segments (\<^verbatim>\<open>rdm_segment\<close>) and on
    physical addresses (\<^verbatim>\<open>fpga\<close>), with a driver that tests it on the board (\<^verbatim>\<open>fpga_test\<close>). \<^verbatim>\<open>app/mergesort\<close> sorts an array in virtual memory.
    \<^verbatim>\<open>app/memcached\<close> is a key-value store whose hash table takes the places of its values from the allocators of the system.
  \<^item> Configuration. \<^verbatim>\<open>kernel/icap_hls\<close> reads registers and configuration memory of the device through its configuration port.

  \<^bold>\<open>How code becomes definitions.\<close> One call of an HLS function is one cycle. Its \<open>static\<close> variables and its streams are fields of a record, and
  the function is an Isabelle function from that record to itself (or to an error or option where an assertion, an array bound or an index may
  fail). A stream is a list, oldest word first; \<open>ap_uint<N>\<close> is a word of that length, so arithmetic wraps as in the hardware. A local variable that
  the code reads before it writes it is a parameter of the definition (\<open>junk\<close>), so the theorems hold for every value it may have. FIFO depths
  are not part of the state: a full FIFO stalls its writer and loses nothing; where the code itself tests a FIFO for being full the test is an input of
  the cycle. Definitions keep the names of the source; a field gets a prefix where two structures share a field name.

  \<^bold>\<open>The theories.\<close>
  \<^item> \<open>HLS_Prelude\<close>: bit ranges of \<open>ap_uint\<close>, search loops with \<open>break\<close>, streams, and the locales \<open>cycle_machine\<close> and \<open>cycle_refinement\<close>, which lift
    facts about one cycle to runs.
  \<^item> \<open>Channels\<close>: the structures of \<^verbatim>\<open>include/fpga\<close> that travel between the units, and frames of units.
  \<^item> \<open>Hash_Bucket\<close> (\<^verbatim>\<open>hash.hpp\<close>, \<^verbatim>\<open>hash.cpp\<close> and the layout of a bucket), \<open>Resv_Table\<close> (\<^verbatim>\<open>resv_table.cpp\<close>), \<open>Data_Path\<close> (\<^verbatim>\<open>data_path.cpp\<close>), \<open>Paging_Top\<close>
    (\<^verbatim>\<open>top.cpp\<close>, \<^verbatim>\<open>dm.cpp\<close>, the BRAM table and the dummy allocator): the paging unit. \<open>Resv_Table\<close> shows that the ring buffer implements a bounded queue of
    reserved buckets as long as it is not popped while it is empty (locale \<open>reservation\<close>), \<open>Resv_Path\<close> that \<open>data_path\<close>, whatever happens around it, reserves no bucket twice and
    pops only what it has reserved. \<open>Fill_S1\<close> follows the walk along a bucket chain and shows that it ends; \<open>Lookup_Spec\<close> says over the bits of the buckets what the walk is to find, and
    that it finds it. \<open>Paging_Table\<close> and \<open>Paging_Unit\<close> give the effect of one request on the two tables and the invariant that makes BRAM a cache of DRAM;
    \<open>Paging_Run\<close> runs \<open>data_path\<close> with its memories, which answer when they like, and shows that requests issued one after the other see a map from keys to values and
    permissions (locale \<open>translation_table\<close>); two places where the code does not do what it means to are stated in \<open>Paging_Unit\<close>. \<open>Paging_Top\<close> has bounds and wrap-around of the addresses sent out.
  \<^item> \<open>Log2\<close> (\<^verbatim>\<open>log2.h\<close>), \<open>Buddy\<close> (\<^verbatim>\<open>buddy.h\<close>, \<^verbatim>\<open>buddy.cpp\<close>, \<^verbatim>\<open>core.cpp\<close>): the buddy allocator. \<open>Buddy_Tree\<close> is the tree it stands for, \<open>Buddy_Cache\<close> relates
    cache and DRAM to it, \<open>Buddy_Alloc\<close> follows \<open>alloc\<close> and \<open>free\<close> down and up the tree, \<open>Buddy_Props\<close> states the contract of an allocator (locale
    \<open>block_allocator\<close>) and that this one meets it: blocks are fresh, aligned, disjoint, and come back when freed.
  \<^item> \<open>Sysmm\<close> (\<^verbatim>\<open>mm/segfix\<close>, \<^verbatim>\<open>mm/segvar\<close>, \<^verbatim>\<open>alloc/chunkfix\<close>): the pipelines refine a server that answers one request per cycle. \<open>Chunk\<close> and \<open>Chunk_Props\<close>
    (\<^verbatim>\<open>alloc/chunk\<close>, \<^verbatim>\<open>mm/legacy/hls_segment\<close>): the bitmap of the allocator and the table of the protection unit agree, for all interleavings of the two.
  \<^item> \<open>Coordinator\<close> (\<^verbatim>\<open>mm/ip_libmm_paging/coordinator\<close>, \<^verbatim>\<open>buddy_alloc_mux\<close>) and \<open>Libmm\<close>: the multiplexer keeps the answers of its clients apart; the start-up
    sequence, run through coordinator, segment unit, multiplexer and buddy allocator as the block design connects them, ends with success and disjoint regions.
  \<^item> \<open>Rdm\<close> (the stages both remote memory applications share), \<open>Rdm_Mapping\<close> and \<open>Rdm_Segment\<close> (their translation stages and top functions). \<open>Rdm_Parser\<close>
    shows that parsing inverts the packet format, \<open>Rdm_Reply\<close> what each reply looks like and that write bursts are complete, \<open>Rdm_Order\<close> that requests
    neither overtake each other nor get lost. \<open>App_Rdma\<close> and \<open>App_Rdma_Props\<close> (\<^verbatim>\<open>app/rdma/fpga\<close>): a read returns what was written.
  \<^item> \<open>Sysnet\<close> and \<open>Sysnet_Props\<close>: the receivers deliver whole frames to the right application (locale \<open>frame_stage\<close>), the transmitter does not mix frames.

  \<^item> \<open>Mergesort\<close> (\<^verbatim>\<open>app/mergesort\<close>): the passes sort and keep the elements, and what the application loads. \<open>Rdma_Test\<close> (\<^verbatim>\<open>app/rdma/fpga_test\<close>): the driver, run against
    a server that answers, goes through its sequence. \<open>Icap\<close> and \<open>Icap_Props\<close> (\<^verbatim>\<open>kernel/icap_hls\<close>): the sequence of words for a register, and the discipline of the
    port's select and direction signals.
  \<^item> \<open>Mc_Globals\<close> (\<^verbatim>\<open>app/memcached/hls/sources/globals.h\<close>): the words of the key-value store, and the locales \<open>polling_stage\<close> and \<open>stream_stage\<close>, in which it is proved
    once that what a stage makes of its whole input it makes of every arrival of it in time. \<open>Mc_Hash\<close> and \<open>Mc_Hash_Props\<close> (\<^verbatim>\<open>hash.cpp\<close>): the unit computes the published
    hash function. \<open>Mc_Table\<close> (\<^verbatim>\<open>cc.cpp\<close>, \<^verbatim>\<open>memRead.cpp\<close>, \<^verbatim>\<open>compare.cpp\<close>, \<^verbatim>\<open>memWriteWithBuddy.cpp\<close>), \<open>Mc_Bucket\<close> (the map that the words of a bucket stand for, and transactions on
    both), \<open>Mc_Stages\<close> (each stage on a list of requests) and \<open>Mc_Table_Props\<close> (the stages in a row): the table refines one map per bucket, answers every request, and loses updates of
    requests in flight together. \<open>Mc_Cc\<close> shows that the concurrency control passes every request on; \<open>Mc_Input\<close> and \<open>Mc_Output\<close> (\<^verbatim>\<open>hashTableWithBuddy.cpp\<close>) have the logic that takes
    requests apart and puts replies together, the words a key arrives as and the packet of a reply.

  \<^bold>\<open>Bounds and termination.\<close> No definition takes fuel. Loops of the code are structural recursion or \<open>for_break\<close>, whose measure is the distance to the bound;
  loops over cycles are runs of a stated length, and the liveness theorems give a length that is enough. The environments (DRAM, allocator, network, arrival
  of requests) are inputs of the cycles, arbitrary unless a theorem says otherwise (for the map of \<open>Paging_Run\<close>: the memories perform a write in the cycle that issues it and a request waits for the reply to the one before); the inductive predicates \<open>tx_reach\<close>, \<open>mm_reach\<close>, \<open>mux_reach\<close>
  and the runs of \<open>Rdm_Order\<close> let them act between any two cycles.

  \<^bold>\<open>Where the code departs from its intent.\<close> Some theorems state faults of the code as it is: the out-of-bounds search of a full buddy allocator, a
  permission bit that a page-table fill does not set, a page-table insertion that fails after its first half, writes whose data stays behind when they are refused, a read of length zero,
  two updates of one bucket of the key-value store of which one is lost, a hash unit that stops after keys of certain lengths, a merge sort that loads every second element,
  an uninitialised segment index, a negative output index, interleaved frames and lost headers in the 64-bit network units, commands that block the coordinator.

  \<^bold>\<open>Not modelled.\<close> \<^verbatim>\<open>control_path.cpp\<close> of the paging unit is not called. The virtual address allocator \<^verbatim>\<open>tmp_va_buddy\<close> is a copy of \<^verbatim>\<open>alloc/buddy\<close> with
  another size. The network test applications \<^verbatim>\<open>app/dummy_net_*\<close> and \<^verbatim>\<open>lib/timestamp\<close> pass words on. Of \<^verbatim>\<open>app/memcached\<close>, the parsers and formatters of the
  protocol, the value store, the variants of the hash table that do not use the allocator, and the Xilinx network stack are left out; so are the host drivers and tools under
  \<^verbatim>\<open>host\<close>, the workload generators, the Verilog sources, the build scripts and the test benches. HLS pragmas, latencies and clock domains
  have no counterpart: the theorems are about the order of events, not about their time.
\<close>

end
